(* ===== verification/Prelude.thy ===== *)
theory Prelude
  imports Main "HOL-Library.Word" "HOL-Library.Multiset"
begin

text \<open>
  What every component shares: the byte and hash types, Rust's integer operations, byte
  encodings of integers, fallible results and folds over them, and facts on lists.

  A 32-byte array of the source (\<^verbatim>\<open>[u8; 32]\<close>) is a \<^typ>\<open>256 word\<close>, its first byte the
  most significant: the source compares such arrays lexicographically, which is the order of
  these words, reads them with \<^verbatim>\<open>U256::from_big_endian\<close>, which is \<open>unat\<close>, and numbers the bits
  of a tree path from the last byte's lowest bit, which is \<open>bit\<close>. Machine integers
  (\<^verbatim>\<open>u64\<close>, \<^verbatim>\<open>u128\<close>, \<^verbatim>\<open>usize\<close>, \<^verbatim>\<open>i64\<close>) are natural numbers and integers with every saturating, checked
  or wrapping operation written out.
\<close>

unbundle bit_operations_syntax

named_theorems arith_ops \<open>definitions of Rust's integer operations\<close>
named_theorems result_simps \<open>rewrite rules for fallible results\<close>

subsection \<open>Types\<close>

type_synonym byte = "8 word"
type_synonym bytes = "8 word list"
type_synonym h256 = "256 word"

subsection \<open>Machine integers\<close>

abbreviation U32_MAX :: nat where "U32_MAX \<equiv> 4294967295"
abbreviation U64_MAX :: nat where "U64_MAX \<equiv> 18446744073709551615"
abbreviation U128_MAX :: nat where "U128_MAX \<equiv> 340282366920938463463374607431768211455"
abbreviation I64_MAX :: int where "I64_MAX \<equiv> 9223372036854775807"
abbreviation I64_MIN :: int where "I64_MIN \<equiv> - 9223372036854775808"
abbreviation U256_MAX :: nat where "U256_MAX \<equiv> 2 ^ 256 - 1"

text \<open>Rust's \<^verbatim>\<open>saturating_sub\<close> on unsigned integers is subtraction on \<^typ>\<open>nat\<close>.\<close>

definition sat_add64 :: "nat \<Rightarrow> nat \<Rightarrow> nat" where
  [arith_ops]: "sat_add64 a b = min (a + b) U64_MAX"

definition sat_mul64 :: "nat \<Rightarrow> nat \<Rightarrow> nat" where
  [arith_ops]: "sat_mul64 a b = min (a * b) U64_MAX"

definition sat_add128 :: "nat \<Rightarrow> nat \<Rightarrow> nat" where
  [arith_ops]: "sat_add128 a b = min (a + b) U128_MAX"

definition sat_mul128 :: "nat \<Rightarrow> nat \<Rightarrow> nat" where
  [arith_ops]: "sat_mul128 a b = min (a * b) U128_MAX"

definition chk_add64 :: "nat \<Rightarrow> nat \<Rightarrow> nat option" where
  [arith_ops]: "chk_add64 a b = (if a + b \<le> U64_MAX then Some (a + b) else None)"

definition chk_mul64 :: "nat \<Rightarrow> nat \<Rightarrow> nat option" where
  [arith_ops]: "chk_mul64 a b = (if a * b \<le> U64_MAX then Some (a * b) else None)"

definition chk_sub :: "nat \<Rightarrow> nat \<Rightarrow> nat option" where
  [arith_ops]: "chk_sub a b = (if b \<le> a then Some (a - b) else None)"

text \<open>Unchecked arithmetic of a release build wraps.\<close>

definition add128 :: "nat \<Rightarrow> nat \<Rightarrow> nat" where
  [arith_ops]: "add128 a b = (a + b) mod 2 ^ 128"

definition sub128 :: "nat \<Rightarrow> nat \<Rightarrow> nat" where
  [arith_ops]: "sub128 a b = (a + 2 ^ 128 - b) mod 2 ^ 128"

definition mul128 :: "nat \<Rightarrow> nat \<Rightarrow> nat" where
  [arith_ops]: "mul128 a b = (a * b) mod 2 ^ 128"

definition add64 :: "nat \<Rightarrow> nat \<Rightarrow> nat" where
  [arith_ops]: "add64 a b = (a + b) mod 2 ^ 64"

definition div_ceil :: "nat \<Rightarrow> nat \<Rightarrow> nat" where
  "div_ceil a b = (a + b - 1) div b"

text \<open>Signed 64-bit values: saturation, and division that truncates towards zero.\<close>

definition sat_i64 :: "int \<Rightarrow> int" where
  [arith_ops]: "sat_i64 x = max I64_MIN (min x I64_MAX)"

definition trunc_div :: "int \<Rightarrow> int \<Rightarrow> int" where
  "trunc_div num den = (\<bar>num\<bar> div \<bar>den\<bar>) * sgn num * sgn den"

lemma sat_add64_le [simp]: "sat_add64 a b \<le> U64_MAX"
  by (simp add: sat_add64_def)

lemma sat_add128_le [simp]: "sat_add128 a b \<le> U128_MAX"
  by (simp add: sat_add128_def)

lemma sat_add128_exact: "a + b \<le> U128_MAX \<Longrightarrow> sat_add128 a b = a + b"
  by (simp add: sat_add128_def)

lemma sat_add128_mono: "a \<le> a' \<Longrightarrow> b \<le> b' \<Longrightarrow> sat_add128 a b \<le> sat_add128 a' b'"
  by (simp add: sat_add128_def)

lemma chk_add64_Some: "chk_add64 a b = Some c \<longleftrightarrow> c = a + b \<and> a + b \<le> U64_MAX"
  by (auto simp: chk_add64_def)

lemma chk_sub_Some: "chk_sub a b = Some c \<longleftrightarrow> b \<le> a \<and> c = a - b"
  by (auto simp: chk_sub_def)

lemma add128_exact: "a + b < 2 ^ 128 \<Longrightarrow> add128 a b = a + b"
  by (simp add: add128_def)

lemma mul128_exact: "a * b < 2 ^ 128 \<Longrightarrow> mul128 a b = a * b"
  by (simp add: mul128_def)

lemma sub128_exact:
  assumes "b \<le> a" and "a < 2 ^ 128"
  shows "sub128 a b = a - b"
proof -
  have "a + 2 ^ 128 - b = (a - b) + 2 ^ 128" using assms(1) by (rule add_diff_assoc2 [symmetric])
  moreover have "(a - b) mod 2 ^ 128 = a - b" using assms(2) by (intro mod_less) simp
  ultimately show ?thesis by (simp only: sub128_def mod_add_self2)
qed

lemma sat_i64_exact: "I64_MIN \<le> x \<Longrightarrow> x \<le> I64_MAX \<Longrightarrow> sat_i64 x = x"
  by (simp add: sat_i64_def)

lemma sat_i64_mono: "x \<le> y \<Longrightarrow> sat_i64 x \<le> sat_i64 y"
  by (auto simp: sat_i64_def)

lemma trunc_div_nonneg: "0 < d \<Longrightarrow> 0 \<le> x \<Longrightarrow> trunc_div x d = x div d"
  by (cases "x = 0") (simp_all add: trunc_div_def)

lemma trunc_div_neg: "0 < d \<Longrightarrow> x \<le> 0 \<Longrightarrow> trunc_div x d = - ((- x) div d)"
  by (cases "x = 0") (simp_all add: trunc_div_def)

lemma trunc_div_mono:
  assumes "x \<le> y" and "0 < d"
  shows "trunc_div x d \<le> trunc_div y d"
proof -
  consider "0 \<le> x" | "x < 0" "0 \<le> y" | "y < 0" using assms(1) by linarith
  then show ?thesis
  proof cases
    case 1
    then show ?thesis using assms by (simp add: trunc_div_nonneg zdiv_mono1)
  next
    case 2
    have "0 \<le> (- x) div d" "0 \<le> y div d"
      using 2 assms(2) by (simp_all add: pos_imp_zdiv_nonneg_iff)
    then show ?thesis using 2 assms(2) by (simp add: trunc_div_nonneg trunc_div_neg)
  next
    case 3
    then show ?thesis using assms by (simp add: trunc_div_neg zdiv_mono1)
  qed
qed

subsection \<open>Bytes\<close>

definition le_bytes :: "nat \<Rightarrow> nat \<Rightarrow> bytes" where
  "le_bytes k n = map (\<lambda>i. word_of_nat (n div 256 ^ i)) [0..<k]"

fun of_le_bytes :: "bytes \<Rightarrow> nat" where
  "of_le_bytes [] = 0"
| "of_le_bytes (b # bs) = unat b + 256 * of_le_bytes bs"

definition be_bytes :: "h256 \<Rightarrow> bytes" where
  "be_bytes w = rev (le_bytes 32 (unat w))"

definition h256_of_be :: "bytes \<Rightarrow> h256" where
  "h256_of_be bs = word_of_nat (of_le_bytes (rev bs))"

definition ascii :: "string \<Rightarrow> bytes" where
  "ascii s = map of_char s"

lemma length_le_bytes [simp]: "length (le_bytes k n) = k"
  by (simp add: le_bytes_def)

lemma length_be_bytes [simp]: "length (be_bytes w) = 32"
  by (simp add: be_bytes_def)

lemma le_bytes_0 [simp]: "le_bytes 0 n = []"
  by (simp add: le_bytes_def)

lemma le_bytes_Suc: "le_bytes (Suc k) n = word_of_nat n # le_bytes k (n div 256)"
  unfolding le_bytes_def
  by (simp add: upt_conv_Cons map_Suc_upt [symmetric] comp_def div_mult2_eq del: upt_Suc map_Suc_upt)

lemma of_le_bytes_le_bytes: "of_le_bytes (le_bytes k n) = n mod 256 ^ k"
proof (induction k arbitrary: n)
  case (Suc k)
  have "unat (word_of_nat n :: byte) = n mod 256"
    by (simp add: unat_of_nat)
  then show ?case
    by (simp add: le_bytes_Suc Suc.IH mod_mult2_eq)
qed simp

lemma byte_less: "unat (b :: byte) < 256"
  using unsigned_less [of b, where ?'a = nat] by simp

lemma of_le_bytes_bound: "of_le_bytes bs < 256 ^ length bs"
proof (induction bs)
  case (Cons b bs)
  have "unat b \<le> 255" using byte_less [of b] by simp
  moreover have "of_le_bytes bs + 1 \<le> 256 ^ length bs" using Cons.IH by simp
  ultimately show ?case by simp
qed simp

lemma le_bytes_of_le_bytes: "length bs = k \<Longrightarrow> le_bytes k (of_le_bytes bs) = bs"
proof (induction bs arbitrary: k)
  case (Cons b bs)
  have b: "unat b < 256" by (rule byte_less)
  have "word_of_nat (unat b + 256 * of_le_bytes bs) = b"
    using b by (simp add: word_unat_eq_iff unat_of_nat del: of_nat_add)
  moreover have "(unat b + 256 * of_le_bytes bs) div 256 = of_le_bytes bs"
    using b by simp
  ultimately show ?case using Cons by (auto simp: le_bytes_Suc)
qed simp

lemma le_bytes_inject:
  "m < 256 ^ k \<Longrightarrow> n < 256 ^ k \<Longrightarrow> le_bytes k m = le_bytes k n \<longleftrightarrow> m = n"
  by (metis mod_less of_le_bytes_le_bytes)

lemma h256_of_be_be_bytes [simp]: "h256_of_be (be_bytes w) = w"
proof -
  have "unat w < 256 ^ 32" using unsigned_less [of w, where ?'a = nat] by simp
  then show ?thesis
    by (simp add: h256_of_be_def be_bytes_def of_le_bytes_le_bytes)
qed

lemma be_bytes_inject [simp]: "be_bytes v = be_bytes w \<longleftrightarrow> v = w"
  by (metis h256_of_be_be_bytes)

lemma be_bytes_h256_of_be:
  assumes "length bs = 32"
  shows "be_bytes (h256_of_be bs) = bs"
proof -
  have "of_le_bytes (rev bs) < 256 ^ 32"
    using of_le_bytes_bound [of "rev bs"] assms by simp
  then have "unat (h256_of_be bs) = of_le_bytes (rev bs)"
    by (simp add: h256_of_be_def unat_of_nat)
  then show ?thesis
    using le_bytes_of_le_bytes [of "rev bs" 32] assms by (simp add: be_bytes_def)
qed

subsection \<open>Fallible results\<close>

text \<open>Rust's \<^verbatim>\<open>Result\<close> is a sum with the error on the left; \<^verbatim>\<open>?\<close> is \<open>and_then\<close>.\<close>

fun and_then :: "'e + 'a \<Rightarrow> ('a \<Rightarrow> 'e + 'b) \<Rightarrow> 'e + 'b" where
  "and_then (Inl e) f = Inl e"
| "and_then (Inr x) f = f x"

definition ok_or :: "'e \<Rightarrow> 'a option \<Rightarrow> 'e + 'a" where
  "ok_or e r = (case r of None \<Rightarrow> Inl e | Some x \<Rightarrow> Inr x)"

definition is_ok :: "'e + 'a \<Rightarrow> bool" where
  "is_ok r = (case r of Inl _ \<Rightarrow> False | Inr _ \<Rightarrow> True)"

fun map_err :: "('e \<Rightarrow> 'f) \<Rightarrow> 'e + 'a \<Rightarrow> 'f + 'a" where
  "map_err g (Inl e) = Inl (g e)"
| "map_err g (Inr x) = Inr x"

text \<open>A loop that stops at the first error, threading a state.\<close>

fun fold_res :: "('a \<Rightarrow> 's \<Rightarrow> 'e + 's) \<Rightarrow> 'a list \<Rightarrow> 's \<Rightarrow> 'e + 's" where
  "fold_res f [] s = Inr s"
| "fold_res f (x # xs) s = and_then (f x s) (fold_res f xs)"

text \<open>A loop of checks only.\<close>

fun each_ok :: "('a \<Rightarrow> 'e + unit) \<Rightarrow> 'a list \<Rightarrow> 'e + unit" where
  "each_ok f [] = Inr ()"
| "each_ok f (x # xs) = and_then (f x) (\<lambda>_. each_ok f xs)"

text \<open>Mapping a fallible function over a list (\<^verbatim>\<open>collect::<Result<_>>\<close>).\<close>

fun map_res :: "('a \<Rightarrow> 'e + 'b) \<Rightarrow> 'a list \<Rightarrow> 'e + 'b list" where
  "map_res f [] = Inr []"
| "map_res f (x # xs) = and_then (f x) (\<lambda>y. and_then (map_res f xs) (\<lambda>ys. Inr (y # ys)))"

lemma and_then_Inr [result_simps]:
  "and_then r f = Inr y \<longleftrightarrow> (\<exists>x. r = Inr x \<and> f x = Inr y)"
  by (cases r) auto

lemma and_then_InrE:
  assumes "and_then r f = Inr y"
  obtains x where "r = Inr x" and "f x = Inr y"
  using assms by (cases r) auto

lemma and_then_Inl:
  "and_then r f = Inl e \<longleftrightarrow> r = Inl e \<or> (\<exists>x. r = Inr x \<and> f x = Inl e)"
  by (cases r) auto

lemma ok_or_Inr [result_simps]: "ok_or e r = Inr x \<longleftrightarrow> r = Some x"
  by (auto simp: ok_or_def split: option.splits)

lemma is_ok_iff [result_simps]: "is_ok r \<longleftrightarrow> (\<exists>x. r = Inr x)"
  by (auto simp: is_ok_def split: sum.splits)

lemma map_err_Inr [result_simps]: "map_err g r = Inr x \<longleftrightarrow> r = Inr x"
  by (cases r) auto

lemma if_Inr [result_simps]:
  "(if b then Inl e else r) = Inr x \<longleftrightarrow> \<not> b \<and> r = Inr x"
  "(if b then r else Inl e) = Inr x \<longleftrightarrow> b \<and> r = Inr x"
  by auto

lemma each_ok_iff [result_simps]: "each_ok f xs = Inr u \<longleftrightarrow> (\<forall>x\<in>set xs. f x = Inr ())"
  by (induction xs) (auto simp: and_then_Inr)

lemma fold_res_inv:
  assumes "fold_res f xs s = Inr s'" and "P s"
    and "\<And>x t t'. x \<in> set xs \<Longrightarrow> P t \<Longrightarrow> f x t = Inr t' \<Longrightarrow> P t'"
  shows "P s'"
  using assms
proof (induction xs arbitrary: s)
  case (Cons x xs)
  then obtain t where t: "f x s = Inr t" "fold_res f xs t = Inr s'"
    by (auto simp: and_then_Inr)
  then have "P t" using Cons.prems by auto
  with t Cons show ?case by (metis list.set_intros(2))
qed simp

lemma fold_res_append:
  "fold_res f (xs @ ys) s = and_then (fold_res f xs s) (fold_res f ys)"
proof (induction xs arbitrary: s)
  case (Cons x xs)
  then show ?case by (cases "f x s") auto
qed simp

lemma map_res_Inr:
  "map_res f xs = Inr ys \<longleftrightarrow> list_all2 (\<lambda>x y. f x = Inr y) xs ys"
proof (induction xs arbitrary: ys)
  case (Cons x xs)
  then show ?case by (cases ys) (auto simp: and_then_Inr)
qed auto

subsection \<open>Lists\<close>

text \<open>\<^verbatim>\<open>windows(2)\<close>: whether every two neighbours are related.\<close>

fun adjacent :: "('a \<Rightarrow> 'a \<Rightarrow> bool) \<Rightarrow> 'a list \<Rightarrow> bool" where
  "adjacent r (x # y # ys) = (r x y \<and> adjacent r (y # ys))"
| "adjacent r _ = True"

lemma adjacent_sorted_wrt: "transp r \<Longrightarrow> adjacent r xs \<longleftrightarrow> sorted_wrt r xs"
  by (induction r xs rule: adjacent.induct) (auto dest: transpD)

lemma adjacent_Cons: "adjacent r (x # xs) \<longleftrightarrow> (xs = [] \<or> r x (hd xs)) \<and> adjacent r xs"
  by (cases xs) auto

lemma adjacent_append:
  "adjacent r (xs @ ys) \<longleftrightarrow>
     adjacent r xs \<and> adjacent r ys \<and> (xs = [] \<or> ys = [] \<or> r (last xs) (hd ys))"
  by (induction xs) (auto simp: adjacent_Cons hd_append)

lemma adjacent_less_iff: "adjacent (<) (xs :: 'a :: order list) \<longleftrightarrow> sorted_wrt (<) xs"
  by (rule adjacent_sorted_wrt) simp

lemma strict_sorted_distinct: "sorted_wrt (<) (xs :: 'a :: linorder list) \<Longrightarrow> distinct xs"
  by (simp add: strict_sorted_iff)

end
