(* ===== verification/Difficulty.thy ===== *)
theory Difficulty
  imports Prelude
begin

text \<open>
  Difficulty and time: the proof-of-work switch of \<^verbatim>\<open>src/src/core/types.rs\<close>, and from
  \<^verbatim>\<open>src/src/core/state.rs\<close> the ASERT target, the median-time-past rule and the work of a target.
  Signed 64-bit quantities are integers with the source's saturation; \<^verbatim>\<open>U256\<close> values are natural
  numbers, and \<open>asert_scaled_exact\<close> shows the one multiplication that could panic does not.
\<close>

subsection \<open>Network constants\<close>

definition TARGET_BLOCK_TIME :: nat where "TARGET_BLOCK_TIME = 60"
definition ASERT_HALF_LIFE :: int where "ASERT_HALF_LIFE = 4 * 60 * 60"
definition MEDIAN_TIME_PAST_WINDOW :: nat where "MEDIAN_TIME_PAST_WINDOW = 11"
definition MAX_FUTURE_BLOCK_TIME :: nat where "MAX_FUTURE_BLOCK_TIME = 15 * 60"
definition GENESIS_TIMESTAMP :: nat where "GENESIS_TIMESTAMP = 1792122068"
definition GENESIS_TARGET :: h256 where
  "GENESIS_TARGET = 0x000006e4720bffffffffffffffffffffffffffffffffffffffffffffffffff9c"
definition WALK_ACTIVATION_HEIGHT :: nat where "WALK_ACTIVATION_HEIGHT = 37300"
definition WALK_TARGET_SHIFT :: int where "WALK_TARGET_SHIFT = 3"
definition MIDSTATE_WALK_ACTIVATION_HEIGHT :: nat where "MIDSTATE_WALK_ACTIVATION_HEIGHT = 371500"
definition MIDSTATE_WALK_TARGET_SHIFT :: int where "MIDSTATE_WALK_TARGET_SHIFT = 3"

datatype PowAlgo = Blake3Chain | Walk

definition PowAlgo_name :: "PowAlgo \<Rightarrow> string" where
  "PowAlgo_name a = (case a of Blake3Chain \<Rightarrow> ''blake3-chain'' | Walk \<Rightarrow> ''walk'')"

definition PowAlgo_from_name :: "string \<Rightarrow> PowAlgo option" where
  "PowAlgo_from_name s =
     (if s = ''blake3-chain'' then Some Blake3Chain else if s = ''walk'' then Some Walk else None)"

definition pow_algo_at :: "nat \<Rightarrow> PowAlgo" where
  "pow_algo_at height = (if WALK_ACTIVATION_HEIGHT \<le> height then Walk else Blake3Chain)"

definition midstate_pow_algo_at :: "nat \<Rightarrow> PowAlgo" where
  "midstate_pow_algo_at h = (if MIDSTATE_WALK_ACTIVATION_HEIGHT \<le> h then Walk else Blake3Chain)"

lemma PowAlgo_from_name_name: "PowAlgo_from_name (PowAlgo_name a) = Some a"
  by (cases a) (simp_all add: PowAlgo_name_def PowAlgo_from_name_def)

subsection \<open>ASERT\<close>

text \<open>A \<^verbatim>\<open>u64\<close> read as \<^verbatim>\<open>i64\<close>.\<close>

definition cast_i64 :: "nat \<Rightarrow> int" where
  "cast_i64 n = (if n < 2 ^ 63 then int n else int n - 2 ^ 64)"

text \<open>The drift from the schedule, in 65536ths of a half-life.\<close>

definition asert_exponent :: "nat \<Rightarrow> nat \<Rightarrow> nat \<Rightarrow> int" where
  "asert_exponent genesis_timestamp height timestamp =
     (let ideal_time = sat_i64 (min (int height) I64_MAX * int TARGET_BLOCK_TIME);
          actual_time = sat_i64 (min (int timestamp) I64_MAX - cast_i64 genesis_timestamp);
          drift = sat_i64 (actual_time - ideal_time)
      in trunc_div (sat_i64 (drift * 65536)) ASERT_HALF_LIFE)"

definition asert_factor :: "int \<Rightarrow> nat" where
  "asert_factor frac =
     nat (65536 + (frac * 45426) div 2 ^ 16 + (frac * frac * 15746) div 2 ^ 32
          + (frac * frac * frac * 3643) div 2 ^ 48)"

definition asert_scaled :: "nat \<Rightarrow> nat \<Rightarrow> nat" where
  "asert_scaled target f = target div 65536 * f + (target mod 65536) * f div 65536"

definition asert_shifted :: "int \<Rightarrow> nat \<Rightarrow> nat" where
  "asert_shifted shifts target =
     (let ceiling = U256_MAX;
          target =
            (if 0 < shifts then
               let s = min (nat shifts) 255; headroom = ceiling div 2 ^ s in
               if headroom < target then ceiling else target * 2 ^ s
             else if shifts < 0 then target div 2 ^ min (nat (- shifts)) 255
             else target)
      in if ceiling < target then ceiling else if target = 0 then 1 else target)"

definition asert_target :: "h256 \<Rightarrow> nat \<Rightarrow> nat \<Rightarrow> nat \<Rightarrow> int \<Rightarrow> h256" where
  "asert_target genesis_target genesis_timestamp height timestamp shift =
     (if height = 0 then genesis_target
      else
        let exponent = asert_exponent genesis_timestamp height timestamp;
            shifts = sat_i64 (exponent div 2 ^ 16 + shift);
            frac = exponent mod 2 ^ 16
        in word_of_nat (asert_shifted shifts (asert_scaled (unat genesis_target) (asert_factor frac))))"

definition calculate_target :: "nat \<Rightarrow> nat \<Rightarrow> h256" where
  "calculate_target height timestamp =
     (let shift = (case pow_algo_at height of Walk \<Rightarrow> WALK_TARGET_SHIFT | Blake3Chain \<Rightarrow> 0)
      in asert_target GENESIS_TARGET GENESIS_TIMESTAMP height timestamp shift)"

subsection \<open>Timestamps\<close>

datatype TimestampError =
    TooFarInFuture nat nat
  | NotAfterMedian nat nat

definition median_time_floor :: "nat list \<Rightarrow> nat option" where
  "median_time_floor previous =
     (if MEDIAN_TIME_PAST_WINDOW \<le> length previous
      then Some (sort (take MEDIAN_TIME_PAST_WINDOW (rev previous)) ! (MEDIAN_TIME_PAST_WINDOW div 2))
      else if previous = [] then None else Some (last previous))"

definition validate_timestamp :: "nat \<Rightarrow> nat list \<Rightarrow> nat \<Rightarrow> TimestampError + unit" where
  "validate_timestamp new_timestamp previous current_time =
     (if sat_add64 current_time MAX_FUTURE_BLOCK_TIME < new_timestamp
      then Inl (TooFarInFuture new_timestamp current_time)
      else
        case median_time_floor previous of
          None \<Rightarrow> Inr ()
        | Some fl \<Rightarrow> if new_timestamp \<le> fl then Inl (NotAfterMedian new_timestamp fl) else Inr ())"

definition min_next_timestamp :: "nat list \<Rightarrow> nat" where
  "min_next_timestamp previous =
     (case median_time_floor previous of None \<Rightarrow> 0 | Some f \<Rightarrow> add64 f 1)"

definition is_future_timestamp :: "TimestampError \<Rightarrow> bool" where
  "is_future_timestamp e = (case e of TooFarInFuture _ _ \<Rightarrow> True | _ \<Rightarrow> False)"

subsection \<open>Work\<close>

definition calculate_work :: "h256 \<Rightarrow> nat" where
  "calculate_work target =
     (let t = unat target in
      if t = 0 then 0
      else
        let w = U256_MAX div t in
        if U128_MAX < w then U128_MAX
        else
          let lo = w mod 2 ^ 64; hi = w div 2 ^ 64 mod 2 ^ 64
          in hi * 2 ^ 64 + lo)"

subsection \<open>The target follows the clock\<close>

lemma unat_h256_less: "unat (w :: h256) < 2 ^ 256"
  using unsigned_less [of w, where ?'a = nat] by simp

lemma asert_scaled_eq: "asert_scaled g f = g * f div 65536"
proof -
  have gen: "(a * b + r) * f = r * f + a * f * b" for a b r :: nat
    by (simp add: algebra_simps)
  have "g * f = (g div 65536 * 65536 + g mod 65536) * f" by (simp only: div_mult_mod_eq)
  also have "\<dots> = g mod 65536 * f + g div 65536 * f * 65536"
    by (rule gen)
  finally have "g * f div 65536 = g div 65536 * f + g mod 65536 * f div 65536"
    by (simp only: div_mult_self1 [OF zero_neq_numeral [symmetric]])
  then show ?thesis by (simp only: asert_scaled_def)
qed

lemma asert_factor_mono:
  assumes "0 \<le> a" and "a \<le> b"
  shows "asert_factor a \<le> asert_factor b"
proof -
  have 2: "a * a \<le> b * b" using assms by (intro mult_mono) auto
  then have 3: "a * a * a \<le> b * b * b" using assms by (intro mult_mono) auto
  show ?thesis
    unfolding asert_factor_def
    using assms 2 3 by (intro nat_mono add_mono zdiv_mono1) auto
qed

lemma asert_factor_bounds:
  assumes "0 \<le> frac" and "frac < 65536"
  shows "65536 \<le> asert_factor frac \<and> asert_factor frac \<le> 130348"
proof -
  have "asert_factor 0 \<le> asert_factor frac" "asert_factor frac \<le> asert_factor 65535"
    using assms by (simp_all add: asert_factor_mono)
  then show ?thesis by (simp add: asert_factor_def)
qed

text \<open>The scaled target of a genesis target below 2^254 stays below twice the genesis target.\<close>

lemma asert_scaled_exact:
  assumes "0 \<le> frac" and "frac < 65536"
  shows "g \<le> asert_scaled g (asert_factor frac) \<and> (0 < g \<longrightarrow> asert_scaled g (asert_factor frac) < 2 * g)"
proof -
  note f = asert_factor_bounds [OF assms]
  have "g * 65536 \<le> g * asert_factor frac" using f by simp
  then have "g * 65536 div 65536 \<le> g * asert_factor frac div 65536" by (rule div_le_mono)
  moreover have "g * asert_factor frac \<le> g * 130348" using f by simp
  then have "0 < g \<Longrightarrow> g * asert_factor frac < (2 * g) * 65536" by linarith
  then have "0 < g \<Longrightarrow> g * asert_factor frac div 65536 < 2 * g" by (simp add: div_less_iff_less_mult)
  ultimately show ?thesis by (simp add: asert_scaled_eq)
qed

lemma asert_scaled_mono: "f \<le> f' \<Longrightarrow> asert_scaled g f \<le> asert_scaled g f'"
  by (simp add: asert_scaled_eq div_le_mono)

lemma asert_shifted_bounds: "1 \<le> asert_shifted s t \<and> asert_shifted s t \<le> U256_MAX"
  by (simp add: asert_shifted_def Let_def)

lemma calculate_target_nonzero: "calculate_target height timestamp \<noteq> 0"
proof -
  have "(word_of_nat (asert_shifted k t) :: h256) \<noteq> 0" for k t
  proof
    assume "(word_of_nat (asert_shifted k t) :: h256) = 0"
    then have "unat (word_of_nat (asert_shifted k t) :: h256) = 0" by simp
    then have "asert_shifted k t mod 2 ^ 256 = 0" by (simp add: unat_of_nat)
    moreover have "asert_shifted k t mod 2 ^ 256 = asert_shifted k t"
      using asert_shifted_bounds [of k t] by (intro mod_less) simp
    ultimately show False using asert_shifted_bounds [of k t] by simp
  qed
  then show ?thesis by (simp add: calculate_target_def asert_target_def Let_def GENESIS_TARGET_def)
qed

text \<open>The shift as one formula: multiply or divide by a power of two, then clamp.\<close>

definition clamp256 :: "nat \<Rightarrow> nat" where
  "clamp256 t = max 1 (min t U256_MAX)"

lemma asert_shifted_eq:
  "asert_shifted s t =
     clamp256 (if 0 \<le> s then t * 2 ^ min (nat s) 255 else t div 2 ^ min (nat (- s)) 255)"
proof -
  have "U256_MAX div 2 ^ k < t \<longleftrightarrow> U256_MAX < t * 2 ^ k" for k
    by (simp add: div_less_iff_less_mult)
  then show ?thesis
    by (cases "s = 0") (simp_all add: asert_shifted_def clamp256_def Let_def min_def max_def not_less not_le)
qed

lemma clamp256_mono: "a \<le> b \<Longrightarrow> clamp256 a \<le> clamp256 b"
  by (auto simp: clamp256_def)

lemma asert_shifted_mono: "t \<le> t' \<Longrightarrow> asert_shifted s t \<le> asert_shifted s t'"
  unfolding asert_shifted_eq by (intro clamp256_mono) (auto simp: div_le_mono)

lemma asert_shifted_step:
  assumes "t < 2 * g" and "g < 2 ^ 254" and "g \<le> t'"
  shows "asert_shifted s t \<le> asert_shifted (s + 1) t'"
proof -
  consider "255 \<le> s" "t' \<le> 1" | "255 \<le> s" "2 \<le> t'" | "0 \<le> s" "s < 255" | "s = -1"
    | "s < -1" "-255 \<le> s" | "s < -255" by linarith
  then show ?thesis
  proof cases
    case 1
    then have "t \<le> t'" using assms by linarith
    then show ?thesis using 1 by (simp add: asert_shifted_eq clamp256_mono min_absorb2)
  next
    case 2
    then have "2 * 2 ^ 255 \<le> t' * 2 ^ 255" by (intro mult_le_mono1) simp
    then have "U256_MAX \<le> t' * 2 ^ 255" by simp
    then have "asert_shifted (s + 1) t' = U256_MAX"
      using 2 by (simp add: asert_shifted_eq clamp256_def min_absorb2)
    then show ?thesis using asert_shifted_bounds by simp
  next
    case 3
    have "t * 2 ^ nat s \<le> (2 * t') * 2 ^ nat s" using assms by (intro mult_le_mono1) linarith
    also have "\<dots> = t' * 2 ^ nat (s + 1)" using 3 by (simp add: nat_add_distrib)
    finally show ?thesis using 3 by (simp add: asert_shifted_eq clamp256_mono min_absorb1)
  next
    case 4
    then show ?thesis using assms by (simp add: asert_shifted_eq clamp256_mono)
  next
    case 5
    define k where "k = nat (- s) - 1"
    have k: "nat (- s) = Suc k" "nat (- (s + 1)) = k" "Suc k \<le> 255" "\<not> 0 \<le> s" "\<not> 0 \<le> s + 1"
      using 5 by (simp_all add: k_def)
    have "t div 2 ^ Suc k \<le> (2 * t') div 2 ^ Suc k" using assms by (intro div_le_mono) linarith
    then have "t div 2 ^ Suc k \<le> t' div 2 ^ k" by simp
    then show ?thesis using k by (simp only: asert_shifted_eq if_False min_absorb1 clamp256_mono Suc_leD)
  next
    case 6
    have "t < 2 ^ 255" using assms by simp
    then have "asert_shifted s t = 1" using 6 by (simp add: asert_shifted_eq clamp256_def min_absorb2)
    then show ?thesis using asert_shifted_bounds by simp
  qed
qed

lemma asert_shifted_less:
  assumes "t < 2 * g" and "g < 2 ^ 254" and "g \<le> t'" and "s < s'"
  shows "asert_shifted s t \<le> asert_shifted s' t'"
proof -
  have "asert_shifted (s + 1) g \<le> asert_shifted (s + 1 + int k) g" for k
  proof (induction k)
    case (Suc k)
    have "asert_shifted (s + 1 + int k) g \<le> asert_shifted (s + 1 + int k + 1) g"
      using assms by (intro asert_shifted_step [of _ g]) auto
    moreover have "s + 1 + int k + 1 = s + 1 + int (Suc k)" by simp
    ultimately show ?case using Suc by simp
  qed simp
  from this [of "nat (s' - s - 1)"] have "asert_shifted (s + 1) g \<le> asert_shifted s' g"
    using assms(4) by simp
  moreover have "asert_shifted s t \<le> asert_shifted (s + 1) g"
    using assms by (intro asert_shifted_step [of _ g]) auto
  moreover have "asert_shifted s' g \<le> asert_shifted s' t'" using assms(3) by (rule asert_shifted_mono)
  ultimately show ?thesis by linarith
qed

lemma asert_exponent_mono:
  assumes "t \<le> t'"
  shows "asert_exponent g h t \<le> asert_exponent g h t'"
proof -
  let ?a = "\<lambda>t. sat_i64 (min (int t) I64_MAX - cast_i64 g)"
  let ?i = "sat_i64 (min (int h) I64_MAX * int TARGET_BLOCK_TIME)"
  have "?a t \<le> ?a t'" using assms by (intro sat_i64_mono diff_right_mono min.mono) simp_all
  then have "sat_i64 (?a t - ?i) \<le> sat_i64 (?a t' - ?i)" by (intro sat_i64_mono) linarith
  then have "sat_i64 (sat_i64 (?a t - ?i) * 65536) \<le> sat_i64 (sat_i64 (?a t' - ?i) * 65536)"
    by (intro sat_i64_mono) linarith
  then show ?thesis
    unfolding asert_exponent_def Let_def by (rule trunc_div_mono) (simp add: ASERT_HALF_LIFE_def)
qed

lemma asert_exponent_bound: "\<bar>asert_exponent g h t\<bar> \<le> 2 ^ 63"
proof -
  have "\<bar>trunc_div x 14400\<bar> \<le> \<bar>x\<bar>" for x
  proof (cases "0 \<le> x")
    case True
    then show ?thesis by (simp add: trunc_div_nonneg)
  next
    case False
    then show ?thesis by (simp add: trunc_div_neg)
  qed
  moreover have "\<bar>sat_i64 x\<bar> \<le> 2 ^ 63" for x by (auto simp: sat_i64_def)
  ultimately show ?thesis
    unfolding asert_exponent_def Let_def ASERT_HALF_LIFE_def by (simp, meson order_trans)
qed

lemma asert_value_mono:
  assumes "e \<le> e'" and "0 < g" and "g < 2 ^ 254"
    and "\<bar>e\<bar> \<le> 2 ^ 63" and "\<bar>e'\<bar> \<le> 2 ^ 63" and "\<bar>k\<bar> \<le> 2 ^ 40"
  shows "asert_shifted (sat_i64 (e div 2 ^ 16 + k)) (asert_scaled g (asert_factor (e mod 2 ^ 16)))
      \<le> asert_shifted (sat_i64 (e' div 2 ^ 16 + k)) (asert_scaled g (asert_factor (e' mod 2 ^ 16)))"
    (is "asert_shifted ?s ?t \<le> asert_shifted ?s' ?t'")
proof -
  have le: "e div 2 ^ 16 \<le> e' div 2 ^ 16" using assms(1) by (intro zdiv_mono1) auto
  have s: "?s = e div 2 ^ 16 + k" "?s' = e' div 2 ^ 16 + k"
    using assms(4-6) by (auto intro!: sat_i64_exact)
  have t: "g \<le> ?t" "?t < 2 * g" "g \<le> ?t'"
    using assms(2) asert_scaled_exact [of "e mod 2 ^ 16" g] asert_scaled_exact [of "e' mod 2 ^ 16" g] by auto
  show ?thesis
  proof (cases "e div 2 ^ 16 = e' div 2 ^ 16")
    case True
    then have "e mod 2 ^ 16 \<le> e' mod 2 ^ 16"
      using assms(1) by (simp add: minus_div_mult_eq_mod [symmetric])
    then have "?t \<le> ?t'" by (intro asert_scaled_mono asert_factor_mono) simp_all
    then show ?thesis using True by (simp add: asert_shifted_mono)
  next
    case False
    then show ?thesis using s le t assms(3) by (intro asert_shifted_less [of _ g]) auto
  qed
qed

text \<open>A parent stamped later never makes the next block harder: ASERT is monotone in the
  timestamp, through the fixed-point factor, the half-life shifts and both clamps. The target is
  never zero.\<close>

theorem asert_monotone_in_time:
  assumes "0 < genesis_target" and "unat genesis_target < 2 ^ 254" and "\<bar>shift\<bar> \<le> 2 ^ 40"
    and "timestamp \<le> timestamp'"
  shows "asert_target genesis_target genesis_timestamp height timestamp shift
      \<le> asert_target genesis_target genesis_timestamp height timestamp' shift \<and>
    0 < asert_target genesis_target genesis_timestamp height timestamp shift"
proof -
  have pos: "0 < unat genesis_target" using assms(1) by (simp add: unat_gt_0 word_gt_0)
  have wn: "unat (word_of_nat (asert_shifted s t) :: h256) = asert_shifted s t" for s t
    using asert_shifted_bounds [of s t] by (simp add: unat_of_nat)
  note mono = asert_value_mono [OF asert_exponent_mono [OF assms(4)] pos assms(2)
      asert_exponent_bound asert_exponent_bound assms(3), of genesis_timestamp height]
  show ?thesis
    using assms(1) mono asert_shifted_bounds
    by (auto simp: asert_target_def Let_def word_le_nat_alt word_less_nat_alt wn
        intro: Suc_le_lessD simp del: unat_of_nat)
qed

theorem asert_monotone_in_time_witness:
  "calculate_target 5 1792122000 \<le> calculate_target 5 1792122400"
proof -
  have "unat GENESIS_TARGET < 2 ^ 254" "0 < GENESIS_TARGET"
    by (simp_all add: GENESIS_TARGET_def word_less_nat_alt)
  then show ?thesis
    using asert_monotone_in_time [of GENESIS_TARGET 0 1792122000 1792122400 GENESIS_TIMESTAMP 5]
    by (simp add: calculate_target_def pow_algo_at_def WALK_ACTIVATION_HEIGHT_def)
qed

lemma cast_i64_small: "n < 2 ^ 63 \<Longrightarrow> cast_i64 n = int n"
  by (simp add: cast_i64_def)

text \<open>A chain exactly on schedule keeps the genesis target, scaled by the switch's power of
  two only.\<close>

theorem asert_on_schedule:
  assumes "0 < genesis_target" and "height < 2 ^ 32" and "genesis_timestamp < 2 ^ 32"
  shows "asert_target genesis_target genesis_timestamp height (genesis_timestamp + 60 * height) 0
    = genesis_target"
proof -
  have "asert_exponent genesis_timestamp height (genesis_timestamp + 60 * height) = 0"
    using assms(2,3)
    by (simp add: asert_exponent_def Let_def cast_i64_small TARGET_BLOCK_TIME_def sat_i64_exact
        trunc_div_def min_absorb1)
  moreover have "asert_scaled (unat genesis_target) (asert_factor 0) = unat genesis_target"
    by (simp add: asert_scaled_eq asert_factor_def)
  moreover have "clamp256 (unat genesis_target) = unat genesis_target"
    using assms(1) unat_h256_less [of genesis_target]
    by (simp add: clamp256_def word_gt_0 unat_gt_0 max_def min_def Suc_le_eq)
  ultimately show ?thesis
    by (simp add: asert_target_def asert_shifted_eq sat_i64_def Let_def)
qed

theorem asert_on_schedule_witness:
  "asert_target GENESIS_TARGET GENESIS_TIMESTAMP 100 (GENESIS_TIMESTAMP + 60 * 100) 0 = GENESIS_TARGET"
  by (rule asert_on_schedule) (simp_all add: GENESIS_TARGET_def GENESIS_TIMESTAMP_def word_less_nat_alt)


subsection \<open>Median time past\<close>

text \<open>The element at position \<open>k\<close> of a sorted list is at least \<open>m\<close> exactly when at most \<open>k\<close>
  elements are below \<open>m\<close>.\<close>

lemma sorted_nth_ge_iff:
  "sorted xs \<Longrightarrow> k < length xs \<Longrightarrow> m \<le> xs ! k \<longleftrightarrow> length (filter (\<lambda>x. x < m) xs) \<le> k"
  for m :: "'a :: linorder"
proof (induction xs arbitrary: k)
  case (Cons x xs)
  show ?case
  proof (cases "x < m")
    case True
    then show ?thesis using Cons by (cases k) auto
  next
    case False
    then have "filter (\<lambda>x. x < m) xs = []" using Cons.prems(1) by (auto simp: filter_empty_conv)
    moreover have "m \<le> (x # xs) ! k"
      using Cons.prems False by (cases k) (auto simp: not_less intro: order_trans)
    ultimately show ?thesis using False by simp
  qed
qed simp

lemma sort_nth_ge_iff:
  fixes m :: "'a :: linorder"
  assumes "k < length xs"
  shows "m \<le> sort xs ! k \<longleftrightarrow> length (filter (\<lambda>x. x < m) xs) \<le> k"
proof -
  have "length (filter (\<lambda>x. x < m) (sort xs)) = length (filter (\<lambda>x. x < m) xs)"
    by (simp add: filter_sort)
  then show ?thesis using sorted_nth_ge_iff [of "sort xs" k m] assms by simp
qed

lemma median_time_floor_window:
  "11 \<le> length ts \<Longrightarrow> median_time_floor ts = Some (sort (take 11 (rev ts)) ! 5)"
  by (simp add: median_time_floor_def MEDIAN_TIME_PAST_WINDOW_def)

text \<open>Once eleven timestamps exist, the floor a new timestamp must exceed never falls: any
  block the rule accepts leaves a floor at least as high as the one it had to exceed.\<close>

theorem median_floor_monotone:
  assumes "11 \<le> length previous" and "validate_timestamp t previous now = Inr ()"
    and "median_time_floor previous = Some fl" and "median_time_floor (previous @ [t]) = Some fl'"
  shows "fl \<le> fl'"
proof -
  let ?w = "take 11 (rev previous)" and ?w' = "t # take 10 (rev previous)"
  have len: "length ?w = 11" "length ?w' = 11" using assms(1) by simp_all
  have fl: "fl = sort ?w ! 5" using assms(1,3) by (simp add: median_time_floor_window)
  have "take 11 (rev (previous @ [t])) = ?w'" by (simp add: numeral_eq_Suc)
  then have fl': "fl' = sort ?w' ! 5" using assms(1,4) by (simp add: median_time_floor_window)
  have "fl < t" using assms(2,3) by (simp add: validate_timestamp_def split: if_splits)
  have "?w = take 10 (rev previous) @ [rev previous ! 10]"
    using assms(1) take_Suc_conv_app_nth [of 10 "rev previous"] by (simp add: numeral_eq_Suc)
  then have "length (filter (\<lambda>x. x < fl) (take 10 (rev previous))) \<le> length (filter (\<lambda>x. x < fl) ?w)"
    by simp
  also have "\<dots> \<le> 5" using sort_nth_ge_iff [of 5 ?w fl] len fl by simp
  finally have "length (filter (\<lambda>x. x < fl) ?w') \<le> 5" using \<open>fl < t\<close> by simp
  then show ?thesis using sort_nth_ge_iff [of 5 ?w' fl] len fl' by simp
qed

theorem median_floor_monotone_witness:
  "\<exists>fl fl'. median_time_floor [1..<12] = Some fl \<and> median_time_floor ([1..<12] @ [7]) = Some fl' \<and> fl \<le> fl'"
proof -
  have "upt 1 12 = [1, 2, 3, 4, 5, 6, 7, 8, 9, 10, 11]" by (simp add: upt_rec)
  then have a: "median_time_floor [1..<12] = Some 6"
    and v: "validate_timestamp 7 [1..<12] 100 = Inr ()"
    and b: "median_time_floor ([1..<12] @ [7]) = Some 7"
    by (simp_all add: median_time_floor_def MEDIAN_TIME_PAST_WINDOW_def validate_timestamp_def
        sat_add64_def MAX_FUTURE_BLOCK_TIME_def)
  show ?thesis using median_floor_monotone [OF _ v a b] a b by simp
qed

text \<open>Before that it can fall: with ten timestamps the floor is the last one, and the eleventh
  block brings in the median of all eleven, which is lower.\<close>

theorem median_floor_drops_at_eleven:
  "median_time_floor [10, 20, 30, 40, 50, 60, 70, 80, 90, 100] = Some 100 \<and>
   validate_timestamp 110 [10, 20, 30, 40, 50, 60, 70, 80, 90, 100] 1000 = Inr () \<and>
   median_time_floor [10, 20, 30, 40, 50, 60, 70, 80, 90, 100, 110] = Some 60"
  by (simp add: median_time_floor_def MEDIAN_TIME_PAST_WINDOW_def validate_timestamp_def
      sat_add64_def MAX_FUTURE_BLOCK_TIME_def)

text \<open>The smallest next timestamp is the smallest one the rule takes.\<close>

lemma min_next_timestamp_least:
  assumes "\<forall>f. median_time_floor previous = Some f \<longrightarrow> f < U64_MAX"
  shows "validate_timestamp t previous now = Inr () \<longleftrightarrow>
    min_next_timestamp previous \<le> t \<and> t \<le> sat_add64 now MAX_FUTURE_BLOCK_TIME"
  using assms
  by (auto simp: validate_timestamp_def min_next_timestamp_def add64_def split: option.splits)

subsection \<open>Work of a target\<close>

lemma calculate_work_eq:
  "calculate_work t = (if t = 0 then 0 else min (U256_MAX div unat t) U128_MAX)"
proof (cases "t = 0 \<or> U128_MAX < U256_MAX div unat t")
  case True
  then show ?thesis by (auto simp: calculate_work_def Let_def)
next
  case False
  define w where "w = U256_MAX div unat t"
  have "w \<le> U128_MAX" using False w_def by simp
  then have "w div 2 ^ 64 < 2 ^ 64" by (intro less_mult_imp_div_less) simp
  then have "w div 2 ^ 64 mod 2 ^ 64 * 2 ^ 64 + w mod 2 ^ 64 = w" by simp
  then have "calculate_work t = w"
    using False unfolding calculate_work_def Let_def w_def
    by (simp only: unat_eq_zero de_Morgan_disj if_False)
  then show ?thesis
    using False \<open>w \<le> U128_MAX\<close> by (simp only: w_def de_Morgan_disj if_False min_absorb1)
qed

text \<open>Work is positive for every target the chain can carry, never exceeds 128 bits, and a
  harder (smaller) target never represents less of it.\<close>

theorem work_antitone:
  assumes "0 < target" and "target \<le> target'"
  shows "calculate_work target' \<le> calculate_work target \<and> 1 \<le> calculate_work target' \<and>
    calculate_work target \<le> U128_MAX"
proof -
  have t: "0 < unat target" "unat target \<le> unat target'"
    using assms by (simp_all add: word_gt_0 unat_gt_0 word_le_nat_alt)
  then have nz: "target \<noteq> 0" "target' \<noteq> 0" by auto
  have le: "U256_MAX div unat target' \<le> U256_MAX div unat target"
    using t by (intro div_le_mono2) simp_all
  have "unat target' \<le> U256_MAX" using unat_h256_less [of target'] by simp
  then have "1 \<le> U256_MAX div unat target'"
    using t by (simp add: Suc_le_eq div_greater_zero_iff)
  then show ?thesis using le nz by (simp add: calculate_work_eq)
qed

theorem work_antitone_witness: "calculate_work 5 \<le> calculate_work 3"
  using work_antitone [of 3 5] by (simp add: word_less_nat_alt word_le_nat_alt)

end
