(* ===== verification/Hashing.thy ===== *)
theory Hashing
  imports Prelude
begin

text \<open>
  The hashing helpers of \<^verbatim>\<open>src/src/core/types.rs\<close>. BLAKE3 is a parameter \<open>H\<close>, a function from
  byte strings to 32-byte values: nothing here depends on which. What is proved is about the
  preimages: two domain-separated hashes are taken over the same bytes only when their domain
  and all their parts agree.
\<close>

type_synonym hasher = "bytes \<Rightarrow> h256"

definition hash_concat :: "hasher \<Rightarrow> bytes \<Rightarrow> bytes \<Rightarrow> h256" where
  "hash_concat H a b = H (a @ b)"

definition len_prefixed :: "bytes \<Rightarrow> bytes" where
  "len_prefixed p = le_bytes 8 (length p) @ p"

definition domain_preimage :: "bytes \<Rightarrow> bytes list \<Rightarrow> bytes" where
  "domain_preimage d parts = len_prefixed d @ concat (map len_prefixed parts)"

definition hash_domain :: "hasher \<Rightarrow> bytes \<Rightarrow> bytes list \<Rightarrow> h256" where
  "hash_domain H d parts = H (domain_preimage d parts)"

text \<open>The network's name, hashed into everything a block or a transaction signs.\<close>

definition NETWORK_MAGIC :: bytes where "NETWORK_MAGIC = ascii ''MIDWIMBLE_TESTNET_V3''"

text \<open>The number of leading zero bits of one byte (\<^verbatim>\<open>u8::leading_zeros\<close>).\<close>

definition byte_leading_zeros :: "byte \<Rightarrow> nat" where
  "byte_leading_zeros b = length (takeWhile (\<lambda>i. \<not> bit b i) (rev [0..<8]))"

fun count_zeros :: "bytes \<Rightarrow> nat" where
  "count_zeros [] = 0"
| "count_zeros (b # bs) = (if b = 0 then 8 + count_zeros bs else byte_leading_zeros b)"

definition count_leading_zeros :: "h256 \<Rightarrow> nat" where
  "count_leading_zeros h = count_zeros (be_bytes h)"

definition hex_digit :: "char \<Rightarrow> nat option" where
  "hex_digit c =
     (let n = of_char c :: nat in
      if 48 \<le> n \<and> n \<le> 57 then Some (n - 48)
      else if 97 \<le> n \<and> n \<le> 102 then Some (n - 97 + 10)
      else if 65 \<le> n \<and> n \<le> 70 then Some (n - 65 + 10)
      else None)"

fun hex_bytes :: "string \<Rightarrow> bytes option" where
  "hex_bytes [] = Some []"
| "hex_bytes [c] = None"
| "hex_bytes (c # d # s) =
     (case (hex_digit c, hex_digit d, hex_bytes s) of
        (Some hi, Some lo, Some r) \<Rightarrow> Some (word_of_nat (hi * 16 + lo) # r)
      | _ \<Rightarrow> None)"

text \<open>\<open>hex32\<close> refuses to compile on any other length or digit, which is \<open>None\<close> here.\<close>

definition hex32 :: "string \<Rightarrow> h256 option" where
  "hex32 s = (if length s = 64 then map_option h256_of_be (hex_bytes s) else None)"

subsection \<open>Preimages determine their parts\<close>

lemma length_le8: "length p < 2 ^ 64 \<Longrightarrow> length q < 2 ^ 64 \<Longrightarrow>
    le_bytes 8 (length p) = le_bytes 8 (length q) \<longleftrightarrow> length p = length q"
  by (rule le_bytes_inject) simp_all

lemma len_prefixed_cancel:
  assumes "len_prefixed p @ xs = len_prefixed q @ ys"
    and "length p < 2 ^ 64" and "length q < 2 ^ 64"
  shows "p = q \<and> xs = ys"
proof -
  have "le_bytes 8 (length p) = le_bytes 8 (length q)" and "p @ xs = q @ ys"
    using assms(1) by (simp_all add: len_prefixed_def append_eq_append_conv)
  then show ?thesis using assms(2,3) by (simp add: length_le8)
qed

lemma len_prefixed_nonempty [simp]: "len_prefixed p \<noteq> []"
proof -
  have "length (len_prefixed p) \<noteq> 0" by (simp add: len_prefixed_def)
  then show ?thesis by auto
qed

lemma concat_len_prefixed_inject:
  "concat (map len_prefixed ps) = concat (map len_prefixed qs) \<Longrightarrow>
   \<forall>p\<in>set ps \<union> set qs. length p < 2 ^ 64 \<Longrightarrow> ps = qs"
proof (induction ps arbitrary: qs)
  case Nil
  then show ?case by (cases qs) auto
next
  case (Cons p ps)
  then obtain q qs' where qs: "qs = q # qs'" by (cases qs) auto
  have "p = q \<and> concat (map len_prefixed ps) = concat (map len_prefixed qs')"
    by (rule len_prefixed_cancel) (use Cons.prems qs in auto)
  then show ?case using Cons qs by auto
qed

lemma domain_preimage_inject:
  assumes "domain_preimage d ps = domain_preimage e qs"
    and "\<forall>p\<in>set (d # ps) \<union> set (e # qs). length p < 2 ^ 64"
  shows "d = e \<and> ps = qs"
proof -
  have *: "d = e \<and> concat (map len_prefixed ps) = concat (map len_prefixed qs)"
    by (rule len_prefixed_cancel) (use assms in \<open>auto simp: domain_preimage_def\<close>)
  then have "ps = qs" using assms(2) by (intro concat_len_prefixed_inject) auto
  with * show ?thesis by simp
qed

end
