(* ===== verification/Smt.thy ===== *)
theory Smt
  imports Hashing
begin

text \<open>
  The sparse Merkle tree over unspent outputs, \<^verbatim>\<open>src/src/core/mmr.rs\<close> sections 2 and 5: the bit
  helpers, the recursive subtree hash over a sorted slice, the accumulator with its cache of the
  top sixteen levels, inclusion proofs and their verification. The reference is \<open>dense\<close>, the tree
  of all 2^256 leaves.
\<close>

subsection \<open>Bits of a path\<close>

definition get_bit :: "h256 \<Rightarrow> nat \<Rightarrow> byte" where
  "get_bit w bit_index =
     (let byte_idx = 31 - bit_index div 8; bit_offset = bit_index mod 8
      in drop_bit bit_offset (be_bytes w ! byte_idx) AND 1)"

definition flip_bit :: "h256 \<Rightarrow> nat \<Rightarrow> h256" where
  "flip_bit w bit_index =
     (let byte_idx = 31 - bit_index div 8; bit_offset = bit_index mod 8; bs = be_bytes w
      in h256_of_be (bs[byte_idx := bs ! byte_idx XOR push_bit bit_offset 1]))"

definition mask_lower_bits :: "h256 \<Rightarrow> nat \<Rightarrow> h256" where
  "mask_lower_bits w height =
     (if height = 0 then w
      else
        let full_bytes = height div 8; partial_bits = height mod 8;
            start = 32 - full_bytes;
            bs = take start (be_bytes w) @ replicate full_bytes 0
        in h256_of_be
             (if 0 < partial_bits \<and> 0 < start
              then bs[start - 1 := bs ! (start - 1) AND NOT (push_bit partial_bits 1 - 1)]
              else bs))"

lemma bit_be_bytes:
  assumes "j < 32" and "k < 8"
  shows "bit (be_bytes w ! (31 - j)) k \<longleftrightarrow> bit w (8 * j + k)"
proof -
  have "be_bytes w ! (31 - j) = le_bytes 32 (unat w) ! j"
    using assms(1) by (simp add: be_bytes_def rev_nth)
  also have "\<dots> = word_of_nat (unat w div 2 ^ (8 * j))"
    using assms(1) by (simp add: le_bytes_def power_mult)
  finally have "bit (be_bytes w ! (31 - j)) k \<longleftrightarrow> bit (drop_bit (8 * j) (unat w)) k"
    using assms(2) by (simp add: bit_of_nat_iff drop_bit_eq_div)
  then show ?thesis by (simp add: bit_drop_bit_eq bit_unsigned_iff)
qed

lemma bit_h256_of_be:
  assumes "length bs = 32" and "i < 256"
  shows "bit (h256_of_be bs) i \<longleftrightarrow> bit (bs ! (31 - i div 8)) (i mod 8)"
  using bit_be_bytes [of "i div 8" "i mod 8" "h256_of_be bs"] assms
  by (simp add: be_bytes_h256_of_be)

lemma byte_index_less: "i < 256 \<Longrightarrow> 31 - i div 8 < (32 :: nat)"
  by simp

lemma get_bit_eq:
  assumes "i < 256"
  shows "get_bit w i = (if bit w i then 1 else 0)"
proof -
  have "bit (be_bytes w ! (31 - i div 8)) (i mod 8) \<longleftrightarrow> bit w i"
    using bit_be_bytes [of "i div 8" "i mod 8" w] assms by simp
  then show ?thesis
    by (auto simp: get_bit_def Let_def and_one_eq bit_iff_odd_drop_bit even_iff_mod_2_eq_zero
        odd_iff_mod_2_eq_one)
qed

lemma get_bit_zero: "i < 256 \<Longrightarrow> get_bit w i = 0 \<longleftrightarrow> \<not> bit w i"
  by (simp add: get_bit_eq)

lemma flip_bit_eq:
  assumes "i < 256"
  shows "flip_bit w i = w XOR push_bit i 1"
proof (rule bit_word_eqI)
  fix n assume "n < LENGTH(256)"
  then have n: "n < 256" by simp
  let ?idx = "31 - i div 8"
  let ?bs = "(be_bytes w)[?idx := be_bytes w ! ?idx XOR push_bit (i mod 8) 1]"
  have same: "bit (be_bytes w ! (31 - n div 8)) (n mod 8) \<longleftrightarrow> bit w n"
    using bit_be_bytes [of "n div 8" "n mod 8" w] n by simp
  have "bit (flip_bit w i) n \<longleftrightarrow> bit (?bs ! (31 - n div 8)) (n mod 8)"
    using n by (simp add: flip_bit_def Let_def bit_h256_of_be)
  also have "\<dots> \<longleftrightarrow> bit (w XOR push_bit i 1) n"
  proof (cases "n div 8 = i div 8")
    case True
    have "n mod 8 = i mod 8 \<longleftrightarrow> n = i" using True by (metis div_mult_mod_eq)
    then show ?thesis
      using True same n by (auto simp: bit_xor_iff bit_exp_iff)
  next
    case False
    then have "31 - n div 8 \<noteq> 31 - i div 8" using n assms by (simp add: eq_diff_iff) 
    then show ?thesis
      using False same n by (auto simp: bit_xor_iff bit_exp_iff)
  qed
  finally show "bit (flip_bit w i) n \<longleftrightarrow> bit (w XOR push_bit i 1) n" .
qed

lemma bit_low_mask_byte: "k < 8 \<Longrightarrow> bit (2 ^ p - 1 :: byte) k \<longleftrightarrow> k < p"
  by (simp add: mask_eq_exp_minus_1 [symmetric] bit_mask_iff)

lemma mask_lower_bits_eq:
  assumes "h \<le> 256"
  shows "mask_lower_bits w h = push_bit h (drop_bit h w)"
proof (cases "h = 0")
  case False
  show ?thesis
  proof (rule bit_word_eqI)
    fix n assume "n < LENGTH(256)"
    then have n: "n < 256" by simp
    define st where "st = 32 - h div 8"
    define bs where "bs = take st (be_bytes w) @ replicate (h div 8) 0"
    define cs where "cs = (if 0 < h mod 8 \<and> 0 < st
        then bs[st - 1 := bs ! (st - 1) AND NOT (push_bit (h mod 8) 1 - 1)] else bs)"
    have len: "length bs = 32" "length cs = 32" using assms by (simp_all add: bs_def cs_def st_def)
    have def': "mask_lower_bits w h = h256_of_be cs"
      using False by (simp add: mask_lower_bits_def Let_def cs_def bs_def st_def)
    have same: "bit (be_bytes w ! (31 - n div 8)) (n mod 8) \<longleftrightarrow> bit w n"
      using bit_be_bytes [of "n div 8" "n mod 8" w] n by simp
    have k: "31 - n div 8 < 32" "n mod 8 < 8" "h mod 8 < 8" by simp_all
    consider "n div 8 < h div 8" | "n div 8 = h div 8" | "h div 8 < n div 8" by linarith
    then have "bit (cs ! (31 - n div 8)) (n mod 8) \<longleftrightarrow> h \<le> n \<and> bit w n"
    proof cases
      case 1
      then have "\<not> h \<le> n" using div_le_mono [of h n 8] by linarith
      moreover have "cs ! (31 - n div 8) = 0"
        using 1 assms n by (auto simp: cs_def bs_def st_def nth_append nth_list_update)
      ultimately show ?thesis by simp
    next
      case 2
      have h8: "h div 8 < 32" using 2 n by linarith
      have "h \<le> n \<longleftrightarrow> h mod 8 \<le> n mod 8" using 2 by (metis div_mult_mod_eq add_le_cancel_left)
      moreover have "st - 1 = 31 - n div 8" "0 < st" "bs ! (31 - n div 8) = be_bytes w ! (31 - n div 8)"
        using h8 2 by (simp_all add: st_def bs_def nth_append diff_less_mono)
      ultimately show ?thesis
        using same len k by (auto simp: cs_def bit_and_iff bit_not_iff bit_low_mask_byte)
    next
      case 3
      have st3: "31 - n div 8 < 32 - h div 8" "31 - n div 8 \<noteq> 31 - h div 8" using 3 n by linarith+
      have "h \<le> n" using 3 div_le_mono [of n h 8] by linarith
      moreover have "cs ! (31 - n div 8) = be_bytes w ! (31 - n div 8)"
        using 3 st3 by (simp add: cs_def bs_def st_def nth_append nth_list_update)
      ultimately show ?thesis using same by simp
    qed
    then show "bit (mask_lower_bits w h) n \<longleftrightarrow> bit (push_bit h (drop_bit h w)) n"
      using n len by (auto simp: def' bit_h256_of_be bit_push_bit_iff bit_drop_bit_eq)
  qed
qed (simp add: mask_lower_bits_def)

text \<open>The byte-level bit helpers of the tree are the word operations they document: testing,
  toggling and clearing bits counted from the last byte's lowest bit.\<close>

theorem bit_helpers_correct:
  assumes "i < 256" and "h \<le> 256"
  shows "get_bit w i = (if bit w i then 1 else 0) \<and> flip_bit w i = w XOR push_bit i 1 \<and>
    mask_lower_bits w h = push_bit h (drop_bit h w)"
  using assms by (simp only: get_bit_eq flip_bit_eq mask_lower_bits_eq)

theorem bit_helpers_correct_witness: "get_bit 4 2 = 1"
  using bit_helpers_correct [of 2 0 4] by (simp add: bit_iff_odd)

subsection \<open>Subtree hashes\<close>

definition NODE_TAG :: byte where "NODE_TAG = 0x01"
definition SMT_HEIGHT :: nat where "SMT_HEIGHT = 256"
definition CACHE_MIN_HEIGHT :: nat where "CACHE_MIN_HEIGHT = 240"

definition node_bytes :: "bool \<Rightarrow> h256 \<Rightarrow> h256 \<Rightarrow> bytes" where
  "node_bytes is_v2 left right = (if is_v2 then [NODE_TAG] else []) @ be_bytes left @ be_bytes right"

definition hash_node :: "hasher \<Rightarrow> bool \<Rightarrow> h256 \<Rightarrow> h256 \<Rightarrow> h256" where
  "hash_node H is_v2 left right = H (node_bytes is_v2 left right)"

primrec get_empty_hash :: "hasher \<Rightarrow> bool \<Rightarrow> nat \<Rightarrow> h256" where
  "get_empty_hash H is_v2 0 = 0"
| "get_empty_hash H is_v2 (Suc i) =
     hash_node H is_v2 (get_empty_hash H is_v2 i) (get_empty_hash H is_v2 i)"

text \<open>Rust's \<^verbatim>\<open>partition_point\<close> and \<^verbatim>\<open>split_at\<close> on a slice partitioned by the predicate.\<close>

definition partition_point :: "('a \<Rightarrow> bool) \<Rightarrow> 'a list \<Rightarrow> nat" where
  "partition_point P xs = length (takeWhile P xs)"

fun compute_sparse_subtree :: "hasher \<Rightarrow> bool \<Rightarrow> nat \<Rightarrow> h256 list \<Rightarrow> h256" where
  "compute_sparse_subtree H is_v2 height coins =
     (if coins = [] then get_empty_hash H is_v2 height
      else
        case height of
          0 \<Rightarrow> hd coins
        | Suc bit_idx \<Rightarrow>
            let split_idx = partition_point (\<lambda>c. get_bit c bit_idx = 0) coins;
                left_coins = take split_idx coins;
                right_coins = drop split_idx coins;
                left_hash = compute_sparse_subtree H is_v2 bit_idx left_coins;
                right_hash = compute_sparse_subtree H is_v2 bit_idx right_coins
            in hash_node H is_v2 left_hash right_hash)"

declare compute_sparse_subtree.simps [simp del]

record ProofElement =
  pe_hash :: h256
  is_right :: bool

text \<open>The siblings come out deepest first, in the order the source pushes them.\<close>

fun extract_path_siblings :: "hasher \<Rightarrow> bool \<Rightarrow> nat \<Rightarrow> h256 list \<Rightarrow> h256 \<Rightarrow> ProofElement list" where
  "extract_path_siblings H is_v2 0 coins target = []"
| "extract_path_siblings H is_v2 (Suc bit_idx) coins target =
     (let split_idx = partition_point (\<lambda>c. get_bit c bit_idx = 0) coins;
          left_coins = take split_idx coins;
          right_coins = drop split_idx coins
      in if get_bit target bit_idx = 0
         then
           let sibling_hash = compute_sparse_subtree H is_v2 bit_idx right_coins
           in extract_path_siblings H is_v2 bit_idx left_coins target
                @ [\<lparr>pe_hash = sibling_hash, is_right = True\<rparr>]
         else
           let sibling_hash = compute_sparse_subtree H is_v2 bit_idx left_coins
           in extract_path_siblings H is_v2 bit_idx right_coins target
                @ [\<lparr>pe_hash = sibling_hash, is_right = False\<rparr>])"

subsection \<open>The reference tree\<close>

text \<open>The node of height \<open>h\<close> above the leaves whose path starts with the top bits of \<open>p\<close>: a leaf
  is its path if the coin is present and zero otherwise.\<close>

primrec dense :: "hasher \<Rightarrow> bool \<Rightarrow> nat \<Rightarrow> h256 \<Rightarrow> h256 set \<Rightarrow> h256" where
  "dense H v2 0 p C = (if p \<in> C then p else 0)"
| "dense H v2 (Suc h) p C = hash_node H v2 (dense H v2 h p C) (dense H v2 h (p OR 2 ^ h) C)"

text \<open>The coins below the node of height \<open>h\<close> at \<open>p\<close>.\<close>

definition below :: "nat \<Rightarrow> h256 \<Rightarrow> h256 \<Rightarrow> bool" where
  "below h p c \<longleftrightarrow> drop_bit h c = drop_bit h p"

text \<open>Paths of height \<open>h\<close> have their low \<open>h\<close> bits clear.\<close>

definition path_at :: "nat \<Rightarrow> h256 \<Rightarrow> bool" where
  "path_at h p \<longleftrightarrow> (\<forall>i<h. \<not> bit p i)"

lemma below_iff: "below h p c \<longleftrightarrow> (\<forall>i. h \<le> i \<and> i < 256 \<longrightarrow> bit c i = bit p i)"
proof
  assume "below h p c"
  then have *: "bit (drop_bit h c) n = bit (drop_bit h p) n" for n by (simp add: below_def)
  show "\<forall>i. h \<le> i \<and> i < 256 \<longrightarrow> bit c i = bit p i"
  proof (intro allI impI)
    fix i assume "h \<le> i \<and> i < 256"
    then show "bit c i = bit p i" using * [of "i - h"] by (simp add: bit_drop_bit_eq)
  qed
next
  assume *: "\<forall>i. h \<le> i \<and> i < 256 \<longrightarrow> bit c i = bit p i"
  show "below h p c"
    unfolding below_def
  proof (rule bit_word_eqI)
    fix n assume "n < LENGTH(256)"
    show "bit (drop_bit h c) n = bit (drop_bit h p) n"
      using * bit_imp_le_length [of c "h + n"] bit_imp_le_length [of p "h + n"]
      by (cases "h + n < 256") (auto simp: bit_drop_bit_eq)
  qed
qed

lemma bit_or_exp: "k < 256 \<Longrightarrow> bit (p OR 2 ^ k :: h256) i \<longleftrightarrow> bit p i \<or> i = k"
  by (auto simp: bit_or_iff bit_exp_iff)

lemma path_at_children:
  assumes "path_at (Suc h) p" and "h < 256"
  shows "path_at h p" and "path_at h (p OR 2 ^ h)"
  using assms by (simp_all add: path_at_def bit_or_exp)

lemma below_Suc: "h < 256 \<Longrightarrow> below h p c \<longleftrightarrow> below (Suc h) p c \<and> bit c h = bit p h"
proof -
  have "h \<le> i \<longleftrightarrow> i = h \<or> Suc h \<le> i" for i by auto
  then show "h < 256 \<Longrightarrow> ?thesis" unfolding below_iff by (auto simp only:)
qed

lemma below_Suc_or: "h < 256 \<Longrightarrow> below (Suc h) (p OR 2 ^ h) c \<longleftrightarrow> below (Suc h) p c"
  by (simp add: below_iff bit_or_exp)

lemma below_children:
  assumes "path_at (Suc h) p" and "h < 256"
  shows "below h p c \<longleftrightarrow> below (Suc h) p c \<and> \<not> bit c h"
    and "below h (p OR 2 ^ h) c \<longleftrightarrow> below (Suc h) p c \<and> bit c h"
proof -
  have "\<not> bit p h" using assms(1) by (simp add: path_at_def)
  then show "below h p c \<longleftrightarrow> below (Suc h) p c \<and> \<not> bit c h"
    using assms(2) by (simp add: below_Suc)
  show "below h (p OR 2 ^ h) c \<longleftrightarrow> below (Suc h) p c \<and> bit c h"
    using below_Suc [OF assms(2), of "p OR 2 ^ h"] assms(2) by (simp add: below_Suc_or bit_or_exp)
qed

lemma below_0: "below 0 p c \<longleftrightarrow> c = p"
  by (auto simp: below_def)

lemma below_256: "below 256 p c"
  by (simp only: below_iff) auto

lemma path_at_256: "path_at 256 p \<longleftrightarrow> p = 0"
proof
  assume "path_at 256 p"
  then show "p = 0" by (intro bit_word_eqI) (simp add: path_at_def)
qed (simp add: path_at_def)

text \<open>Only the coins below a node matter to it.\<close>

lemma dense_cong:
  assumes "path_at h p" and "h \<le> 256" and "\<And>c. below h p c \<Longrightarrow> c \<in> C \<longleftrightarrow> c \<in> D"
  shows "dense H v2 h p C = dense H v2 h p D"
  using assms
proof (induction h arbitrary: p)
  case 0
  then show ?case by (simp add: below_0)
next
  case (Suc h)
  have h: "h < 256" using Suc.prems(2) by simp
  have "dense H v2 h p C = dense H v2 h p D"
    using Suc.prems below_children(1) [OF Suc.prems(1) h] path_at_children(1) [OF Suc.prems(1) h]
    by (intro Suc.IH) auto
  moreover have "dense H v2 h (p OR 2 ^ h) C = dense H v2 h (p OR 2 ^ h) D"
    using Suc.prems below_children(2) [OF Suc.prems(1) h] path_at_children(2) [OF Suc.prems(1) h]
    by (intro Suc.IH) auto
  ultimately show ?case by simp
qed

lemma dense_empty: "dense H v2 h p {} = get_empty_hash H v2 h"
  by (induction h arbitrary: p) simp_all

subsection \<open>The subtree hash is the reference tree\<close>

lemma bit_h256_odd: "bit c h \<longleftrightarrow> odd (unat c div 2 ^ h)" for c :: h256
proof -
  have "bit c h \<longleftrightarrow> bit (unat c) h" by (simp add: bit_unsigned_iff)
  then show ?thesis by (simp only: bit_iff_odd)
qed

lemma unat_drop_bit: "unat (drop_bit h x) = unat x div 2 ^ h" for x :: h256
  using unsigned_less [of x, where ?'a = nat]
  by (simp only: unsigned_drop_bit_eq) (simp add: drop_bit_eq_div take_bit_nat_eq_self)

lemma below_unat: "below h p c \<longleftrightarrow> unat c div 2 ^ h = unat p div 2 ^ h"
  by (simp only: below_def word_unat_eq_iff unat_drop_bit)

lemma bit_sorted_below:
  assumes "below (Suc h) p c" and "below (Suc h) p d" and "c < d" and "bit c h"
  shows "bit d h"
proof (rule ccontr)
  assume "\<not> bit d h"
  then have e: "even (unat d div 2 ^ h)" "odd (unat c div 2 ^ h)" using assms(4) by (simp_all add: bit_h256_odd)
  have "unat c div 2 ^ Suc h = unat d div 2 ^ Suc h" using assms(1,2) by (simp add: below_unat)
  then have half: "unat c div 2 ^ h div 2 = unat d div 2 ^ h div 2" by (simp only: power_Suc2 div_mult2_eq)
  have "unat c \<le> unat d" using assms(3) by (simp add: word_less_nat_alt)
  then have "unat c div 2 ^ h \<le> unat d div 2 ^ h" by (rule div_le_mono)
  then show False using e half by (metis even_two_times_div_two leD le_SucE odd_two_times_div_two_succ Suc_eq_plus1 lessI)
qed

lemma takeWhile_sorted_bit:
  assumes "sorted_wrt (<) cs" and "\<forall>c\<in>set cs. below (Suc h) p c"
  shows "takeWhile (\<lambda>c. \<not> bit c h) cs = filter (\<lambda>c. \<not> bit c h) cs"
    and "dropWhile (\<lambda>c. \<not> bit c h) cs = filter (\<lambda>c. bit c h) cs"
proof -
  have *: "takeWhile (\<lambda>c. \<not> bit c h) cs = filter (\<lambda>c. \<not> bit c h) cs \<and>
      dropWhile (\<lambda>c. \<not> bit c h) cs = filter (\<lambda>c. bit c h) cs"
    using assms
  proof (induction cs)
    case (Cons c cs)
    have "bit d h" if "bit c h" "d \<in> set cs" for d
      using bit_sorted_below [of h p c d] Cons.prems that by simp
    then show ?case using Cons by (auto simp: filter_empty_conv intro!: filter_True)
  qed simp
  then show "takeWhile (\<lambda>c. \<not> bit c h) cs = filter (\<lambda>c. \<not> bit c h) cs"
    and "dropWhile (\<lambda>c. \<not> bit c h) cs = filter (\<lambda>c. bit c h) cs" by simp_all
qed

lemma split_at_bit:
  assumes "sorted_wrt (<) cs" and "\<forall>c\<in>set cs. below (Suc h) p c" and "h < 256"
  shows "take (partition_point (\<lambda>c. get_bit c h = 0) cs) cs = filter (\<lambda>c. \<not> bit c h) cs"
    and "drop (partition_point (\<lambda>c. get_bit c h = 0) cs) cs = filter (\<lambda>c. bit c h) cs"
proof -
  have "partition_point (\<lambda>c. get_bit c h = 0) cs = length (takeWhile (\<lambda>c. \<not> bit c h) cs)"
    using assms(3) by (simp add: partition_point_def get_bit_zero)
  then show "take (partition_point (\<lambda>c. get_bit c h = 0) cs) cs = filter (\<lambda>c. \<not> bit c h) cs"
    and "drop (partition_point (\<lambda>c. get_bit c h = 0) cs) cs = filter (\<lambda>c. bit c h) cs"
    using takeWhile_sorted_bit [OF assms(1,2)]
      takeWhile_eq_take [of "\<lambda>c. \<not> bit c h" cs] dropWhile_eq_drop [of "\<lambda>c. \<not> bit c h" cs]
    by simp_all
qed

lemma compute_sparse_subtree_dense:
  assumes "sorted_wrt (<) cs" and "\<forall>c\<in>set cs. below h p c" and "path_at h p" and "h \<le> 256"
  shows "compute_sparse_subtree H v2 h cs = dense H v2 h p (set cs)"
  using assms
proof (induction h arbitrary: cs p)
  case 0
  then have "set cs \<subseteq> {p}" by (auto simp: below_0)
  then show ?case
    using 0 by (subst compute_sparse_subtree.simps) (auto simp: neq_Nil_conv)
next
  case (Suc h)
  have h: "h < 256" using Suc.prems(4) by simp
  note split = split_at_bit [OF Suc.prems(1,2) h]
  note ch = below_children [OF Suc.prems(3) h] and pa = path_at_children [OF Suc.prems(3) h]
  show ?case
  proof (cases "cs = []")
    case True
    then show ?thesis by (subst compute_sparse_subtree.simps) (simp add: dense_empty)
  next
    case False
    have "compute_sparse_subtree H v2 h (filter (\<lambda>c. \<not> bit c h) cs)
        = dense H v2 h p (set (filter (\<lambda>c. \<not> bit c h) cs))"
      using Suc.prems ch pa h by (intro Suc.IH) (auto simp: sorted_wrt_filter)
    also have "\<dots> = dense H v2 h p (set cs)"
      using pa h ch by (intro dense_cong) auto
    finally have l: "compute_sparse_subtree H v2 h (filter (\<lambda>c. \<not> bit c h) cs) = dense H v2 h p (set cs)" .
    have "compute_sparse_subtree H v2 h (filter (\<lambda>c. bit c h) cs)
        = dense H v2 h (p OR 2 ^ h) (set (filter (\<lambda>c. bit c h) cs))"
      using Suc.prems ch pa h by (intro Suc.IH) (auto simp: sorted_wrt_filter)
    also have "\<dots> = dense H v2 h (p OR 2 ^ h) (set cs)"
      using pa h ch by (intro dense_cong) auto
    finally have r: "compute_sparse_subtree H v2 h (filter (\<lambda>c. bit c h) cs) = dense H v2 h (p OR 2 ^ h) (set cs)" .
    show ?thesis
      using False split l r by (subst compute_sparse_subtree.simps) (simp add: Let_def)
  qed
qed

text \<open>The recursive hash of a sorted slice of coins, which never visits an empty subtree, is
  the root of the tree with all 2^256 leaves.\<close>

theorem sparse_root_is_dense_root:
  assumes "sorted_wrt (<) cs"
  shows "compute_sparse_subtree H is_v2 256 cs = dense H is_v2 256 0 (set cs)"
  using compute_sparse_subtree_dense [OF assms, of 256 0] by (simp add: below_256 path_at_256)

theorem sparse_root_is_dense_root_witness:
  "compute_sparse_subtree (\<lambda>bs. word_of_nat (length bs)) True 256 [1, 5]
    = dense (\<lambda>bs. word_of_nat (length bs)) True 256 0 {1, 5}"
  using sparse_root_is_dense_root [of "[1, 5]"] by (simp add: word_less_nat_alt)

subsection \<open>The accumulator\<close>

text \<open>\<open>coins\<close> is the ordered set, ascending; \<open>nodes\<close> caches the interior nodes of heights 240 to
  256 by height and the top 16 bits of their path.\<close>

record UtxoAccumulator =
  coins :: "h256 list"
  nodes :: "nat \<times> 16 word \<Rightarrow> h256 option"

definition top16 :: "h256 \<Rightarrow> 16 word" where
  "top16 path = ucast (drop_bit 240 path)"

definition cache_key :: "nat \<Rightarrow> h256 \<Rightarrow> nat \<times> 16 word" where
  "cache_key height path = (height, top16 path)"

definition path_from_top16 :: "16 word \<Rightarrow> h256" where
  "path_from_top16 t = push_bit 240 (ucast t)"

definition UtxoAccumulator_new :: UtxoAccumulator where
  "UtxoAccumulator_new = \<lparr>coins = [], nodes = (\<lambda>_. None)\<rparr>"

definition UtxoAccumulator_contains :: "UtxoAccumulator \<Rightarrow> h256 \<Rightarrow> bool" where
  "UtxoAccumulator_contains s coin \<longleftrightarrow> coin \<in> set (coins s)"

definition get_node ::
    "hasher \<Rightarrow> bool \<Rightarrow> (nat \<times> 16 word \<Rightarrow> h256 option) \<Rightarrow> nat \<Rightarrow> h256 \<Rightarrow> h256" where
  "get_node H is_v2 nds height path =
     (case nds (cache_key height path) of Some v \<Rightarrow> v | None \<Rightarrow> get_empty_hash H is_v2 height)"

text \<open>A node equal to the empty hash of its height is dropped from the cache, any other is kept.\<close>

definition put_node ::
    "hasher \<Rightarrow> bool \<Rightarrow> nat \<Rightarrow> h256 \<Rightarrow> h256 \<Rightarrow> (nat \<times> 16 word \<Rightarrow> h256 option)
      \<Rightarrow> (nat \<times> 16 word \<Rightarrow> h256 option)" where
  "put_node H is_v2 height path v nds =
     (if v = get_empty_hash H is_v2 height then nds(cache_key height path := None)
      else nds(cache_key height path \<mapsto> v))"

definition ripple_step ::
    "hasher \<Rightarrow> bool \<Rightarrow> nat \<Rightarrow> (nat \<times> 16 word \<Rightarrow> h256 option) \<times> h256 \<times> h256
      \<Rightarrow> (nat \<times> 16 word \<Rightarrow> h256 option) \<times> h256 \<times> h256" where
  "ripple_step H is_v2 h = (\<lambda>(nds, current_path, hash_to_ripple).
     let sibling_hash = get_node H is_v2 nds h (flip_bit current_path h);
         parent_hash =
           (if get_bit current_path h = 0 then hash_node H is_v2 hash_to_ripple sibling_hash
            else hash_node H is_v2 sibling_hash hash_to_ripple);
         current_path = mask_lower_bits current_path (h + 1)
     in (put_node H is_v2 (h + 1) current_path parent_hash nds, current_path, parent_hash))"

definition update_cache_for_bucket ::
    "hasher \<Rightarrow> bool \<Rightarrow> 16 word \<Rightarrow> h256 list \<Rightarrow> (nat \<times> 16 word \<Rightarrow> h256 option)
      \<Rightarrow> (nat \<times> 16 word \<Rightarrow> h256 option)" where
  "update_cache_for_bucket H is_v2 prefix bucket_coins nds =
     (let bucket_hash = compute_sparse_subtree H is_v2 CACHE_MIN_HEIGHT bucket_coins;
          current_path = path_from_top16 prefix;
          nds = put_node H is_v2 CACHE_MIN_HEIGHT current_path bucket_hash nds
      in fst (fold (ripple_step H is_v2) [CACHE_MIN_HEIGHT..<SMT_HEIGHT] (nds, current_path, bucket_hash)))"

definition bucket_of :: "h256 list \<Rightarrow> 16 word \<Rightarrow> h256 list" where
  "bucket_of cs prefix =
     (let lo = path_from_top16 prefix; hi = path_from_top16 prefix OR (2 ^ 240 - 1)
      in filter (\<lambda>c. lo \<le> c \<and> c \<le> hi) cs)"

text \<open>The boolean result is whether the set changed.\<close>

definition UtxoAccumulator_insert ::
    "hasher \<Rightarrow> bool \<Rightarrow> h256 \<Rightarrow> UtxoAccumulator \<Rightarrow> UtxoAccumulator \<times> bool" where
  "UtxoAccumulator_insert H is_v2 coin s =
     (if coin \<in> set (coins s) then (s, False)
      else
        let cs = insort coin (coins s); prefix = top16 coin
        in (\<lparr>coins = cs,
             nodes = update_cache_for_bucket H is_v2 prefix (bucket_of cs prefix) (nodes s)\<rparr>, True))"

definition UtxoAccumulator_remove ::
    "hasher \<Rightarrow> bool \<Rightarrow> h256 \<Rightarrow> UtxoAccumulator \<Rightarrow> UtxoAccumulator \<times> bool" where
  "UtxoAccumulator_remove H is_v2 coin s =
     (if coin \<notin> set (coins s) then (s, False)
      else
        let cs = remove1 coin (coins s); prefix = top16 coin
        in (\<lparr>coins = cs,
             nodes = update_cache_for_bucket H is_v2 prefix (bucket_of cs prefix) (nodes s)\<rparr>, True))"

text \<open>The staging map groups the coins by prefix; its buckets are processed one by one.\<close>

definition rebuild_tree :: "hasher \<Rightarrow> bool \<Rightarrow> UtxoAccumulator \<Rightarrow> UtxoAccumulator" where
  "rebuild_tree H is_v2 s =
     s\<lparr>nodes := fold (\<lambda>prefix. update_cache_for_bucket H is_v2 prefix
                        (filter (\<lambda>c. top16 c = prefix) (coins s)))
                  (remdups (map top16 (coins s))) (\<lambda>_. None)\<rparr>"

definition from_canonical_coins :: "hasher \<Rightarrow> bool \<Rightarrow> h256 list \<Rightarrow> UtxoAccumulator" where
  "from_canonical_coins H is_v2 cs = rebuild_tree H is_v2 \<lparr>coins = cs, nodes = (\<lambda>_. None)\<rparr>"

definition from_set :: "hasher \<Rightarrow> bool \<Rightarrow> h256 list \<Rightarrow> UtxoAccumulator" where
  "from_set H is_v2 cs = fold (\<lambda>c s. fst (UtxoAccumulator_insert H is_v2 c s)) cs UtxoAccumulator_new"

definition UtxoAccumulator_root :: "hasher \<Rightarrow> bool \<Rightarrow> UtxoAccumulator \<Rightarrow> h256" where
  "UtxoAccumulator_root H is_v2 s = get_node H is_v2 (nodes s) SMT_HEIGHT 0"

record UtxoProof =
  leaf_index :: nat
  leaf_count :: nat
  siblings :: "ProofElement list"

definition prove_step ::
    "hasher \<Rightarrow> bool \<Rightarrow> (nat \<times> 16 word \<Rightarrow> h256 option) \<Rightarrow> h256 \<Rightarrow> nat
      \<Rightarrow> ProofElement list \<times> h256 \<Rightarrow> ProofElement list \<times> h256" where
  "prove_step H is_v2 nds coin h = (\<lambda>(sibs, current_path).
     let sibling_hash = get_node H is_v2 nds h (flip_bit current_path h)
     in (sibs @ [\<lparr>pe_hash = sibling_hash, is_right = (get_bit coin h = 0)\<rparr>],
         mask_lower_bits current_path (h + 1)))"

definition UtxoAccumulator_prove ::
    "hasher \<Rightarrow> bool \<Rightarrow> UtxoAccumulator \<Rightarrow> h256 \<Rightarrow> UtxoProof option" where
  "UtxoAccumulator_prove H is_v2 s coin =
     (if \<not> UtxoAccumulator_contains s coin then None
      else
        let prefix = top16 coin;
            sibs = extract_path_siblings H is_v2 CACHE_MIN_HEIGHT (bucket_of (coins s) prefix) coin;
            (sibs, _) = fold (prove_step H is_v2 (nodes s) coin) [CACHE_MIN_HEIGHT..<SMT_HEIGHT]
                          (sibs, path_from_top16 prefix)
        in Some \<lparr>leaf_index = 0, leaf_count = length (coins s), siblings = sibs\<rparr>)"

fun verify_path :: "hasher \<Rightarrow> bool \<Rightarrow> h256 \<Rightarrow> nat \<Rightarrow> ProofElement list \<Rightarrow> h256 \<Rightarrow> h256 option" where
  "verify_path H is_v2 coin h [] current = Some current"
| "verify_path H is_v2 coin h (e # es) current =
     (if is_right e \<noteq> (get_bit coin h = 0) then None
      else verify_path H is_v2 coin (h + 1) es
             (if is_right e then hash_node H is_v2 current (pe_hash e)
              else hash_node H is_v2 (pe_hash e) current))"

definition verify_utxo_proof :: "hasher \<Rightarrow> bool \<Rightarrow> h256 \<Rightarrow> UtxoProof \<Rightarrow> h256 \<Rightarrow> bool" where
  "verify_utxo_proof H is_v2 coin proof expected_root \<longleftrightarrow>
     length (siblings proof) = SMT_HEIGHT \<and>
     verify_path H is_v2 coin 0 (siblings proof) coin = Some expected_root"

subsection \<open>The cache mirrors the tree\<close>

definition node_ok :: "hasher \<Rightarrow> bool \<Rightarrow> (nat \<times> 16 word \<Rightarrow> h256 option) \<Rightarrow> h256 set \<Rightarrow> nat \<Rightarrow> h256 \<Rightarrow> bool" where
  "node_ok H v2 nds C h p \<longleftrightarrow> get_node H v2 nds h p = dense H v2 h p C"

definition cache_ok :: "hasher \<Rightarrow> bool \<Rightarrow> (nat \<times> 16 word \<Rightarrow> h256 option) \<Rightarrow> h256 set \<Rightarrow> bool" where
  "cache_ok H v2 nds C \<longleftrightarrow> (\<forall>h p. 240 \<le> h \<and> h \<le> 256 \<and> path_at h p \<longrightarrow> node_ok H v2 nds C h p)"

definition utxo_ok :: "hasher \<Rightarrow> bool \<Rightarrow> UtxoAccumulator \<Rightarrow> bool" where
  "utxo_ok H v2 s \<longleftrightarrow> sorted_wrt (<) (coins s) \<and> cache_ok H v2 (nodes s) (set (coins s))"

lemma bit_top16: "bit (top16 p) i \<longleftrightarrow> i < 16 \<and> bit p (240 + i)"
  by (auto simp: top16_def bit_ucast_iff bit_drop_bit_eq)

lemma bit_path_from_top16: "bit (path_from_top16 t) i \<longleftrightarrow> 240 \<le> i \<and> i < 256 \<and> bit t (i - 240)"
  by (auto simp: path_from_top16_def bit_push_bit_iff bit_ucast_iff)

lemma top16_path [simp]: "top16 (path_from_top16 t) = t"
  by (rule bit_word_eqI) (simp add: bit_top16 bit_path_from_top16)

lemma path_at_top16 [simp]: "path_at 240 (path_from_top16 t)"
  by (simp add: path_at_def bit_path_from_top16)

lemma top16_eq_iff: "top16 c = top16 p \<longleftrightarrow> below 240 p c"
proof
  assume eq: "top16 c = top16 p"
  show "below 240 p c"
    unfolding below_iff
  proof (intro allI impI)
    fix i :: nat assume "240 \<le> i \<and> i < 256"
    then have "i - 240 < 16" "240 + (i - 240) = i" by linarith+
    then show "bit c i = bit p i" using eq bit_top16 [of c "i - 240"] bit_top16 [of p "i - 240"] by simp
  qed
next
  assume "below 240 p c"
  then show "top16 c = top16 p" by (intro bit_word_eqI) (simp add: bit_top16 below_iff)
qed

lemma path_at_mono: "path_at h p \<Longrightarrow> k \<le> h \<Longrightarrow> path_at k p"
  by (simp add: path_at_def)

lemma below_path_eq: "below h p q \<Longrightarrow> path_at h p \<Longrightarrow> path_at h q \<Longrightarrow> p = q"
proof (rule bit_word_eqI)
  fix n assume *: "below h p q" "path_at h p" "path_at h q" "n < LENGTH(256)"
  then show "bit p n = bit q n" by (cases "n < h") (simp_all add: path_at_def below_iff)
qed

lemma cache_key_eq:
  assumes "path_at h p" and "path_at h q" and "240 \<le> h"
  shows "cache_key h p = cache_key h q \<longleftrightarrow> p = q"
  using below_path_eq [of 240 p q] path_at_mono [OF assms(1,3)] path_at_mono [OF assms(2,3)]
    top16_eq_iff [of q p] by (auto simp: cache_key_def)

lemma get_put_node:
  "get_node H v2 (put_node H v2 h p v nds) h' q =
     (if cache_key h p = cache_key h' q then v else get_node H v2 nds h' q)"
  by (auto simp: get_node_def put_node_def cache_key_def)

text \<open>Nodes whose subtree does not hold the prefix.\<close>

definition off_path :: "16 word \<Rightarrow> nat \<Rightarrow> h256 \<Rightarrow> bool" where
  "off_path prefix h p \<longleftrightarrow> \<not> below h p (path_from_top16 prefix)"

text \<open>Everything off the path is right, and so is the path up to height \<open>k\<close>.\<close>

definition ripple_ok ::
    "hasher \<Rightarrow> bool \<Rightarrow> h256 set \<Rightarrow> 16 word \<Rightarrow> nat
      \<Rightarrow> (nat \<times> 16 word \<Rightarrow> h256 option) \<times> h256 \<times> h256 \<Rightarrow> bool" where
  "ripple_ok H v2 C prefix k st \<longleftrightarrow>
     (case st of (nds, path, hash) \<Rightarrow>
        path_at k path \<and> below k path (path_from_top16 prefix) \<and> hash = dense H v2 k path C \<and>
        (\<forall>h p. 240 \<le> h \<and> h \<le> 256 \<and> path_at h p \<and> (off_path prefix h p \<or> h \<le> k)
           \<longrightarrow> node_ok H v2 nds C h p))"

lemma mask_path:
  assumes "path_at h path" and "h < 256"
  shows "path_at (Suc h) (mask_lower_bits path (h + 1))"
    and "below (Suc h) (mask_lower_bits path (h + 1)) c \<longleftrightarrow> below (Suc h) path c"
    and "\<not> bit path h \<Longrightarrow> mask_lower_bits path (h + 1) = path"
    and "\<not> bit path h \<Longrightarrow> flip_bit path h = path OR 2 ^ h"
    and "bit path h \<Longrightarrow> flip_bit path h = mask_lower_bits path (h + 1)"
    and "bit path h \<Longrightarrow> mask_lower_bits path (h + 1) OR 2 ^ h = path"
    and "path_at h (flip_bit path h)"
proof -
  have m: "mask_lower_bits path (h + 1) = push_bit (Suc h) (drop_bit (Suc h) path)"
    using assms(2) by (simp add: mask_lower_bits_eq)
  have bm: "bit (mask_lower_bits path (h + 1)) i \<longleftrightarrow> Suc h \<le> i \<and> i < 256 \<and> bit path i" for i
    unfolding m by (auto simp: bit_push_bit_iff bit_drop_bit_eq simp del: push_bit_Suc drop_bit_Suc)
  have bf: "bit (flip_bit path h) i \<longleftrightarrow> (if i = h then \<not> bit path i else bit path i)" for i
    using assms(2) by (auto simp: flip_bit_eq bit_xor_iff bit_exp_iff)
  have bl: "bit path i \<Longrightarrow> i < 256 \<and> h \<le> i" for i
    using assms(1) bit_imp_le_length [of path i] by (auto simp: path_at_def not_less [symmetric])
  have bs: "bit path i \<Longrightarrow> i < 256 \<and> (i = h \<or> Suc h \<le> i)" for i
    using bl [of i] by auto
  have bo: "bit (q OR 2 ^ h) i \<longleftrightarrow> bit q i \<or> i = h" for q :: h256 and i
    using assms(2) by (rule bit_or_exp)
  show "path_at (Suc h) (mask_lower_bits path (h + 1))"
    by (simp only: path_at_def bm) simp
  show "below (Suc h) (mask_lower_bits path (h + 1)) c \<longleftrightarrow> below (Suc h) path c"
    by (simp only: below_iff bm) auto
  show "\<not> bit path h \<Longrightarrow> mask_lower_bits path (h + 1) = path"
    by (rule bit_word_eqI, simp only: bm) (use bs in blast)
  show "\<not> bit path h \<Longrightarrow> flip_bit path h = path OR 2 ^ h"
    by (rule bit_word_eqI, simp only: bf bo) simp
  show "bit path h \<Longrightarrow> flip_bit path h = mask_lower_bits path (h + 1)"
    by (rule bit_word_eqI, simp only: bf bm) (use bs in auto)
  show "bit path h \<Longrightarrow> mask_lower_bits path (h + 1) OR 2 ^ h = path"
    by (rule bit_word_eqI, simp only: bm bo) (use bs in auto)
  show "path_at h (flip_bit path h)"
    unfolding path_at_def using bf bl by (metis not_less less_irrefl)
qed

lemma dense_parent:
  assumes "path_at h path" and "h < 256"
  shows "dense H v2 (Suc h) (mask_lower_bits path (h + 1)) C =
    (if get_bit path h = 0 then hash_node H v2 (dense H v2 h path C) (dense H v2 h (flip_bit path h) C)
     else hash_node H v2 (dense H v2 h (flip_bit path h) C) (dense H v2 h path C))"
  using mask_path [OF assms] get_bit_zero [OF assms(2), of path]
  by (cases "bit path h") simp_all

lemma flip_off_path:
  assumes "path_at h path" and "h < 256" and "below h path (path_from_top16 prefix)"
  shows "off_path prefix h (flip_bit path h)"
proof -
  have "bit (flip_bit path h) h \<noteq> bit path h"
    using assms(2) by (simp add: flip_bit_eq bit_xor_iff bit_exp_iff)
  then show ?thesis using assms(2,3) unfolding off_path_def below_iff by blast
qed

lemma ripple_step_ok:
  assumes "ripple_ok H v2 C prefix h st" and "240 \<le> h" and "h < 256"
  shows "ripple_ok H v2 C prefix (Suc h) (ripple_step H v2 h st)"
proof -
  obtain nds path hash where st: "st = (nds, path, hash)" by (cases st)
  have r: "path_at h path" "below h path (path_from_top16 prefix)" "hash = dense H v2 h path C"
    and ok: "\<And>k p. 240 \<le> k \<Longrightarrow> k \<le> 256 \<Longrightarrow> path_at k p \<Longrightarrow> off_path prefix k p \<or> k \<le> h
        \<Longrightarrow> node_ok H v2 nds C k p"
    using assms(1) by (auto simp: ripple_ok_def st)
  let ?path' = "mask_lower_bits path (h + 1)"
  note mp = mask_path [OF r(1) assms(3)]
  have sib: "get_node H v2 nds h (flip_bit path h) = dense H v2 h (flip_bit path h) C"
    using ok [of h "flip_bit path h"] assms(2,3) mp(7) by (simp add: node_ok_def)
  have parent: "(if get_bit path h = 0 then hash_node H v2 hash (dense H v2 h (flip_bit path h) C)
      else hash_node H v2 (dense H v2 h (flip_bit path h) C) hash) = dense H v2 (Suc h) ?path' C"
    using r(3) dense_parent [OF r(1) assms(3), of H v2 C] by simp
  have step: "ripple_step H v2 h st =
      (put_node H v2 (Suc h) ?path' (dense H v2 (Suc h) ?path' C) nds, ?path', dense H v2 (Suc h) ?path' C)"
    unfolding st ripple_step_def Let_def prod.case sib parent by simp
  have "node_ok H v2 (put_node H v2 (Suc h) ?path' (dense H v2 (Suc h) ?path' C) nds) C k p"
    if k: "240 \<le> k" "k \<le> 256" "path_at k p" "off_path prefix k p \<or> k \<le> Suc h" for k p
  proof (cases "k = Suc h \<and> p = ?path'")
    case True
    then show ?thesis by (simp add: node_ok_def get_put_node)
  next
    case False
    have ne: "cache_key (Suc h) ?path' \<noteq> cache_key k p"
      using False cache_key_eq [OF mp(1), of p] k assms(2) by (auto simp: cache_key_def)
    have "off_path prefix k p \<or> k \<le> h"
    proof (cases "k = Suc h")
      case True
      then have "p \<noteq> ?path'" using False by simp
      then have "\<not> below (Suc h) p (path_from_top16 prefix)"
        using below_path_eq [of "Suc h" p ?path'] mp(1,2) r(2) k(3) True below_Suc [OF assms(3)]
        by (metis below_def)
      then show ?thesis using True by (simp add: off_path_def)
    qed (use k(4) in auto)
    then show ?thesis using ok [OF k(1-3)] ne by (simp add: node_ok_def get_put_node)
  qed
  then show ?thesis
    using mp(1,2) r(2) below_Suc [OF assms(3)]
    unfolding step ripple_ok_def prod.case by metis
qed

lemma ripple_fold_ok:
  assumes "ripple_ok H v2 C prefix 240 st" and "k \<le> 16"
  shows "ripple_ok H v2 C prefix (240 + k) (fold (ripple_step H v2) [240..<240 + k] st)"
  using assms(2)
proof (induction k)
  case (Suc k)
  have "[240..<240 + Suc k] = [240..<240 + k] @ [240 + k]"
    using upt_Suc_append [of 240 "240 + k"] by simp
  then show ?case
    using Suc ripple_step_ok [of H v2 C prefix "240 + k"] by (simp only: fold_append) simp
qed (simp add: assms(1))

lemma update_cache_ok:
  assumes "\<And>h p. 240 \<le> h \<Longrightarrow> h \<le> 256 \<Longrightarrow> path_at h p \<Longrightarrow> off_path prefix h p \<Longrightarrow> node_ok H v2 nds C h p"
    and "compute_sparse_subtree H v2 240 bucket = dense H v2 240 (path_from_top16 prefix) C"
  shows "cache_ok H v2 (update_cache_for_bucket H v2 prefix bucket nds) C"
proof -
  let ?P = "path_from_top16 prefix" and ?v = "dense H v2 240 (path_from_top16 prefix) C"
  let ?st = "(put_node H v2 240 ?P ?v nds, ?P, ?v)"
  have "node_ok H v2 (put_node H v2 240 ?P ?v nds) C h p"
    if h: "240 \<le> h" "h \<le> 256" "path_at h p" "off_path prefix h p \<or> h \<le> 240" for h p
  proof (cases "h = 240 \<and> p = ?P")
    case True
    then show ?thesis by (simp add: node_ok_def get_put_node)
  next
    case False
    then have ne: "cache_key 240 ?P \<noteq> cache_key h p"
      using cache_key_eq [OF path_at_top16, of p] h(3) by (auto simp: cache_key_def)
    have "off_path prefix h p"
    proof (cases "h = 240")
      case True
      then have "p \<noteq> ?P" using False by simp
      then show ?thesis
        using below_path_eq [of 240 p ?P] h(3) True unfolding off_path_def by auto
    qed (use h in auto)
    then show ?thesis using assms(1) h ne by (simp add: node_ok_def get_put_node)
  qed
  then have "ripple_ok H v2 C prefix 240 ?st"
    unfolding ripple_ok_def prod.case by (intro conjI) (auto simp: below_def)
  from ripple_fold_ok [OF this, of 16]
  have "ripple_ok H v2 C prefix 256 (fold (ripple_step H v2) [240..<256] ?st)" by simp
  then show ?thesis
    by (auto simp: ripple_ok_def cache_ok_def update_cache_for_bucket_def assms(2)
        CACHE_MIN_HEIGHT_def SMT_HEIGHT_def Let_def split: prod.splits)
qed

subsection \<open>Buckets and operations\<close>

lemma bucket_of_eq: "bucket_of cs prefix = filter (\<lambda>c. top16 c = prefix) cs"
proof -
  let ?lo = "path_from_top16 prefix"
  define m :: h256 where "m = 2 ^ 240 - 1"
  have bm: "bit m i \<longleftrightarrow> i < 240" for i
    by (simp only: m_def mask_eq_exp_minus_1 [symmetric] bit_mask_iff) auto
  have div_lo: "unat (drop_bit 240 ?lo) = unat (drop_bit 240 (?lo OR m))"
    by (rule arg_cong [of _ _ unat], rule bit_word_eqI)
       (simp add: bit_drop_bit_eq bit_or_iff bm del: drop_bit_eq_div)
  have mono: "a \<le> b \<Longrightarrow> unat (drop_bit 240 a) \<le> unat (drop_bit 240 b)" for a b :: h256
    by (simp only: unat_drop_bit word_le_nat_alt div_le_mono)
  have "?lo \<le> c \<and> c \<le> ?lo OR m \<longleftrightarrow> top16 c = prefix" for c
  proof
    assume "?lo \<le> c \<and> c \<le> ?lo OR m"
    then have "unat (drop_bit 240 c) = unat (drop_bit 240 ?lo)"
      using mono [of ?lo c] mono [of c "?lo OR m"] div_lo by linarith
    then have "below 240 ?lo c" by (simp only: below_def word_unat_eq_iff)
    then show "top16 c = prefix" using top16_eq_iff [of c ?lo] by simp
  next
    assume "top16 c = prefix"
    then have b: "240 \<le> i \<Longrightarrow> i < 256 \<Longrightarrow> bit c i = bit ?lo i" for i
      using top16_eq_iff [of c ?lo] by (simp add: below_iff)
    have lo: "bit ?lo i \<longleftrightarrow> 240 \<le> i \<and> bit c i" for i
      using b [of i] bit_imp_le_length [of c i] by (auto simp: bit_path_from_top16)
    have "?lo = c AND NOT m" by (rule bit_word_eqI) (auto simp: bit_and_iff bit_not_iff bm lo)
    then have "?lo \<le> c" using word_and_le2 by metis
    moreover have "?lo OR m = c OR m" by (rule bit_word_eqI) (auto simp: bit_or_iff bm lo)
    then have "c \<le> ?lo OR m" using le_word_or2 by metis
    ultimately show "?lo \<le> c \<and> c \<le> ?lo OR m" by simp
  qed
  then show ?thesis by (simp only: bucket_of_def Let_def m_def)
qed

lemma off_path_coin:
  assumes "240 \<le> h" and "off_path (top16 c) h p"
  shows "\<not> below h p c"
proof
  assume "below h p c"
  moreover have "below 240 (path_from_top16 (top16 c)) c"
    using top16_eq_iff [of c "path_from_top16 (top16 c)"] by simp
  ultimately have "below h p (path_from_top16 (top16 c))"
    using assms(1) by (simp add: below_iff)
  then show False using assms(2) by (simp add: off_path_def)
qed

text \<open>Recomputing one bucket repairs a cache that was right for a set differing only there.\<close>

lemma update_bucket_ok:
  assumes "cache_ok H v2 nds C" and "sorted_wrt (<) cs"
    and "\<And>c. top16 c \<noteq> prefix \<Longrightarrow> c \<in> C \<longleftrightarrow> c \<in> set cs"
  shows "cache_ok H v2 (update_cache_for_bucket H v2 prefix (filter (\<lambda>c. top16 c = prefix) cs) nds) (set cs)"
proof (rule update_cache_ok)
  fix h p assume h: "240 \<le> h" "h \<le> 256" "path_at h p" "off_path prefix h p"
  have "dense H v2 h p C = dense H v2 h p (set cs)"
    using h off_path_coin [OF h(1)] by (intro dense_cong assms(3)) auto
  then show "node_ok H v2 nds (set cs) h p"
    using assms(1) h by (simp add: cache_ok_def node_ok_def)
next
  let ?P = "path_from_top16 prefix"
  have "compute_sparse_subtree H v2 240 (filter (\<lambda>c. top16 c = prefix) cs)
      = dense H v2 240 ?P (set (filter (\<lambda>c. top16 c = prefix) cs))"
    using assms(2) top16_eq_iff [of _ ?P]
    by (intro compute_sparse_subtree_dense) (auto simp: sorted_wrt_filter)
  also have "\<dots> = dense H v2 240 ?P (set cs)"
    using top16_eq_iff [of _ ?P] by (intro dense_cong) auto
  finally show "compute_sparse_subtree H v2 240 (filter (\<lambda>c. top16 c = prefix) cs)
      = dense H v2 240 ?P (set cs)" .
qed

lemma cache_ok_empty: "cache_ok H v2 (\<lambda>_. None) {}"
  by (simp add: cache_ok_def node_ok_def get_node_def dense_empty)

lemma utxo_ok_new: "utxo_ok H v2 UtxoAccumulator_new"
  by (simp add: utxo_ok_def UtxoAccumulator_new_def cache_ok_empty)

lemma insort_strict: "sorted_wrt (<) cs \<Longrightarrow> c \<notin> set cs \<Longrightarrow> sorted_wrt (<) (insort c cs)"
  for c :: "'a :: linorder"
  by (simp add: strict_sorted_iff sorted_insort distinct_insort)

lemma remove1_strict: "sorted_wrt (<) cs \<Longrightarrow> sorted_wrt (<) (remove1 c cs)"
  for c :: "'a :: linorder"
  by (simp add: strict_sorted_iff sorted_remove1 distinct_remove1)

lemma utxo_insert:
  assumes "utxo_ok H v2 s"
  shows "utxo_ok H v2 (fst (UtxoAccumulator_insert H v2 c s)) \<and>
    set (coins (fst (UtxoAccumulator_insert H v2 c s))) = insert c (set (coins s)) \<and>
    (snd (UtxoAccumulator_insert H v2 c s) \<longleftrightarrow> c \<notin> set (coins s))"
proof (cases "c \<in> set (coins s)")
  case False
  have "cache_ok H v2 (update_cache_for_bucket H v2 (top16 c)
      (bucket_of (insort c (coins s)) (top16 c)) (nodes s)) (set (insort c (coins s)))"
    unfolding bucket_of_eq
    using assms False by (intro update_bucket_ok [of _ _ _ "set (coins s)"])
      (auto simp: utxo_ok_def insort_strict set_insort_key)
  then show ?thesis
    using assms False
    by (simp add: UtxoAccumulator_insert_def utxo_ok_def insort_strict set_insort_key Let_def)
qed (use assms in \<open>auto simp: UtxoAccumulator_insert_def\<close>)

lemma utxo_remove:
  assumes "utxo_ok H v2 s"
  shows "utxo_ok H v2 (fst (UtxoAccumulator_remove H v2 c s)) \<and>
    set (coins (fst (UtxoAccumulator_remove H v2 c s))) = set (coins s) - {c} \<and>
    (snd (UtxoAccumulator_remove H v2 c s) \<longleftrightarrow> c \<in> set (coins s))"
proof (cases "c \<in> set (coins s)")
  case True
  have d: "distinct (coins s)" using assms by (simp add: utxo_ok_def strict_sorted_distinct)
  have "cache_ok H v2 (update_cache_for_bucket H v2 (top16 c)
      (bucket_of (remove1 c (coins s)) (top16 c)) (nodes s)) (set (remove1 c (coins s)))"
    unfolding bucket_of_eq
    using assms d by (intro update_bucket_ok [of _ _ _ "set (coins s)"])
      (auto simp: utxo_ok_def remove1_strict set_remove1_eq)
  then show ?thesis
    using assms True d
    by (simp add: UtxoAccumulator_remove_def utxo_ok_def remove1_strict set_remove1_eq Let_def)
qed (use assms in \<open>auto simp: UtxoAccumulator_remove_def\<close>)

lemma rebuild_tree_ok:
  assumes "sorted_wrt (<) (coins s)"
  shows "utxo_ok H v2 (rebuild_tree H v2 s)" and "coins (rebuild_tree H v2 s) = coins s"
proof -
  define upd where "upd = (\<lambda>prefix. update_cache_for_bucket H v2 prefix (filter (\<lambda>c. top16 c = prefix) (coins s)))"
  have *: "cache_ok H v2 (fold upd ps nds) (set (filter (\<lambda>c. top16 c \<in> D \<union> set ps) (coins s)))"
    if "cache_ok H v2 nds (set (filter (\<lambda>c. top16 c \<in> D) (coins s)))" for D ps nds
    using that
  proof (induction ps arbitrary: D nds)
    case (Cons p ps)
    have f: "filter (\<lambda>c. top16 c = p) (coins s)
        = filter (\<lambda>c. top16 c = p) (filter (\<lambda>c. top16 c \<in> insert p D) (coins s))"
      by (simp add: filter_filter) (rule filter_cong, auto)
    have "cache_ok H v2 (upd p nds) (set (filter (\<lambda>c. top16 c \<in> insert p D) (coins s)))"
      unfolding upd_def f using Cons.prems assms
      by (intro update_bucket_ok) (auto simp: sorted_wrt_filter)
    from Cons.IH [OF this] show ?case by (simp add: insert_commute Un_commute)
  qed simp
  have "cache_ok H v2 (\<lambda>_. None) (set (filter (\<lambda>c. top16 c \<in> {}) (coins s)))"
    by (simp add: cache_ok_empty)
  from * [OF this, of "remdups (map top16 (coins s))"]
  have "cache_ok H v2 (fold upd (remdups (map top16 (coins s))) (\<lambda>_. None)) (set (coins s))"
    by (simp add: filter_True)
  then show "utxo_ok H v2 (rebuild_tree H v2 s)"
    using assms by (simp add: utxo_ok_def rebuild_tree_def upd_def)
qed (simp add: rebuild_tree_def)

lemma utxo_root: "utxo_ok H v2 s \<Longrightarrow> UtxoAccumulator_root H v2 s = dense H v2 256 0 (set (coins s))"
  unfolding utxo_ok_def cache_ok_def node_ok_def UtxoAccumulator_root_def SMT_HEIGHT_def
  using path_at_256 by auto

subsection \<open>Inclusion proofs\<close>

text \<open>The sibling at height \<open>i\<close> on the path of a coin, in the reference tree.\<close>

definition ref_sibling :: "hasher \<Rightarrow> bool \<Rightarrow> h256 set \<Rightarrow> h256 \<Rightarrow> nat \<Rightarrow> ProofElement" where
  "ref_sibling H v2 C t i =
     \<lparr>pe_hash = dense H v2 i (flip_bit (mask_lower_bits t i) i) C, is_right = (get_bit t i = 0)\<rparr>"

lemma mask_unique:
  assumes "below h p t" and "path_at h p" and "h \<le> 256"
  shows "mask_lower_bits t h = p"
proof -
  have "bit (mask_lower_bits t h) i \<longleftrightarrow> h \<le> i \<and> i < 256 \<and> bit t i" for i
    using assms(3) bit_imp_le_length [of t i]
    by (auto simp: mask_lower_bits_eq bit_push_bit_iff bit_drop_bit_eq)
  then have "path_at h (mask_lower_bits t h)" "below h (mask_lower_bits t h) t"
    by (simp_all add: path_at_def below_iff)
  then show ?thesis
    using below_path_eq [of h "mask_lower_bits t h" p] assms(1,2) by (simp add: below_def)
qed

lemma mask_below: "h \<le> 256 \<Longrightarrow> path_at h (mask_lower_bits t h) \<and> below h (mask_lower_bits t h) t"
  using bit_imp_le_length [of t]
  by (auto simp: path_at_def below_iff mask_lower_bits_eq bit_push_bit_iff bit_drop_bit_eq
      simp del: push_bit_Suc drop_bit_Suc)

lemma mask_Suc: "h < 256 \<Longrightarrow> mask_lower_bits (mask_lower_bits t h) (h + 1) = mask_lower_bits t (h + 1)"
proof -
  assume h: "h < 256"
  have m: "path_at h (mask_lower_bits t h)" "below h (mask_lower_bits t h) t"
    using mask_below [of h t] h by simp_all
  have "below (Suc h) (mask_lower_bits (mask_lower_bits t h) (h + 1)) t"
    using mask_path(2) [OF m(1) h, of t] m(2) below_Suc [OF h] by simp
  then show ?thesis
    using mask_unique [OF _ mask_path(1) [OF m(1) h], of t] h by simp
qed

lemma ref_sibling_cong:
  assumes "i < h" and "h \<le> 256" and "\<And>c. below h t c \<Longrightarrow> c \<in> C \<longleftrightarrow> c \<in> D"
  shows "ref_sibling H v2 C t i = ref_sibling H v2 D t i"
proof -
  let ?q = "flip_bit (mask_lower_bits t i) i"
  have i: "i < 256" using assms by simp
  have m: "path_at i (mask_lower_bits t i)" "below i (mask_lower_bits t i) t"
    using mask_below [of i t] i by simp_all
  have "below h t c" if "below i ?q c" for c
    unfolding below_iff
  proof (intro allI impI)
    fix k assume k: "h \<le> k \<and> k < 256"
    have "bit c k = bit ?q k" using that k assms(1) by (simp add: below_iff)
    also have "\<dots> = bit (mask_lower_bits t i) k"
      using k assms(1) i by (auto simp: flip_bit_eq bit_xor_iff bit_exp_iff)
    also have "\<dots> = bit t k" using m(2) k assms(1) by (simp add: below_iff)
    finally show "bit c k = bit t k" .
  qed
  then show ?thesis
    using i assms(3) mask_path(7) [OF m(1) i]
    unfolding ref_sibling_def by (simp add: dense_cong [of i ?q C D])
qed

lemma extract_path_siblings_ref:
  assumes "sorted_wrt (<) cs" and "\<forall>c\<in>set cs. below h p c" and "path_at h p" and "below h p t"
    and "h \<le> 256"
  shows "extract_path_siblings H v2 h cs t = map (ref_sibling H v2 (set cs) t) [0..<h]"
  using assms
proof (induction h arbitrary: cs p)
  case (Suc h)
  have h: "h < 256" using Suc.prems(5) by simp
  note split = split_at_bit [OF Suc.prems(1,2) h]
  note ch = below_children [OF Suc.prems(3) h] and pa = path_at_children [OF Suc.prems(3) h]
  let ?L = "filter (\<lambda>c. \<not> bit c h) cs" and ?R = "filter (\<lambda>c. bit c h) cs"
  have hash: "compute_sparse_subtree H v2 h ?L = dense H v2 h p (set ?L)"
    "compute_sparse_subtree H v2 h ?R = dense H v2 h (p OR 2 ^ h) (set ?R)"
    "dense H v2 h p (set ?L) = dense H v2 h p (set cs)"
    "dense H v2 h (p OR 2 ^ h) (set ?R) = dense H v2 h (p OR 2 ^ h) (set cs)"
    using compute_sparse_subtree_dense [of ?L h p] compute_sparse_subtree_dense [of ?R h "p OR 2 ^ h"]
      dense_cong [OF pa(1), of "set ?L" "set cs"] dense_cong [OF pa(2), of "set ?R" "set cs"]
      Suc.prems(1,2) ch pa h
    by (simp_all add: sorted_wrt_filter)
  have nb: "\<not> bit p h" using Suc.prems(3) by (simp add: path_at_def)
  have fl: "flip_bit p h = p OR 2 ^ h" "flip_bit (p OR 2 ^ h) h = p"
    using nb h by (auto intro!: bit_word_eqI simp: flip_bit_eq bit_xor_iff bit_or_iff bit_exp_iff)
  show ?case
  proof (cases "bit t h")
    case False
    then have bt: "below h p t" using ch(1) Suc.prems(4) by simp
    have m: "mask_lower_bits t h = p" using mask_unique [OF bt pa(1)] h by simp
    have "extract_path_siblings H v2 h ?L t = map (ref_sibling H v2 (set ?L) t) [0..<h]"
      using Suc.prems ch pa h bt by (intro Suc.IH [of _ p]) (auto simp: sorted_wrt_filter)
    also have "\<dots> = map (ref_sibling H v2 (set cs) t) [0..<h]"
    proof (rule map_cong [OF refl])
      fix i assume "i \<in> set [0..<h]"
      then show "ref_sibling H v2 (set ?L) t i = ref_sibling H v2 (set cs) t i"
        using False h by (intro ref_sibling_cong [of i h]) (auto simp: below_iff)
    qed
    finally show ?thesis
      using False split hash m fl h
      by (simp add: Let_def get_bit_zero ref_sibling_def)
  next
    case True
    then have bt: "below h (p OR 2 ^ h) t" using ch(2) Suc.prems(4) by simp
    have m: "mask_lower_bits t h = p OR 2 ^ h" using mask_unique [OF bt pa(2)] h by simp
    have "extract_path_siblings H v2 h ?R t = map (ref_sibling H v2 (set ?R) t) [0..<h]"
      using Suc.prems ch pa h bt by (intro Suc.IH [of _ "p OR 2 ^ h"]) (auto simp: sorted_wrt_filter)
    also have "\<dots> = map (ref_sibling H v2 (set cs) t) [0..<h]"
    proof (rule map_cong [OF refl])
      fix i assume "i \<in> set [0..<h]"
      then show "ref_sibling H v2 (set ?R) t i = ref_sibling H v2 (set cs) t i"
        using True h by (intro ref_sibling_cong [of i h]) (auto simp: below_iff)
    qed
    finally show ?thesis
      using True split hash m fl h
      by (simp add: Let_def get_bit_zero ref_sibling_def)
  qed
qed simp

lemma prove_fold:
  assumes "cache_ok H v2 nds C" and "k \<le> 16"
  shows "fold (prove_step H v2 nds t) [240..<240 + k] (map (ref_sibling H v2 C t) [0..<240], mask_lower_bits t 240)
    = (map (ref_sibling H v2 C t) [0..<240 + k], mask_lower_bits t (240 + k))"
  using assms(2)
proof (induction k)
  case (Suc k)
  let ?h = "240 + k"
  have h: "?h < 256" using Suc.prems by simp
  have m: "path_at ?h (mask_lower_bits t ?h)" using mask_below [of ?h t] h by simp
  have up: "[240..<240 + Suc k] = [240..<?h] @ [?h]" "[0..<240 + Suc k] = [0..<?h] @ [?h]"
    using upt_Suc_append [of 240 ?h] upt_Suc_append [of 0 ?h] by simp_all
  have "node_ok H v2 nds C ?h (flip_bit (mask_lower_bits t ?h) ?h)"
    using assms(1) h mask_path(7) [OF m h] by (simp add: cache_ok_def)
  then show ?case
    using Suc h mask_Suc [OF h, of t]
    unfolding up by (simp add: prove_step_def node_ok_def ref_sibling_def)
qed simp

lemma prove_siblings:
  assumes "utxo_ok H v2 s" and "c \<in> set (coins s)"
  shows "UtxoAccumulator_prove H v2 s c = Some \<lparr>leaf_index = 0, leaf_count = length (coins s),
    siblings = map (ref_sibling H v2 (set (coins s)) c) [0..<256]\<rparr>"
proof -
  let ?P = "path_from_top16 (top16 c)" and ?b = "filter (\<lambda>d. top16 d = top16 c) (coins s)"
  have bP: "below 240 ?P d \<longleftrightarrow> top16 d = top16 c" for d using top16_eq_iff [of d ?P] by simp
  have "extract_path_siblings H v2 240 ?b c = map (ref_sibling H v2 (set ?b) c) [0..<240]"
    using assms(1) bP by (intro extract_path_siblings_ref [of _ _ ?P])
      (auto simp: utxo_ok_def sorted_wrt_filter)
  also have "\<dots> = map (ref_sibling H v2 (set (coins s)) c) [0..<240]"
    using top16_eq_iff [of _ c] by (intro map_cong [OF refl] ref_sibling_cong [of _ 240]) auto
  finally have low: "extract_path_siblings H v2 240 ?b c = map (ref_sibling H v2 (set (coins s)) c) [0..<240]" .
  have P: "?P = mask_lower_bits c 240"
    using mask_unique [of 240 ?P c] bP [of c] by simp
  have "fold (prove_step H v2 (nodes s) c) [240..<256] (map (ref_sibling H v2 (set (coins s)) c) [0..<240], ?P)
      = (map (ref_sibling H v2 (set (coins s)) c) [0..<256], mask_lower_bits c 256)"
    using prove_fold [of H v2 "nodes s" "set (coins s)" 16 c] assms(1) P by (simp add: utxo_ok_def)
  then show ?thesis
    using assms(2) low
    by (simp add: UtxoAccumulator_prove_def UtxoAccumulator_contains_def bucket_of_eq
        CACHE_MIN_HEIGHT_def SMT_HEIGHT_def Let_def)
qed

lemma dense_path:
  assumes "h < 256"
  shows "dense H v2 (Suc h) (mask_lower_bits c (h + 1)) C =
    (if get_bit c h = 0
     then hash_node H v2 (dense H v2 h (mask_lower_bits c h) C) (pe_hash (ref_sibling H v2 C c h))
     else hash_node H v2 (pe_hash (ref_sibling H v2 C c h)) (dense H v2 h (mask_lower_bits c h) C))"
proof -
  have m: "path_at h (mask_lower_bits c h)" "below h (mask_lower_bits c h) c"
    using mask_below [of h c] assms by simp_all
  have "bit (mask_lower_bits c h) h = bit c h"
    using m(2) assms by (simp add: below_iff)
  then have "get_bit (mask_lower_bits c h) h = get_bit c h" using assms by (simp add: get_bit_eq)
  then show ?thesis
    using dense_parent [OF m(1) assms, of H v2 C] mask_Suc [OF assms, of c]
    by (simp add: ref_sibling_def)
qed

lemma mask_lower_bits_256: "mask_lower_bits c 256 = 0"
  using mask_below [of 256 c] by (simp add: path_at_256)

lemma verify_ref_path:
  assumes "k + n = 256"
  shows "verify_path H v2 c k (map (ref_sibling H v2 C c) [k..<256]) (dense H v2 k (mask_lower_bits c k) C)
    = Some (dense H v2 256 0 C)"
  using assms
proof (induction n arbitrary: k)
  case (Suc n)
  then have k: "k < 256" by simp
  have up: "[k..<256] = k # [Suc k..<256]" using k by (simp add: upt_conv_Cons)
  show ?case
    using Suc.IH [of "Suc k"] Suc.prems dense_path [OF k, of H v2 c C]
    unfolding up by (auto simp: ref_sibling_def)
qed (simp add: mask_lower_bits_256)

lemma ref_proof_verifies:
  assumes "c \<in> C"
  shows "verify_utxo_proof H v2 c \<lparr>leaf_index = i, leaf_count = n, siblings = map (ref_sibling H v2 C c) [0..<256]\<rparr>
    (dense H v2 256 0 C)"
  using verify_ref_path [of 0 256 H v2 c C] assms
  by (simp add: verify_utxo_proof_def SMT_HEIGHT_def mask_lower_bits_def)

text \<open>The preimages a bogus proof collides on: the first level where the proof hashes other
  children than the tree has and the hashes agree.\<close>

fun find_collision ::
    "hasher \<Rightarrow> bool \<Rightarrow> h256 set \<Rightarrow> h256 \<Rightarrow> nat \<Rightarrow> ProofElement list \<Rightarrow> h256 \<Rightarrow> (bytes \<times> bytes) option" where
  "find_collision H v2 C c h [] current = None"
| "find_collision H v2 C c h (e # es) current =
     (let here = dense H v2 h (mask_lower_bits c h) C; sib = pe_hash (ref_sibling H v2 C c h);
          (l, r) = (if is_right e then (current, pe_hash e) else (pe_hash e, current));
          (l', r') = (if get_bit c h = 0 then (here, sib) else (sib, here))
      in if (l, r) \<noteq> (l', r') \<and> hash_node H v2 l r = hash_node H v2 l' r'
         then Some (node_bytes v2 l r, node_bytes v2 l' r')
         else find_collision H v2 C c (h + 1) es (hash_node H v2 l r))"

lemma node_bytes_inject: "node_bytes v2 l r = node_bytes v2 l' r' \<longleftrightarrow> l = l' \<and> r = r'"
  by (auto simp: node_bytes_def)

lemma bogus_path_collides:
  assumes "verify_path H v2 c h es current = Some (dense H v2 256 0 C)" and "h + length es = 256"
    and "current \<noteq> dense H v2 h (mask_lower_bits c h) C"
  shows "\<exists>x y. find_collision H v2 C c h es current = Some (x, y) \<and> x \<noteq> y \<and> H x = H y"
  using assms
proof (induction es arbitrary: h current)
  case Nil
  then show ?case by (simp add: mask_lower_bits_256)
next
  case (Cons e es)
  have h: "h < 256" using Cons.prems(2) by simp
  let ?here = "dense H v2 h (mask_lower_bits c h) C" and ?sib = "pe_hash (ref_sibling H v2 C c h)"
  let ?l = "if is_right e then current else pe_hash e" and ?r = "if is_right e then pe_hash e else current"
  let ?l' = "if get_bit c h = 0 then ?here else ?sib" and ?r' = "if get_bit c h = 0 then ?sib else ?here"
  have dir: "is_right e \<longleftrightarrow> get_bit c h = 0"
    and rest: "verify_path H v2 c (h + 1) es (hash_node H v2 ?l ?r) = Some (dense H v2 256 0 C)"
    using Cons.prems(1) by (auto split: if_splits)
  have diff: "(?l, ?r) \<noteq> (?l', ?r')" using dir Cons.prems(3) by auto
  have parent: "dense H v2 (h + 1) (mask_lower_bits c (h + 1)) C = hash_node H v2 ?l' ?r'"
    using dense_path [OF h, of H v2 c C] by simp
  have unfold: "find_collision H v2 C c h (e # es) current =
      (if hash_node H v2 ?l ?r = hash_node H v2 ?l' ?r' then Some (node_bytes v2 ?l ?r, node_bytes v2 ?l' ?r')
       else find_collision H v2 C c (h + 1) es (hash_node H v2 ?l ?r))"
  proof (cases "is_right e")
    case True
    then have z: "get_bit c h = 0" using dir by simp
    show ?thesis
      using diff unfolding find_collision.simps Let_def if_P [OF True] if_P [OF z] prod.case
      by (simp only: simp_thms)
  next
    case False
    then have z: "get_bit c h \<noteq> 0" using dir by simp
    show ?thesis
      using diff unfolding find_collision.simps Let_def if_not_P [OF False] if_not_P [OF z] prod.case
      by (simp only: simp_thms)
  qed
  show ?case
  proof (cases "hash_node H v2 ?l ?r = hash_node H v2 ?l' ?r'")
    case True
    have "node_bytes v2 ?l ?r \<noteq> node_bytes v2 ?l' ?r'"
      using diff unfolding node_bytes_inject prod.inject .
    moreover have "H (node_bytes v2 ?l ?r) = H (node_bytes v2 ?l' ?r')"
      using True unfolding hash_node_def .
    ultimately show ?thesis unfolding unfold if_P [OF True] by blast
  next
    case False
    then have "hash_node H v2 ?l ?r \<noteq> dense H v2 (h + 1) (mask_lower_bits c (h + 1)) C"
      using parent by simp
    from Cons.IH [OF rest _ this] show ?thesis
      unfolding unfold if_not_P [OF False] using Cons.prems(2) by simp
  qed
qed

subsection \<open>Properties of the accumulator\<close>

text \<open>Inserting and removing a coin keep the ordered set and the node cache consistent, change
  the set by exactly that coin and report whether it changed.\<close>

theorem utxo_operations_keep_invariant:
  assumes "utxo_ok H is_v2 s"
  shows "utxo_ok H is_v2 (fst (UtxoAccumulator_insert H is_v2 c s)) \<and>
    set (coins (fst (UtxoAccumulator_insert H is_v2 c s))) = insert c (set (coins s)) \<and>
    (snd (UtxoAccumulator_insert H is_v2 c s) \<longleftrightarrow> c \<notin> set (coins s)) \<and>
    utxo_ok H is_v2 (fst (UtxoAccumulator_remove H is_v2 c s)) \<and>
    set (coins (fst (UtxoAccumulator_remove H is_v2 c s))) = set (coins s) - {c} \<and>
    (snd (UtxoAccumulator_remove H is_v2 c s) \<longleftrightarrow> c \<in> set (coins s))"
  using utxo_insert [OF assms, of c] utxo_remove [OF assms, of c] by blast

theorem utxo_operations_keep_invariant_witness:
  "utxo_ok (\<lambda>_. 7) True (fst (UtxoAccumulator_insert (\<lambda>_. 7) True 9 UtxoAccumulator_new))"
  using utxo_operations_keep_invariant [OF utxo_ok_new] by blast

text \<open>The operations on an accumulator, and what each does to the plain set of coins.\<close>

datatype utxo_op = InsertCoin h256 | RemoveCoin h256 | RebuildTree

fun utxo_do :: "hasher \<Rightarrow> bool \<Rightarrow> utxo_op \<Rightarrow> UtxoAccumulator \<Rightarrow> UtxoAccumulator" where
  "utxo_do H is_v2 (InsertCoin c) s = fst (UtxoAccumulator_insert H is_v2 c s)"
| "utxo_do H is_v2 (RemoveCoin c) s = fst (UtxoAccumulator_remove H is_v2 c s)"
| "utxo_do H is_v2 RebuildTree s = rebuild_tree H is_v2 s"

fun coins_do :: "utxo_op \<Rightarrow> h256 set \<Rightarrow> h256 set" where
  "coins_do (InsertCoin c) cs = insert c cs"
| "coins_do (RemoveCoin c) cs = cs - {c}"
| "coins_do RebuildTree cs = cs"

lemma utxo_do_ok:
  assumes "utxo_ok H is_v2 s"
  shows "utxo_ok H is_v2 (utxo_do H is_v2 op s) \<and> set (coins (utxo_do H is_v2 op s)) = coins_do op (set (coins s))"
proof (cases op)
  case RebuildTree
  then show ?thesis using rebuild_tree_ok [of s H is_v2] assms by (simp add: utxo_ok_def)
qed (use utxo_insert [OF assms] utxo_remove [OF assms] in simp_all)

lemma utxo_run_ok:
  "utxo_ok H is_v2 s \<Longrightarrow> utxo_ok H is_v2 (fold (utxo_do H is_v2) ops s)
    \<and> set (coins (fold (utxo_do H is_v2) ops s)) = fold coins_do ops (set (coins s))"
  by (induction ops arbitrary: s) (simp_all add: utxo_do_ok)

lemma root_from_sorted:
  assumes "sorted_wrt (<) (coins s)"
  shows "UtxoAccumulator_root H is_v2 (rebuild_tree H is_v2 s) = dense H is_v2 256 0 (set (coins s))"
  using utxo_root [OF rebuild_tree_ok(1) [OF assms]] rebuild_tree_ok(2) [OF assms] by simp

text \<open>C27. Whatever sequence of insertions, removals and rebuilds an empty accumulator goes through, its root,
  read from the cached nodes, is the root of the full tree over the coins then in the set: it depends on
  the set alone, a rebuild does not change it, and building the tree from the bare set or hashing the sorted
  coins from scratch gives the same. Insertion and removal report whether the set changed.\<close>

theorem cached_root_is_dense_root:
  "let s = fold (utxo_do H is_v2) ops UtxoAccumulator_new; cs = fold coins_do ops {} in
     set (coins s) = cs \<and> sorted_wrt (<) (coins s) \<and>
     UtxoAccumulator_root H is_v2 s = dense H is_v2 256 0 cs \<and>
     UtxoAccumulator_root H is_v2 (rebuild_tree H is_v2 s) = dense H is_v2 256 0 cs \<and>
     UtxoAccumulator_root H is_v2 (from_canonical_coins H is_v2 (coins s)) = dense H is_v2 256 0 cs \<and>
     compute_sparse_subtree H is_v2 256 (coins s) = dense H is_v2 256 0 cs \<and>
     (\<forall>c. (UtxoAccumulator_contains s c \<longleftrightarrow> c \<in> cs) \<and> (snd (UtxoAccumulator_insert H is_v2 c s) \<longleftrightarrow> c \<notin> cs)
        \<and> (snd (UtxoAccumulator_remove H is_v2 c s) \<longleftrightarrow> c \<in> cs))"
proof -
  define s where "s = fold (utxo_do H is_v2) ops UtxoAccumulator_new"
  have run: "utxo_ok H is_v2 s" "set (coins s) = fold coins_do ops {}"
    using utxo_run_ok [OF utxo_ok_new, of H is_v2 ops] by (simp_all add: s_def UtxoAccumulator_new_def)
  have strict: "sorted_wrt (<) (coins s)" using run(1) by (simp add: utxo_ok_def)
  have sparse: "compute_sparse_subtree H is_v2 256 (coins s) = dense H is_v2 256 0 (set (coins s))"
    using compute_sparse_subtree_dense [OF strict, of 256 0] by (simp add: below_256 path_at_256)
  show ?thesis
    using strict sparse utxo_root [OF run(1)] root_from_sorted [OF strict]
      root_from_sorted [of "\<lparr>coins = coins s, nodes = (\<lambda>_. None)\<rparr>"] utxo_insert [OF run(1)] utxo_remove [OF run(1)]
    by (simp add: s_def [symmetric] run(2) [symmetric] from_canonical_coins_def UtxoAccumulator_contains_def)
qed

text \<open>A proof exists exactly for the coins in the set, and it verifies against the root.\<close>

theorem inclusion_proof_complete:
  assumes "utxo_ok H is_v2 s"
  shows "(if c \<in> set (coins s)
      then \<exists>proof. UtxoAccumulator_prove H is_v2 s c = Some proof \<and>
        verify_utxo_proof H is_v2 c proof (UtxoAccumulator_root H is_v2 s)
      else UtxoAccumulator_prove H is_v2 s c = None)"
  using prove_siblings [OF assms, of c] ref_proof_verifies [of c "set (coins s)"] utxo_root [OF assms]
  by (auto simp: UtxoAccumulator_prove_def UtxoAccumulator_contains_def)

theorem inclusion_proof_complete_witness:
  "\<exists>proof. UtxoAccumulator_prove (\<lambda>_. 7) True (fst (UtxoAccumulator_insert (\<lambda>_. 7) True 9 UtxoAccumulator_new)) 9 = Some proof"
proof -
  have "9 \<in> set (coins (fst (UtxoAccumulator_insert (\<lambda>_. 7) True 9 UtxoAccumulator_new)))"
    by (simp add: UtxoAccumulator_insert_def UtxoAccumulator_new_def Let_def)
  then show ?thesis
    using inclusion_proof_complete [OF utxo_insert [OF utxo_ok_new, THEN conjunct1], of 9 "\<lambda>_. 7" True 9]
    by auto
qed

text \<open>C28. A proof that verifies for a non-zero coin outside the set exhibits two different inputs
  with the same hash, which \<open>find_collision\<close> computes from it.\<close>

theorem inclusion_proof_sound:
  assumes "utxo_ok H is_v2 s" and "verify_utxo_proof H is_v2 c proof (UtxoAccumulator_root H is_v2 s)"
    and "c \<notin> set (coins s)" and "c \<noteq> 0"
  shows "\<exists>x y. find_collision H is_v2 (set (coins s)) c 0 (siblings proof) c = Some (x, y) \<and> x \<noteq> y \<and> H x = H y"
  using assms by (intro bogus_path_collides)
    (auto simp: verify_utxo_proof_def SMT_HEIGHT_def utxo_root mask_lower_bits_def)

theorem inclusion_proof_sound_witness:
  "\<exists>x y. find_collision (\<lambda>_. 7) True {} 9 0 (map (ref_sibling (\<lambda>_. 7) True {9} 9) [0..<256]) 9 = Some (x, y) \<and> x \<noteq> y"
proof -
  let ?p = "\<lparr>leaf_index = 0, leaf_count = 1, siblings = map (ref_sibling (\<lambda>_. 7) True {9} 9) [0..<256]\<rparr>"
  have root: "dense (\<lambda>_. 7) True 256 0 C = 7" for C
    using dense.simps(2) [of "\<lambda>_. 7" True 255 0 C] by (simp add: hash_node_def)
  have "UtxoAccumulator_root (\<lambda>_. 7) True UtxoAccumulator_new = 7"
    using utxo_root [OF utxo_ok_new] root by metis
  then have "verify_utxo_proof (\<lambda>_. 7) True 9 ?p (UtxoAccumulator_root (\<lambda>_. 7) True UtxoAccumulator_new)"
    using ref_proof_verifies [of 9 "{9}" "\<lambda>_. 7" True 0 1] root by simp
  from inclusion_proof_sound [OF utxo_ok_new this] show ?thesis
    by (auto simp: UtxoAccumulator_new_def)
qed

end
