(* ===== verification/Bond_Script.thy ===== *)
theory Bond_Script
  imports Smt
begin

text \<open>
  The locking script of a mining bond and the proof that a bond coin is unspent,
  \<^verbatim>\<open>src/src/core/bond.rs\<close>: the template's bytecode, the parser that takes exactly that template,
  the coin id, the state root a midstate header commits to, and the verification of a bond proof
  against it.
\<close>

subsection \<open>The script\<close>

definition OP_PUSH_DATA :: byte where "OP_PUSH_DATA = 0x01"
definition OP_DROP :: byte where "OP_DROP = 0x10"
definition OP_CHECKSIGVERIFY :: byte where "OP_CHECKSIGVERIFY = 0x32"
definition OP_CHECKTIMEVERIFY :: byte where "OP_CHECKTIMEVERIFY = 0x33"

record BondScript =
  mining_key :: h256
  bonded_until :: nat
  owner_pk :: h256

datatype bond_error =
    NotABondScript
  | TruncatedScript
  | KeyNot32Bytes
  | LockNotU64
  | NotCanonical
  | BurnedWotsMismatch nat
  | NotV2State
  | RootsMismatch
  | CoinNotInUtxoSet

definition push_data :: "bytes \<Rightarrow> bytes \<Rightarrow> bytes" where
  "push_data bc data = bc @ [OP_PUSH_DATA] @ le_bytes 2 (length data) @ data"

fun int_len :: "bytes \<Rightarrow> nat \<Rightarrow> nat" where
  "int_len b len = (if 1 < len \<and> b ! (len - 1) = 0 then int_len b (len - 1) else len)"

declare int_len.simps [simp del]

definition int_bytes :: "nat \<Rightarrow> bytes" where
  "int_bytes v = (let b = le_bytes 8 v in take (int_len b 8) b)"

definition to_bytecode :: "BondScript \<Rightarrow> bytes" where
  "to_bytecode s =
     (let bc = push_data [] (be_bytes (mining_key s));
          bc = bc @ [OP_DROP];
          bc = push_data bc (int_bytes (bonded_until s));
          bc = bc @ [OP_CHECKTIMEVERIFY];
          bc = push_data bc (be_bytes (owner_pk s));
          bc = bc @ [OP_CHECKSIGVERIFY]
      in push_data bc (int_bytes 1))"

text \<open>The reader holds the bytes and its position.\<close>

record Reader =
  rd_bytes :: bytes
  rd_at :: nat

definition rd_op :: "byte \<Rightarrow> Reader \<Rightarrow> bond_error + Reader" where
  "rd_op want r =
     (if rd_at r < length (rd_bytes r) \<and> rd_bytes r ! rd_at r = want
      then Inr (r\<lparr>rd_at := rd_at r + 1\<rparr>)
      else Inl NotABondScript)"

text \<open>A slice \<^verbatim>\<open>bytes.get(a..a + n)\<close>.\<close>

definition byte_slice :: "bytes \<Rightarrow> nat \<Rightarrow> nat \<Rightarrow> bytes option" where
  "byte_slice bs a n = (if a + n \<le> length bs then Some (take n (drop a bs)) else None)"

definition rd_push :: "Reader \<Rightarrow> bond_error + bytes \<times> Reader" where
  "rd_push r =
     and_then (rd_op OP_PUSH_DATA r) (\<lambda>r.
     and_then (ok_or TruncatedScript (byte_slice (rd_bytes r) (rd_at r) 2)) (\<lambda>lb.
       let len = of_le_bytes lb; r = r\<lparr>rd_at := rd_at r + 2\<rparr> in
       and_then (ok_or TruncatedScript (byte_slice (rd_bytes r) (rd_at r) len)) (\<lambda>data.
         Inr (data, r\<lparr>rd_at := rd_at r + len\<rparr>))))"

definition rd_push32 :: "Reader \<Rightarrow> bond_error + h256 \<times> Reader" where
  "rd_push32 r =
     and_then (rd_push r) (\<lambda>(data, r).
       if length data = 32 then Inr (h256_of_be data, r) else Inl KeyNot32Bytes)"

definition BondScript_parse :: "bytes \<Rightarrow> bond_error + BondScript" where
  "BondScript_parse bytecode =
     and_then (rd_push32 \<lparr>rd_bytes = bytecode, rd_at = 0\<rparr>) (\<lambda>(mining_key, r).
     and_then (rd_op OP_DROP r) (\<lambda>r.
     and_then (rd_push r) (\<lambda>(until, r).
       if until = [] \<or> 8 < length until then Inl LockNotU64
       else
         let bonded_until = of_le_bytes (until @ replicate (8 - length until) 0) in
         and_then (rd_op OP_CHECKTIMEVERIFY r) (\<lambda>r.
         and_then (rd_push32 r) (\<lambda>(owner_pk, r).
         and_then (rd_op OP_CHECKSIGVERIFY r) (\<lambda>r.
           let parsed = \<lparr>mining_key = mining_key, bonded_until = bonded_until, owner_pk = owner_pk\<rparr>
           in if to_bytecode parsed \<noteq> bytecode then Inl NotCanonical else Inr parsed))))))"

definition BondScript_address :: "hasher \<Rightarrow> BondScript \<Rightarrow> h256" where
  "BondScript_address H s = H (to_bytecode s)"

subsection \<open>Coins, roots and proofs\<close>

record BondCoin =
  bc_script :: BondScript
  bc_value :: nat
  bc_salt :: h256

definition midstate_coin_id :: "hasher \<Rightarrow> h256 \<Rightarrow> nat \<Rightarrow> h256 \<Rightarrow> h256" where
  "midstate_coin_id H address value salt = H (be_bytes address @ le_bytes 8 value @ be_bytes salt)"

definition BondCoin_coin_id :: "hasher \<Rightarrow> BondCoin \<Rightarrow> h256" where
  "BondCoin_coin_id H c = midstate_coin_id H (BondScript_address H (bc_script c)) (bc_value c) (bc_salt c)"

definition MIDSTATE_V2_ACTIVATION_HEIGHT :: nat where "MIDSTATE_V2_ACTIVATION_HEIGHT = 100000"
definition MIDSTATE_V4_ACTIVATION_HEIGHT :: nat where "MIDSTATE_V4_ACTIVATION_HEIGHT = 163675"

record MidstateRoots =
  coins_root :: h256
  commitments_root :: h256
  chain_mmr_root :: h256
  burned_wots :: "h256 option"

definition MidstateRoots_state_root :: "hasher \<Rightarrow> MidstateRoots \<Rightarrow> nat \<Rightarrow> bond_error + h256" where
  "MidstateRoots_state_root H r height =
     (let smt = hash_concat H (be_bytes (coins_root r)) (be_bytes (commitments_root r));
          root = hash_concat H (be_bytes smt) (be_bytes (chain_mmr_root r))
      in case (MIDSTATE_V4_ACTIVATION_HEIGHT \<le> height, burned_wots r) of
           (True, Some burned) \<Rightarrow> Inr (hash_concat H (be_bytes root) (be_bytes burned))
         | (False, None) \<Rightarrow> Inr root
         | _ \<Rightarrow> Inl (BurnedWotsMismatch height))"

record BondProof =
  bp_coin :: BondCoin
  midstate_height :: nat
  bp_roots :: MidstateRoots
  bp_smt :: UtxoProof

record Bond =
  bond_id :: h256
  bond_mining_key :: h256
  bond_value :: nat
  bond_until :: nat
  proven_at :: nat

definition BondProof_verify :: "hasher \<Rightarrow> BondProof \<Rightarrow> h256 \<Rightarrow> bond_error + Bond" where
  "BondProof_verify H p header_state_root =
     (if midstate_height p < MIDSTATE_V2_ACTIVATION_HEIGHT then Inl NotV2State
      else
        and_then (MidstateRoots_state_root H (bp_roots p) (midstate_height p)) (\<lambda>root.
          if root \<noteq> header_state_root then Inl RootsMismatch
          else
            let id = BondCoin_coin_id H (bp_coin p) in
            if \<not> verify_utxo_proof H True id (bp_smt p) (coins_root (bp_roots p))
            then Inl CoinNotInUtxoSet
            else Inr \<lparr>bond_id = id, bond_mining_key = mining_key (bc_script (bp_coin p)),
                       bond_value = bc_value (bp_coin p),
                       bond_until = bonded_until (bc_script (bp_coin p)),
                       proven_at = midstate_height p\<rparr>))"

subsection \<open>Reading what was written\<close>

lemma rd_op_ok [simp]:
  "rd_op want \<lparr>rd_bytes = pre @ want # rest, rd_at = length pre\<rparr> =
     Inr \<lparr>rd_bytes = pre @ want # rest, rd_at = length pre + 1\<rparr>"
  by (simp add: rd_op_def)

lemma rd_op_ok':
  "bs = pre @ want # rest \<Longrightarrow> k = length pre \<Longrightarrow>
   rd_op want \<lparr>rd_bytes = bs, rd_at = k\<rparr> = Inr \<lparr>rd_bytes = bs, rd_at = k + 1\<rparr>"
  by simp

lemma slice_ok: "bs = pre @ mid @ rest \<Longrightarrow> a = length pre \<Longrightarrow> n = length mid \<Longrightarrow> byte_slice bs a n = Some mid"
  by (simp add: byte_slice_def)

lemma rd_push_ok:
  assumes "bs = pre @ [OP_PUSH_DATA] @ le_bytes 2 (length d) @ d @ rest" and "k = length pre"
    and "length d < 65536"
  shows "rd_push \<lparr>rd_bytes = bs, rd_at = k\<rparr> = Inr (d, \<lparr>rd_bytes = bs, rd_at = k + 3 + length d\<rparr>)"
proof -
  have 1: "rd_op OP_PUSH_DATA \<lparr>rd_bytes = bs, rd_at = k\<rparr> = Inr \<lparr>rd_bytes = bs, rd_at = k + 1\<rparr>"
    by (rule rd_op_ok' [of _ pre _ "le_bytes 2 (length d) @ d @ rest"]) (use assms in simp_all)
  have 2: "byte_slice bs (k + 1) 2 = Some (le_bytes 2 (length d))"
    by (rule slice_ok [of _ "pre @ [OP_PUSH_DATA]" _ "d @ rest"]) (use assms in simp_all)
  have 3: "of_le_bytes (le_bytes 2 (length d)) = length d"
    using assms(3) by (simp add: of_le_bytes_le_bytes)
  have 4: "byte_slice bs (k + 3) (length d) = Some d"
    by (rule slice_ok [of _ "pre @ [OP_PUSH_DATA] @ le_bytes 2 (length d)" _ rest]) (use assms in simp_all)
  have 5: "k + 1 + 2 = k + 3" by simp
  show ?thesis
    unfolding rd_push_def 1 and_then.simps Let_def Reader.simps Reader.update_convs 2 ok_or_def
      option.case 3 5 4 ..
qed

lemma rd_push32_ok:
  assumes "bs = pre @ [OP_PUSH_DATA] @ le_bytes 2 32 @ be_bytes w @ rest" and "k = length pre"
  shows "rd_push32 \<lparr>rd_bytes = bs, rd_at = k\<rparr> = Inr (w, \<lparr>rd_bytes = bs, rd_at = k + 35\<rparr>)"
  using rd_push_ok [of bs pre "be_bytes w" rest k] assms by (simp add: rd_push32_def)

lemma int_len_spec:
  "1 \<le> n \<Longrightarrow> 1 \<le> int_len b n \<and> int_len b n \<le> n \<and> (\<forall>i. int_len b n \<le> i \<and> i < n \<longrightarrow> b ! i = 0)"
proof (induction b n rule: int_len.induct)
  case (1 b n)
  show ?case
  proof (cases "1 < n \<and> b ! (n - 1) = 0")
    case True
    then have IH: "1 \<le> int_len b (n - 1) \<and> int_len b (n - 1) \<le> n - 1 \<and>
        (\<forall>i. int_len b (n - 1) \<le> i \<and> i < n - 1 \<longrightarrow> b ! i = 0)"
      by (intro "1.IH") auto
    moreover have "int_len b n = int_len b (n - 1)" using True by (subst int_len.simps) simp
    moreover have "i < n - 1 \<or> i = n - 1" if "i < n" for i using that by linarith
    ultimately show ?thesis using True by (metis diff_le_self order_trans)
  next
    case False
    then have "int_len b n = n" by (subst int_len.simps) (simp only: if_False)
    then show ?thesis using "1.prems" by auto
  qed
qed

lemma int_bytes_spec:
  "1 \<le> length (int_bytes v) \<and> length (int_bytes v) \<le> 8 \<and>
   int_bytes v @ replicate (8 - length (int_bytes v)) 0 = le_bytes 8 v"
proof -
  let ?b = "le_bytes 8 v"
  let ?n = "int_len ?b 8"
  have n: "1 \<le> ?n" "?n \<le> 8" "\<And>i. ?n \<le> i \<Longrightarrow> i < 8 \<Longrightarrow> ?b ! i = 0"
    using int_len_spec [of 8 ?b] by auto
  have "drop ?n ?b = replicate (8 - ?n) 0"
    using n by (intro nth_equalityI) auto
  then have "take ?n ?b @ replicate (8 - ?n) 0 = ?b" by (metis append_take_drop_id)
  then show ?thesis using n by (simp add: int_bytes_def Let_def)
qed

lemma parse_to_bytecode:
  assumes "bonded_until s < 2 ^ 64"
  shows "BondScript_parse (to_bytecode s) = Inr s"
proof -
  let ?m = "be_bytes (mining_key s)" and ?o = "be_bytes (owner_pk s)"
    and ?u = "int_bytes (bonded_until s)" and ?one = "int_bytes 1"
  let ?bs = "to_bytecode s"
  let ?p1 = "[OP_PUSH_DATA] @ le_bytes 2 32 @ ?m"
  let ?p2 = "?p1 @ [OP_DROP]"
  let ?p3 = "?p2 @ [OP_PUSH_DATA] @ le_bytes 2 (length ?u) @ ?u"
  let ?p4 = "?p3 @ [OP_CHECKTIMEVERIFY]"
  let ?p5 = "?p4 @ [OP_PUSH_DATA] @ le_bytes 2 32 @ ?o"
  let ?r6 = "[OP_PUSH_DATA] @ le_bytes 2 (length ?one) @ ?one"
  have bs: "?bs = ?p5 @ OP_CHECKSIGVERIFY # ?r6"
    by (simp add: to_bytecode_def push_data_def Let_def)
  note u = int_bytes_spec [of "bonded_until s"]
  have 1: "rd_push32 \<lparr>rd_bytes = ?bs, rd_at = 0\<rparr> = Inr (mining_key s, \<lparr>rd_bytes = ?bs, rd_at = 35\<rparr>)"
    using rd_push32_ok [of ?bs "[]" "mining_key s" _ 0] unfolding bs by simp
  have 2: "rd_op OP_DROP \<lparr>rd_bytes = ?bs, rd_at = 35\<rparr> = Inr \<lparr>rd_bytes = ?bs, rd_at = 36\<rparr>"
    using rd_op_ok' [of ?bs ?p1 OP_DROP _ 35] unfolding bs by simp
  have 3: "rd_push \<lparr>rd_bytes = ?bs, rd_at = 36\<rparr> = Inr (?u, \<lparr>rd_bytes = ?bs, rd_at = 39 + length ?u\<rparr>)"
    using rd_push_ok [of ?bs ?p2 ?u _ 36] u unfolding bs by simp
  have 4: "rd_op OP_CHECKTIMEVERIFY \<lparr>rd_bytes = ?bs, rd_at = 39 + length ?u\<rparr>
      = Inr \<lparr>rd_bytes = ?bs, rd_at = 40 + length ?u\<rparr>"
    using rd_op_ok' [of ?bs ?p3 OP_CHECKTIMEVERIFY _ "39 + length ?u"] unfolding bs by simp
  have 5: "rd_push32 \<lparr>rd_bytes = ?bs, rd_at = 40 + length ?u\<rparr>
      = Inr (owner_pk s, \<lparr>rd_bytes = ?bs, rd_at = 75 + length ?u\<rparr>)"
    using rd_push32_ok [of ?bs ?p4 "owner_pk s" _ "40 + length ?u"] unfolding bs by simp
  have 6: "rd_op OP_CHECKSIGVERIFY \<lparr>rd_bytes = ?bs, rd_at = 75 + length ?u\<rparr>
      = Inr \<lparr>rd_bytes = ?bs, rd_at = 76 + length ?u\<rparr>"
    using rd_op_ok' [of ?bs ?p5 OP_CHECKSIGVERIFY _ "75 + length ?u"] unfolding bs by simp
  have v: "of_le_bytes (?u @ replicate (8 - length ?u) 0) = bonded_until s"
    using u assms by (simp add: of_le_bytes_le_bytes)
  have "?u \<noteq> []" "\<not> 8 < length ?u" using u by auto
  moreover have "to_bytecode \<lparr>mining_key = mining_key s, bonded_until = bonded_until s,
      owner_pk = owner_pk s\<rparr> = to_bytecode s"
    by (cases s) simp
  ultimately show ?thesis
    using 1 2 3 4 5 6 v by (simp add: BondScript_parse_def Let_def)
qed

text \<open>The parser's last step, whatever the reader did before it.\<close>

lemma parse_canonical:
  assumes "BondScript_parse bytecode = Inr s"
  shows "bytecode = to_bytecode s"
proof -
  note * = assms [unfolded BondScript_parse_def Let_def case_prod_beta]
  obtain x1 where *: "and_then (rd_op OP_DROP (snd x1)) (\<lambda>r. and_then (rd_push r) (\<lambda>p.
      if fst p = [] \<or> 8 < length (fst p) then Inl LockNotU64
      else and_then (rd_op OP_CHECKTIMEVERIFY (snd p)) (\<lambda>r. and_then (rd_push32 r) (\<lambda>q.
        and_then (rd_op OP_CHECKSIGVERIFY (snd q)) (\<lambda>r'.
          if to_bytecode \<lparr>mining_key = fst x1,
               bonded_until = of_le_bytes (fst p @ replicate (8 - length (fst p)) 0),
               owner_pk = fst q\<rparr> \<noteq> bytecode then Inl NotCanonical
          else Inr \<lparr>mining_key = fst x1,
               bonded_until = of_le_bytes (fst p @ replicate (8 - length (fst p)) 0),
               owner_pk = fst q\<rparr>))))) = Inr s"
    using * by (rule and_then_InrE)
  obtain x2 p where *: "(if fst p = [] \<or> 8 < length (fst p) then Inl LockNotU64
      else and_then (rd_op OP_CHECKTIMEVERIFY (snd p)) (\<lambda>r. and_then (rd_push32 r) (\<lambda>q.
        and_then (rd_op OP_CHECKSIGVERIFY (snd q)) (\<lambda>r'.
          if to_bytecode \<lparr>mining_key = fst x1,
               bonded_until = of_le_bytes (fst p @ replicate (8 - length (fst p)) 0),
               owner_pk = fst q\<rparr> \<noteq> bytecode then Inl NotCanonical
          else Inr \<lparr>mining_key = fst x1,
               bonded_until = of_le_bytes (fst p @ replicate (8 - length (fst p)) 0),
               owner_pk = fst q\<rparr>)))) = Inr s"
    using * by (elim and_then_InrE)
  obtain q :: "h256 \<times> Reader" where "(if to_bytecode \<lparr>mining_key = fst x1,
               bonded_until = of_le_bytes (fst p @ replicate (8 - length (fst p)) 0),
               owner_pk = fst q\<rparr> \<noteq> bytecode then Inl NotCanonical
          else Inr \<lparr>mining_key = fst x1,
               bonded_until = of_le_bytes (fst p @ replicate (8 - length (fst p)) 0),
               owner_pk = fst q\<rparr>) = Inr s"
    using * [unfolded if_Inr] by (elim conjE and_then_InrE) (rule that)
  then show ?thesis by (auto split: if_splits)
qed

text \<open>Parsing the bytecode of a bond script gives the script back, for every lock height that
  fits a \<^verbatim>\<open>u64\<close>; and whatever parses is that script's only encoding, so two different byte strings
  are never the same bond.\<close>

theorem bond_script_round_trip:
  assumes "bonded_until s < 2 ^ 64"
  shows "BondScript_parse bytecode = Inr s \<longleftrightarrow> bytecode = to_bytecode s"
proof
  show "BondScript_parse bytecode = Inr s \<Longrightarrow> bytecode = to_bytecode s" by (rule parse_canonical)
  show "bytecode = to_bytecode s \<Longrightarrow> BondScript_parse bytecode = Inr s"
    using parse_to_bytecode [OF assms] by simp
qed

theorem bond_script_round_trip_witness:
  "BondScript_parse (to_bytecode \<lparr>mining_key = 5, bonded_until = 400000, owner_pk = 6\<rparr>)
    = Inr \<lparr>mining_key = 5, bonded_until = 400000, owner_pk = 6\<rparr>"
  using bond_script_round_trip [of "\<lparr>mining_key = 5, bonded_until = 400000, owner_pk = 6\<rparr>"] by simp

text \<open>Different scripts never share their bytecode.\<close>

lemma to_bytecode_inject:
  assumes "bonded_until s < 2 ^ 64" and "bonded_until t < 2 ^ 64"
  shows "to_bytecode s = to_bytecode t \<longleftrightarrow> s = t"
proof
  assume "to_bytecode s = to_bytecode t"
  then have "BondScript_parse (to_bytecode s) = BondScript_parse (to_bytecode t)" by (rule arg_cong)
  then show "s = t"
    unfolding parse_to_bytecode [OF assms(1)] parse_to_bytecode [OF assms(2)] sum.inject .
qed (rule arg_cong)

end
