(* ===== verification/Pow.thy ===== *)
theory Pow
  imports Difficulty Bond_Script
begin

text \<open>
  Proof of work: the extension of \<^verbatim>\<open>src/src/core/extension.rs\<close>, the batched checker of
  \<^verbatim>\<open>src/src/core/simd_mining.rs\<close>, merged mining (\<^verbatim>\<open>src/src/core/auxpow.rs\<close>) and midstate headers with the
  evidence built from them (\<^verbatim>\<open>src/src/core/anchor.rs\<close>). BLAKE3 is \<open>H\<close>, and \<open>walk\<close> stands for the
  Midstate Walk function of a mining hash and a nonce.
\<close>

subsection \<open>Extensions\<close>

type_synonym walker = "h256 \<Rightarrow> nat \<Rightarrow> h256"

definition EXTENSION_ITERATIONS :: nat where "EXTENSION_ITERATIONS = 1000000"
definition ORPHAN_POW_SLACK :: nat where "ORPHAN_POW_SLACK = 64"

record Extension =
  ext_nonce :: nat
  ext_final_hash :: h256

datatype pow_error =
    MissesTarget
  | WorkInvalid
  | CommitmentNotLast
  | BlockIdMismatch
  | AuxMissesTarget
  | AuxWorkInvalid

fun iterate :: "nat \<Rightarrow> ('a \<Rightarrow> 'a) \<Rightarrow> 'a \<Rightarrow> 'a" where
  "iterate 0 f x = x"
| "iterate (Suc n) f x = iterate n f (f x)"

definition create_extension :: "hasher \<Rightarrow> h256 \<Rightarrow> nat \<Rightarrow> Extension" where
  "create_extension H midstate nonce =
     (let x = H (be_bytes midstate @ le_bytes 8 nonce)
      in \<lparr>ext_nonce = nonce, ext_final_hash = iterate EXTENSION_ITERATIONS (\<lambda>x. H (be_bytes x)) x\<rparr>)"

definition create_extension_with :: "hasher \<Rightarrow> walker \<Rightarrow> PowAlgo \<Rightarrow> h256 \<Rightarrow> nat \<Rightarrow> Extension" where
  "create_extension_with H walk algo midstate nonce =
     (case algo of
        Walk \<Rightarrow> \<lparr>ext_nonce = nonce, ext_final_hash = walk midstate nonce\<rparr>
      | Blake3Chain \<Rightarrow> create_extension H midstate nonce)"

definition verify_extension_with ::
    "hasher \<Rightarrow> walker \<Rightarrow> PowAlgo \<Rightarrow> h256 \<Rightarrow> Extension \<Rightarrow> h256 \<Rightarrow> pow_error + unit" where
  "verify_extension_with H walk algo midstate ext target =
     (if target \<le> ext_final_hash ext then Inl MissesTarget
      else if ext_final_hash (create_extension_with H walk algo midstate (ext_nonce ext)) \<noteq> ext_final_hash ext
      then Inl WorkInvalid
      else Inr ())"

definition algos_near :: "nat \<Rightarrow> PowAlgo list" where
  "algos_near tip_height =
     (let low = pow_algo_at (tip_height - ORPHAN_POW_SLACK);
          high = pow_algo_at (sat_add64 tip_height ORPHAN_POW_SLACK)
      in if low = high then [low] else [low, high])"

subsection \<open>Checking many proofs of work\<close>

record PowJob =
  algo :: PowAlgo
  mining_hash :: h256
  job_nonce :: nat
  job_final_hash :: h256

datatype PowCheck = Bad nat | Abandoned

definition PowJob_holds :: "hasher \<Rightarrow> walker \<Rightarrow> PowJob \<Rightarrow> bool" where
  "PowJob_holds H walk j \<longleftrightarrow>
     ext_final_hash (create_extension_with H walk (algo j) (mining_hash j) (job_nonce j)) = job_final_hash j"

function chunks :: "nat \<Rightarrow> 'a list \<Rightarrow> 'a list list" where
  "chunks k xs = (if xs = [] \<or> k = 0 then [] else take k xs # chunks k (drop k xs))"
  by pat_completeness auto
termination by (relation "measure (\<lambda>(k, xs). length xs)") auto

declare chunks.simps [simp del]

text \<open>The bad job of a chunk: one of the BLAKE3-chain jobs if any fails, else a walk job. The source
  takes any failing one of the first kind; here it is the first.\<close>

definition bad_in_chunk :: "hasher \<Rightarrow> walker \<Rightarrow> PowJob list \<Rightarrow> nat option" where
  "bad_in_chunk H walk chunk =
     (let bad = filter (\<lambda>i. \<not> PowJob_holds H walk (chunk ! i)) [0..<length chunk];
          chain = filter (\<lambda>i. algo (chunk ! i) = Blake3Chain) bad;
          walks = filter (\<lambda>i. algo (chunk ! i) \<noteq> Blake3Chain) bad
      in case chain of i # _ \<Rightarrow> Some i | [] \<Rightarrow> (case walks of i # _ \<Rightarrow> Some i | [] \<Rightarrow> None))"

fun check_chunks ::
    "hasher \<Rightarrow> walker \<Rightarrow> (nat \<Rightarrow> nat \<Rightarrow> bool) \<Rightarrow> nat \<Rightarrow> nat \<Rightarrow> PowJob list list \<Rightarrow> PowCheck + unit" where
  "check_chunks H walk proceed piece p [] = Inr ()"
| "check_chunks H walk proceed piece p (chunk # rest) =
     (if \<not> proceed (p + 1) (length chunk) then Inl Abandoned
      else
        case bad_in_chunk H walk chunk of
          Some i \<Rightarrow> Inl (Bad (1 + p * piece + i))
        | None \<Rightarrow> check_chunks H walk proceed piece (p + 1) rest)"

text \<open>\<open>proceed\<close> is asked before each piece, with the number of the piece and its size; \<open>piece\<close> is the
  piece size the source derives from the machine.\<close>

definition check_pow_jobs_with ::
    "hasher \<Rightarrow> walker \<Rightarrow> nat \<Rightarrow> (nat \<Rightarrow> nat \<Rightarrow> bool) \<Rightarrow> PowJob list \<Rightarrow> PowCheck + unit" where
  "check_pow_jobs_with H walk piece proceed jobs =
     (case jobs of
        [] \<Rightarrow> Inr ()
      | first # rest \<Rightarrow>
          if \<not> proceed 0 1 then Inl Abandoned
          else if \<not> PowJob_holds H walk first then Inl (Bad 0)
          else check_chunks H walk proceed piece 0 (chunks piece rest))"

definition check_pow_jobs :: "hasher \<Rightarrow> walker \<Rightarrow> nat \<Rightarrow> PowJob list \<Rightarrow> PowCheck + unit" where
  "check_pow_jobs H walk piece jobs = check_pow_jobs_with H walk piece (\<lambda>_ _. True) jobs"

lemma bad_in_chunk_None:
  "bad_in_chunk H walk chunk = None \<longleftrightarrow> (\<forall>j\<in>set chunk. PowJob_holds H walk j)"
proof -
  let ?bad = "filter (\<lambda>i. \<not> PowJob_holds H walk (chunk ! i)) [0..<length chunk]"
  have gen: "(case a of i # _ \<Rightarrow> Some i | [] \<Rightarrow> (case b of i # _ \<Rightarrow> Some i | [] \<Rightarrow> None)) = None
      \<longleftrightarrow> a = [] \<and> b = []" for a b :: "nat list"
    by (cases a; cases b) auto
  have "bad_in_chunk H walk chunk = None \<longleftrightarrow> ?bad = []"
  proof -
    have "xs = [] \<longleftrightarrow> filter P xs = [] \<and> filter (\<lambda>x. \<not> P x) xs = []" for P and xs :: "nat list"
      by (cases xs) auto
    from this [of ?bad "\<lambda>i. algo (chunk ! i) = Blake3Chain"] show ?thesis
      unfolding bad_in_chunk_def Let_def gen by (rule sym)
  qed
  also have "\<dots> \<longleftrightarrow> (\<forall>i<length chunk. PowJob_holds H walk (chunk ! i))"
    by (auto simp: filter_empty_conv)
  also have "\<dots> \<longleftrightarrow> (\<forall>j\<in>set chunk. PowJob_holds H walk j)" by (simp add: all_set_conv_all_nth)
  finally show ?thesis .
qed

lemma filter_head: "filter P xs = y # ys \<Longrightarrow> y \<in> set xs \<and> P y"
  by (auto simp: filter_eq_Cons_iff)

lemma bad_in_chunk_Some:
  assumes "bad_in_chunk H walk chunk = Some i"
  shows "i < length chunk \<and> \<not> PowJob_holds H walk (chunk ! i)"
  using assms
  by (auto simp: bad_in_chunk_def Let_def split: list.splits dest!: filter_head)

lemma check_chunks_ok:
  "check_chunks H walk proceed piece p cs = Inr () \<Longrightarrow> c \<in> set cs \<Longrightarrow> j \<in> set c \<Longrightarrow> PowJob_holds H walk j"
proof (induction H walk proceed piece p cs rule: check_chunks.induct)
  case (2 H walk proceed piece p chunk rest)
  then show ?case using bad_in_chunk_None [of H walk chunk] by (auto split: if_splits option.splits)
qed simp

lemma concat_chunks: "0 < k \<Longrightarrow> concat (chunks k xs) = xs"
proof (induction k xs rule: chunks.induct)
  case (1 k xs)
  then show ?case by (cases "xs = []") (simp_all add: chunks.simps [of k xs] chunks.simps [of k "[]"])
qed

lemma check_chunks_all:
  "\<forall>c\<in>set cs. \<forall>j\<in>set c. PowJob_holds H walk j \<Longrightarrow> check_chunks H walk (\<lambda>_ _. True) piece p cs = Inr ()"
proof (induction cs arbitrary: p)
  case (Cons c cs)
  then have "bad_in_chunk H walk c = None" by (simp add: bad_in_chunk_None)
  then show ?case using Cons by simp
qed simp

lemma check_chunks_bad:
  assumes "check_chunks H walk proceed k p (chunks k xs) = Inl (Bad n)" and "0 < k"
  shows "\<exists>m. n = 1 + p * k + m \<and> m < length xs \<and> \<not> PowJob_holds H walk (xs ! m)"
  using assms
proof (induction k xs arbitrary: p rule: chunks.induct)
  case (1 k xs)
  show ?case
  proof (cases "xs = []")
    case True
    then show ?thesis using "1.prems" by (simp add: chunks.simps [of k "[]"])
  next
    case False
    then have unfold: "chunks k xs = take k xs # chunks k (drop k xs)"
      using "1.prems"(2) by (simp add: chunks.simps [of k xs])
    show ?thesis
    proof (cases "bad_in_chunk H walk (take k xs)")
      case None
      then have "check_chunks H walk proceed k (p + 1) (chunks k (drop k xs)) = Inl (Bad n)"
        using "1.prems"(1) unfold by (auto split: if_splits)
      then obtain m where m: "n = 1 + (p + 1) * k + m" "m < length (drop k xs)"
          "\<not> PowJob_holds H walk (drop k xs ! m)"
        using "1.IH" [of "p + 1"] False "1.prems"(2) by auto
      then show ?thesis by (intro exI [of _ "k + m"]) (simp add: less_diff_conv add.commute)
    next
      case (Some i)
      then have "n = 1 + p * k + i" using "1.prems"(1) unfold by (auto split: if_splits)
      then show ?thesis using bad_in_chunk_Some [OF Some] by auto
    qed
  qed
qed

lemma check_pow_jobs_iff:
  assumes "0 < piece"
  shows "check_pow_jobs H walk piece jobs = Inr () \<longleftrightarrow> (\<forall>j\<in>set jobs. PowJob_holds H walk j)"
proof (cases jobs)
  case (Cons first rest)
  have all: "(\<forall>c\<in>set (chunks piece rest). \<forall>j\<in>set c. PowJob_holds H walk j) \<longleftrightarrow>
      (\<forall>j\<in>set rest. PowJob_holds H walk j)"
    using concat_chunks [OF assms, of rest] by (metis UN_iff set_concat)
  have "check_chunks H walk (\<lambda>_ _. True) piece 0 (chunks piece rest) = Inr () \<longleftrightarrow>
      (\<forall>j\<in>set rest. PowJob_holds H walk j)"
    using check_chunks_ok check_chunks_all all by metis
  then show ?thesis
    using Cons by (auto simp: check_pow_jobs_def check_pow_jobs_with_def)
qed (simp add: check_pow_jobs_def check_pow_jobs_with_def)

text \<open>The batched checker accepts exactly when every proof of work holds, whatever piece size
  the machine gives it, and an index it reports is that of a proof that fails.\<close>

theorem pow_jobs_checked:
  assumes "0 < piece"
  shows "(check_pow_jobs H walk piece jobs = Inr () \<longleftrightarrow> (\<forall>j\<in>set jobs. PowJob_holds H walk j)) \<and>
    (\<forall>n. check_pow_jobs_with H walk piece proceed jobs = Inl (Bad n) \<longrightarrow>
       n < length jobs \<and> \<not> PowJob_holds H walk (jobs ! n))"
proof (cases jobs)
  case (Cons first rest)
  show ?thesis
    using check_pow_jobs_iff [OF assms, of H walk jobs]
      check_chunks_bad [OF _ assms, of H walk proceed 0 rest] Cons
    by (auto simp: check_pow_jobs_with_def split: if_splits)
qed (simp add: check_pow_jobs_def check_pow_jobs_with_def)

theorem pow_jobs_checked_witness:
  "check_pow_jobs (\<lambda>_. 0) (\<lambda>m n. m) 2 [\<lparr>algo = Walk, mining_hash = 5, job_nonce = 1, job_final_hash = 5\<rparr>] = Inr ()"
  using pow_jobs_checked [of 2] by (simp add: PowJob_holds_def create_extension_with_def)

subsection \<open>Merged mining\<close>

definition MAX_COINBASE_AFTER :: nat where "MAX_COINBASE_AFTER = 0"

record AuxPow =
  pre_commit_midstate :: h256
  commit_address :: h256
  commit_value :: nat
  coinbase_after :: "h256 list"
  aux_state_root :: h256
  aux_prev_header_hash :: h256
  aux_timestamp :: nat
  aux_target :: h256
  aux_nonce :: nat
  aux_final_hash :: h256

definition midstate_header_bytes :: "h256 \<Rightarrow> h256 \<Rightarrow> h256 \<Rightarrow> nat \<Rightarrow> h256 \<Rightarrow> bytes" where
  "midstate_header_bytes prev post_tx state_root timestamp target =
     be_bytes prev @ be_bytes post_tx @ be_bytes state_root @ le_bytes 8 timestamp @ be_bytes target"

definition midstate_header_hash :: "hasher \<Rightarrow> h256 \<Rightarrow> h256 \<Rightarrow> h256 \<Rightarrow> nat \<Rightarrow> h256 \<Rightarrow> h256" where
  "midstate_header_hash H prev post_tx state_root timestamp target =
     H (midstate_header_bytes prev post_tx state_root timestamp target)"

definition hash2 :: "hasher \<Rightarrow> h256 \<Rightarrow> h256 \<Rightarrow> h256" where
  "hash2 H a b = hash_concat H (be_bytes a) (be_bytes b)"

definition merge_commitment :: "hasher \<Rightarrow> h256 \<Rightarrow> h256" where
  "merge_commitment H aux_mining_hash =
     hash_domain H (ascii ''midwimble.merge-mining.v1'') [NETWORK_MAGIC, be_bytes aux_mining_hash]"

definition aux_block_id :: "hasher \<Rightarrow> h256 \<Rightarrow> h256 \<Rightarrow> h256" where
  "aux_block_id H parent_final_hash aux_mining_hash =
     hash_domain H (ascii ''midwimble.aux-block-id.v1'')
       [be_bytes parent_final_hash, be_bytes aux_mining_hash]"

definition parent_mining_hash :: "hasher \<Rightarrow> AuxPow \<Rightarrow> h256 \<Rightarrow> h256" where
  "parent_mining_hash H a aux_mining_hash =
     (let salt = merge_commitment H aux_mining_hash;
          m = hash2 H (pre_commit_midstate a)
                (midstate_coin_id H (commit_address a) (commit_value a) salt);
          m = foldl (hash2 H) m (coinbase_after a);
          m = (if aux_state_root a \<noteq> 0 then hash2 H m (aux_state_root a) else m)
      in midstate_header_hash H (aux_prev_header_hash a) m (aux_state_root a) (aux_timestamp a) (aux_target a))"

definition AuxPow_pow_job :: "hasher \<Rightarrow> AuxPow \<Rightarrow> PowAlgo \<Rightarrow> h256 \<Rightarrow> PowJob" where
  "AuxPow_pow_job H a al aux_mining_hash =
     \<lparr>algo = al, mining_hash = parent_mining_hash H a aux_mining_hash, job_nonce = aux_nonce a,
      job_final_hash = aux_final_hash a\<rparr>"

definition AuxPow_block_id :: "hasher \<Rightarrow> AuxPow \<Rightarrow> h256 \<Rightarrow> h256" where
  "AuxPow_block_id H a aux_mining_hash = aux_block_id H (aux_final_hash a) aux_mining_hash"

definition check_claims :: "hasher \<Rightarrow> AuxPow \<Rightarrow> h256 \<Rightarrow> Extension \<Rightarrow> h256 \<Rightarrow> pow_error + unit" where
  "check_claims H a aux_mining_hash extension target =
     (if MAX_COINBASE_AFTER < length (coinbase_after a) then Inl CommitmentNotLast
      else if ext_nonce extension \<noteq> 0 \<or> ext_final_hash extension \<noteq> AuxPow_block_id H a aux_mining_hash
      then Inl BlockIdMismatch
      else if target \<le> aux_final_hash a then Inl AuxMissesTarget
      else Inr ())"

definition verify_pow_with ::
    "hasher \<Rightarrow> walker \<Rightarrow> PowAlgo \<Rightarrow> h256 \<Rightarrow> Extension \<Rightarrow> h256 \<Rightarrow> AuxPow option \<Rightarrow> pow_error + unit" where
  "verify_pow_with H walk al mining extension target aux =
     (case aux of
        None \<Rightarrow> verify_extension_with H walk al mining extension target
      | Some a \<Rightarrow>
          and_then (check_claims H a mining extension target) (\<lambda>_.
            if ext_final_hash (create_extension_with H walk al (parent_mining_hash H a mining) (aux_nonce a))
                 \<noteq> aux_final_hash a
            then Inl AuxWorkInvalid else Inr ()))"

definition verify_pow ::
    "hasher \<Rightarrow> walker \<Rightarrow> nat \<Rightarrow> h256 \<Rightarrow> Extension \<Rightarrow> h256 \<Rightarrow> AuxPow option \<Rightarrow> pow_error + unit" where
  "verify_pow H walk height mining extension target aux =
     verify_pow_with H walk (pow_algo_at height) mining extension target aux"

fun try_algos ::
    "hasher \<Rightarrow> walker \<Rightarrow> h256 \<Rightarrow> Extension \<Rightarrow> h256 \<Rightarrow> AuxPow option \<Rightarrow> pow_error option \<Rightarrow> PowAlgo list
      \<Rightarrow> pow_error option + unit" where
  "try_algos H walk mining extension target aux err [] = Inl err"
| "try_algos H walk mining extension target aux err (al # als) =
     (case verify_pow_with H walk al mining extension target aux of
        Inr _ \<Rightarrow> Inr ()
      | Inl e \<Rightarrow> try_algos H walk mining extension target aux (Some e) als)"

text \<open>The source unwraps the last error: \<open>verify_pow_near_total\<close> shows there is one.\<close>

definition verify_pow_near ::
    "hasher \<Rightarrow> walker \<Rightarrow> nat \<Rightarrow> h256 \<Rightarrow> Extension \<Rightarrow> h256 \<Rightarrow> AuxPow option \<Rightarrow> pow_error option + unit" where
  "verify_pow_near H walk tip_height mining extension target aux =
     try_algos H walk mining extension target aux None (algos_near tip_height)"

record ParentTemplate =
  pt_pre_commit_midstate :: h256
  pt_commit_address :: h256
  pt_commit_value :: nat
  pt_commit_salt :: h256
  pt_coinbase_after :: "h256 list"
  pt_state_root :: h256
  pt_prev_header_hash :: h256
  pt_timestamp :: nat
  pt_target :: h256

definition ParentTemplate_proof :: "ParentTemplate \<Rightarrow> nat \<Rightarrow> h256 \<Rightarrow> AuxPow" where
  "ParentTemplate_proof t nonce final_hash =
     \<lparr>pre_commit_midstate = pt_pre_commit_midstate t, commit_address = pt_commit_address t,
      commit_value = pt_commit_value t, coinbase_after = pt_coinbase_after t,
      aux_state_root = pt_state_root t, aux_prev_header_hash = pt_prev_header_hash t,
      aux_timestamp = pt_timestamp t, aux_target = pt_target t, aux_nonce = nonce,
      aux_final_hash = final_hash\<rparr>"

datatype template_error = NoCommitment | HashMismatch h256 h256

definition ParentTemplate_check :: "hasher \<Rightarrow> ParentTemplate \<Rightarrow> h256 \<Rightarrow> h256 \<Rightarrow> template_error + unit" where
  "ParentTemplate_check H t aux_mining_hash parent_hash =
     (if pt_commit_salt t \<noteq> merge_commitment H aux_mining_hash then Inl NoCommitment
      else
        let ours = parent_mining_hash H (ParentTemplate_proof t 0 0) aux_mining_hash
        in if ours \<noteq> parent_hash then Inl (HashMismatch ours parent_hash) else Inr ())"

text \<open>Every input the parent's mining hash is computed from, in the order it is hashed, for a proof
  whose commitment is the coinbase's last output.\<close>

definition parent_preimages :: "hasher \<Rightarrow> AuxPow \<Rightarrow> h256 \<Rightarrow> bytes list" where
  "parent_preimages H a x =
     (let salt = merge_commitment H x;
          coin = midstate_coin_id H (commit_address a) (commit_value a) salt;
          m = hash2 H (pre_commit_midstate a) coin;
          m' = (if aux_state_root a \<noteq> 0 then hash2 H m (aux_state_root a) else m)
      in [domain_preimage (ascii ''midwimble.merge-mining.v1'') [NETWORK_MAGIC, be_bytes x],
          be_bytes (commit_address a) @ le_bytes 8 (commit_value a) @ be_bytes salt,
          be_bytes (pre_commit_midstate a) @ be_bytes coin,
          be_bytes m @ be_bytes (aux_state_root a),
          midstate_header_bytes (aux_prev_header_hash a) m' (aux_state_root a) (aux_timestamp a) (aux_target a)])"

lemma hash2_preimage: "hash2 H a b = H (be_bytes a @ be_bytes b)"
  by (simp add: hash2_def hash_concat_def)

lemma hash2_inject:
  "H (be_bytes a @ be_bytes b) = H (be_bytes a' @ be_bytes b') \<Longrightarrow>
   (be_bytes a @ be_bytes b \<noteq> be_bytes a' @ be_bytes b' \<Longrightarrow>
      H (be_bytes a @ be_bytes b) \<noteq> H (be_bytes a' @ be_bytes b')) \<Longrightarrow> a = a' \<and> b = b'"
  by (metis append_eq_append_conv be_bytes_inject length_be_bytes)

lemma check_claims_last: "check_claims H a x e t = Inr () \<Longrightarrow> coinbase_after a = []"
  by (auto simp: check_claims_def MAX_COINBASE_AFTER_def split: if_splits)

lemma parent_binding:
  assumes "coinbase_after a = []" and "coinbase_after b = []"
    and "parent_mining_hash H a x = parent_mining_hash H b y"
    and no: "\<forall>(u, v)\<in>set (zip (parent_preimages H a x) (parent_preimages H b y)). H u = H v \<longrightarrow> u = v"
  shows "x = y"
proof -
  define sa where "sa = merge_commitment H x"
  define sb where "sb = merge_commitment H y"
  define ca where "ca = midstate_coin_id H (commit_address a) (commit_value a) sa"
  define cb where "cb = midstate_coin_id H (commit_address b) (commit_value b) sb"
  define ma where "ma = hash2 H (pre_commit_midstate a) ca"
  define mb where "mb = hash2 H (pre_commit_midstate b) cb"
  define na where "na = (if aux_state_root a \<noteq> 0 then hash2 H ma (aux_state_root a) else ma)"
  define nb where "nb = (if aux_state_root b \<noteq> 0 then hash2 H mb (aux_state_root b) else mb)"
  note defs = sa_def [symmetric] sb_def [symmetric] ca_def [symmetric] cb_def [symmetric]
    ma_def [symmetric] mb_def [symmetric] na_def [symmetric] nb_def [symmetric]
  have pre: "parent_preimages H a x =
      [domain_preimage (ascii ''midwimble.merge-mining.v1'') [NETWORK_MAGIC, be_bytes x],
       be_bytes (commit_address a) @ le_bytes 8 (commit_value a) @ be_bytes sa,
       be_bytes (pre_commit_midstate a) @ be_bytes ca, be_bytes ma @ be_bytes (aux_state_root a),
       midstate_header_bytes (aux_prev_header_hash a) na (aux_state_root a) (aux_timestamp a) (aux_target a)]"
    "parent_preimages H b y =
      [domain_preimage (ascii ''midwimble.merge-mining.v1'') [NETWORK_MAGIC, be_bytes y],
       be_bytes (commit_address b) @ le_bytes 8 (commit_value b) @ be_bytes sb,
       be_bytes (pre_commit_midstate b) @ be_bytes cb, be_bytes mb @ be_bytes (aux_state_root b),
       midstate_header_bytes (aux_prev_header_hash b) nb (aux_state_root b) (aux_timestamp b) (aux_target b)]"
    by (simp_all only: parent_preimages_def Let_def defs)
  note nc = no [unfolded pre, simplified]
  have "parent_mining_hash H a x = midstate_header_hash H (aux_prev_header_hash a) na (aux_state_root a)
      (aux_timestamp a) (aux_target a)"
    "parent_mining_hash H b y = midstate_header_hash H (aux_prev_header_hash b) nb (aux_state_root b)
      (aux_timestamp b) (aux_target b)"
    using assms(1,2) by (simp_all only: parent_mining_hash_def Let_def defs foldl.simps)
  then have "midstate_header_bytes (aux_prev_header_hash a) na (aux_state_root a) (aux_timestamp a) (aux_target a)
      = midstate_header_bytes (aux_prev_header_hash b) nb (aux_state_root b) (aux_timestamp b) (aux_target b)"
    using assms(3) nc by (simp add: midstate_header_hash_def)
  then have n: "na = nb" and sr: "aux_state_root a = aux_state_root b"
    by (simp_all add: midstate_header_bytes_def)
  have "ma = mb"
    using n nc sr by (auto simp: na_def nb_def hash2_preimage split: if_splits)
  then have "ca = cb" using nc by (auto simp: ma_def mb_def hash2_preimage)
  then have "sa = sb" using nc by (auto simp: ca_def cb_def midstate_coin_id_def)
  then have "domain_preimage (ascii ''midwimble.merge-mining.v1'') [NETWORK_MAGIC, be_bytes x]
      = domain_preimage (ascii ''midwimble.merge-mining.v1'') [NETWORK_MAGIC, be_bytes y]"
    using nc by (auto simp: sa_def sb_def merge_commitment_def hash_domain_def)
  then show "x = y" by (simp add: domain_preimage_def len_prefixed_def)
qed

text \<open>C31. One parent header commits to one block: if two merged-mining proofs pass the claim checks
  for different blocks with the same parent mining hash, two of the inputs hashed on the way are
  a collision of the hash function.\<close>

theorem one_parent_one_block:
  assumes "check_claims H a x e target = Inr ()" and "check_claims H b y e' target' = Inr ()"
    and "parent_mining_hash H a x = parent_mining_hash H b y" and "x \<noteq> y"
  shows "\<exists>(u, v)\<in>set (zip (parent_preimages H a x) (parent_preimages H b y)). u \<noteq> v \<and> H u = H v"
  using parent_binding [OF check_claims_last [OF assms(1)] check_claims_last [OF assms(2)] assms(3)] assms(4)
  by (auto simp: case_prod_beta)

theorem one_parent_one_block_witness:
  "let a = \<lparr>pre_commit_midstate = 1, commit_address = 2, commit_value = 3, coinbase_after = [],
      aux_state_root = 4, aux_prev_header_hash = 5, aux_timestamp = 6, aux_target = 7, aux_nonce = 8,
      aux_final_hash = 0\<rparr> in
   \<exists>(u, v)\<in>set (zip (parent_preimages (\<lambda>_. 0) a 1) (parent_preimages (\<lambda>_. 0) a 2)). u \<noteq> v"
proof -
  let ?a = "\<lparr>pre_commit_midstate = 1, commit_address = 2, commit_value = 3, coinbase_after = [],
      aux_state_root = 4, aux_prev_header_hash = 5, aux_timestamp = 6, aux_target = 7, aux_nonce = 8,
      aux_final_hash = 0\<rparr>"
  have "check_claims (\<lambda>_. 0) ?a z \<lparr>ext_nonce = 0, ext_final_hash = 0\<rparr> 1 = Inr ()" for z
    by (simp add: check_claims_def MAX_COINBASE_AFTER_def AuxPow_block_id_def aux_block_id_def hash_domain_def)
  from one_parent_one_block [OF this [of 1] this [of 2]] show ?thesis
    by (auto simp: parent_mining_hash_def midstate_header_hash_def Let_def)
qed

lemma try_algos_ok:
  "try_algos H walk mining ext target aux err als = Inr () \<longleftrightarrow>
     (\<exists>al\<in>set als. verify_pow_with H walk al mining ext target aux = Inr ())"
proof (induction als arbitrary: err)
  case (Cons al als)
  then show ?case by (cases "verify_pow_with H walk al mining ext target aux") auto
qed simp

lemma try_algos_err: "als \<noteq> [] \<or> err \<noteq> None \<Longrightarrow> try_algos H walk mining ext target aux err als \<noteq> Inl None"
proof (induction als arbitrary: err)
  case (Cons al als)
  then show ?case by (cases "verify_pow_with H walk al mining ext target aux") auto
qed simp

lemma verify_pow_near_total: "verify_pow_near H walk h mining ext target aux \<noteq> Inl None"
  unfolding verify_pow_near_def by (rule try_algos_err) (simp add: algos_near_def Let_def)

text \<open>The relaxed check for blocks of unknown height accepts every block that is valid at any
  height within 64 of the tip.\<close>

theorem near_check_accepts_near_blocks:
  assumes "verify_pow H walk height mining extension target aux = Inr ()"
    and "tip - ORPHAN_POW_SLACK \<le> height" and "height \<le> tip + ORPHAN_POW_SLACK"
    and "tip + ORPHAN_POW_SLACK \<le> U64_MAX"
  shows "verify_pow_near H walk tip mining extension target aux = Inr ()"
proof -
  have "pow_algo_at height \<in> set (algos_near tip)"
    using assms(2-4)
    by (auto simp: algos_near_def Let_def pow_algo_at_def sat_add64_def min_def)
  then show ?thesis
    using assms(1) by (auto simp: verify_pow_near_def try_algos_ok verify_pow_def)
qed

theorem near_check_accepts_near_blocks_witness:
  "verify_pow_near (\<lambda>_. 0) (\<lambda>m n. m) 37290 5 \<lparr>ext_nonce = 1, ext_final_hash = 5\<rparr> 9 None = Inr ()"
  by (rule near_check_accepts_near_blocks [of _ _ 37300])
     (simp_all add: verify_pow_def verify_pow_with_def verify_extension_with_def pow_algo_at_def
        WALK_ACTIVATION_HEIGHT_def create_extension_with_def ORPHAN_POW_SLACK_def word_less_nat_alt
        word_le_nat_alt)

end
