(* ===== verification/Anchor.thy ===== *)
theory Anchor
  imports Pow
begin

text \<open>
  Midstate headers and the evidence that an item is folded into one, \<^verbatim>\<open>src/src/core/anchor.rs\<close>: the
  fold, the policy checks, the proofs of work of the anchor block and its confirmations.
\<close>

record HeaderLink =
  post_tx_midstate :: h256
  hl_state_root :: h256
  hl_timestamp :: nat
  hl_target :: h256
  hl_nonce :: nat
  final_hash :: h256

definition link_key :: "hasher \<Rightarrow> h256 \<Rightarrow> HeaderLink \<Rightarrow> PowAlgo \<Rightarrow> h256" where
  "link_key H mining link al =
     (let domain = (case al of
          Blake3Chain \<Rightarrow> ascii ''midwimble.checked-midstate-header.v1''
        | Walk \<Rightarrow> ascii ''midwimble.checked-midstate-header.walk.v1'')
      in hash_domain H domain [be_bytes mining, le_bytes 8 (hl_nonce link), be_bytes (final_hash link)])"

definition link_mining_hash :: "hasher \<Rightarrow> h256 \<Rightarrow> HeaderLink \<Rightarrow> h256" where
  "link_mining_hash H prev link =
     midstate_header_hash H prev (post_tx_midstate link) (hl_state_root link) (hl_timestamp link)
       (hl_target link)"

datatype AnchoredItem = Commit | MergeMined h256 nat

definition fold_item :: "hasher \<Rightarrow> AnchoredItem \<Rightarrow> h256 \<Rightarrow> h256" where
  "fold_item H k payload =
     (case k of
        Commit \<Rightarrow> payload
      | MergeMined address value \<Rightarrow> midstate_coin_id H address value (merge_commitment H payload))"

record MidstateInclusion =
  mi_height :: nat
  mi_kind :: AnchoredItem
  pre_item_midstate :: h256
  items_after :: "h256 list"
  mi_prev_header_hash :: h256
  mi_block :: HeaderLink
  confirmations :: "HeaderLink list"

datatype anchor_error =
    TooFewConfirmations nat nat
  | TooLittleWork nat
  | NotFolded
  | LinkMissesTarget nat
  | LinkBadWork nat
  | AnchorAbandoned

definition mi_links :: "MidstateInclusion \<Rightarrow> HeaderLink list" where
  "mi_links m = mi_block m # confirmations m"

text \<open>Rust's \<^verbatim>\<open>Iterator::position\<close>.\<close>

fun position :: "('a \<Rightarrow> bool) \<Rightarrow> 'a list \<Rightarrow> nat option" where
  "position P [] = None"
| "position P (x # xs) = (if P x then Some 0 else map_option Suc (position P xs))"

definition check_policy :: "MidstateInclusion \<Rightarrow> nat \<Rightarrow> nat \<Rightarrow> anchor_error + unit" where
  "check_policy m depth min_work =
     (if length (confirmations m) + 1 < depth
      then Inl (TooFewConfirmations (length (confirmations m) + 1) depth)
      else
        case position (\<lambda>l. calculate_work (hl_target l) < min_work) (mi_links m) of
          Some i \<Rightarrow> Inl (TooLittleWork i)
        | None \<Rightarrow> Inr ())"

text \<open>The loop over the headers: it stops at the first that misses its own target, and collects a
  job for every header not already known, its index, and every header's key.\<close>

fun collect_jobs ::
    "hasher \<Rightarrow> (h256 \<Rightarrow> bool) \<Rightarrow> nat \<Rightarrow> nat \<Rightarrow> h256 \<Rightarrow> HeaderLink list
      \<Rightarrow> PowJob list \<times> nat list \<times> h256 list \<Rightarrow> anchor_error + PowJob list \<times> nat list \<times> h256 list" where
  "collect_jobs H known height i prev [] acc = Inr acc"
| "collect_jobs H known height i prev (link # links) (jobs, index, keys) =
     (if hl_target link \<le> final_hash link then Inl (LinkMissesTarget i)
      else
        let al = midstate_pow_algo_at (sat_add64 height i);
            mining = link_mining_hash H prev link;
            key = link_key H mining link al
        in if known key
           then collect_jobs H known height (i + 1) (final_hash link) links (jobs, index, keys @ [key])
           else collect_jobs H known height (i + 1) (final_hash link) links
                  (jobs @ [\<lparr>algo = al, mining_hash = mining, job_nonce = hl_nonce link,
                            job_final_hash = final_hash link\<rparr>], index @ [i], keys @ [key]))"

definition anchor_fold :: "hasher \<Rightarrow> MidstateInclusion \<Rightarrow> h256 \<Rightarrow> h256" where
  "anchor_fold H m payload =
     (let f = hash2 H (pre_item_midstate m) (fold_item H (mi_kind m) payload);
          f = foldl (hash2 H) f (items_after m)
      in if hl_state_root (mi_block m) \<noteq> 0 then hash2 H f (hl_state_root (mi_block m)) else f)"

definition verify_proofs_with ::
    "hasher \<Rightarrow> walker \<Rightarrow> nat \<Rightarrow> (h256 \<Rightarrow> bool) \<Rightarrow> MidstateInclusion \<Rightarrow> h256 \<Rightarrow> anchor_error + h256 list" where
  "verify_proofs_with H walk piece known m payload =
     (if anchor_fold H m payload \<noteq> post_tx_midstate (mi_block m) then Inl NotFolded
      else
        and_then (collect_jobs H known (mi_height m) 0 (mi_prev_header_hash m) (mi_links m) ([], [], []))
          (\<lambda>(jobs, index, keys).
             case check_pow_jobs H walk piece jobs of
               Inr _ \<Rightarrow> Inr keys
             | Inl (Bad j) \<Rightarrow> Inl (LinkBadWork (index ! j))
             | Inl Abandoned \<Rightarrow> Inl AnchorAbandoned))"

definition verify_proofs :: "hasher \<Rightarrow> walker \<Rightarrow> nat \<Rightarrow> MidstateInclusion \<Rightarrow> h256 \<Rightarrow> anchor_error + unit" where
  "verify_proofs H walk piece m payload =
     and_then (verify_proofs_with H walk piece (\<lambda>_. False) m payload) (\<lambda>_. Inr ())"

definition inclusion_verify ::
    "hasher \<Rightarrow> walker \<Rightarrow> nat \<Rightarrow> MidstateInclusion \<Rightarrow> h256 \<Rightarrow> nat \<Rightarrow> nat \<Rightarrow> anchor_error + unit" where
  "inclusion_verify H walk piece m payload depth min_work =
     and_then (check_policy m depth min_work) (\<lambda>_. verify_proofs H walk piece m payload)"

definition inclusion_trim :: "MidstateInclusion \<Rightarrow> nat \<Rightarrow> MidstateInclusion" where
  "inclusion_trim m depth = m\<lparr>confirmations := take (depth - 1) (confirmations m)\<rparr>"

subsection \<open>What evidence is accepted\<close>

text \<open>A chain of headers each meeting its own target with valid work over its predecessor.\<close>

fun header_chain_ok :: "hasher \<Rightarrow> walker \<Rightarrow> nat \<Rightarrow> nat \<Rightarrow> h256 \<Rightarrow> HeaderLink list \<Rightarrow> bool" where
  "header_chain_ok H walk height i prev [] = True"
| "header_chain_ok H walk height i prev (link # links) \<longleftrightarrow>
     final_hash link < hl_target link \<and>
     ext_final_hash (create_extension_with H walk (midstate_pow_algo_at (sat_add64 height i))
       (link_mining_hash H prev link) (hl_nonce link)) = final_hash link \<and>
     header_chain_ok H walk height (i + 1) (final_hash link) links"

lemma position_None: "position P xs = None \<longleftrightarrow> (\<forall>x\<in>set xs. \<not> P x)"
  by (induction xs) auto

lemma check_policy_iff:
  "check_policy m depth min_work = Inr () \<longleftrightarrow> depth \<le> length (mi_links m) \<and>
     (\<forall>l\<in>set (mi_links m). min_work \<le> calculate_work (hl_target l))"
proof -
  have "position (\<lambda>l. calculate_work (hl_target l) < min_work) (mi_links m) = None \<longleftrightarrow>
      (\<forall>l\<in>set (mi_links m). min_work \<le> calculate_work (hl_target l))"
    by (simp add: position_None not_less)
  then show ?thesis
    by (cases "position (\<lambda>l. calculate_work (hl_target l) < min_work) (mi_links m)")
       (auto simp: check_policy_def mi_links_def not_less)
qed

lemma collect_jobs_ok:
  assumes "collect_jobs H (\<lambda>_. False) height i prev links (js, ix, ks) = Inr (js', ix', ks')"
  shows "(\<forall>j\<in>set js'. PowJob_holds H walk j) \<longleftrightarrow>
    (\<forall>j\<in>set js. PowJob_holds H walk j) \<and> header_chain_ok H walk height i prev links"
  using assms
proof (induction links arbitrary: i prev js ix ks)
  case (Cons link links)
  have t: "final_hash link < hl_target link" using Cons.prems by (auto split: if_splits)
  then show ?case
    using Cons.IH [of "i + 1" "final_hash link"] Cons.prems
    by (auto simp: Let_def PowJob_holds_def not_le split: if_splits)
qed simp

lemma collect_jobs_total:
  "header_chain_ok H walk height i prev links \<Longrightarrow>
   \<exists>r. collect_jobs H known height i prev links acc = Inr r"
proof (induction links arbitrary: i prev acc)
  case (Cons link links)
  obtain js ix ks where acc: "acc = (js, ix, ks)" by (cases acc)
  show ?case
    using Cons.prems Cons.IH unfolding acc by (auto simp: Let_def not_le [symmetric])
qed (metis collect_jobs.simps(1))

lemma verify_proofs_iff:
  assumes "0 < piece"
  shows "verify_proofs H walk piece m payload = Inr () \<longleftrightarrow>
    anchor_fold H m payload = post_tx_midstate (mi_block m) \<and>
    header_chain_ok H walk (mi_height m) 0 (mi_prev_header_hash m) (mi_links m)"
proof -
  let ?c = "collect_jobs H (\<lambda>_. False) (mi_height m) 0 (mi_prev_header_hash m) (mi_links m) ([], [], [])"
  show ?thesis
  proof (cases ?c)
    case (Inl e)
    then have "\<not> header_chain_ok H walk (mi_height m) 0 (mi_prev_header_hash m) (mi_links m)"
      using collect_jobs_total [of H walk "mi_height m" 0 "mi_prev_header_hash m" "mi_links m"
          "\<lambda>_. False" "([], [], [])"] by auto
    then show ?thesis using Inl by (simp add: verify_proofs_def verify_proofs_with_def)
  next
    case (Inr r)
    obtain js ix ks where r: "r = (js, ix, ks)" by (cases r)
    have "check_pow_jobs H walk piece js = Inr () \<longleftrightarrow>
        header_chain_ok H walk (mi_height m) 0 (mi_prev_header_hash m) (mi_links m)"
      using check_pow_jobs_iff [OF assms, of H walk js] collect_jobs_ok [OF Inr [unfolded r], of walk] by simp
    then show ?thesis
      using Inr r
      by (auto simp: verify_proofs_def verify_proofs_with_def and_then_Inr split: sum.splits PowCheck.splits)
  qed
qed

text \<open>Anchor evidence is accepted exactly when it is deep enough, every header claims enough work,
  the item folds into the anchor block, and every header meets its own target with valid work over
  the one before it. Trimming accepted evidence to the depth asked for leaves it accepted.\<close>

theorem anchor_evidence_accepted:
  assumes "0 < piece" and "1 \<le> depth"
  shows "(inclusion_verify H walk piece m payload depth min_work = Inr () \<longleftrightarrow>
      depth \<le> length (mi_links m) \<and> (\<forall>l\<in>set (mi_links m). min_work \<le> calculate_work (hl_target l)) \<and>
      anchor_fold H m payload = post_tx_midstate (mi_block m) \<and>
      header_chain_ok H walk (mi_height m) 0 (mi_prev_header_hash m) (mi_links m)) \<and>
    (inclusion_verify H walk piece m payload depth min_work = Inr () \<longrightarrow>
     inclusion_verify H walk piece (inclusion_trim m depth) payload depth min_work = Inr ())"
proof -
  have acc: "inclusion_verify H walk piece m payload depth min_work = Inr () \<longleftrightarrow>
      depth \<le> length (mi_links m) \<and> (\<forall>l\<in>set (mi_links m). min_work \<le> calculate_work (hl_target l)) \<and>
      anchor_fold H m payload = post_tx_midstate (mi_block m) \<and>
      header_chain_ok H walk (mi_height m) 0 (mi_prev_header_hash m) (mi_links m)" for m
    by (auto simp: inclusion_verify_def and_then_Inr check_policy_iff verify_proofs_iff [OF assms(1)])
  have take_ok: "header_chain_ok H walk h i p ls \<Longrightarrow> header_chain_ok H walk h i p (take k ls)" for h i p ls k
    by (induction H walk h i p ls arbitrary: k rule: header_chain_ok.induct) (auto simp: take_Cons split: nat.splits)
  have links: "mi_links (inclusion_trim m depth) = take depth (mi_links m)"
    using assms(2) by (cases depth) (simp_all add: mi_links_def inclusion_trim_def)
  have fold: "anchor_fold H (inclusion_trim m depth) payload = anchor_fold H m payload"
    by (simp add: anchor_fold_def inclusion_trim_def Let_def)
  show ?thesis
    unfolding acc links fold
    by (auto simp: inclusion_trim_def take_ok dest: in_set_takeD)
qed

theorem anchor_evidence_accepted_witness:
  "inclusion_verify (\<lambda>_. 0) (\<lambda>m n. m) 8
     \<lparr>mi_height = 400000, mi_kind = Commit, pre_item_midstate = 1, items_after = [],
      mi_prev_header_hash = 3,
      mi_block = \<lparr>post_tx_midstate = 0, hl_state_root = 0, hl_timestamp = 5, hl_target = 9, hl_nonce = 1,
                  final_hash = 0\<rparr>,
      confirmations = []\<rparr> 7 1 0 = Inr ()"
  using anchor_evidence_accepted [of 8 1]
  by (simp add: mi_links_def anchor_fold_def hash2_def hash_concat_def link_mining_hash_def
      midstate_header_hash_def midstate_pow_algo_at_def MIDSTATE_WALK_ACTIVATION_HEIGHT_def
      sat_add64_def create_extension_with_def word_less_nat_alt)

end
