(* ===== verification/Bond_Rules.thy ===== *)
theory Bond_Rules
  imports Difficulty
begin

text \<open>
  What a mining bond must meet, \<^verbatim>\<open>src/src/core/bond.rs\<close>: the minimums of the early phase and after
  it, the estimate of midstate's height they are measured against, and the retarget that prices
  new registrations by the chain's work. A bond's eligibility can only run out.
\<close>

subsection \<open>Eligibility\<close>

record BondRules =
  min_bond :: nat
  min_lock :: nat
  early_until :: nat
  early_min_bond :: nat
  early_min_lock :: nat

definition MIN_MINING_BOND :: nat where "MIN_MINING_BOND = 137438953472"
definition MIN_REMAINING_BOND_LOCK :: nat where "MIN_REMAINING_BOND_LOCK = 43200"
definition EARLY_BONDS_UNTIL :: nat where "EARLY_BONDS_UNTIL = 1793404800"
definition EARLY_MIN_MINING_BOND :: nat where "EARLY_MIN_MINING_BOND = 16777216"
definition EARLY_MIN_REMAINING_BOND_LOCK :: nat where "EARLY_MIN_REMAINING_BOND_LOCK = 2880"

definition BOND_RULES :: BondRules where
  "BOND_RULES = \<lparr>min_bond = MIN_MINING_BOND, min_lock = MIN_REMAINING_BOND_LOCK,
     early_until = EARLY_BONDS_UNTIL, early_min_bond = EARLY_MIN_MINING_BOND,
     early_min_lock = EARLY_MIN_REMAINING_BOND_LOCK\<rparr>"

definition MIDSTATE_GENESIS_TIMESTAMP :: nat where "MIDSTATE_GENESIS_TIMESTAMP = 1772274770"
definition CLOCK_MARGIN :: nat where "CLOCK_MARGIN = 7 * 24 * 60"

definition est_midstate_height :: "nat \<Rightarrow> nat" where
  "est_midstate_height timestamp = (timestamp - MIDSTATE_GENESIS_TIMESTAMP) div 60 + CLOCK_MARGIN"

definition in_early_phase_of :: "BondRules \<Rightarrow> nat \<Rightarrow> bool" where
  "in_early_phase_of r block_timestamp \<longleftrightarrow> block_timestamp < early_until r"

definition min_bond_at :: "BondRules \<Rightarrow> nat \<Rightarrow> nat" where
  "min_bond_at r block_timestamp =
     (if in_early_phase_of r block_timestamp then early_min_bond r else min_bond r)"

definition min_lock_at :: "BondRules \<Rightarrow> nat \<Rightarrow> nat" where
  "min_lock_at r block_timestamp =
     (if in_early_phase_of r block_timestamp then early_min_lock r else min_lock r)"

definition BondRules_eligible :: "BondRules \<Rightarrow> nat \<Rightarrow> nat \<Rightarrow> nat \<Rightarrow> bool" where
  "BondRules_eligible r value bonded_until block_timestamp \<longleftrightarrow>
     min_bond_at r block_timestamp \<le> value \<and>
     sat_add64 (est_midstate_height block_timestamp) (min_lock_at r block_timestamp) \<le> bonded_until"

definition early_phase_asks_less :: "BondRules \<Rightarrow> bool" where
  "early_phase_asks_less r \<longleftrightarrow>
     early_min_bond r \<le> min_bond r \<and> early_min_lock r \<le> min_lock r"

definition in_early_phase :: "nat \<Rightarrow> bool" where
  "in_early_phase block_timestamp = in_early_phase_of BOND_RULES block_timestamp"

definition min_mining_bond :: "nat \<Rightarrow> nat" where
  "min_mining_bond block_timestamp = min_bond_at BOND_RULES block_timestamp"

definition min_remaining_bond_lock :: "nat \<Rightarrow> nat" where
  "min_remaining_bond_lock block_timestamp = min_lock_at BOND_RULES block_timestamp"

definition eligible :: "nat \<Rightarrow> nat \<Rightarrow> nat \<Rightarrow> bool" where
  "eligible value bonded_until block_timestamp =
     BondRules_eligible BOND_RULES value bonded_until block_timestamp"

lemmas bond_rule_defs = BOND_RULES_def MIN_MINING_BOND_def MIN_REMAINING_BOND_LOCK_def
  EARLY_BONDS_UNTIL_def EARLY_MIN_MINING_BOND_def EARLY_MIN_REMAINING_BOND_LOCK_def

text \<open>The compile-time assertions on the launch parameters.\<close>

lemma bond_rules_ask_less [simp]: "early_phase_asks_less BOND_RULES"
  by (simp add: early_phase_asks_less_def bond_rule_defs)

lemma est_midstate_height_mono: "t \<le> t' \<Longrightarrow> est_midstate_height t \<le> est_midstate_height t'"
  by (simp add: est_midstate_height_def div_le_mono diff_le_mono)

lemma sat_add64_mono2: "a \<le> a' \<Longrightarrow> b \<le> b' \<Longrightarrow> sat_add64 a b \<le> sat_add64 a' b'"
  by (simp add: sat_add64_def)

lemma minimums_mono:
  assumes "early_phase_asks_less r" and "t \<le> t'"
  shows "min_bond_at r t \<le> min_bond_at r t'" and "min_lock_at r t \<le> min_lock_at r t'"
  using assms
  by (auto simp: min_bond_at_def min_lock_at_def in_early_phase_of_def early_phase_asks_less_def)

text \<open>A bond that may not sign at one time may not sign at any later time, in any network
  whose early phase asks no more than its full rules.\<close>

theorem eligibility_only_runs_down:
  assumes "early_phase_asks_less r" and "t \<le> t'" and "BondRules_eligible r value bonded_until t'"
  shows "BondRules_eligible r value bonded_until t"
proof -
  have "sat_add64 (est_midstate_height t) (min_lock_at r t)
      \<le> sat_add64 (est_midstate_height t') (min_lock_at r t')"
    using assms by (intro sat_add64_mono2 est_midstate_height_mono minimums_mono)
  then show ?thesis
    using assms(3) minimums_mono(1) [OF assms(1,2)] by (simp add: BondRules_eligible_def)
qed

theorem eligibility_only_runs_down_witness:
  "BondRules_eligible BOND_RULES MIN_MINING_BOND 1000000 1793404799"
proof (rule eligibility_only_runs_down [OF bond_rules_ask_less])
  show "1793404799 \<le> (1793404800 :: nat)" by simp
  show "BondRules_eligible BOND_RULES MIN_MINING_BOND 1000000 1793404800"
    by (simp add: BondRules_eligible_def min_bond_at_def min_lock_at_def in_early_phase_of_def
        est_midstate_height_def MIDSTATE_GENESIS_TIMESTAMP_def CLOCK_MARGIN_def sat_add64_def
        bond_rule_defs)
qed

lemma eligible_earlier: "t \<le> t' \<Longrightarrow> eligible v u t' \<Longrightarrow> eligible v u t"
proof -
  assume "t \<le> t'" "eligible v u t'"
  moreover from this have "min_bond_at BOND_RULES t \<le> min_bond_at BOND_RULES t'"
    "sat_add64 (est_midstate_height t) (min_lock_at BOND_RULES t)
      \<le> sat_add64 (est_midstate_height t') (min_lock_at BOND_RULES t')"
    by (auto intro!: minimums_mono sat_add64_mono2 est_midstate_height_mono)
  ultimately show "eligible v u t" by (simp add: eligible_def BondRules_eligible_def)
qed

subsection \<open>The bond-size retarget\<close>

definition BOND_RETARGET_DELAY :: nat where "BOND_RETARGET_DELAY = 30 * 24 * 60 * 60"
definition BOND_RETARGET_FROM :: nat where
  "BOND_RETARGET_FROM = sat_add64 EARLY_BONDS_UNTIL BOND_RETARGET_DELAY"
definition WORK_DOUBLINGS_PER_BOND_DOUBLING :: nat where "WORK_DOUBLINGS_PER_BOND_DOUBLING = 4"
definition MAX_BOND_DOUBLINGS :: nat where "MAX_BOND_DOUBLINGS = 2"
definition MAX_MINING_BOND :: nat where "MAX_MINING_BOND = MIN_MINING_BOND * 2 ^ MAX_BOND_DOUBLINGS"

fun ilog2 :: "nat \<Rightarrow> nat" where
  "ilog2 n = (if n < 2 then 0 else Suc (ilog2 (n div 2)))"

declare ilog2.simps [simp del]

definition target_bits :: "h256 \<Rightarrow> int" where
  "target_bits target = int (ilog2 (max (calculate_work target) 1))"

definition work_doublings_since_genesis :: "h256 \<Rightarrow> int" where
  "work_doublings_since_genesis midwimble_target = target_bits midwimble_target - target_bits GENESIS_TARGET"

definition registration_min_bond :: "h256 \<Rightarrow> nat \<Rightarrow> nat" where
  "registration_min_bond midwimble_target block_timestamp =
     (let fl = min_mining_bond block_timestamp in
      if block_timestamp < BOND_RETARGET_FROM then fl
      else
        let steps = nat (max 0 (min (trunc_div (work_doublings_since_genesis midwimble_target)
                                       (int WORK_DOUBLINGS_PER_BOND_DOUBLING))
                                    (int MAX_BOND_DOUBLINGS)))
        in (fl * 2 ^ steps) mod 2 ^ 64)"

lemma ilog2_mono: "m \<le> n \<Longrightarrow> ilog2 m \<le> ilog2 n"
proof (induction n arbitrary: m rule: ilog2.induct)
  case (1 n)
  show ?case
  proof (cases "m < 2")
    case True
    then show ?thesis by (simp add: ilog2.simps)
  next
    case False
    then have n: "\<not> n < 2" using "1.prems" by simp
    have "ilog2 (m div 2) \<le> ilog2 (n div 2)"
      using "1.prems" by (intro "1.IH" [OF n]) (simp add: div_le_mono)
    then show ?thesis using False n by (subst (1 2) ilog2.simps) simp
  qed
qed

lemma work_doublings_mono:
  assumes "0 < t" and "t \<le> t'"
  shows "work_doublings_since_genesis t' \<le> work_doublings_since_genesis t"
proof -
  have u: "0 < unat t" "unat t \<le> unat t'"
    using assms by (simp_all add: word_gt_0 unat_gt_0 word_le_nat_alt)
  then have "U256_MAX div unat t' \<le> U256_MAX div unat t" by (intro div_le_mono2) simp_all
  moreover have "t \<noteq> 0" "t' \<noteq> 0" using u by auto
  ultimately have "calculate_work t' \<le> calculate_work t"
    unfolding calculate_work_eq by (simp only: if_False min.mono order_refl)
  then have "ilog2 (max (calculate_work t') 1) \<le> ilog2 (max (calculate_work t) 1)"
    by (intro ilog2_mono max.mono) simp_all
  then show ?thesis by (simp add: work_doublings_since_genesis_def target_bits_def)
qed

text \<open>After the retarget begins, the floor is the launch minimum doubled at most twice.\<close>

lemma registration_min_bond_steps:
  assumes "BOND_RETARGET_FROM \<le> ts"
  shows "registration_min_bond t ts = MIN_MINING_BOND *
    2 ^ nat (max 0 (min (trunc_div (work_doublings_since_genesis t) 4) 2))"
proof -
  let ?k = "nat (max 0 (min (trunc_div (work_doublings_since_genesis t) 4) 2))"
  have "min_mining_bond ts = MIN_MINING_BOND"
    using assms by (simp add: min_mining_bond_def min_bond_at_def in_early_phase_of_def
        BOND_RETARGET_FROM_def BOND_RETARGET_DELAY_def sat_add64_def bond_rule_defs)
  moreover have "(2 :: nat) ^ ?k \<le> 2 ^ 2" by (rule power_increasing) linarith+
  then have "MIN_MINING_BOND * 2 ^ ?k < 2 ^ 64" by (simp add: MIN_MINING_BOND_def)
  ultimately show ?thesis
    using assms by (simp add: registration_min_bond_def Let_def not_less
        WORK_DOUBLINGS_PER_BOND_DOUBLING_def MAX_BOND_DOUBLINGS_def del: power_Suc)
qed

text \<open>What a new registration must lock is always at least what a block asks of any bond, at
  most four times the launch minimum once the retarget runs, and never falls as the chain's work
  per block grows.\<close>

theorem registration_min_bond_bounds:
  assumes "0 < t" and "t \<le> t'"
  shows "min_mining_bond ts \<le> registration_min_bond t ts \<and>
    registration_min_bond t ts \<le> MAX_MINING_BOND \<and>
    registration_min_bond t' ts \<le> registration_min_bond t ts"
proof (cases "ts < BOND_RETARGET_FROM")
  case True
  have "min_mining_bond ts \<le> MAX_MINING_BOND"
    by (simp add: min_mining_bond_def min_bond_at_def MAX_MINING_BOND_def MAX_BOND_DOUBLINGS_def bond_rule_defs)
  then show ?thesis using True by (simp add: registration_min_bond_def Let_def)
next
  case False
  then have steps: "registration_min_bond t ts = MIN_MINING_BOND *
      2 ^ nat (max 0 (min (trunc_div (work_doublings_since_genesis t) 4) 2))" for t
    by (intro registration_min_bond_steps) simp
  let ?k = "\<lambda>t. nat (max 0 (min (trunc_div (work_doublings_since_genesis t) 4) 2))"
  have "min_mining_bond ts = MIN_MINING_BOND"
    using False by (simp add: min_mining_bond_def min_bond_at_def in_early_phase_of_def
        BOND_RETARGET_FROM_def BOND_RETARGET_DELAY_def sat_add64_def bond_rule_defs)
  moreover have "?k t' \<le> ?k t"
    using trunc_div_mono [OF work_doublings_mono [OF assms], of 4] by (intro nat_mono max.mono min.mono) simp_all
  then have "(2 :: nat) ^ ?k t' \<le> 2 ^ ?k t" by (intro power_increasing) simp_all
  moreover have "(2 :: nat) ^ ?k t \<le> 2 ^ 2" by (rule power_increasing) linarith+
  ultimately show ?thesis
    unfolding steps MAX_MINING_BOND_def MAX_BOND_DOUBLINGS_def by (simp only: mult_le_mono2) simp
qed

theorem registration_min_bond_bounds_witness:
  "registration_min_bond GENESIS_TARGET 1800000000 \<le> MAX_MINING_BOND"
proof -
  have "0 < GENESIS_TARGET" by (simp add: GENESIS_TARGET_def word_less_nat_alt)
  then show ?thesis using registration_min_bond_bounds [of GENESIS_TARGET GENESIS_TARGET] by simp
qed

end
