(* ===== verification/Ordered_Map.thy ===== *)
theory Ordered_Map
  imports Prelude
begin

text \<open>
  The maps of the source. A persistent map (\<^verbatim>\<open>im::HashMap\<close>, \<^verbatim>\<open>im::OrdMap\<close>, \<^verbatim>\<open>std::HashMap\<close>,
  \<^verbatim>\<open>BTreeMap\<close>) is a list of its entries in key order: \<open>om_get\<close>, \<open>om_insert\<close> and \<open>om_remove\<close> are
  its operations. The source iterates over hash maps only to aggregate, or sorts what it
  collects, so the order chosen here is not observable. What the components rely on is the
  locale \<open>finite_map\<close>; the list operations interpret it.
\<close>

subsection \<open>The interface\<close>

locale finite_map =
  fixes get :: "'m \<Rightarrow> 'k \<Rightarrow> 'v option"
    and insert :: "'k \<Rightarrow> 'v \<Rightarrow> 'm \<Rightarrow> 'm"
    and remove :: "'k \<Rightarrow> 'm \<Rightarrow> 'm"
    and entries :: "'m \<Rightarrow> ('k \<times> 'v) list"
    and wf :: "'m \<Rightarrow> bool"
    and empty :: 'm
  assumes wf_empty: "wf empty"
    and wf_insert: "wf m \<Longrightarrow> wf (insert k v m)"
    and wf_remove: "wf m \<Longrightarrow> wf (remove k m)"
    and get_empty: "get empty k = None"
    and get_insert: "wf m \<Longrightarrow> get (insert k v m) = (get m)(k \<mapsto> v)"
    and get_remove: "wf m \<Longrightarrow> get (remove k m) = (get m)(k := None)"
    and entries_get: "wf m \<Longrightarrow> (k, v) \<in> List.set (entries m) \<longleftrightarrow> get m k = Some v"
    and entries_distinct: "wf m \<Longrightarrow> distinct (entries m)"
begin

lemma mset_insert_fresh:
  assumes "wf m" and "get m k = None"
  shows "mset (entries (insert k v m)) = add_mset (k, v) (mset (entries m))"
proof -
  have "List.set (entries (insert k v m)) = List.set ((k, v) # entries m)"
    using assms by (auto simp: entries_get wf_insert get_insert split: if_splits)
  moreover have "distinct ((k, v) # entries m)"
    using assms by (simp add: entries_get entries_distinct)
  ultimately have "mset (entries (insert k v m)) = mset ((k, v) # entries m)"
    using set_eq_iff_mset_eq_distinct entries_distinct [OF wf_insert [OF assms(1)]] by blast
  then show ?thesis by simp
qed

lemma mset_remove_present:
  assumes "wf m" and "get m k = Some v"
  shows "mset (entries m) = add_mset (k, v) (mset (entries (remove k m)))"
proof -
  have "List.set (entries m) = List.set ((k, v) # entries (remove k m))"
    using assms by (auto simp: entries_get wf_remove get_remove split: if_splits)
  moreover have "distinct ((k, v) # entries (remove k m))"
    using assms by (simp add: entries_get wf_remove get_remove entries_distinct)
  ultimately have "mset (entries m) = mset ((k, v) # entries (remove k m))"
    using set_eq_iff_mset_eq_distinct entries_distinct [OF assms(1)] by blast
  then show ?thesis by simp
qed

text \<open>Sums over the entries, in any commutative monoid.\<close>

definition total :: "('k \<Rightarrow> 'v \<Rightarrow> 'a :: comm_monoid_add) \<Rightarrow> 'm \<Rightarrow> 'a" where
  "total f m = sum_list (map (\<lambda>(k, v). f k v) (entries m))"

lemma total_mset: "total f m = sum_mset (image_mset (\<lambda>(k, v). f k v) (mset (entries m)))"
  by (simp add: total_def sum_mset_sum_list [symmetric])

lemma total_insert_fresh:
  "wf m \<Longrightarrow> get m k = None \<Longrightarrow> total f (insert k v m) = f k v + total f m"
  by (simp add: total_mset mset_insert_fresh)

lemma total_remove_present:
  "wf m \<Longrightarrow> get m k = Some v \<Longrightarrow> total f m = f k v + total f (remove k m)"
  by (simp add: total_mset mset_remove_present)

end

subsection \<open>Lists in key order\<close>

type_synonym ('k, 'v) omap = "('k \<times> 'v) list"

definition om_get :: "('k, 'v) omap \<Rightarrow> 'k \<Rightarrow> 'v option" where
  "om_get = map_of"

fun om_insert :: "'k :: linorder \<Rightarrow> 'v \<Rightarrow> ('k, 'v) omap \<Rightarrow> ('k, 'v) omap" where
  "om_insert k v [] = [(k, v)]"
| "om_insert k v ((k', v') # m) =
     (if k < k' then (k, v) # (k', v') # m
      else if k = k' then (k, v) # m
      else (k', v') # om_insert k v m)"

definition om_remove :: "'k \<Rightarrow> ('k, 'v) omap \<Rightarrow> ('k, 'v) omap" where
  "om_remove k m = filter (\<lambda>(k', _). k' \<noteq> k) m"

definition om_has :: "('k, 'v) omap \<Rightarrow> 'k \<Rightarrow> bool" where
  "om_has m k \<longleftrightarrow> om_get m k \<noteq> None"

definition om_wf :: "('k :: linorder, 'v) omap \<Rightarrow> bool" where
  "om_wf m \<longleftrightarrow> sorted_wrt (<) (map fst m)"

abbreviation om_values :: "('k, 'v) omap \<Rightarrow> 'v list" where
  "om_values m \<equiv> map snd m"

abbreviation om_keys :: "('k, 'v) omap \<Rightarrow> 'k list" where
  "om_keys m \<equiv> map fst m"

lemma om_wf_Nil [simp]: "om_wf []"
  by (simp add: om_wf_def)

lemma om_wf_Cons: "om_wf ((k, v) # m) \<longleftrightarrow> (\<forall>k'\<in>fst ` set m. k < k') \<and> om_wf m"
  by (auto simp: om_wf_def)

lemma om_keys_insert: "fst ` set (om_insert k v m) = insert k (fst ` set m)"
  by (induction k v m rule: om_insert.induct) auto

lemma om_wf_insert [simp]: "om_wf m \<Longrightarrow> om_wf (om_insert k v m)"
  by (induction k v m rule: om_insert.induct)
     (auto simp: om_wf_Cons om_keys_insert dest: bspec intro: less_trans)

lemma om_wf_remove [simp]: "om_wf m \<Longrightarrow> om_wf (om_remove k m)"
  by (induction m) (auto simp: om_remove_def om_wf_Cons)

lemma om_get_Nil [simp]: "om_get [] k = None"
  by (simp add: om_get_def)

lemma om_get_Cons: "om_get ((k, v) # m) k' = (if k' = k then Some v else om_get m k')"
  by (simp add: om_get_def)

lemma om_get_less: "om_wf ((k', v') # m) \<Longrightarrow> k < k' \<Longrightarrow> om_get m k = None"
  by (fastforce simp: om_get_def om_wf_Cons map_of_eq_None_iff)

lemma om_get_insert [simp]: "om_wf m \<Longrightarrow> om_get (om_insert k v m) = (om_get m)(k \<mapsto> v)"
  by (induction k v m rule: om_insert.induct)
     (auto simp: om_get_Cons om_wf_Cons fun_eq_iff)

lemma om_get_remove [simp]: "om_get (om_remove k m) = (om_get m)(k := None)"
  by (induction m) (auto simp: om_remove_def om_get_def fun_eq_iff)

lemma om_distinct_keys: "om_wf m \<Longrightarrow> distinct (map fst m)"
  by (simp add: om_wf_def strict_sorted_distinct)

lemma om_get_iff: "om_wf m \<Longrightarrow> (k, v) \<in> set m \<longleftrightarrow> om_get m k = Some v"
  by (simp add: om_get_def om_distinct_keys)

lemma om_has_iff: "om_has m k \<longleftrightarrow> k \<in> fst ` set m"
  by (metis om_has_def om_get_def map_of_eq_None_iff)

interpretation om: finite_map om_get om_insert om_remove "\<lambda>m. m" om_wf "[]"
  by unfold_locales (auto simp: om_get_iff dest: om_distinct_keys intro: distinct_map [THEN iffD1, THEN conjunct1])

text \<open>Two well-formed maps with the same lookups are equal: map equality of the source.\<close>

lemma om_rebuild: "om_wf m \<Longrightarrow> map (\<lambda>k. (k, the (om_get m k))) (map fst m) = m"
  by (auto simp: om_get_iff intro!: map_idI)

lemma om_ext:
  assumes "om_wf m" and "om_wf n" and "om_get m = om_get n"
  shows "m = n"
proof -
  have "fst ` set m = fst ` set n"
    using assms by (force simp: om_get_iff)
  then have "map fst m = map fst n"
    using assms(1,2) strict_sorted_equal [of "map fst m" "map fst n"] by (simp add: om_wf_def)
  then show ?thesis
    using om_rebuild [OF assms(1)] om_rebuild [OF assms(2)] assms(3) by simp
qed

lemma om_remove_absent: "om_get m k = None \<Longrightarrow> om_remove k m = m"
  by (force simp: om_remove_def om_get_def map_of_eq_None_iff intro!: filter_True)

lemma om_insert_remove: "om_wf m \<Longrightarrow> om_get m k = None \<Longrightarrow> om_remove k (om_insert k v m) = m"
  by (rule om_ext) (auto simp: fun_eq_iff)

lemma om_remove_insert: "om_wf m \<Longrightarrow> om_get m k = Some v \<Longrightarrow> om_insert k v (om_remove k m) = m"
  by (rule om_ext) (auto simp: fun_eq_iff)

text \<open>The last entry of a map in key order is the one with the largest key.\<close>

lemma om_last_max: "om_wf m \<Longrightarrow> (k, v) \<in> set m \<Longrightarrow> k \<le> fst (last m)"
proof (induction m)
  case (Cons e m)
  obtain a b where e: "e = (a, b)" by (cases e)
  show ?case
  proof (cases "m = []")
    case False
    then have "a \<le> fst (last m)" using Cons.prems(1) e by (simp add: om_wf_Cons less_imp_le)
    then show ?thesis using Cons e False by (auto simp: om_wf_Cons)
  qed (use Cons e in auto)
qed simp

lemma om_hd_min: "om_wf m \<Longrightarrow> (k, v) \<in> set m \<Longrightarrow> fst (hd m) \<le> k"
  by (cases m) (fastforce simp: om_wf_Cons)+

lemma om_wf_filter: "om_wf m \<Longrightarrow> om_wf (filter P m)"
  by (induction m) (auto simp: om_wf_Cons)

lemma om_get_filter:
  assumes "om_wf m"
  shows "om_get (filter (\<lambda>(k, v). P k v) m) k =
     (case om_get m k of None \<Rightarrow> None | Some v \<Rightarrow> if P k v then Some v else None)"
proof -
  let ?f = "om_get (filter (\<lambda>(k, v). P k v) m) k"
  have *: "?f = Some v \<longleftrightarrow> om_get m k = Some v \<and> P k v" for v
    using om_get_iff [OF assms] om_get_iff [OF om_wf_filter [OF assms], of k v "\<lambda>(k, v). P k v"]
    by simp
  show ?thesis
  proof (cases ?f)
    case None
    then have "\<not> (om_get m k = Some v \<and> P k v)" for v using * [of v] by simp
    then show ?thesis using None by (auto split: option.split)
  next
    case (Some v)
    then show ?thesis using * [of v] by simp
  qed
qed

end
