(* ===== verification/Relay.thy ===== *)
theory Relay
  imports Anchor Ordered_Map
begin

text \<open>
  The midstate header chain consensus tracks, \<^verbatim>\<open>src/src/core/relay.rs\<close>: its entries by height and by
  hash, the cheap checks a block's relayed headers must pass, replacement of a branch by a heavier
  one, the window, and taking a change back.
\<close>

subsection \<open>Entries\<close>

definition MAX_RELAY_HEADERS_PER_BLOCK :: nat where "MAX_RELAY_HEADERS_PER_BLOCK = 24 * 60"
definition RELAY_WEIGHT_PER_HEADER :: nat where "RELAY_WEIGHT_PER_HEADER = 4"
definition RELAY_WINDOW :: nat where "RELAY_WINDOW = 2 * 24 * 60"
definition RELAY_MAX_FUTURE :: nat where "RELAY_MAX_FUTURE = 2 * MAX_FUTURE_BLOCK_TIME"
definition MIDSTATE_BLOCK_HEIGHT :: nat where "MIDSTATE_BLOCK_HEIGHT = 334607"
definition MIDSTATE_BLOCK_HASH :: h256 where
  "MIDSTATE_BLOCK_HASH = 0x00000001c2f5feb4ea71852dabc7c7c99662a6fb5da5845306bffbf95c60cbd2"

definition MIDSTATE_ASERT_TARGET :: h256 where
  "MIDSTATE_ASERT_TARGET = 0x0011ffffffffffffffffffffffffffffffffffffffffffffffffffffffffffff"
definition MIDSTATE_ASERT_TIME :: nat where "MIDSTATE_ASERT_TIME = 1772274770"

definition window_left :: "nat \<Rightarrow> nat \<Rightarrow> nat option" where
  "window_left height tip = chk_sub (sat_add64 height RELAY_WINDOW) tip"

definition midstate_schedule :: "nat \<Rightarrow> nat" where
  "midstate_schedule height = sat_add64 MIDSTATE_ASERT_TIME (sat_mul64 60 (sat_add64 height 1))"

definition midstate_target :: "nat \<Rightarrow> nat \<Rightarrow> h256" where
  "midstate_target height parent_timestamp =
     (let shift = (case midstate_pow_algo_at height of
          Walk \<Rightarrow> MIDSTATE_WALK_TARGET_SHIFT | Blake3Chain \<Rightarrow> 0)
      in asert_target MIDSTATE_ASERT_TARGET MIDSTATE_ASERT_TIME height parent_timestamp shift)"

record RelayEntry =
  re_height :: nat
  re_hash :: h256
  re_prev :: h256
  re_state_root :: h256
  re_timestamp :: nat
  re_work :: nat
  chain_work :: nat
  re_digest :: h256

definition RelayEntry_root :: "hasher \<Rightarrow> RelayEntry" where
  "RelayEntry_root H =
     \<lparr>re_height = MIDSTATE_BLOCK_HEIGHT, re_hash = MIDSTATE_BLOCK_HASH, re_prev = 0,
      re_state_root = 0, re_timestamp = 0, re_work = 0, chain_work = 0,
      re_digest = hash_domain H (ascii ''midwimble.relay-root.v1'')
        [be_bytes MIDSTATE_BLOCK_HASH, le_bytes 8 MIDSTATE_BLOCK_HEIGHT]\<rparr>"

definition is_root :: "hasher \<Rightarrow> RelayEntry \<Rightarrow> bool" where
  "is_root H e \<longleftrightarrow> e = RelayEntry_root H"

definition digest_after :: "hasher \<Rightarrow> RelayEntry \<Rightarrow> h256 \<Rightarrow> h256" where
  "digest_after H e prev_digest =
     hash_domain H (ascii ''midwimble.relay-entry.v1'')
       [be_bytes prev_digest, le_bytes 8 (re_height e), be_bytes (re_hash e), be_bytes (re_prev e),
        be_bytes (re_state_root e), le_bytes 8 (re_timestamp e), le_bytes 16 (re_work e),
        le_bytes 16 (chain_work e)]"

definition RelayEntry_next :: "hasher \<Rightarrow> RelayEntry \<Rightarrow> HeaderLink \<Rightarrow> nat \<Rightarrow> RelayEntry" where
  "RelayEntry_next H self link work =
     (let e = \<lparr>re_height = re_height self + 1, re_hash = final_hash link, re_prev = re_hash self,
               re_state_root = hl_state_root link, re_timestamp = hl_timestamp link, re_work = work,
               chain_work = sat_add128 (chain_work self) work, re_digest = 0\<rparr>
      in e\<lparr>re_digest := digest_after H e (re_digest self)\<rparr>)"

record RelayHeaders =
  rh_prev :: h256
  rh_headers :: "HeaderLink list"

definition RelayHeaders_weight :: "RelayHeaders \<Rightarrow> nat" where
  "RelayHeaders_weight r = sat_mul64 RELAY_WEIGHT_PER_HEADER (length (rh_headers r))"

fun relay_jobs :: "hasher \<Rightarrow> h256 \<Rightarrow> nat \<Rightarrow> HeaderLink list \<Rightarrow> PowJob list" where
  "relay_jobs H prev height [] = []"
| "relay_jobs H prev height (link # links) =
     \<lparr>algo = midstate_pow_algo_at height, mining_hash = link_mining_hash H prev link,
      job_nonce = hl_nonce link, job_final_hash = final_hash link\<rparr>
     # relay_jobs H (final_hash link) (height + 1) links"

definition RelayHeaders_verify_pow ::
    "hasher \<Rightarrow> walker \<Rightarrow> nat \<Rightarrow> RelayHeaders \<Rightarrow> nat \<Rightarrow> PowCheck + unit" where
  "RelayHeaders_verify_pow H walk piece r first_height =
     check_pow_jobs H walk piece (relay_jobs H (rh_prev r) first_height (rh_headers r))"

subsection \<open>The relay\<close>

record RelayChange =
  added :: "RelayEntry list"
  removed :: "RelayEntry list"
  fork_from :: "nat option"

record Relay =
  entries :: "(nat, RelayEntry) omap"
  heights :: "(h256, nat) omap"

datatype relay_error =
    NothingRelayed
  | TooManyRelayed nat
  | UnknownBase
  | RepeatsOwnChain
  | HeaderMissesTarget nat
  | HeaderInFuture nat
  | HeaderWrongTarget nat
  | HeaderAlreadyRelayed nat
  | BranchTooLight nat
  | EmptyRelay
  | TooManyEntries
  | NotAChain nat
  | EntryTwice
  | MissingEntry

definition Relay_genesis :: "hasher \<Rightarrow> Relay" where
  "Relay_genesis H =
     \<lparr>entries = [(re_height (RelayEntry_root H), RelayEntry_root H)],
      heights = [(re_hash (RelayEntry_root H), re_height (RelayEntry_root H))]\<rparr>"

definition Relay_insert :: "RelayEntry \<Rightarrow> Relay \<Rightarrow> Relay" where
  "Relay_insert e r =
     \<lparr>entries = om_insert (re_height e) e (entries r), heights = om_insert (re_hash e) (re_height e) (heights r)\<rparr>"

definition Relay_remove :: "nat \<Rightarrow> Relay \<Rightarrow> Relay \<times> RelayEntry option" where
  "Relay_remove height r =
     (case om_get (entries r) height of
        None \<Rightarrow> (r, None)
      | Some e \<Rightarrow> (\<lparr>entries = om_remove height (entries r), heights = om_remove (re_hash e) (heights r)\<rparr>, Some e))"

text \<open>The source expects a relay never to be empty; \<open>relay_ok\<close> says so.\<close>

definition Relay_tip :: "Relay \<Rightarrow> RelayEntry" where
  "Relay_tip r = snd (last (entries r))"

definition Relay_base :: "Relay \<Rightarrow> RelayEntry" where
  "Relay_base r = snd (hd (entries r))"

definition Relay_get :: "Relay \<Rightarrow> nat \<Rightarrow> RelayEntry option" where
  "Relay_get r height = om_get (entries r) height"

definition Relay_by_hash :: "Relay \<Rightarrow> h256 \<Rightarrow> RelayEntry option" where
  "Relay_by_hash r h = Option.bind (om_get (heights r) h) (om_get (entries r))"

definition Relay_commitment :: "Relay \<Rightarrow> h256" where
  "Relay_commitment r = re_digest (Relay_tip r)"

definition Relay_credited_above :: "Relay \<Rightarrow> nat \<Rightarrow> nat \<Rightarrow> nat" where
  "Relay_credited_above r height cap =
     foldl (\<lambda>sum (_, e). sat_add128 sum (min (re_work e) cap)) 0
       (filter (\<lambda>(h, _). sat_add64 height 1 \<le> h) (entries r))"

definition chain_step_ok :: "hasher \<Rightarrow> RelayEntry \<Rightarrow> RelayEntry \<Rightarrow> bool" where
  "chain_step_ok H lower e \<longleftrightarrow>
     re_height e = re_height lower + 1 \<and> re_prev e = re_hash lower \<and>
     chain_work e = sat_add128 (chain_work lower) (re_work e) \<and>
     re_digest e = digest_after H e (re_digest lower)"

fun from_entries_loop :: "hasher \<Rightarrow> RelayEntry \<Rightarrow> RelayEntry list \<Rightarrow> Relay \<Rightarrow> relay_error + Relay" where
  "from_entries_loop H lower [] r = Inr r"
| "from_entries_loop H lower (e # es) r =
     (if \<not> chain_step_ok H lower e then Inl (NotAChain (re_height e))
      else if om_has (heights r) (re_hash e) then Inl EntryTwice
      else from_entries_loop H e es (Relay_insert e r))"

definition from_entries :: "hasher \<Rightarrow> RelayEntry list \<Rightarrow> relay_error + Relay" where
  "from_entries H es =
     (case es of
        [] \<Rightarrow> Inl EmptyRelay
      | first # rest \<Rightarrow>
          if RELAY_WINDOW + 1 < length es then Inl TooManyEntries
          else from_entries_loop H first rest (Relay_insert first \<lparr>entries = [], heights = []\<rparr>))"

text \<open>The checks of one relayed header, and the entry it makes on top of \<open>prev\<close>.\<close>

definition check_link ::
    "hasher \<Rightarrow> Relay \<Rightarrow> nat \<Rightarrow> nat \<Rightarrow> nat \<Rightarrow> RelayEntry \<Rightarrow> HeaderLink \<Rightarrow> relay_error + RelayEntry" where
  "check_link H r base_height latest i prev link =
     (if hl_target link \<le> final_hash link then Inl (HeaderMissesTarget i)
      else if latest < hl_timestamp link then Inl (HeaderInFuture i)
      else if \<not> is_root H prev \<and> hl_target link \<noteq> midstate_target (re_height prev + 1) (re_timestamp prev)
      then Inl (HeaderWrongTarget i)
      else
        let entry = RelayEntry_next H prev link (calculate_work (hl_target link)) in
        if (case om_get (heights r) (re_hash entry) of Some h \<Rightarrow> h \<le> base_height | None \<Rightarrow> False)
        then Inl (HeaderAlreadyRelayed i)
        else Inr entry)"

fun check_links ::
    "hasher \<Rightarrow> Relay \<Rightarrow> nat \<Rightarrow> nat \<Rightarrow> nat \<Rightarrow> RelayEntry \<Rightarrow> HeaderLink list \<Rightarrow> relay_error + RelayEntry list" where
  "check_links H r base_height latest i prev [] = Inr []"
| "check_links H r base_height latest i prev (link # links) =
     and_then (check_link H r base_height latest i prev link) (\<lambda>entry.
     and_then (check_links H r base_height latest (i + 1) entry links) (\<lambda>rest. Inr (entry # rest)))"

definition remove_heights :: "nat list \<Rightarrow> Relay \<Rightarrow> Relay \<times> RelayEntry list" where
  "remove_heights hs r =
     fold (\<lambda>h (r, out). case Relay_remove h r of
             (r, Some e) \<Rightarrow> (r, out @ [e]) | (r, None) \<Rightarrow> (r, out)) hs (r, [])"

definition Relay_extend :: "hasher \<Rightarrow> Relay \<Rightarrow> RelayHeaders \<Rightarrow> nat \<Rightarrow> relay_error + Relay \<times> RelayChange" where
  "Relay_extend H r relayed block_timestamp =
     (let n = length (rh_headers relayed) in
      if n = 0 then Inl NothingRelayed
      else if MAX_RELAY_HEADERS_PER_BLOCK < n then Inl (TooManyRelayed n)
      else
        and_then (ok_or UnknownBase (Relay_by_hash r (rh_prev relayed))) (\<lambda>base.
        let tip = Relay_tip r in
        and_then
          (if re_height base < re_height tip
           then
             case Relay_get r (re_height base + 1) of
               None \<Rightarrow> Inl MissingEntry
             | Some replaced \<Rightarrow>
                 if final_hash (hd (rh_headers relayed)) = re_hash replaced then Inl RepeatsOwnChain
                 else Inr ()
           else Inr ())
          (\<lambda>_.
        let latest = sat_add64 block_timestamp RELAY_MAX_FUTURE in
        and_then (check_links H r (re_height base) latest 0 base (rh_headers relayed)) (\<lambda>add.
        let prev = last add in
        if re_height base < re_height tip \<and> chain_work prev \<le> chain_work tip
        then Inl (BranchTooLight (re_height base))
        else
          let (r1, rem1) = remove_heights [re_height base + 1..<re_height tip + 1] r;
              fork = (if rem1 = [] then None else Some (re_height base));
              r2 = fold Relay_insert add r1;
              keep_from = re_height (Relay_tip r2) - RELAY_WINDOW;
              stale = map fst (filter (\<lambda>(h, _). h < keep_from) (entries r2));
              (r3, rem2) = remove_heights stale r2
          in Inr (r3, \<lparr>added = add, removed = rem1 @ rem2, fork_from = fork\<rparr>)))))"

definition apply_change :: "RelayEntry list \<Rightarrow> RelayEntry list \<Rightarrow> Relay \<Rightarrow> Relay" where
  "apply_change rem add r = fold Relay_insert add (fold (\<lambda>e r. fst (Relay_remove (re_height e) r)) rem r)"

definition revert_change :: "RelayEntry list \<Rightarrow> RelayEntry list \<Rightarrow> Relay \<Rightarrow> Relay" where
  "revert_change rem add r = fold Relay_insert rem (fold (\<lambda>e r. fst (Relay_remove (re_height e) r)) add r)"

subsection \<open>The relay as a list of entries\<close>

definition as_map :: "RelayEntry list \<Rightarrow> (nat, RelayEntry) omap" where
  "as_map es = map (\<lambda>e. (re_height e, e)) es"

definition consecutive :: "RelayEntry list \<Rightarrow> bool" where
  "consecutive es \<longleftrightarrow> adjacent (\<lambda>a b. re_height b = re_height a + 1) es"

definition chain_ok :: "hasher \<Rightarrow> RelayEntry list \<Rightarrow> bool" where
  "chain_ok H es \<longleftrightarrow> adjacent (chain_step_ok H) es"

text \<open>A relay is a non-empty chain within the window, and \<open>heights\<close> never misplaces a hash.\<close>

definition heights_ok :: "Relay \<Rightarrow> bool" where
  "heights_ok r \<longleftrightarrow> om_wf (heights r) \<and>
     (\<forall>x h. om_get (heights r) x = Some h \<longrightarrow> (\<exists>e. om_get (entries r) h = Some e \<and> re_hash e = x))"

definition relay_ok :: "hasher \<Rightarrow> Relay \<Rightarrow> bool" where
  "relay_ok H r \<longleftrightarrow>
     (\<exists>es. es \<noteq> [] \<and> entries r = as_map es \<and> chain_ok H es \<and> length es \<le> RELAY_WINDOW + 1 \<and>
        (\<forall>e\<in>set es. chain_work e \<le> U128_MAX)) \<and>
     heights_ok r"

lemma adjacent_mono: "adjacent P xs \<Longrightarrow> (\<And>a b. P a b \<Longrightarrow> Q a b) \<Longrightarrow> adjacent Q xs"
  by (induction P xs rule: adjacent.induct) auto

lemma chain_consecutive: "chain_ok H es \<Longrightarrow> consecutive es"
  unfolding chain_ok_def consecutive_def by (erule adjacent_mono) (simp add: chain_step_ok_def)

lemma consecutive_heights:
  "consecutive es \<Longrightarrow> es \<noteq> [] \<Longrightarrow> map re_height es = [re_height (hd es)..<re_height (hd es) + length es]"
proof (induction es)
  case (Cons e es)
  show ?case
  proof (cases es)
    case (Cons e' es')
    then have "map re_height es = [re_height e + 1..<re_height e + 1 + length es]"
      using Cons.IH Cons.prems by (simp add: consecutive_def del: upt_Suc)
    then show ?thesis by (simp add: upt_conv_Cons [of "re_height e"] del: upt_Suc)
  qed simp
qed simp

lemma consecutive_last: "consecutive es \<Longrightarrow> es \<noteq> [] \<Longrightarrow> re_height (last es) = re_height (hd es) + length es - 1"
proof -
  assume a: "consecutive es" "es \<noteq> []"
  have "re_height (last es) = last (map re_height es)" using a(2) by (simp add: last_map)
  also have "\<dots> = re_height (hd es) + length es - 1"
    using a by (simp add: consecutive_heights last_upt)
  finally show ?thesis .
qed

lemma om_wf_as_map: "consecutive es \<Longrightarrow> om_wf (as_map es)"
  by (cases "es = []") (simp_all add: om_wf_def as_map_def comp_def consecutive_heights sorted_wrt_upt)

lemma as_map_append: "as_map (es @ fs) = as_map es @ as_map fs"
  by (simp add: as_map_def)

lemma om_get_as_map: "om_get (as_map es) h = find (\<lambda>e. re_height e = h) es"
  by (induction es) (auto simp: om_get_def as_map_def)

lemma om_remove_as_map: "om_remove h (as_map es) = as_map (filter (\<lambda>e. re_height e \<noteq> h) es)"
  by (induction es) (auto simp: om_remove_def as_map_def)

lemma om_insert_last: "\<forall>k'\<in>fst ` set m. k' < k \<Longrightarrow> om_insert k v m = m @ [(k, v)]"
  by (induction k v m rule: om_insert.induct) auto

lemma om_insert_first: "\<forall>k'\<in>fst ` set m. k < k' \<Longrightarrow> om_insert k v m = (k, v) # m"
  by (cases m) auto

lemma tip_as_map: "entries r = as_map es \<Longrightarrow> es \<noteq> [] \<Longrightarrow> Relay_tip r = last es"
  by (simp add: Relay_tip_def as_map_def last_map)

lemma heights_ok_insert:
  assumes "heights_ok r" and "om_wf (entries r)" and "om_get (entries r) (re_height e) = None"
  shows "heights_ok (Relay_insert e r)"
  using assms by (fastforce simp: heights_ok_def Relay_insert_def)

lemma Relay_remove_eq:
  assumes "entries r = as_map es"
  shows "entries (fst (Relay_remove h r)) = as_map (filter (\<lambda>e. re_height e \<noteq> h) es)"
    and "snd (Relay_remove h r) = find (\<lambda>e. re_height e = h) es"
proof -
  show "snd (Relay_remove h r) = find (\<lambda>e. re_height e = h) es"
    by (simp add: Relay_remove_def assms(1) om_get_as_map split: option.split)
  show "entries (fst (Relay_remove h r)) = as_map (filter (\<lambda>e. re_height e \<noteq> h) es)"
  proof (cases "find (\<lambda>e. re_height e = h) es")
    case None
    then have "filter (\<lambda>e. re_height e \<noteq> h) es = es" by (auto simp: find_None_iff intro: filter_True)
    then show ?thesis using None by (simp add: Relay_remove_def assms(1) om_get_as_map)
  next
    case (Some e)
    then show ?thesis by (simp add: Relay_remove_def assms(1) om_get_as_map om_remove_as_map)
  qed
qed

lemma heights_ok_remove:
  assumes "heights_ok r"
  shows "heights_ok (fst (Relay_remove h r))"
  using assms by (fastforce simp: heights_ok_def Relay_remove_def split: option.splits)

lemma sorted_split:
  "sorted_wrt (\<lambda>a b. re_height a < re_height b) es \<Longrightarrow>
   es = filter (\<lambda>e. re_height e < k) es @ filter (\<lambda>e. k \<le> re_height e) es"
proof (induction es)
  case (Cons a es)
  show ?case
  proof (cases "re_height a < k")
    case False
    then have "filter (\<lambda>e. re_height e < k) es = []" "filter (\<lambda>e. k \<le> re_height e) es = es"
      using Cons.prems by (auto simp: filter_empty_conv intro!: filter_True)
    then show ?thesis using False by simp
  qed (use Cons in simp)
qed simp

lemma consecutive_sorted: "consecutive es \<Longrightarrow> sorted_wrt (\<lambda>a b. re_height a < re_height b) es"
proof (cases "es = []")
  case False
  assume "consecutive es"
  then have "sorted_wrt (<) (map re_height es)"
    using False by (simp add: consecutive_heights sorted_wrt_upt)
  then show ?thesis by (simp add: sorted_wrt_map)
qed simp

lemma sorted_distinct_heights:
  "sorted_wrt (\<lambda>a b. re_height a < re_height b) es \<Longrightarrow> distinct (map re_height es)"
  by (induction es) auto

lemma find_height:
  "distinct (map re_height es) \<Longrightarrow> find (\<lambda>e. re_height e = h) es = Some e \<longleftrightarrow> e \<in> set es \<and> re_height e = h"
  by (induction es) (auto simp: image_iff)

lemma remove_heights_snoc:
  "remove_heights (hs @ [h]) r =
     (let (r1, out) = remove_heights hs r; (r2, e) = Relay_remove h r1 in
      (r2, case e of None \<Rightarrow> out | Some e \<Rightarrow> out @ [e]))"
  by (simp add: remove_heights_def split: prod.split option.split)

lemma remove_heights_entries:
  assumes "entries r = as_map es"
  shows "entries (fst (remove_heights hs r)) = as_map (filter (\<lambda>e. re_height e \<notin> set hs) es)"
proof (induction hs rule: rev_induct)
  case (snoc h hs)
  let ?r1 = "fst (remove_heights hs r)"
  have "entries (fst (remove_heights (hs @ [h]) r)) = entries (fst (Relay_remove h ?r1))"
    by (simp add: remove_heights_snoc Let_def split_def)
  also have "\<dots> = as_map (filter (\<lambda>e. re_height e \<noteq> h) (filter (\<lambda>e. re_height e \<notin> set hs) es))"
    by (rule Relay_remove_eq(1)) (rule snoc.IH)
  also have "filter (\<lambda>e. re_height e \<noteq> h) (filter (\<lambda>e. re_height e \<notin> set hs) es)
      = filter (\<lambda>e. re_height e \<notin> set (hs @ [h])) es"
    unfolding filter_filter by (rule filter_cong) auto
  finally show ?case .
qed (simp add: remove_heights_def assms)

lemma remove_heights_out:
  assumes "entries r = as_map es" and "distinct (map re_height es)"
    and "set fs \<subseteq> set es" and "distinct fs"
  shows "snd (remove_heights (map re_height fs) r) = fs"
  using assms(3,4)
proof (induction fs rule: rev_induct)
  case (snoc f fs)
  let ?r1 = "fst (remove_heights (map re_height fs) r)"
  let ?es = "filter (\<lambda>e. re_height e \<notin> set (map re_height fs)) es"
  have inj: "inj_on re_height (set es)" using assms(2) by (simp add: distinct_map)
  have "f \<in> set ?es" using snoc.prems inj by (auto simp: inj_on_def subset_iff)
  moreover have "distinct (map re_height ?es)" using assms(2) by (rule distinct_map_filter)
  ultimately have "find (\<lambda>e. re_height e = re_height f) ?es = Some f" by (simp add: find_height)
  then have "snd (Relay_remove (re_height f) ?r1) = Some f"
    using Relay_remove_eq(2) [OF remove_heights_entries [OF assms(1)], of "re_height f" "map re_height fs"] by simp
  then show ?case using snoc by (simp add: remove_heights_snoc Let_def split_def)
qed (simp add: remove_heights_def)

lemma remove_heights_ok: "heights_ok r \<Longrightarrow> heights_ok (fst (remove_heights hs r))"
proof (induction hs rule: rev_induct)
  case (snoc h hs)
  then show ?case
    using heights_ok_remove [of "fst (remove_heights hs r)" h]
    by (simp add: remove_heights_snoc Let_def split_def)
qed (simp add: remove_heights_def)

lemma fold_insert_entries:
  assumes "entries r = as_map es" and "consecutive (es @ add)" and "heights_ok r"
  shows "entries (fold Relay_insert add r) = as_map (es @ add) \<and> heights_ok (fold Relay_insert add r)"
  using assms
proof (induction add arbitrary: es r)
  case (Cons e add)
  have sorted: "sorted_wrt (\<lambda>a b. re_height a < re_height b) (es @ e # add)"
    using Cons.prems(2) by (rule consecutive_sorted)
  then have lt: "\<forall>k'\<in>fst ` set (as_map es). k' < re_height e"
    by (auto simp: as_map_def sorted_wrt_append)
  have e: "entries (Relay_insert e r) = as_map (es @ [e])"
    using om_insert_last [OF lt] Cons.prems(1) by (simp add: Relay_insert_def as_map_def)
  have "consecutive es" using Cons.prems(2) by (simp add: consecutive_def adjacent_append)
  moreover have "om_get (as_map es) (re_height e) = None"
    using sorted by (auto simp: om_get_as_map find_None_iff sorted_wrt_append)
  ultimately have "heights_ok (Relay_insert e r)"
    using Cons.prems(1,3) by (intro heights_ok_insert) (simp_all add: om_wf_as_map)
  from Cons.IH [OF e _ this] show ?case using Cons.prems(2) by simp
qed simp

lemma check_links_chain:
  "check_links H r bh latest i prev links = Inr add \<Longrightarrow>
   chain_ok H (prev # add) \<and> length add = length links \<and>
   list_all2 (\<lambda>l e. re_hash e = final_hash l \<and> final_hash l < hl_target l \<and> hl_timestamp l \<le> latest \<and>
     re_work e = calculate_work (hl_target l)) links add"
proof (induction links arbitrary: i prev add)
  case (Cons l links)
  obtain e rest where e: "check_link H r bh latest i prev l = Inr e"
    and rest: "check_links H r bh latest (i + 1) e links = Inr rest" and add: "add = e # rest"
    using Cons.prems by (auto elim!: and_then_InrE)
  have "e = RelayEntry_next H prev l (calculate_work (hl_target l))" "final_hash l < hl_target l"
    "hl_timestamp l \<le> latest"
    using e by (auto simp: check_link_def Let_def split: if_splits)
  moreover from this have "chain_step_ok H prev e"
    by (simp add: chain_step_ok_def RelayEntry_next_def Let_def digest_after_def)
  ultimately show ?case
    using Cons.IH [OF rest] add by (auto simp: chain_ok_def RelayEntry_next_def Let_def)
qed (simp add: chain_ok_def)

subsection \<open>What extending does\<close>

lemma Relay_by_hash_entry:
  assumes "heights_ok r" and "entries r = as_map es" and "distinct (map re_height es)"
    and "Relay_by_hash r x = Some e"
  shows "e \<in> set es \<and> re_hash e = x"
proof -
  obtain h where h: "om_get (heights r) x = Some h" "om_get (entries r) h = Some e"
    using assms(4) by (auto simp: Relay_by_hash_def bind_eq_Some_conv)
  moreover obtain e' where "om_get (entries r) h = Some e'" "re_hash e' = x"
    using assms(1) h(1) unfolding heights_ok_def by blast
  ultimately have "re_hash e = x" by simp
  moreover have "e \<in> set es" using h(2) assms(2,3) by (simp add: om_get_as_map find_height)
  ultimately show ?thesis by simp
qed

text \<open>Every accepted extension in one shape: the relay splits at the base, the part above it is
  replaced by the new entries, and what fell out of the window is dropped.\<close>

lemma Relay_extend_shape:
  assumes "relay_ok H r" and "Relay_extend H r relayed ts = Inr (r', ch)"
  obtains xs base ys keep where
    "entries r = as_map (xs @ base # ys)" and "chain_ok H (xs @ base # ys)"
    and "chain_ok H (xs @ base # added ch)" and "added ch \<noteq> []"
    and "length (added ch) = length (rh_headers relayed)"
    and "length (added ch) \<le> MAX_RELAY_HEADERS_PER_BLOCK"
    and "re_hash base = rh_prev relayed"
    and "keep = re_height (last (added ch)) - RELAY_WINDOW"
    and "entries r' = as_map (filter (\<lambda>e. keep \<le> re_height e) (xs @ base # added ch))"
    and "removed ch = ys @ filter (\<lambda>e. re_height e < keep) (xs @ base # added ch)"
    and "fork_from ch = (if ys = [] then None else Some (re_height base))"
    and "ys = [] \<or> chain_work (last ys) < chain_work (last (added ch))"
    and "heights_ok r'"
    and "list_all2 (\<lambda>l e. re_hash e = final_hash l \<and> final_hash l < hl_target l \<and>
      hl_timestamp l \<le> sat_add64 ts RELAY_MAX_FUTURE \<and> re_work e = calculate_work (hl_target l))
      (rh_headers relayed) (added ch)"
proof -
  obtain es where es: "es \<noteq> []" "entries r = as_map es" "chain_ok H es"
    using assms(1) by (auto simp: relay_ok_def)
  have hok: "heights_ok r" using assms(1) by (simp add: relay_ok_def)
  have cons: "consecutive es" using es(3) by (rule chain_consecutive)
  have sorted: "sorted_wrt (\<lambda>a b. re_height a < re_height b) es" using cons by (rule consecutive_sorted)
  have dist: "distinct (map re_height es)" using sorted by (rule sorted_distinct_heights)
  have tip: "Relay_tip r = last es" using es by (simp add: tip_as_map)
  obtain base where base: "Relay_by_hash r (rh_prev relayed) = Some base"
    using assms(2) by (auto simp: Relay_extend_def Let_def ok_or_Inr split: if_splits elim!: and_then_InrE)
  have bin: "base \<in> set es" "re_hash base = rh_prev relayed"
    using Relay_by_hash_entry [OF hok es(2) dist base] by auto
  let ?tip = "last es" and ?latest = "sat_add64 ts RELAY_MAX_FUTURE"
  obtain add where add: "check_links H r (re_height base) ?latest 0 base (rh_headers relayed) = Inr add"
    and heavy: "\<not> (re_height base < re_height ?tip \<and> chain_work (last add) \<le> chain_work ?tip)"
    and n: "rh_headers relayed \<noteq> []" "length (rh_headers relayed) \<le> MAX_RELAY_HEADERS_PER_BLOCK"
    and out: "(let (r1, rem1) = remove_heights [re_height base + 1..<re_height ?tip + 1] r;
              fork = (if rem1 = [] then None else Some (re_height base));
              r2 = fold Relay_insert add r1;
              keep_from = re_height (Relay_tip r2) - RELAY_WINDOW;
              stale = map fst (filter (\<lambda>(h, _). h < keep_from) (entries r2));
              (r3, rem2) = remove_heights stale r2
          in (r3, \<lparr>added = add, removed = rem1 @ rem2, fork_from = fork\<rparr>)) = (r', ch)"
    using assms(2) base tip
    by (auto simp: Relay_extend_def Let_def ok_or_def not_less split_def split: if_splits elim!: and_then_InrE)
  obtain xs ys where split: "es = xs @ base # ys" using bin(1) by (auto dest: split_list)
  have hx: "\<And>e. e \<in> set xs \<Longrightarrow> re_height e < re_height base"
    and hy: "\<And>e. e \<in> set ys \<Longrightarrow> re_height base < re_height e"
    using sorted unfolding split by (auto simp: sorted_wrt_append)
  have dropped: "[re_height base + 1..<re_height ?tip + 1] = map re_height ys"
  proof (cases "ys = []")
    case False
    have "consecutive (base # ys)" using cons unfolding split by (simp add: consecutive_def adjacent_append)
    then have "map re_height (base # ys) = [re_height base..<re_height base + length (base # ys)]"
      "re_height (last (base # ys)) = re_height base + length (base # ys) - 1"
      using consecutive_heights [of "base # ys"] consecutive_last [of "base # ys"] by simp_all
    moreover have "?tip = last (base # ys)" using split by simp
    ultimately show ?thesis by (simp add: upt_conv_Cons del: upt_Suc)
  qed (simp add: split)
  define r1 where "r1 = fst (remove_heights (map re_height ys) r)"
  have rem1: "snd (remove_heights (map re_height ys) r) = ys"
    using remove_heights_out [OF es(2) dist, of ys] dist split by (auto simp: distinct_map)
  have "filter (\<lambda>e. re_height e \<notin> set (map re_height ys)) es = xs @ [base]"
    using dist unfolding split by (auto simp: filter_empty_conv intro!: filter_True)
  then have e1: "entries r1 = as_map (xs @ [base])"
    unfolding r1_def using remove_heights_entries [OF es(2), of "map re_height ys"] by simp
  have ok1: "heights_ok r1" unfolding r1_def using hok by (rule remove_heights_ok)
  note cl = check_links_chain [OF add]
  have ne: "add \<noteq> []" using cl n by auto
  have chain': "chain_ok H (xs @ base # add)"
    using cl es(3) unfolding split chain_ok_def by (auto simp: adjacent_append adjacent_Cons)
  define r2 where "r2 = fold Relay_insert add r1"
  have e2: "entries r2 = as_map (xs @ base # add)" and ok2: "heights_ok r2"
    using fold_insert_entries [OF e1 _ ok1, of add] chain_consecutive [OF chain'] by (simp_all add: r2_def)
  have sorted2: "sorted_wrt (\<lambda>a b. re_height a < re_height b) (xs @ base # add)"
    using chain_consecutive [OF chain'] by (rule consecutive_sorted)
  have dist2: "distinct (map re_height (xs @ base # add))" using sorted2 by (rule sorted_distinct_heights)
  have tip2: "Relay_tip r2 = last add" using e2 ne by (simp add: tip_as_map)
  define keep where "keep = re_height (last add) - RELAY_WINDOW"
  let ?old = "filter (\<lambda>e. re_height e < keep) (xs @ base # add)"
  have stale: "map fst (filter (\<lambda>(h, _). h < keep) (entries r2)) = map re_height ?old"
    unfolding e2 as_map_def by (simp add: filter_map comp_def)
  define r3 where "r3 = fst (remove_heights (map re_height ?old) r2)"
  have rem2: "snd (remove_heights (map re_height ?old) r2) = ?old"
  proof (rule remove_heights_out [OF e2 dist2])
    show "distinct ?old" using dist2 by (intro distinct_filter) (simp only: distinct_map)
  qed (rule filter_is_subset)
  have "filter (\<lambda>e. re_height e \<notin> set (map re_height ?old)) (xs @ base # add)
      = filter (\<lambda>e. keep \<le> re_height e) (xs @ base # add)"
    by (rule filter_cong [OF refl]) (auto simp: not_less)
  then have e3: "entries r3 = as_map (filter (\<lambda>e. keep \<le> re_height e) (xs @ base # add))"
    unfolding r3_def using remove_heights_entries [OF e2, of "map re_height ?old"] by simp
  have ok3: "heights_ok r3" unfolding r3_def using ok2 by (rule remove_heights_ok)
  have res: "r' = r3 \<and> ch = \<lparr>added = add, removed = ys @ ?old,
      fork_from = (if ys = [] then None else Some (re_height base))\<rparr>"
    using out unfolding dropped Let_def split_def rem1 r1_def [symmetric] r2_def [symmetric] tip2
      keep_def [symmetric] stale [unfolded case_prod_beta] rem2 r3_def [symmetric] by simp
  have hv: "ys = [] \<or> chain_work (last ys) < chain_work (last add)"
    using heavy hy split by (cases "ys = []") (auto simp: not_le)
  show thesis
    by (rule that [of xs base ys keep])
       (use res es split chain' ne cl n bin keep_def e3 ok3 hv in auto)
qed

lemma chain_work_mono:
  "chain_ok H (e # es) \<Longrightarrow> chain_work e \<le> U128_MAX \<Longrightarrow>
   \<forall>x\<in>set es. chain_work e \<le> chain_work x \<and> chain_work x \<le> U128_MAX"
proof (induction es arbitrary: e)
  case (Cons x es)
  have step: "chain_step_ok H e x" and rest: "chain_ok H (x # es)"
    using Cons.prems(1) by (simp_all add: chain_ok_def)
  have "chain_work x \<le> U128_MAX" "chain_work e \<le> chain_work x"
    using step Cons.prems(2) by (simp_all add: chain_step_ok_def sat_add128_def)
  then show ?case using Cons.IH [OF rest] by fastforce
qed simp

lemma filter_window:
  assumes "chain_ok H es" and "es \<noteq> []" and "keep = re_height (last es) - RELAY_WINDOW"
  shows "chain_ok H (filter (\<lambda>e. keep \<le> re_height e) es) \<and>
    filter (\<lambda>e. keep \<le> re_height e) es \<noteq> [] \<and>
    length (filter (\<lambda>e. keep \<le> re_height e) es) \<le> RELAY_WINDOW + 1 \<and>
    last (filter (\<lambda>e. keep \<le> re_height e) es) = last es"
proof -
  let ?f = "filter (\<lambda>e. keep \<le> re_height e) es" and ?o = "filter (\<lambda>e. re_height e < keep) es"
  have split: "es = ?o @ ?f"
    by (rule sorted_split [OF consecutive_sorted [OF chain_consecutive [OF assms(1)]]])
  have chain: "chain_ok H ?f"
    using assms(1) by (subst (asm) split) (simp add: chain_ok_def adjacent_append)
  have "last es \<in> set ?f" using assms(2,3) by simp
  then have ne: "?f \<noteq> []" by (metis empty_iff list.set(1))
  then have last: "last ?f = last es" using split by (metis last_appendR)
  have L: "re_height (last es) = re_height (hd ?f) + length ?f - 1"
    using consecutive_last [OF chain_consecutive [OF chain] ne] last by simp
  have "hd ?f \<in> set ?f" using ne by (rule hd_in_set)
  then have k: "keep \<le> re_height (hd ?f)" by simp
  have arith: "n \<le> w + 1" if "l = h + n - 1" "k \<le> h" "k = l - w" for l h n k w :: nat
    using that by linarith
  have "length ?f \<le> RELAY_WINDOW + 1" by (rule arith [OF L k assms(3)])
  then show ?thesis using chain ne last by simp
qed

lemma relay_extend_effect:
  assumes "relay_ok H r" and "Relay_extend H r relayed block_timestamp = Inr (r', ch)"
  shows "relay_ok H r' \<and> Relay_tip r' = last (added ch) \<and>
    chain_work (Relay_tip r) \<le> chain_work (Relay_tip r') \<and>
    (fork_from ch \<noteq> None \<longrightarrow> chain_work (Relay_tip r) < chain_work (Relay_tip r'))"
proof -
  obtain xs base ys keep where
    e: "entries r = as_map (xs @ base # ys)" "chain_ok H (xs @ base # ys)" and
    c: "chain_ok H (xs @ base # added ch)" "added ch \<noteq> []" and
    keep: "keep = re_height (last (added ch)) - RELAY_WINDOW" and
    e': "entries r' = as_map (filter (\<lambda>e. keep \<le> re_height e) (xs @ base # added ch))" and
    fork: "fork_from ch = (if ys = [] then None else Some (re_height base))" and
    heavy: "ys = [] \<or> chain_work (last ys) < chain_work (last (added ch))" and
    ok: "heights_ok r'"
    by (rule Relay_extend_shape [OF assms])
  obtain es where "entries r = as_map es" "\<forall>e\<in>set es. chain_work e \<le> U128_MAX"
    using assms(1) by (auto simp: relay_ok_def)
  moreover have "es = xs @ base # ys" if "as_map es = as_map (xs @ base # ys)" for es
    using arg_cong [OF that, of "map snd"] by (simp add: as_map_def comp_def)
  ultimately have bound: "\<forall>e\<in>set (xs @ base # ys). chain_work e \<le> U128_MAX" using e(1) by metis
  let ?es = "xs @ base # added ch"
  let ?f = "filter (\<lambda>e. keep \<le> re_height e) ?es"
  have last: "last ?es = last (added ch)" using c(2) by simp
  have f: "chain_ok H ?f" "?f \<noteq> []" "length ?f \<le> RELAY_WINDOW + 1" "last ?f = last (added ch)"
    using filter_window [OF c(1) _ keep [folded last]] last by auto
  have "chain_ok H (base # added ch)" using c(1) by (auto simp: chain_ok_def adjacent_append)
  then have up: "\<forall>x\<in>set (added ch). chain_work base \<le> chain_work x \<and> chain_work x \<le> U128_MAX"
    using chain_work_mono bound by auto
  then have "\<forall>x\<in>set ?f. chain_work x \<le> U128_MAX" using bound by auto
  then have "relay_ok H r'" unfolding relay_ok_def using e' f ok by (intro conjI exI [of _ ?f]) auto
  moreover have tip': "Relay_tip r' = last (added ch)" using tip_as_map [OF e' f(2)] f(4) by simp
  moreover have "Relay_tip r = last (base # ys)" using tip_as_map [OF e(1)] by simp
  ultimately show ?thesis
    using fork heavy up c(2) by (auto split: if_splits)
qed

text \<open>C20. A block's relayed headers leave the relay a single chain of consecutive, linked entries
  within the window and ending in the last header relayed; its total work never falls, and it
  strictly rises when a branch is replaced.\<close>

theorem relay_extend_keeps_chain:
  assumes "relay_ok H r" and "Relay_extend H r relayed block_timestamp = Inr (r', ch)"
  shows "relay_ok H r' \<and> Relay_tip r' = last (added ch) \<and>
    chain_work (Relay_tip r) \<le> chain_work (Relay_tip r') \<and>
    (fork_from ch \<noteq> None \<longrightarrow> chain_work (Relay_tip r) < chain_work (Relay_tip r'))"
  using assms by (rule relay_extend_effect)

lemma heights_ok_genesis: "heights_ok (Relay_genesis H)"
  by (auto simp: heights_ok_def Relay_genesis_def om_wf_def om_get_def split: if_splits)

lemma relay_ok_genesis: "relay_ok H (Relay_genesis H)"
proof -
  have "entries (Relay_genesis H) = as_map [RelayEntry_root H]"
    by (simp add: Relay_genesis_def as_map_def)
  then show ?thesis
    unfolding relay_ok_def using heights_ok_genesis
    by (intro conjI exI [of _ "[RelayEntry_root H]"]) (auto simp: chain_ok_def RelayEntry_root_def)
qed

text \<open>A concrete extension of the genesis relay, for the witnesses.\<close>

definition sample_link :: HeaderLink where
  "sample_link = \<lparr>post_tx_midstate = 1, hl_state_root = 2, hl_timestamp = 3, hl_target = 9, hl_nonce = 4, final_hash = 5\<rparr>"

definition sample_headers :: RelayHeaders where
  "sample_headers = \<lparr>rh_prev = MIDSTATE_BLOCK_HASH, rh_headers = [sample_link]\<rparr>"

lemma sample_extension:
  "\<exists>r' ch. Relay_extend (\<lambda>_. 0) (Relay_genesis (\<lambda>_. 0)) sample_headers 100 = Inr (r', ch)"
  by (simp add: Relay_extend_def Let_def sample_headers_def sample_link_def Relay_by_hash_def
      Relay_genesis_def RelayEntry_root_def om_get_def ok_or_def MAX_RELAY_HEADERS_PER_BLOCK_def
      Relay_tip_def Relay_get_def check_link_def is_root_def sat_add64_def
      RELAY_MAX_FUTURE_def RelayEntry_next_def MIDSTATE_BLOCK_HASH_def
      MAX_FUTURE_BLOCK_TIME_def hash_domain_def split_def)

theorem relay_extend_keeps_chain_witness:
  "\<exists>r' ch. Relay_extend (\<lambda>_. 0) (Relay_genesis (\<lambda>_. 0)) sample_headers 100 = Inr (r', ch) \<and> relay_ok (\<lambda>_. 0) r'"
  using sample_extension relay_extend_keeps_chain [OF relay_ok_genesis] by metis

subsection \<open>Taking a change back\<close>

lemma om_get_fold_insert:
  assumes "om_wf (entries r)" and "distinct (map re_height es)"
  shows "om_wf (entries (fold Relay_insert es r)) \<and>
    (\<forall>h e. om_get (entries (fold Relay_insert es r)) h = Some e \<longleftrightarrow>
      (e \<in> set es \<and> re_height e = h) \<or> (h \<notin> re_height ` set es \<and> om_get (entries r) h = Some e))"
  using assms
proof (induction es arbitrary: r)
  case (Cons a es)
  have wf: "om_wf (entries (Relay_insert a r))" using Cons.prems by (simp add: Relay_insert_def)
  have get: "om_get (entries (Relay_insert a r)) = (om_get (entries r))(re_height a \<mapsto> a)"
    using Cons.prems(1) by (simp add: Relay_insert_def)
  show ?case using Cons.IH [OF wf] Cons.prems(2) get by (auto simp: image_iff)
qed simp

lemma om_get_fold_remove:
  assumes "om_wf (entries r)"
  shows "om_wf (entries (fold (\<lambda>e r. fst (Relay_remove (re_height e) r)) es r)) \<and>
    (\<forall>h. om_get (entries (fold (\<lambda>e r. fst (Relay_remove (re_height e) r)) es r)) h =
      (if h \<in> re_height ` set es then None else om_get (entries r) h))"
  using assms
proof (induction es arbitrary: r)
  case (Cons a es)
  have "om_wf (entries (fst (Relay_remove (re_height a) r)))" 
    "om_get (entries (fst (Relay_remove (re_height a) r))) = (om_get (entries r))(re_height a := None)"
    using Cons.prems by (auto simp: Relay_remove_def fun_eq_iff split: option.split)
  then show ?case using Cons.IH by simp
qed simp

lemma swap_back:
  fixes f :: "'a \<Rightarrow> nat"
  assumes "\<forall>x\<in>A. \<forall>y\<in>Y \<union> D. f x < f y"
  shows "x \<in> Y \<union> {x \<in> A. f x < k} \<and> f x = h \<or>
      h \<notin> f ` (Y \<union> {x \<in> A. f x < k}) \<and> h \<notin> f ` D \<and> x \<in> {x \<in> A. k \<le> f x} \<union> D \<and> f x = h
    \<longleftrightarrow> x \<in> A \<union> Y \<and> f x = h"
proof -
  have "f x \<notin> f ` Y" "f x \<notin> f ` D" if "x \<in> A"
    using assms that by fastforce+
  moreover have "f x \<notin> f ` {x \<in> A. f x < k}" if "k \<le> f x" using that by auto
  ultimately show ?thesis by (auto simp: not_less)
qed

lemma swap_forth:
  fixes f :: "'a \<Rightarrow> nat"
  assumes "\<forall>x\<in>A. \<forall>y\<in>Y \<union> D. f x < f y"
  shows "x \<in> D \<and> f x = h \<or>
      h \<notin> f ` D \<and> h \<notin> f ` (Y \<union> {x \<in> A. f x < k}) \<and> x \<in> A \<union> Y \<and> f x = h
    \<longleftrightarrow> x \<in> {x \<in> A. k \<le> f x} \<union> D \<and> f x = h"
proof -
  have "f x \<notin> f ` Y" "f x \<notin> f ` D" if "x \<in> A"
    using assms that by fastforce+
  moreover have "f x \<notin> f ` {x \<in> A. f x < k}" if "k \<le> f x" using that by auto
  ultimately show ?thesis by (auto simp: not_less)
qed

lemma om_ext_some:
  assumes "om_wf m" and "om_wf n" and "\<And>k v. om_get m k = Some v \<longleftrightarrow> om_get n k = Some v"
  shows "m = n"
  using assms(1,2)
proof (rule om_ext)
  show "om_get m = om_get n"
  proof
    fix k show "om_get m k = om_get n k" using assms(3) [of k] by (cases "om_get n k") auto
  qed
qed

text \<open>Reverting the change an extension reports gives back the relay it started from, and applying
  it again gives the extended relay: relays are compared by their entries, as the source does.\<close>

theorem relay_change_reverts:
  assumes "relay_ok H r" and "Relay_extend H r relayed block_timestamp = Inr (r', ch)"
  shows "entries (revert_change (removed ch) (added ch) r') = entries r \<and>
    entries (apply_change (removed ch) (added ch) r) = entries r'"
proof -
  obtain xs base ys keep where
    e: "entries r = as_map (xs @ base # ys)" "chain_ok H (xs @ base # ys)" and
    c: "chain_ok H (xs @ base # added ch)" "added ch \<noteq> []" and
    n: "length (added ch) \<le> MAX_RELAY_HEADERS_PER_BLOCK" and
    keep: "keep = re_height (last (added ch)) - RELAY_WINDOW" and
    e': "entries r' = as_map (filter (\<lambda>e. keep \<le> re_height e) (xs @ base # added ch))" and
    rem: "removed ch = ys @ filter (\<lambda>e. re_height e < keep) (xs @ base # added ch)"
    by (rule Relay_extend_shape [OF assms])
  let ?add = "added ch" and ?old = "filter (\<lambda>e. re_height e < keep) (xs @ base # added ch)"
  have s: "sorted_wrt (\<lambda>a b. re_height a < re_height b) (xs @ base # ys)"
    and s': "sorted_wrt (\<lambda>a b. re_height a < re_height b) (xs @ base # ?add)"
    using e(2) c(1) by (simp_all only: chain_consecutive consecutive_sorted)
  have d: "distinct (map re_height (xs @ base # ys))" "distinct (map re_height (xs @ base # ?add))"
    using s s' by (simp_all only: sorted_distinct_heights)
  have wf: "om_wf (entries r)" unfolding e(1) by (rule om_wf_as_map [OF chain_consecutive [OF e(2)]])
  have g: "om_get (entries r) h = Some x \<longleftrightarrow> x \<in> set (xs @ base # ys) \<and> re_height x = h" for h x
    unfolding e(1) om_get_as_map by (rule find_height [OF d(1)])
  let ?kept = "filter (\<lambda>e. keep \<le> re_height e) (xs @ base # ?add)"
  have "chain_ok H ?kept" using filter_window [OF c(1), of keep] c(2) keep by simp
  then have wf': "om_wf (entries r')" unfolding e' by (intro om_wf_as_map chain_consecutive)
  have g': "om_get (entries r') h = Some x \<longleftrightarrow> x \<in> set ?kept \<and> re_height x = h" for h x
    unfolding e' om_get_as_map by (rule find_height) (rule distinct_map_filter [OF d(2)])
  have "consecutive ?add"
    using chain_consecutive [OF c(1)] by (auto simp: consecutive_def adjacent_append adjacent_Cons)
  then have "re_height (last ?add) = re_height (hd ?add) + length ?add - 1"
    using c(2) by (rule consecutive_last)
  then have "keep \<le> re_height (hd ?add)"
    using n keep by (simp add: MAX_RELAY_HEADERS_PER_BLOCK_def RELAY_WINDOW_def)
  moreover have "re_height (hd ?add) \<le> re_height x" if "x \<in> set ?add" for x
    using s' c(2) that by (cases ?add) (auto simp: sorted_wrt_append)
  ultimately have young: "\<And>x. x \<in> set ?add \<Longrightarrow> keep \<le> re_height x" using order_trans by blast
  have lo: "\<And>x y. x \<in> set (xs @ [base]) \<Longrightarrow> y \<in> set ys \<union> set ?add \<Longrightarrow> re_height x < re_height y"
    using s s' by (auto simp: sorted_wrt_append)
  have old: "set ?old = {x \<in> set (xs @ [base]). re_height x < keep}" by (auto dest: young)
  have dr: "distinct (map re_height (removed ch))"
  proof -
    have "distinct (map re_height ys)" using d(1) by simp
    moreover have "distinct (map re_height ?old)" by (rule distinct_map_filter [OF d(2)])
    moreover have "re_height ` set ys \<inter> re_height ` set ?old = {}" unfolding old using lo by fastforce
    ultimately show ?thesis unfolding rem by (simp only: map_append distinct_append set_map)
  qed
  have da: "distinct (map re_height ?add)" using d(2) by simp
  have R: "set (removed ch) = set ys \<union> {x \<in> set (xs @ [base]). re_height x < keep}"
    unfolding rem set_append old ..
  have K: "set ?kept = {x \<in> set (xs @ [base]). keep \<le> re_height x} \<union> set ?add" using young by auto
  let ?A = "set (xs @ [base])" and ?D = "set ?add"
  have sep: "\<forall>x\<in>?A. \<forall>y\<in>set ys \<union> ?D. re_height x < re_height y" using lo by blast
  have all: "set (xs @ base # ys) = ?A \<union> set ys" by auto
  note rm' = om_get_fold_remove [OF wf', of ?add] and rm = om_get_fold_remove [OF wf, of "removed ch"]
  note inb = om_get_fold_insert [OF rm' [THEN conjunct1] dr] and ins = om_get_fold_insert [OF rm [THEN conjunct1] da]
  have "om_get (entries (revert_change (removed ch) ?add r')) h = Some x \<longleftrightarrow> om_get (entries r) h = Some x" for h x
  proof -
    have "om_get (entries (revert_change (removed ch) ?add r')) h = Some x \<longleftrightarrow>
        x \<in> set (removed ch) \<and> re_height x = h \<or>
        h \<notin> re_height ` set (removed ch) \<and> h \<notin> re_height ` ?D \<and> x \<in> set ?kept \<and> re_height x = h"
      using inb rm' g' [of h x] unfolding revert_change_def by auto
    then show ?thesis unfolding g R K all by (simp only: swap_back [OF sep])
  qed
  moreover have "om_get (entries (apply_change (removed ch) ?add r)) h = Some x \<longleftrightarrow> om_get (entries r') h = Some x" for h x
  proof -
    have "om_get (entries (apply_change (removed ch) ?add r)) h = Some x \<longleftrightarrow>
        x \<in> ?D \<and> re_height x = h \<or>
        h \<notin> re_height ` ?D \<and> h \<notin> re_height ` set (removed ch) \<and> x \<in> set (xs @ base # ys) \<and> re_height x = h"
      using ins rm g [of h x] unfolding apply_change_def by auto
    then show ?thesis unfolding g' R K all by (simp only: swap_forth [OF sep])
  qed
  moreover have "om_wf (entries (revert_change (removed ch) ?add r'))" using inb by (simp add: revert_change_def)
  moreover have "om_wf (entries (apply_change (removed ch) ?add r))" using ins by (simp add: apply_change_def)
  ultimately show ?thesis using wf wf' by (intro conjI om_ext_some) assumption+
qed

theorem relay_change_reverts_witness:
  "\<exists>r' ch. Relay_extend (\<lambda>_. 0) (Relay_genesis (\<lambda>_. 0)) sample_headers 100 = Inr (r', ch) \<and>
     entries (revert_change (removed ch) (added ch) r') = entries (Relay_genesis (\<lambda>_. 0))"
  using sample_extension relay_change_reverts [OF relay_ok_genesis] by metis

subsection \<open>Serialization\<close>

text \<open>Whether \<open>heights\<close> knows every hash, which holds when no two entries share one.\<close>

lemma from_entries_loop_ok:
  "chain_ok H (b # es) \<Longrightarrow> distinct (map re_hash (pre @ es)) \<Longrightarrow> consecutive (pre @ es) \<Longrightarrow>
   entries r = as_map pre \<Longrightarrow> om_wf (heights r) \<Longrightarrow> (\<forall>x. om_has (heights r) x \<longleftrightarrow> x \<in> re_hash ` set pre) \<Longrightarrow>
   \<exists>r'. from_entries_loop H b es r = Inr r' \<and> entries r' = as_map (pre @ es)"
proof (induction es arbitrary: b pre r)
  case (Cons e es)
  have step: "chain_step_ok H b e" "chain_ok H (e # es)" using Cons.prems(1) by (simp_all add: chain_ok_def)
  have fresh: "\<not> om_has (heights r) (re_hash e)" using Cons.prems(2,6) by auto
  have "sorted_wrt (\<lambda>a b. re_height a < re_height b) (pre @ e # es)"
    by (rule consecutive_sorted [OF Cons.prems(3)])
  then have lt: "\<forall>k'\<in>fst ` set (as_map pre). k' < re_height e" by (auto simp: as_map_def sorted_wrt_append)
  have e: "entries (Relay_insert e r) = as_map (pre @ [e])"
    using om_insert_last [OF lt] Cons.prems(4) by (simp add: Relay_insert_def as_map_def)
  have h: "om_wf (heights (Relay_insert e r))"
    "\<forall>x. om_has (heights (Relay_insert e r)) x \<longleftrightarrow> x \<in> re_hash ` set (pre @ [e])"
    using Cons.prems(5,6) by (auto simp: Relay_insert_def om_has_def)
  show ?case
    using Cons.IH [OF step(2) _ _ e h] Cons.prems(2,3) step(1) fresh by simp
qed simp

text \<open>A relay serialized as its entries is rebuilt to the same entries, whenever no two of them
  share a hash; without that the source refuses it.\<close>

theorem relay_serialization_round_trip:
  assumes "relay_ok H r" and "distinct (map re_hash (om_values (entries r)))"
  shows "\<exists>r'. from_entries H (om_values (entries r)) = Inr r' \<and> entries r' = entries r"
proof -
  obtain es where es: "es \<noteq> []" "entries r = as_map es" "chain_ok H es" "length es \<le> RELAY_WINDOW + 1"
    using assms(1) by (auto simp: relay_ok_def)
  have vals: "om_values (entries r) = es" unfolding es(2) as_map_def by (simp add: comp_def)
  obtain b rest where b: "es = b # rest" using es(1) by (cases es) auto
  let ?r = "Relay_insert b \<lparr>entries = [], heights = []\<rparr>"
  have "\<exists>r'. from_entries_loop H b rest ?r = Inr r' \<and> entries r' = as_map ([b] @ rest)"
    using assms(2) es(3) chain_consecutive [OF es(3)] unfolding vals b
    by (intro from_entries_loop_ok) (auto simp: Relay_insert_def as_map_def om_has_def om_get_def om_wf_def)
  then show ?thesis unfolding vals using es(2,4) b by (simp add: from_entries_def)
qed

theorem relay_serialization_round_trip_witness:
  "\<exists>r'. from_entries (\<lambda>_. 0) (om_values (entries (Relay_genesis (\<lambda>_. 0)))) = Inr r' \<and>
     entries r' = entries (Relay_genesis (\<lambda>_. 0))"
  by (rule relay_serialization_round_trip [OF relay_ok_genesis]) (simp add: Relay_genesis_def)

end
