(* ===== verification/Bonds.thy ===== *)
theory Bonds
  imports Bond_Rules Relay
begin

text \<open>
  Registered bonds, \<^verbatim>\<open>src/src/core/bond.rs\<close>: verification of a registration against the relay, the
  shelf life of a proof, the bond set with its commitment, the prechecks of a block's
  registrations and the choice of a signer.
\<close>

subsection \<open>Registration\<close>

definition REGISTRATION_WORK_BLOCKS :: nat where "REGISTRATION_WORK_BLOCKS = 24 * 60"
definition REGISTRATION_MIN_HEADERS :: nat where "REGISTRATION_MIN_HEADERS = 60"
definition PROOF_REFRESH_MARGIN :: nat where "PROOF_REFRESH_MARGIN = 60"
definition BONDED_MINING_FROM :: nat where "BONDED_MINING_FROM = 1"
definition MAX_REGISTRATIONS_PER_BLOCK :: nat where "MAX_REGISTRATIONS_PER_BLOCK = 1"
definition REGISTRATION_WEIGHT :: nat where "REGISTRATION_WEIGHT = 256"
definition MAX_BOND_HORIZON :: nat where "MAX_BOND_HORIZON = 365 * 24 * 60"

record BondEntry =
  be_mining_key :: h256
  be_value :: nat
  be_bonded_until :: nat
  be_proven_height :: nat
  be_proven_hash :: h256

record BondRegistration =
  reg_proof :: BondProof

datatype registration_error =
    HeaderNotOnRelay nat
  | BadProof bond_error
  | NotBuried nat nat
  | NotCarried
  | CarriedMissesTarget nat
  | CarriedBadWork
  | AlreadyRegistered h256
  | BondTooSmall nat
  | LockTooLong nat
  | LockTooShort

definition registration_work :: "h256 \<Rightarrow> nat" where
  "registration_work midwimble_target = sat_mul128 (calculate_work midwimble_target) REGISTRATION_WORK_BLOCKS"

definition registration_cap :: "h256 \<Rightarrow> nat" where
  "registration_cap midwimble_target = max (registration_work midwimble_target div REGISTRATION_MIN_HEADERS) 1"

definition credited_work :: "HeaderLink list \<Rightarrow> h256 \<Rightarrow> nat" where
  "credited_work headers midwimble_target =
     (let cap = registration_cap midwimble_target in
      foldl (\<lambda>sum h. sat_add128 sum (min (calculate_work (hl_target h)) cap)) 0 headers)"

definition BondRegistration_verify ::
    "hasher \<Rightarrow> BondRegistration \<Rightarrow> Relay \<Rightarrow> h256 \<Rightarrow> registration_error + BondEntry" where
  "BondRegistration_verify H reg relay midwimble_target =
     (let height = midstate_height (reg_proof reg) in
      and_then
        (ok_or (HeaderNotOnRelay height)
           (case Relay_get relay height of Some e \<Rightarrow> if is_root H e then None else Some e | None \<Rightarrow> None))
        (\<lambda>header.
      and_then (map_err BadProof (BondProof_verify H (reg_proof reg) (re_state_root header))) (\<lambda>bond.
        let required = registration_work midwimble_target;
            credited = Relay_credited_above relay height (registration_cap midwimble_target)
        in if credited < required then Inl (NotBuried credited required)
           else Inr \<lparr>be_mining_key = bond_mining_key bond, be_value = bond_value bond,
                     be_bonded_until = bond_until bond, be_proven_height = height,
                     be_proven_hash = re_hash header\<rparr>)))"

definition proof_is_stale :: "hasher \<Rightarrow> BondRegistration \<Rightarrow> Relay \<Rightarrow> bool" where
  "proof_is_stale H reg relay =
     (let height = midstate_height (reg_proof reg) in
      if re_height (Relay_tip relay) < height then False
      else
        case Relay_get relay height of
          Some e \<Rightarrow> if \<not> is_root H e then \<not> is_ok (BondProof_verify H (reg_proof reg) (re_state_root e)) else True
        | None \<Rightarrow> True)"

definition burial_headers :: "h256 \<Rightarrow> nat \<Rightarrow> nat" where
  "burial_headers midwimble_target header_work =
     (let per = max (min header_work (registration_cap midwimble_target)) 1
      in min (div_ceil (registration_work midwimble_target) per) U64_MAX)"

datatype HeldProof = Live nat | Expiring nat | Expired

definition HeldProof_at :: "nat \<Rightarrow> nat \<Rightarrow> HeldProof" where
  "HeldProof_at proof_height tip =
     (case window_left proof_height tip of
        None \<Rightarrow> Expired
      | Some left \<Rightarrow> if left < PROOF_REFRESH_MARGIN then Expiring left else Live left)"

definition needs_refresh :: "HeldProof \<Rightarrow> bool" where
  "needs_refresh p = (case p of Live _ \<Rightarrow> False | _ \<Rightarrow> True)"

record MidstateHeaders =
  mh_start :: nat
  mh_prev :: h256
  mh_headers :: "HeaderLink list"

definition MidstateHeaders_verify ::
    "hasher \<Rightarrow> walker \<Rightarrow> nat \<Rightarrow> MidstateHeaders \<Rightarrow> registration_error + unit" where
  "MidstateHeaders_verify H walk piece m =
     (case position (\<lambda>l. hl_target l \<le> final_hash l) (mh_headers m) of
        Some i \<Rightarrow> Inl (CarriedMissesTarget (mh_start m + i))
      | None \<Rightarrow>
          map_err (\<lambda>_. CarriedBadWork)
            (RelayHeaders_verify_pow H walk piece \<lparr>rh_prev = mh_prev m, rh_headers = mh_headers m\<rparr> (mh_start m)))"

definition check_carried ::
    "hasher \<Rightarrow> walker \<Rightarrow> nat \<Rightarrow> BondRegistration \<Rightarrow> MidstateHeaders \<Rightarrow> h256 \<Rightarrow> registration_error + nat" where
  "check_carried H walk piece reg carried midwimble_target =
     and_then
       (ok_or NotCarried
          (case chk_sub (midstate_height (reg_proof reg)) (mh_start carried) of
             Some i \<Rightarrow> if i < length (mh_headers carried) then Some i else None
           | None \<Rightarrow> None))
       (\<lambda>index.
     and_then (MidstateHeaders_verify H walk piece carried) (\<lambda>_.
     and_then (map_err BadProof (BondProof_verify H (reg_proof reg) (hl_state_root (mh_headers carried ! index))))
       (\<lambda>_. Inr (credited_work (drop (index + 1) (mh_headers carried)) midwimble_target))))"

definition registration_bond_id :: "hasher \<Rightarrow> BondRegistration \<Rightarrow> h256" where
  "registration_bond_id H reg = BondCoin_coin_id H (bp_coin (reg_proof reg))"

definition registration_eligible_at :: "BondRegistration \<Rightarrow> nat \<Rightarrow> bool" where
  "registration_eligible_at reg block_timestamp =
     eligible (bc_value (bp_coin (reg_proof reg))) (bonded_until (bc_script (bp_coin (reg_proof reg)))) block_timestamp"

definition registration_weight :: "BondRegistration \<Rightarrow> nat" where
  "registration_weight reg = REGISTRATION_WEIGHT"

subsection \<open>The bond set\<close>

definition BondEntry_eligible_at :: "BondEntry \<Rightarrow> nat \<Rightarrow> bool" where
  "BondEntry_eligible_at e block_timestamp = eligible (be_value e) (be_bonded_until e) block_timestamp"

definition bond_leaf :: "hasher \<Rightarrow> h256 \<Rightarrow> BondEntry \<Rightarrow> h256" where
  "bond_leaf H bid entry =
     hash_domain H (ascii ''midwimble.bond-leaf.v1'')
       [be_bytes bid, be_bytes (be_mining_key entry), le_bytes 8 (be_value entry),
        le_bytes 8 (be_bonded_until entry), le_bytes 8 (be_proven_height entry),
        be_bytes (be_proven_hash entry)]"

record BondSet =
  bond_entries :: "(h256, BondEntry) omap"
  leaves :: UtxoAccumulator

definition BondSet_default :: BondSet where
  "BondSet_default = \<lparr>bond_entries = [], leaves = UtxoAccumulator_new\<rparr>"

definition BondSet_get :: "BondSet \<Rightarrow> h256 \<Rightarrow> BondEntry option" where
  "BondSet_get s bid = om_get (bond_entries s) bid"

definition BondSet_insert :: "hasher \<Rightarrow> h256 \<Rightarrow> BondEntry \<Rightarrow> BondSet \<Rightarrow> BondSet \<times> BondEntry option" where
  "BondSet_insert H bid entry s =
     (let old = om_get (bond_entries s) bid;
          lv = (case old of Some o' \<Rightarrow> fst (UtxoAccumulator_remove H True (bond_leaf H bid o') (leaves s))
                | None \<Rightarrow> leaves s)
      in (\<lparr>bond_entries = om_insert bid entry (bond_entries s),
           leaves = fst (UtxoAccumulator_insert H True (bond_leaf H bid entry) lv)\<rparr>, old))"

definition BondSet_remove :: "hasher \<Rightarrow> h256 \<Rightarrow> BondSet \<Rightarrow> BondSet \<times> BondEntry option" where
  "BondSet_remove H bid s =
     (case om_get (bond_entries s) bid of
        None \<Rightarrow> (s, None)
      | Some old \<Rightarrow>
          (\<lparr>bond_entries = om_remove bid (bond_entries s),
            leaves = fst (UtxoAccumulator_remove H True (bond_leaf H bid old) (leaves s))\<rparr>, Some old))"

definition BondSet_root :: "hasher \<Rightarrow> BondSet \<Rightarrow> h256" where
  "BondSet_root H s = UtxoAccumulator_root H True (leaves s)"

definition BondSet_from_list :: "hasher \<Rightarrow> (h256 \<times> BondEntry) list \<Rightarrow> BondSet" where
  "BondSet_from_list H es = fold (\<lambda>(bid, e) s. fst (BondSet_insert H bid e s)) es BondSet_default"

definition BondSet_deserialize :: "hasher \<Rightarrow> (h256 \<times> BondEntry) list \<Rightarrow> BondSet option" where
  "BondSet_deserialize H es =
     (let s = BondSet_from_list H es in if length (bond_entries s) \<noteq> length es then None else Some s)"

text \<open>Entries are kept in id order, so the source's sort is the identity here.\<close>

definition drain_bonds ::
    "hasher \<Rightarrow> (BondEntry \<Rightarrow> bool) \<Rightarrow> BondSet \<Rightarrow> BondSet \<times> (h256 \<times> BondEntry) list" where
  "drain_bonds H P s =
     (let gone = filter (\<lambda>(_, e). P e) (bond_entries s)
      in (fold (\<lambda>(bid, _) s. fst (BondSet_remove H bid s)) gone s, gone))"

definition prune_expired :: "hasher \<Rightarrow> nat \<Rightarrow> BondSet \<Rightarrow> BondSet \<times> (h256 \<times> BondEntry) list" where
  "prune_expired H earliest_timestamp s =
     drain_bonds H (\<lambda>e. \<not> BondEntry_eligible_at e earliest_timestamp) s"

definition revoke_above :: "hasher \<Rightarrow> nat \<Rightarrow> BondSet \<Rightarrow> BondSet \<times> (h256 \<times> BondEntry) list" where
  "revoke_above H height s = drain_bonds H (\<lambda>e. height < be_proven_height e) s"

definition any_can_sign :: "BondSet \<Rightarrow> nat \<Rightarrow> bool" where
  "any_can_sign bonds block_timestamp \<longleftrightarrow>
     list_ex (\<lambda>(_, e). BondEntry_eligible_at e block_timestamp) (bond_entries bonds)"

definition precheck_registration ::
    "hasher \<Rightarrow> BondSet \<Rightarrow> nat \<Rightarrow> nat \<Rightarrow> nat \<Rightarrow> BondRegistration \<Rightarrow> registration_error + unit" where
  "precheck_registration H bonds horizon minimum block_timestamp reg =
     (let bid = registration_bond_id H reg;
          value = bc_value (bp_coin (reg_proof reg));
          until = bonded_until (bc_script (bp_coin (reg_proof reg)))
      in if BondSet_get bonds bid \<noteq> None then Inl (AlreadyRegistered bid)
         else if value < minimum then Inl (BondTooSmall minimum)
         else if horizon < until then Inl (LockTooLong horizon)
         else if \<not> eligible value until block_timestamp then Inl LockTooShort
         else Inr ())"

definition precheck_registrations ::
    "hasher \<Rightarrow> BondSet \<Rightarrow> BondRegistration list \<Rightarrow> h256 \<Rightarrow> nat \<Rightarrow> registration_error + unit" where
  "precheck_registrations H bonds registrations midwimble_target block_timestamp =
     (let horizon = sat_add64 (est_midstate_height block_timestamp) MAX_BOND_HORIZON;
          minimum = registration_min_bond midwimble_target block_timestamp
      in each_ok (precheck_registration H bonds horizon minimum block_timestamp) registrations)"

subsection \<open>Choosing a signer\<close>

text \<open>Rust's \<^verbatim>\<open>min_by_key\<close>: the first of the least elements.\<close>

fun min_by_key :: "('a \<Rightarrow> nat) \<Rightarrow> 'a list \<Rightarrow> 'a option" where
  "min_by_key key [] = None"
| "min_by_key key (x # xs) = Some (foldl (\<lambda>b y. if key y < key b then y else b) x xs)"

text \<open>\<open>key\<close> is the producer's mining key, \<open>own\<close> its bond and \<open>co\<close> the bonds co-signed to it.\<close>

definition signer_for ::
    "h256 \<Rightarrow> h256 \<Rightarrow> h256 list \<Rightarrow> BondSet \<Rightarrow> (h256, nat) omap \<Rightarrow> nat \<Rightarrow> h256 option" where
  "signer_for key own co bonds counts block_timestamp =
     min_by_key (\<lambda>bid. case om_get counts bid of Some n \<Rightarrow> n | None \<Rightarrow> 0)
       (filter (\<lambda>bid. case BondSet_get bonds bid of
                  Some e \<Rightarrow> be_mining_key e = key \<and> BondEntry_eligible_at e block_timestamp
                | None \<Rightarrow> False) (own # co))"

definition choose_signer ::
    "h256 \<Rightarrow> h256 \<Rightarrow> h256 list \<Rightarrow> BondSet \<Rightarrow> (h256, nat) omap \<Rightarrow> nat \<Rightarrow> h256" where
  "choose_signer key own co bonds counts block_timestamp =
     (case signer_for key own co bonds counts block_timestamp of Some bid \<Rightarrow> bid | None \<Rightarrow> own)"

subsection \<open>The commitment mirrors the entries\<close>

definition leaf_of :: "hasher \<Rightarrow> h256 \<times> BondEntry \<Rightarrow> h256" where
  "leaf_of H p = bond_leaf H (fst p) (snd p)"

definition bondset_ok :: "hasher \<Rightarrow> BondSet \<Rightarrow> bool" where
  "bondset_ok H s \<longleftrightarrow> om_wf (bond_entries s) \<and> utxo_ok H True (leaves s) \<and>
     set (coins (leaves s)) = leaf_of H ` set (bond_entries s)"

lemma bondset_ok_default: "bondset_ok H BondSet_default"
  by (simp add: bondset_ok_def BondSet_default_def utxo_ok_new) (simp add: UtxoAccumulator_new_def)

lemma set_om_insert:
  "om_wf m \<Longrightarrow> set (om_insert k v m) = insert (k, v) {(k', v') \<in> set m. k' \<noteq> k}"
  using om_get_iff [OF om_wf_insert, of m _ _ k v] om_get_iff [of m] by (auto split: if_splits)

lemma set_om_remove: "set (om_remove k m) = {(k', v') \<in> set m. k' \<noteq> k}"
  by (auto simp: om_remove_def)

lemma bondset_remove_ok:
  assumes "bondset_ok H s" and "inj_on (leaf_of H) (set (bond_entries s))"
  shows "bondset_ok H (fst (BondSet_remove H bid s)) \<and>
    bond_entries (fst (BondSet_remove H bid s)) = om_remove bid (bond_entries s)"
proof (cases "om_get (bond_entries s) bid")
  case None
  then show ?thesis using assms by (simp add: BondSet_remove_def om_remove_absent)
next
  case (Some old)
  have wf: "om_wf (bond_entries s)" and u: "utxo_ok H True (leaves s)"
    and c: "set (coins (leaves s)) = leaf_of H ` set (bond_entries s)"
    using assms(1) by (auto simp: bondset_ok_def)
  have mem: "(bid, old) \<in> set (bond_entries s)" using Some om_get_iff [OF wf] by blast
  have rest: "{(k', v') \<in> set (bond_entries s). k' \<noteq> bid} = set (bond_entries s) - {(bid, old)}"
    using Some om_get_iff [OF wf] by auto
  have "leaf_of H ` (set (bond_entries s) - {(bid, old)}) = leaf_of H ` set (bond_entries s) - {leaf_of H (bid, old)}"
    using inj_on_image_set_diff [OF assms(2), of "set (bond_entries s)" "{(bid, old)}"] mem by simp
  then show ?thesis
    using Some wf utxo_remove [OF u, of "bond_leaf H bid old"] c rest
    by (simp add: BondSet_remove_def bondset_ok_def set_om_remove leaf_of_def)
qed

lemma bondset_insert_ok:
  assumes "bondset_ok H s" and "inj_on (leaf_of H) (set (bond_entries s))"
  shows "bondset_ok H (fst (BondSet_insert H bid entry s)) \<and>
    bond_entries (fst (BondSet_insert H bid entry s)) = om_insert bid entry (bond_entries s)"
proof -
  let ?s = "fst (BondSet_remove H bid s)"
  have rem: "bondset_ok H ?s" "bond_entries ?s = om_remove bid (bond_entries s)"
    using bondset_remove_ok [OF assms] by blast+
  have wf: "om_wf (bond_entries s)" using assms(1) by (simp add: bondset_ok_def)
  have lv: "leaves (fst (BondSet_insert H bid entry s))
      = fst (UtxoAccumulator_insert H True (bond_leaf H bid entry) (leaves ?s))"
    by (simp add: BondSet_insert_def BondSet_remove_def Let_def split: option.split)
  have ent: "bond_entries (fst (BondSet_insert H bid entry s)) = om_insert bid entry (bond_entries s)"
    by (simp add: BondSet_insert_def Let_def)
  have u: "utxo_ok H True (leaves ?s)" "set (coins (leaves ?s)) = leaf_of H ` set (om_remove bid (bond_entries s))"
    using rem by (auto simp: bondset_ok_def)
  show ?thesis
    using utxo_insert [OF u(1), of "bond_leaf H bid entry"] u(2) ent lv wf
    by (simp add: bondset_ok_def set_om_insert set_om_remove leaf_of_def)
qed

lemma om_remove_fold:
  "fold (\<lambda>(bid, _) m. om_remove bid m) gone m = filter (\<lambda>(k, _). k \<notin> fst ` set gone) m"
proof (induction gone arbitrary: m)
  case (Cons g gone)
  obtain bid e where g: "g = (bid, e)" by (cases g)
  have "fold (\<lambda>(bid, _) m. om_remove bid m) (g # gone) m
      = filter (\<lambda>(k, _). k \<notin> fst ` set gone) (filter (\<lambda>(k, _). k \<noteq> bid) m)"
    using Cons by (simp add: g om_remove_def)
  also have "\<dots> = filter (\<lambda>(k, _). k \<notin> fst ` set (g # gone)) m"
    unfolding filter_filter by (rule filter_cong) (auto simp: g)
  finally show ?case .
qed simp

lemma drain_fold:
  assumes "bondset_ok H s" and "inj_on (leaf_of H) (set (bond_entries s))"
  shows "bondset_ok H (fold (\<lambda>(bid, _) s. fst (BondSet_remove H bid s)) gone s) \<and>
    bond_entries (fold (\<lambda>(bid, _) s. fst (BondSet_remove H bid s)) gone s)
      = fold (\<lambda>(bid, _) m. om_remove bid m) gone (bond_entries s)"
  using assms
proof (induction gone arbitrary: s)
  case (Cons g gone)
  obtain bid e where g: "g = (bid, e)" by (cases g)
  have r: "bondset_ok H (fst (BondSet_remove H bid s))"
    "bond_entries (fst (BondSet_remove H bid s)) = om_remove bid (bond_entries s)"
    using bondset_remove_ok [OF Cons.prems] by blast+
  have "inj_on (leaf_of H) (set (bond_entries (fst (BondSet_remove H bid s))))"
    using Cons.prems(2) r(2) by (auto simp: set_om_remove intro: inj_on_subset)
  from Cons.IH [OF r(1) this] show ?case using r(2) g by simp
qed simp

lemma drain_bonds_ok:
  assumes "bondset_ok H s" and "inj_on (leaf_of H) (set (bond_entries s))"
  shows "bondset_ok H (fst (drain_bonds H P s)) \<and>
    bond_entries (fst (drain_bonds H P s)) = filter (\<lambda>(_, e). \<not> P e) (bond_entries s) \<and>
    snd (drain_bonds H P s) = filter (\<lambda>(_, e). P e) (bond_entries s)"
proof -
  let ?gone = "filter (\<lambda>(_, e). P e) (bond_entries s)"
  have wf: "om_wf (bond_entries s)" using assms(1) by (simp add: bondset_ok_def)
  have "filter (\<lambda>(k, _). k \<notin> fst ` set ?gone) (bond_entries s) = filter (\<lambda>(_, e). \<not> P e) (bond_entries s)"
    using om_get_iff [OF wf] by (intro filter_cong [OF refl]) (force simp: image_iff)
  then show ?thesis
    using drain_fold [OF assms, of ?gone] by (simp add: drain_bonds_def Let_def om_remove_fold)
qed

text \<open>C29. Inserting, removing, pruning and revoking bonds keep the set's commitment equal to the
  Merkle root of exactly its entries' leaves, as long as no two entries share a leaf hash; pruning
  leaves exactly the eligible bonds and returns the others in id order.\<close>

theorem bond_set_commitment:
  assumes "bondset_ok H s" and "inj_on (leaf_of H) (set (bond_entries s))"
  shows "BondSet_root H s = dense H True 256 0 (leaf_of H ` set (bond_entries s)) \<and>
    bondset_ok H (fst (BondSet_insert H bid entry s)) \<and>
    bondset_ok H (fst (BondSet_remove H bid s)) \<and>
    bondset_ok H (fst (prune_expired H earliest s)) \<and>
    bond_entries (fst (prune_expired H earliest s))
      = filter (\<lambda>(_, e). BondEntry_eligible_at e earliest) (bond_entries s) \<and>
    snd (prune_expired H earliest s)
      = filter (\<lambda>(_, e). \<not> BondEntry_eligible_at e earliest) (bond_entries s) \<and>
    bondset_ok H (fst (revoke_above H height s)) \<and>
    bond_entries (fst (revoke_above H height s))
      = filter (\<lambda>(_, e). be_proven_height e \<le> height) (bond_entries s)"
proof -
  have "BondSet_root H s = dense H True 256 0 (leaf_of H ` set (bond_entries s))"
    using utxo_root [of H True "leaves s"] assms(1) by (simp add: BondSet_root_def bondset_ok_def)
  then show ?thesis
    using bondset_insert_ok [OF assms, of bid entry] bondset_remove_ok [OF assms, of bid]
      drain_bonds_ok [OF assms, of "\<lambda>e. \<not> BondEntry_eligible_at e earliest"]
      drain_bonds_ok [OF assms, of "\<lambda>e. height < be_proven_height e"]
    unfolding prune_expired_def revoke_above_def by (simp add: not_less)
qed

lemma sample_bondset:
  fixes H e
  defines "s \<equiv> fst (BondSet_insert H 5 e BondSet_default)"
  shows "bondset_ok H s" and "bond_entries s = [(5, e)]" and "inj_on (leaf_of H) (set (bond_entries s))"
  using bondset_insert_ok [OF bondset_ok_default, of H 5 e]
  by (simp_all add: s_def BondSet_default_def)

definition sample_entry :: BondEntry where
  "sample_entry = \<lparr>be_mining_key = 1, be_value = 16777216, be_bonded_until = 10000000,
     be_proven_height = 100, be_proven_hash = 0\<rparr>"

lemma sample_expired: "\<not> BondEntry_eligible_at sample_entry 1793404800"
  by (simp add: sample_entry_def BondEntry_eligible_at_def eligible_def BondRules_eligible_def
      min_bond_at_def in_early_phase_of_def bond_rule_defs)

theorem bond_set_commitment_witness:
  "bond_entries (fst (prune_expired (\<lambda>_. 7) 1793404800 (fst (BondSet_insert (\<lambda>_. 7) 5 sample_entry BondSet_default)))) = []"
  using bond_set_commitment [OF sample_bondset(1,3), of "\<lambda>_. 7" sample_entry 0 sample_entry 1793404800 0]
  by (simp add: sample_bondset(2) sample_expired del: power_Suc)

text \<open>Pruning never removes a bond that could sign a block at or after the pruning time, and never
  keeps one that could not: whether any bond can sign is unchanged.\<close>

theorem pruning_is_unobservable:
  assumes "bondset_ok H s" and "inj_on (leaf_of H) (set (bond_entries s))" and "earliest \<le> ts"
  shows "(any_can_sign (fst (prune_expired H earliest s)) ts \<longleftrightarrow> any_can_sign s ts) \<and>
    (\<forall>bid e. (BondSet_get s bid = Some e \<and> BondEntry_eligible_at e ts) =
      (BondSet_get (fst (prune_expired H earliest s)) bid = Some e \<and> BondEntry_eligible_at e ts))"
proof -
  have wf: "om_wf (bond_entries s)" using assms(1) by (simp add: bondset_ok_def)
  have ent: "bond_entries (fst (prune_expired H earliest s))
      = filter (\<lambda>(_, e). BondEntry_eligible_at e earliest) (bond_entries s)"
    using drain_bonds_ok [OF assms(1,2)] by (simp add: prune_expired_def)
  have up: "BondEntry_eligible_at e ts \<Longrightarrow> BondEntry_eligible_at e earliest" for e
    using eligible_earlier [OF assms(3)] by (simp add: BondEntry_eligible_at_def)
  have "any_can_sign (fst (prune_expired H earliest s)) ts \<longleftrightarrow> any_can_sign s ts"
    unfolding any_can_sign_def ent using up by (auto simp: list_ex_iff)
  moreover have "(BondSet_get s bid = Some e \<and> BondEntry_eligible_at e ts) =
      (BondSet_get (fst (prune_expired H earliest s)) bid = Some e \<and> BondEntry_eligible_at e ts)" for bid e
    using up om_get_filter [OF wf, of "\<lambda>_ e. BondEntry_eligible_at e earliest" bid] ent
    by (auto simp: BondSet_get_def split: option.splits if_splits)
  ultimately show ?thesis by blast
qed

theorem pruning_is_unobservable_witness:
  "any_can_sign (fst (prune_expired (\<lambda>_. 7) 1 (fst (BondSet_insert (\<lambda>_. 7) 5 sample_entry BondSet_default)))) 2
   = any_can_sign (fst (BondSet_insert (\<lambda>_. 7) 5 sample_entry BondSet_default)) 2"
  using pruning_is_unobservable [OF sample_bondset(1,3), of 1 2 "\<lambda>_. 7" sample_entry] by simp

end
