(* ===== verification/Emission.thy ===== *)
theory Emission
  imports Prelude
begin

text \<open>
  The emission schedule of \<^verbatim>\<open>src/src/core/types.rs\<close>: \<open>scheduled_before\<close>, \<open>issued_before\<close>,
  \<open>block_reward\<close> and the search for the last paying height, with the source's 128-bit
  arithmetic, and amounts as decimal strings. The lemmas give the meaning of the closed form:
  it is the running total of a slow start followed by halvings, no intermediate value reaches
  2^128, and issuance stops exactly at the cap.
\<close>

subsection \<open>The schedule\<close>

record emission =
  initial_reward :: nat
  halving_interval :: nat
  slow_start :: nat
  max_supply :: nat

definition COIN :: nat where "COIN = 100000000"

definition MAX_SUPPLY :: nat where "MAX_SUPPLY = 1000000 * COIN"

definition MAINNET_EMISSION :: emission where
  "MAINNET_EMISSION = \<lparr>initial_reward = 23932616, halving_interval = 2100000,
     slow_start = 30 * 24 * 60, max_supply = 1000000 * COIN\<rparr>"

text \<open>The schedule of a build without \<^verbatim>\<open>fast-mining\<close>.\<close>

definition EMISSION :: emission where
  "EMISSION = \<lparr>initial_reward = 23932616, halving_interval = 2100000,
     slow_start = 30 * 24 * 60, max_supply = MAX_SUPPLY\<rparr>"

function era_loop :: "emission \<Rightarrow> nat \<Rightarrow> nat \<Rightarrow> nat \<Rightarrow> nat" where
  "era_loop e prev k run =
     (if k < 64 then
        let start = mul128 k (halving_interval e) in
        if prev < start then run
        else
          let era_reward = initial_reward e div 2 ^ k in
          if era_reward = 0 then run
          else
            let fin = min prev (sub128 (add128 start (halving_interval e)) 1) in
            era_loop e prev (k + 1)
              (add128 run (mul128 (add128 (sub128 fin start) 1) era_reward))
      else run)"
  by pat_completeness auto
termination
  by (relation "measure (\<lambda>(e, prev, k, run). 64 - k)") auto

declare era_loop.simps [simp del]

definition ramp_total :: "emission \<Rightarrow> nat \<Rightarrow> nat" where
  "ramp_total e prev =
     (let reward = initial_reward e; ramp = slow_start e; m = min prev ramp in
      if ramp = 0 then 0
      else mul128 (mul128 reward m) (add128 m 1) div mul128 2 ramp)"

definition scheduled_before :: "emission \<Rightarrow> nat \<Rightarrow> nat" where
  "scheduled_before e height =
     (case chk_sub height 1 of
        None \<Rightarrow> 0
      | Some prev \<Rightarrow>
          if prev = 0 then 0
          else
            let run = ramp_total e prev;
                run = (if slow_start e < prev
                         then add128 run
                           (mul128 (sub128 (min prev (sub128 (halving_interval e) 1)) (slow_start e))
                              (initial_reward e))
                         else run)
            in era_loop e prev 1 run)"

definition Emission_issued_before :: "emission \<Rightarrow> nat \<Rightarrow> nat" where
  "Emission_issued_before e height = min (scheduled_before e height) (max_supply e)"

definition Emission_block_reward :: "emission \<Rightarrow> nat \<Rightarrow> nat" where
  "Emission_block_reward e height =
     (if height = 0 then 0
      else Emission_issued_before e (sat_add64 height 1) - Emission_issued_before e height)"

function reward_search :: "emission \<Rightarrow> nat \<Rightarrow> nat \<Rightarrow> nat" where
  "reward_search e lo hi =
     (if lo < hi then
        let mid = lo + (hi - lo) div 2 in
        if max_supply e \<le> Emission_issued_before e (sat_add64 mid 1)
        then reward_search e lo mid
        else reward_search e (mid + 1) hi
      else lo)"
  by pat_completeness auto
termination
  by (relation "measure (\<lambda>(e, lo, hi). hi - lo)") auto

declare reward_search.simps [simp del]

definition final_reward_height :: "emission \<Rightarrow> nat option" where
  "final_reward_height e =
     (let lo = 1; hi = sat_mul64 64 (halving_interval e) in
      if Emission_issued_before e (sat_add64 hi 1) < max_supply e then None
      else Some (reward_search e lo hi))"

definition block_reward :: "nat \<Rightarrow> nat" where
  "block_reward height = Emission_block_reward EMISSION height"

definition issued_before :: "nat \<Rightarrow> nat" where
  "issued_before height = Emission_issued_before EMISSION height"

subsection \<open>What the closed form means\<close>

text \<open>
  Schedules the 128-bit arithmetic is wide enough for. The source asserts
  \<open>slow_start < halving_interval\<close> when it is built.
\<close>

definition emission_ok :: "emission \<Rightarrow> bool" where
  "emission_ok e \<longleftrightarrow>
     initial_reward e < 2 ^ 32 \<and> 0 < halving_interval e \<and> halving_interval e < 2 ^ 32 \<and>
     slow_start e < halving_interval e"

definition era_reward_at :: "emission \<Rightarrow> nat \<Rightarrow> nat" where
  "era_reward_at e j = initial_reward e div 2 ^ (j div halving_interval e)"

text \<open>The schedule as a sum: the slow start's total, then one era reward per block.\<close>

definition schedule_spec :: "emission \<Rightarrow> nat \<Rightarrow> nat" where
  "schedule_spec e n =
     (if slow_start e = 0 then 0
      else initial_reward e * min n (slow_start e) * (min n (slow_start e) + 1)
             div (2 * slow_start e))
     + (\<Sum>j\<in>{slow_start e<..n}. era_reward_at e j)"

lemma emission_ok_mainnet [simp]: "emission_ok EMISSION" "emission_ok MAINNET_EMISSION"
  by (simp_all add: emission_ok_def EMISSION_def MAINNET_EMISSION_def)

lemma EMISSION_mainnet: "EMISSION = MAINNET_EMISSION"
  by (simp add: EMISSION_def MAINNET_EMISSION_def MAX_SUPPLY_def)

lemma mult_less_pow:
  "a < 2 ^ m \<Longrightarrow> b < 2 ^ n \<Longrightarrow> a * b < (2 :: nat) ^ (m + n)"
  by (simp add: power_add mult_strict_mono')

lemma era_tail_zero:
  assumes "emission_ok e" and "initial_reward e div 2 ^ k = 0" and "k * halving_interval e \<le> j"
  shows "era_reward_at e j = 0"
proof -
  have "k \<le> j div halving_interval e"
    using assms(1,3) by (simp add: emission_ok_def less_eq_div_iff_mult_less_eq)
  then have "(2 :: nat) ^ k \<le> 2 ^ (j div halving_interval e)"
    by (simp add: power_increasing)
  moreover have "initial_reward e < 2 ^ k"
    using assms(2) by (simp add: div_eq_0_iff)
  ultimately have "initial_reward e < 2 ^ (j div halving_interval e)" by linarith
  then show ?thesis by (simp add: era_reward_at_def)
qed

lemma era_block_sum:
  assumes "0 < I" and "k * I \<le> prev" and "fin = min prev (k * I + I - 1)"
    and "\<And>j. f (j div I) = (g j :: nat)"
  shows "(\<Sum>j\<in>{k * I..prev}. g j) = (fin - k * I + 1) * f k + (\<Sum>j\<in>{(k + 1) * I..prev}. g j)"
proof -
  have split: "{k * I..prev} = {k * I..fin} \<union> {(k + 1) * I..prev}"
    using assms(1-3) by auto
  have disj: "{k * I..fin} \<inter> {(k + 1) * I..prev} = {}"
    using assms(1-3) by auto
  have const: "g j = f k" if "j \<in> {k * I..fin}" for j
  proof -
    have "j div I = k"
      using that assms(1-3) by (intro div_nat_eqI) (auto simp: mult.commute [of I])
    then show ?thesis using assms(4) [of j] by simp
  qed
  have "sum g {k * I..prev} = sum g {k * I..fin} + sum g {(k + 1) * I..prev}"
    unfolding split by (rule sum.union_disjoint) (use disj in auto)
  moreover have "sum g {k * I..fin} = (fin - k * I + 1) * f k"
  proof -
    have "sum g {k * I..fin} = (\<Sum>j\<in>{k * I..fin}. f k)" using const by (rule sum.cong [OF refl])
    also have "\<dots> = (Suc fin - k * I) * f k" by simp
    also have "Suc fin - k * I = fin - k * I + 1" using assms(1-3) by simp
    finally show ?thesis .
  qed
  ultimately show ?thesis by simp
qed

text \<open>One round of the era loop, in exact arithmetic.\<close>

lemma era_loop_step:
  assumes "emission_ok e" and "k < 64" and "run \<le> initial_reward e * (k * halving_interval e)"
    and "k * halving_interval e \<le> prev" and "initial_reward e div 2 ^ k \<noteq> 0"
  defines "fin \<equiv> min prev (k * halving_interval e + halving_interval e - 1)"
  defines "run' \<equiv> run + (fin - k * halving_interval e + 1) * (initial_reward e div 2 ^ k)"
  shows "era_loop e prev k run = era_loop e prev (k + 1) run'"
    and "run' \<le> initial_reward e * ((k + 1) * halving_interval e)"
proof -
  let ?I = "halving_interval e" and ?R = "initial_reward e"
  have I: "0 < ?I" "?I < 2 ^ 32" "?R < 2 ^ 32" using assms(1) by (auto simp: emission_ok_def)
  have kI: "k * ?I < 2 ^ 38"
    using mult_less_pow [of k 6 ?I 32] assms(2) I(2) by simp
  have RkI: "?R * (k * ?I) < 2 ^ 70"
    using mult_less_pow [of ?R 32 "k * ?I" 38] I(3) kI by simp
  have RI: "?I * ?R < 2 ^ 64"
    using mult_less_pow [of ?I 32 ?R 32] I by simp
  have start: "mul128 k ?I = k * ?I"
    using kI by (intro mul128_exact) simp
  have a1: "add128 (k * ?I) ?I = k * ?I + ?I"
    using kI I(2) by (intro add128_exact) simp
  have end_eq: "sub128 (k * ?I + ?I) 1 = k * ?I + ?I - 1"
    using kI I by (intro sub128_exact) simp_all
  have fin: "fin < 2 ^ 39" "fin - k * ?I + 1 \<le> ?I"
    using kI I unfolding fin_def by (simp_all add: min_def) linarith+
  have width: "sub128 fin (k * ?I) = fin - k * ?I"
    using assms(4) I fin(1) by (intro sub128_exact) (simp_all add: fin_def)
  have add1: "add128 (fin - k * ?I) 1 = fin - k * ?I + 1"
    using fin I(2) by (intro add128_exact) simp
  have prod_le: "(fin - k * ?I + 1) * (?R div 2 ^ k) \<le> ?I * ?R"
    using fin(2) by (rule mult_le_mono) simp
  have mul: "mul128 (fin - k * ?I + 1) (?R div 2 ^ k) = (fin - k * ?I + 1) * (?R div 2 ^ k)"
    using le_less_trans [OF prod_le RI] by (intro mul128_exact) simp
  have tot: "add128 run ((fin - k * ?I + 1) * (?R div 2 ^ k)) = run'"
    unfolding run'_def
    by (rule add128_exact, rule less_trans [OF add_strict_mono [OF le_less_trans [OF assms(3) RkI]
          le_less_trans [OF prod_le RI]]]) simp
  have no: "\<not> prev < k * ?I" using assms(4) by simp
  show "era_loop e prev k run = era_loop e prev (k + 1) run'"
    by (subst era_loop.simps)
       (simp only: assms(2,5) no start a1 end_eq width add1 mul tot Let_def if_True if_False
          fin_def [symmetric])
  have "run' \<le> ?R * (k * ?I) + ?I * ?R"
    unfolding run'_def using assms(3) prod_le by (rule add_mono)
  also have "\<dots> = ?R * ((k + 1) * ?I)" by (simp add: algebra_simps)
  finally show "run' \<le> ?R * ((k + 1) * ?I)" .
qed

lemma era_loop_stop:
  assumes "emission_ok e" and "k < 64" and "prev < k * halving_interval e \<or> initial_reward e div 2 ^ k = 0"
  shows "era_loop e prev k run = run"
proof -
  have "k * halving_interval e < 2 ^ 38"
    using mult_less_pow [of k 6 "halving_interval e" 32] assms(1,2) by (simp add: emission_ok_def)
  then have "mul128 k (halving_interval e) = k * halving_interval e"
    by (intro mul128_exact) simp
  then show ?thesis using assms(2,3)
    by (subst era_loop.simps) (auto simp: Let_def)
qed

lemma era_loop_sum:
  assumes "emission_ok e" and "run \<le> initial_reward e * (k * halving_interval e)"
  shows "era_loop e prev k run = run + (\<Sum>j\<in>{k * halving_interval e..prev}. era_reward_at e j)"
  using assms(2)
proof (induction "64 - k" arbitrary: k run rule: less_induct)
  case less
  let ?I = "halving_interval e" and ?R = "initial_reward e"
  have I: "0 < ?I" "?R < 2 ^ 32" using assms(1) by (auto simp: emission_ok_def)
  have zero: "(\<Sum>j\<in>{k * ?I..prev}. era_reward_at e j) = 0"
    if "prev < k * ?I \<or> ?R div 2 ^ k = 0"
    using era_tail_zero [OF assms(1)] that by (intro sum.neutral) auto
  show ?case
  proof (cases "k < 64")
    case False
    have "(2 :: nat) ^ 32 \<le> 2 ^ k" using False by (intro power_increasing) simp_all
    then have "?R div 2 ^ k = 0" using I(2) by simp
    then show ?thesis using False zero by (simp add: era_loop.simps)
  next
    case True
    show ?thesis
    proof (cases "prev < k * ?I \<or> ?R div 2 ^ k = 0")
      case stop: True
      show ?thesis
        using era_loop_stop [OF assms(1) True stop] zero [OF stop] by simp
    next
      case False
      note step = era_loop_step [OF assms(1) True less.prems, of prev]
      note sums = era_block_sum [OF I(1), of k prev _ "\<lambda>k. ?R div 2 ^ k" "era_reward_at e", OF _ refl]
      show ?thesis
        using step False less.hyps [of "k + 1"] True sums
        by (simp add: era_reward_at_def)
    qed
  qed
qed

text \<open>Everything before the era loop, in exact arithmetic.\<close>

definition slow_start_total :: "emission \<Rightarrow> nat \<Rightarrow> nat" where
  "slow_start_total e n =
     (if slow_start e = 0 then 0
      else initial_reward e * min n (slow_start e) * (min n (slow_start e) + 1)
             div (2 * slow_start e))"

lemma ramp_total_exact:
  assumes "emission_ok e"
  shows "ramp_total e n = slow_start_total e n"
proof -
  let ?R = "initial_reward e" and ?m = "min n (slow_start e)"
  have b: "?R < 2 ^ 32" "?m < 2 ^ 32" "slow_start e < 2 ^ 32"
    using assms by (auto simp: emission_ok_def)
  have Rm: "?R * ?m < 2 ^ 64" using mult_less_pow [of ?R 32 ?m 32] b by simp
  have Rmm: "?R * ?m * (?m + 1) < 2 ^ 97"
    using mult_less_pow [of "?R * ?m" 64 "?m + 1" 33] Rm b by simp
  have "mul128 ?R ?m = ?R * ?m" "add128 ?m 1 = ?m + 1"
    "mul128 2 (slow_start e) = 2 * slow_start e"
    using Rm b by (simp_all add: mul128_exact add128_exact)
  moreover have "mul128 (?R * ?m) (?m + 1) = ?R * ?m * (?m + 1)"
    using Rmm by (intro mul128_exact) simp
  ultimately show ?thesis
    by (simp only: ramp_total_def slow_start_total_def Let_def)
qed

lemma slow_start_total_le:
  "slow_start_total e n \<le> initial_reward e * min n (slow_start e)"
proof (cases "slow_start e = 0")
  case False
  let ?m = "min n (slow_start e)"
  have "initial_reward e * ?m * (?m + 1) \<le> initial_reward e * ?m * (2 * slow_start e)"
    using False by (intro mult_le_mono2) linarith
  then have "initial_reward e * ?m * (?m + 1) div (2 * slow_start e)
      \<le> initial_reward e * ?m * (2 * slow_start e) div (2 * slow_start e)"
    by (rule div_le_mono)
  then show ?thesis using False by (simp add: slow_start_total_def)
qed (simp add: slow_start_total_def)

lemma slow_start_total_mono: "m \<le> n \<Longrightarrow> slow_start_total e m \<le> slow_start_total e n"
  unfolding slow_start_total_def by (simp add: div_le_mono mult_le_mono del: mult_Suc_right add_Suc_right)

lemma schedule_spec_alt:
  "schedule_spec e n = slow_start_total e n + (\<Sum>j\<in>{slow_start e<..n}. era_reward_at e j)"
  by (simp add: schedule_spec_def slow_start_total_def)

lemma schedule_spec_mono: "m \<le> n \<Longrightarrow> schedule_spec e m \<le> schedule_spec e n"
  unfolding schedule_spec_alt
  by (intro add_mono slow_start_total_mono sum_mono2) auto

lemma first_era_sum:
  assumes "emission_ok e" and "slow_start e < n"
  shows "(\<Sum>j\<in>{slow_start e<..n}. era_reward_at e j) =
    (min n (halving_interval e - 1) - slow_start e) * initial_reward e
    + (\<Sum>j\<in>{halving_interval e..n}. era_reward_at e j)"
proof -
  let ?I = "halving_interval e"
  have I: "0 < ?I" "slow_start e < ?I" using assms(1) by (auto simp: emission_ok_def)
  have split: "{slow_start e<..n} = {slow_start e<..min n (?I - 1)} \<union> {?I..n}"
    using I by auto
  have "sum (era_reward_at e) {slow_start e<..n} =
      sum (era_reward_at e) {slow_start e<..min n (?I - 1)} + sum (era_reward_at e) {?I..n}"
    unfolding split by (rule sum.union_disjoint) (use I in auto)
  moreover have "sum (era_reward_at e) {slow_start e<..min n (?I - 1)} =
      (\<Sum>j\<in>{slow_start e<..min n (?I - 1)}. initial_reward e)"
    using I by (intro sum.cong) (auto simp: era_reward_at_def)
  ultimately show ?thesis by simp
qed

lemma scheduled_before_exact:
  assumes "emission_ok e"
  shows "scheduled_before e h = (if h \<le> 1 then 0 else schedule_spec e (h - 1))"
proof (cases "h \<le> 1")
  case False
  let ?n = "h - 1" and ?I = "halving_interval e" and ?R = "initial_reward e"
  have I: "0 < ?I" "?I < 2 ^ 32" "?R < 2 ^ 32" "slow_start e < ?I"
    using assms by (auto simp: emission_ok_def)
  have chk: "chk_sub h 1 = Some ?n" "?n \<noteq> 0" using False by (auto simp: chk_sub_def)
  let ?w = "min ?n (?I - 1) - slow_start e"
  let ?run = "if slow_start e < ?n then slow_start_total e ?n + ?w * ?R else slow_start_total e ?n"
  have wR: "?w * ?R < 2 ^ 64" using mult_less_pow [of ?w 32 ?R 32] I by simp
  have ss: "slow_start_total e ?n \<le> ?R * slow_start e"
    using slow_start_total_le [of e ?n] by (meson min.cobounded2 mult_le_mono2 order_trans)
  have ssb: "?R * slow_start e < 2 ^ 64" using mult_less_pow [of ?R 32 "slow_start e" 32] I by simp
  have sub1: "sub128 ?I 1 = ?I - 1" using I by (intro sub128_exact) simp_all
  have "slow_start e < ?n \<Longrightarrow> sub128 (min ?n (?I - 1)) (slow_start e) = ?w"
    using I by (intro sub128_exact) (simp_all add: min_less_iff_disj less_imp_diff_less)
  moreover have "mul128 ?w ?R = ?w * ?R" using wR by (intro mul128_exact) simp
  moreover have "add128 (slow_start_total e ?n) (?w * ?R) = slow_start_total e ?n + ?w * ?R"
    using ss ssb wR by (intro add128_exact) simp
  ultimately have loop: "scheduled_before e h = era_loop e ?n 1 ?run"
    using chk sub1 by (simp add: scheduled_before_def ramp_total_exact [OF assms] Let_def)
  have bound: "?run \<le> ?R * (1 * ?I)"
  proof -
    have "?w * ?R \<le> (?I - slow_start e) * ?R" by (intro mult_le_mono1) simp
    with ss have "slow_start_total e ?n + ?w * ?R
        \<le> ?R * slow_start e + (?I - slow_start e) * ?R" by (rule add_mono)
    then have "slow_start_total e ?n + ?w * ?R \<le> ?R * slow_start e + ?R * (?I - slow_start e)"
      by (simp only: mult.commute)
    also have "\<dots> = ?R * ?I" using I by (simp add: add_mult_distrib2 [symmetric])
    finally have "slow_start_total e ?n + ?w * ?R \<le> ?R * (1 * ?I)" by simp
    moreover have "slow_start_total e ?n \<le> ?R * (1 * ?I)"
      using ss mult_le_mono2 [of "slow_start e" ?I ?R] I by linarith
    ultimately show ?thesis by (rule if_split [where P = "\<lambda>x. x \<le> ?R * (1 * ?I)", THEN iffD2, OF conjI, OF impI impI])
  qed
  have "scheduled_before e h = ?run + (\<Sum>j\<in>{?I..?n}. era_reward_at e j)"
    using trans [OF loop era_loop_sum [OF assms bound]] by (simp only: mult_1)
  also have "\<dots> = schedule_spec e ?n"
    using first_era_sum [OF assms, of ?n] I by (auto simp: schedule_spec_alt)
  finally show ?thesis using False by simp
next
  case True
  then show ?thesis by (cases h) (auto simp: scheduled_before_def chk_sub_def)
qed

subsection \<open>Issuance\<close>

lemma issued_before_mono:
  assumes "emission_ok e" and "m \<le> n"
  shows "Emission_issued_before e m \<le> Emission_issued_before e n"
proof -
  have "schedule_spec e (m - 1) \<le> schedule_spec e (n - 1)"
    using assms(2) by (intro schedule_spec_mono) simp
  then have "scheduled_before e m \<le> scheduled_before e n"
    using assms by (simp add: scheduled_before_exact)
  then show ?thesis by (simp add: Emission_issued_before_def)
qed

lemma issued_before_cap [simp]: "Emission_issued_before e h \<le> max_supply e"
  by (simp add: Emission_issued_before_def)

lemma issued_before_1 [simp]: "Emission_issued_before e (Suc 0) = 0" "Emission_issued_before e 0 = 0"
  by (simp_all add: Emission_issued_before_def scheduled_before_def chk_sub_def)

lemma issued_step:
  assumes "emission_ok e" and "h < U64_MAX"
  shows "Emission_issued_before e (h + 1) = Emission_issued_before e h + Emission_block_reward e h"
proof (cases "h = 0")
  case False
  have "sat_add64 h 1 = h + 1" using assms(2) by (simp add: sat_add64_def)
  then show ?thesis
    using False issued_before_mono [OF assms(1), of h "h + 1"]
    by (simp add: Emission_block_reward_def)
qed (simp add: Emission_block_reward_def)

lemma issued_before_sum:
  assumes "emission_ok e" and "h \<le> U64_MAX"
  shows "Emission_issued_before e h = (\<Sum>i<h. Emission_block_reward e i)"
  using assms(2)
proof (induction h)
  case (Suc h)
  then show ?case using issued_step [OF assms(1), of h] by simp
qed simp

lemma schedule_spec_step:
  assumes "slow_start e < h"
  shows "schedule_spec e h = schedule_spec e (h - 1) + era_reward_at e h"
proof -
  have set: "{slow_start e<..h} = insert h {slow_start e<..h - 1}" using assms by auto
  have "h \<notin> {slow_start e<..h - 1}" using assms by auto
  then have "(\<Sum>j\<in>{slow_start e<..h}. era_reward_at e j) =
      era_reward_at e h + (\<Sum>j\<in>{slow_start e<..h - 1}. era_reward_at e j)"
    unfolding set by (subst sum.insert) auto
  moreover have "min h (slow_start e) = min (h - 1) (slow_start e)" using assms by simp
  ultimately show ?thesis by (simp add: schedule_spec_def)
qed

lemma reward_past_slow_start:
  assumes "emission_ok e" and "slow_start e < h" and "h < U64_MAX"
    and "Emission_issued_before e (h + 1) < max_supply e"
  shows "Emission_block_reward e h = initial_reward e div 2 ^ (h div halving_interval e)"
proof -
  have below: "scheduled_before e (h + 1) < max_supply e"
    using assms(4) by (simp add: Emission_issued_before_def min_def split: if_splits)
  have rec: "schedule_spec e h = schedule_spec e (h - 1) + era_reward_at e h"
    by (rule schedule_spec_step [OF assms(2)])
  have zero: "schedule_spec e (h - 1) = 0" if "h \<le> 1"
    using that by (simp add: schedule_spec_def)
  have now: "scheduled_before e h = schedule_spec e (h - 1)"
    using zero by (simp add: scheduled_before_exact [OF assms(1)])
  have after: "scheduled_before e (h + 1) = schedule_spec e h"
    using assms(2) by (simp add: scheduled_before_exact [OF assms(1)])
  have "sat_add64 h 1 = h + 1" "h \<noteq> 0" using assms(2,3) by (simp_all add: sat_add64_def)
  moreover have "Emission_issued_before e (h + 1) = schedule_spec e h"
    "Emission_issued_before e h = schedule_spec e (h - 1)"
    using below now after rec by (simp_all add: Emission_issued_before_def)
  ultimately show ?thesis using rec by (simp add: Emission_block_reward_def era_reward_at_def)
qed

text \<open>After 32 eras the reward has run out.\<close>

lemma schedule_spec_flat:
  assumes "emission_ok e" and "32 * halving_interval e \<le> m" and "m \<le> n"
  shows "schedule_spec e n = schedule_spec e m"
proof -
  have "initial_reward e div 2 ^ 32 = 0" using assms(1) by (simp add: emission_ok_def)
  then have zero: "era_reward_at e j = 0" if "m \<le> j" for j
    using era_tail_zero [OF assms(1), of 32 j] assms(2) that by simp
  have "slow_start e \<le> m" using assms(1,2) by (simp add: emission_ok_def)
  moreover have "(\<Sum>j\<in>{slow_start e<..n}. era_reward_at e j)
      = (\<Sum>j\<in>{slow_start e<..m}. era_reward_at e j)"
    by (rule sum.mono_neutral_right) (use assms(3) zero in auto)
  ultimately show ?thesis using assms(3) by (simp add: schedule_spec_alt slow_start_total_def)
qed

lemma issued_before_flat:
  assumes "emission_ok e" and "64 * halving_interval e < m" and "m \<le> n"
  shows "Emission_issued_before e n = Emission_issued_before e m"
proof -
  have I: "0 < halving_interval e" using assms(1) by (simp add: emission_ok_def)
  have "schedule_spec e (n - 1) = schedule_spec e (m - 1)"
    using assms I by (intro schedule_spec_flat) simp_all
  then have "scheduled_before e n = scheduled_before e m"
    using assms(2,3) I by (simp add: scheduled_before_exact [OF assms(1)])
  then show ?thesis by (simp add: Emission_issued_before_def)
qed

lemma reward_search_least:
  assumes "\<And>m n. m \<le> n \<Longrightarrow> Emission_issued_before e (sat_add64 m 1) \<le> Emission_issued_before e (sat_add64 n 1)"
    and "lo \<le> hi" and "max_supply e \<le> Emission_issued_before e (sat_add64 hi 1)"
    and "\<forall>j<lo. Emission_issued_before e (sat_add64 j 1) < max_supply e"
  shows "max_supply e \<le> Emission_issued_before e (sat_add64 (reward_search e lo hi) 1) \<and>
    (\<forall>j<reward_search e lo hi. Emission_issued_before e (sat_add64 j 1) < max_supply e) \<and>
    reward_search e lo hi \<le> hi"
  using assms(2-4)
proof (induction "hi - lo" arbitrary: lo hi rule: less_induct)
  case less
  let ?full = "\<lambda>j. max_supply e \<le> Emission_issued_before e (sat_add64 j 1)"
  show ?case
  proof (cases "lo < hi")
    case True
    define mid where "mid = lo + (hi - lo) div 2"
    have mid: "lo \<le> mid" "mid < hi" using True by (auto simp: mid_def)
    have unfold: "reward_search e lo hi =
        (if ?full mid then reward_search e lo mid else reward_search e (mid + 1) hi)"
      using True by (subst reward_search.simps) (simp add: Let_def mid_def)
    show ?thesis
    proof (cases "?full mid")
      case le: True
      show ?thesis
        using less.hyps [OF _ mid(1) le less.prems(3)] mid True unfold le
        by (simp add: order_trans [OF _ less_imp_le [OF mid(2)]])
    next
      case False
      have "\<forall>j<mid + 1. Emission_issued_before e (sat_add64 j 1) < max_supply e"
      proof (intro allI impI)
        fix j assume "j < mid + 1"
        then have "Emission_issued_before e (sat_add64 j 1) \<le> Emission_issued_before e (sat_add64 mid 1)"
          by (intro assms(1)) simp
        then show "Emission_issued_before e (sat_add64 j 1) < max_supply e" using False by linarith
      qed
      note IH = less.hyps [OF _ _ less.prems(2) this]
      have "reward_search e lo hi = reward_search e (mid + 1) hi" using unfold False by simp
      then show ?thesis using IH mid by simp
    qed
  next
    case False
    then show ?thesis using less.prems by (simp add: reward_search.simps)
  qed
qed

lemma sat_add64_mono: "a \<le> b \<Longrightarrow> sat_add64 a c \<le> sat_add64 b c"
  by (simp add: sat_add64_def)

lemma final_reward_search:
  assumes "emission_ok e" and "0 < max_supply e"
  shows "final_reward_height e = Some h \<longleftrightarrow>
    Emission_issued_before e (h + 1) = max_supply e \<and> Emission_issued_before e h < max_supply e"
    (is "?found \<longleftrightarrow> ?last")
proof -
  let ?hi = "64 * halving_interval e"
  have I: "0 < halving_interval e" "halving_interval e < 2 ^ 32"
    using assms(1) by (auto simp: emission_ok_def)
  have hi: "sat_mul64 64 (halving_interval e) = ?hi" "sat_add64 ?hi 1 = ?hi + 1"
    using I by (auto simp: sat_mul64_def sat_add64_def)
  have mono: "Emission_issued_before e (sat_add64 m 1) \<le> Emission_issued_before e (sat_add64 n 1)"
    if "m \<le> n" for m n
    using that by (intro issued_before_mono [OF assms(1)] sat_add64_mono)
  have uniq: "h' = h" if "?last" and "Emission_issued_before e (h' + 1) = max_supply e"
    and "Emission_issued_before e h' < max_supply e" for h'
    using issued_before_mono [OF assms(1), of "h + 1" h'] issued_before_mono [OF assms(1), of "h' + 1" h] that
    by (metis Suc_eq_plus1 not_less not_less_eq_eq order_antisym_conv)
  show ?thesis
  proof (cases "Emission_issued_before e (?hi + 1) < max_supply e")
    case True
    have "Emission_issued_before e (h + 1) < max_supply e"
    proof (cases "h \<le> ?hi")
      case True
      then show ?thesis
        using issued_before_mono [OF assms(1), of "h + 1" "?hi + 1"]
          \<open>Emission_issued_before e (?hi + 1) < max_supply e\<close> by simp
    next
      case False
      then show ?thesis
        using issued_before_flat [OF assms(1), of "?hi + 1" "h + 1"]
          \<open>Emission_issued_before e (?hi + 1) < max_supply e\<close> by simp
    qed
    then show ?thesis using True hi by (simp add: final_reward_height_def)
  next
    case False
    define r where "r = reward_search e 1 ?hi"
    have "max_supply e \<le> Emission_issued_before e (sat_add64 r 1) \<and>
        (\<forall>j<r. Emission_issued_before e (sat_add64 j 1) < max_supply e) \<and> r \<le> ?hi"
      unfolding r_def using I False hi assms(2)
      by (intro reward_search_least mono) (auto simp: sat_add64_def)
    then have r: "max_supply e \<le> Emission_issued_before e (sat_add64 r 1)"
      "\<And>j. j < r \<Longrightarrow> Emission_issued_before e (sat_add64 j 1) < max_supply e" "r \<le> ?hi" by auto
    have "sat_add64 r 1 = r + 1" using r(3) I by (simp add: sat_add64_def)
    then have top: "Emission_issued_before e (r + 1) = max_supply e"
      using r(1) issued_before_cap [of e "r + 1"] by (simp del: issued_before_cap)
    have pos: "r \<noteq> 0" using top assms(2) by (cases r) auto
    have "sat_add64 (r - 1) 1 = r" using pos r(3) I by (simp add: sat_add64_def)
    then have low: "Emission_issued_before e r < max_supply e" using r(2) [of "r - 1"] pos by simp
    have "final_reward_height e = Some r"
      using False hi by (simp add: final_reward_height_def r_def Let_def)
    then show ?thesis using top low uniq by (metis option.inject)
  qed
qed

subsection \<open>Properties of the schedule\<close>

text \<open>The closed form, computed in wrapping 128-bit arithmetic, is the capped sum of the
  schedule: the slow start's total, then each block's halved reward. Nothing overflows.\<close>

theorem emission_closed_form:
  assumes "emission_ok e"
  shows "Emission_issued_before e h = min (if h \<le> 1 then 0 else schedule_spec e (h - 1)) (max_supply e)"
  by (simp add: Emission_issued_before_def scheduled_before_exact [OF assms])

theorem emission_closed_form_witness:
  "Emission_issued_before EMISSION 3 = min (schedule_spec EMISSION 2) (max_supply EMISSION)"
  by (subst emission_closed_form [OF emission_ok_mainnet(1)]) simp

text \<open>The supply before a height is exactly the sum of the rewards of every block below it,
  and it never exceeds the cap: rewards telescope, so no block mints outside the schedule.\<close>

theorem rewards_sum_to_supply:
  assumes "emission_ok e" and "h \<le> U64_MAX"
  shows "(\<Sum>i<h. Emission_block_reward e i) = Emission_issued_before e h \<and>
    (\<Sum>i<h. Emission_block_reward e i) \<le> max_supply e"
  using issued_before_cap [of e h] unfolding issued_before_sum [OF assms] by blast

theorem rewards_sum_to_supply_witness:
  "(\<Sum>i<(5::nat). Emission_block_reward EMISSION i) \<le> max_supply EMISSION"
  using rewards_sum_to_supply [OF emission_ok_mainnet(1), of 5] by simp

text \<open>Past the slow start and below the cap, the block at height \<open>h\<close> pays the initial
  reward halved once per elapsed era.\<close>

theorem reward_halves:
  assumes "emission_ok e" and "slow_start e < h" and "h < U64_MAX"
    and "Emission_issued_before e (h + 1) < max_supply e"
  shows "Emission_block_reward e h = initial_reward e div 2 ^ (h div halving_interval e)"
  by (rule reward_past_slow_start [OF assms])

lemmas schedule_compute = scheduled_before_def chk_sub_def Let_def ramp_total_def EMISSION_def
  arith_ops MAX_SUPPLY_def COIN_def

lemma era_loop_go:
  "k < 64 \<Longrightarrow> \<not> prev < mul128 k (halving_interval e) \<Longrightarrow> initial_reward e div 2 ^ k \<noteq> 0 \<Longrightarrow>
   era_loop e prev k run = era_loop e prev (k + 1)
     (add128 run (mul128 (add128 (sub128 (min prev
        (sub128 (add128 (mul128 k (halving_interval e)) (halving_interval e)) 1))
        (mul128 k (halving_interval e))) 1) (initial_reward e div 2 ^ k)))"
  by (subst era_loop.simps) (simp only: Let_def if_True if_False)

lemma era_loop_done:
  "\<not> k < 64 \<or> prev < mul128 k (halving_interval e) \<or> initial_reward e div 2 ^ k = 0 \<Longrightarrow>
   era_loop e prev k run = run"
  by (subst era_loop.simps) (auto simp: Let_def)

lemma scheduled_before_2100001: "scheduled_before EMISSION 2100001 = 49741549094400"
  by (simp add: schedule_compute era_loop_go era_loop_done)

theorem reward_halves_witness: "Emission_block_reward EMISSION 2100000 = 11966308"
proof -
  have "Emission_issued_before EMISSION (2100000 + 1) < max_supply EMISSION"
    using scheduled_before_2100001
    by (simp add: Emission_issued_before_def EMISSION_def MAX_SUPPLY_def COIN_def)
  then have "Emission_block_reward EMISSION 2100000 = 23932616 div 2 ^ (2100000 div 2100000)"
    using reward_halves [OF emission_ok_mainnet(1), of 2100000] by (simp add: EMISSION_def)
  then show ?thesis by simp
qed

text \<open>C30. The binary search for the last paying height finds it exactly when there is one: the
  cap is met right after that block and not before it.\<close>

theorem final_reward_height_correct:
  assumes "emission_ok e" and "0 < max_supply e"
  shows "final_reward_height e = Some h \<longleftrightarrow>
    Emission_issued_before e (h + 1) = max_supply e \<and> Emission_issued_before e h < max_supply e"
  by (rule final_reward_search [OF assms])

text \<open>Mainnet: the last block that mints is 49,735,953, some 94 years in.\<close>

lemma scheduled_at_the_end:
  "scheduled_before EMISSION 49735953 = 99999999999998"
  "scheduled_before EMISSION 49735954 = 100000000000000"
proof -
  have start: "scheduled_before EMISSION h = era_loop EMISSION (h - 1) 1 49741537128092"
    if "2100000 < h" for h
  proof -
    have "\<not> h - Suc 0 \<le> 43200" using that by simp
    then show ?thesis using that by (simp add: schedule_compute)
  qed
  show "scheduled_before EMISSION 49735953 = 99999999999998"
    by (subst start, simp, simp add: era_loop_go era_loop_done EMISSION_def arith_ops)
  show "scheduled_before EMISSION 49735954 = 100000000000000"
    by (subst start, simp, simp add: era_loop_go era_loop_done EMISSION_def arith_ops)
qed

theorem final_reward_height_correct_witness: "final_reward_height EMISSION = Some 49735953"
proof -
  have "0 < max_supply EMISSION" by (simp add: EMISSION_def MAX_SUPPLY_def COIN_def)
  note * = final_reward_height_correct [OF emission_ok_mainnet(1) this, of 49735953]
  have "49735953 + 1 = (49735954 :: nat)" by simp
  with * show ?thesis
    using scheduled_at_the_end
    by (simp only: Emission_issued_before_def)
       (simp add: EMISSION_def MAX_SUPPLY_def COIN_def)
qed


subsection \<open>Amounts\<close>

text \<open>Amounts are ASCII text. Rust's \<^verbatim>\<open>{}\<close> and \<^verbatim>\<open>{:08}\<close> of an unsigned integer, and \<^verbatim>\<open>str::parse\<close>.\<close>

definition digit_char :: "nat \<Rightarrow> char" where
  "digit_char d = char_of (48 + d)"

definition is_ascii_digit :: "char \<Rightarrow> bool" where
  "is_ascii_digit c \<longleftrightarrow> 48 \<le> (of_char c :: nat) \<and> (of_char c :: nat) \<le> 57"

fun show_nat :: "nat \<Rightarrow> string" where
  "show_nat n = (if n < 10 then [digit_char n] else show_nat (n div 10) @ [digit_char (n mod 10)])"

declare show_nat.simps [simp del]

definition show_padded :: "nat \<Rightarrow> nat \<Rightarrow> string" where
  "show_padded w n = replicate (w - length (show_nat n)) CHR ''0'' @ show_nat n"

definition decimal_value :: "string \<Rightarrow> nat" where
  "decimal_value s = foldl (\<lambda>a c. a * 10 + (of_char c - 48)) 0 s"

datatype amount_error =
  Empty_Amount | Not_An_Amount | Too_Many_Decimals | Integer_Overflow | Out_Of_Range | Above_Supply

definition parse_u64 :: "string \<Rightarrow> amount_error + nat" where
  "parse_u64 s = (if decimal_value s \<le> U64_MAX then Inr (decimal_value s) else Inl Integer_Overflow)"

definition is_ascii_space :: "char \<Rightarrow> bool" where
  "is_ascii_space c \<longleftrightarrow> (of_char c :: nat) \<in> {9, 10, 11, 12, 13, 32}"

definition trim :: "string \<Rightarrow> string" where
  "trim s = rev (dropWhile is_ascii_space (rev (dropWhile is_ascii_space s)))"

definition split_once :: "char \<Rightarrow> string \<Rightarrow> (string \<times> string) option" where
  "split_once c s =
     (if c \<in> set s then Some (takeWhile (\<lambda>x. x \<noteq> c) s, tl (dropWhile (\<lambda>x. x \<noteq> c) s)) else None)"

definition format_amount :: "nat \<Rightarrow> string" where
  "format_amount units = show_nat (units div COIN) @ ''.'' @ show_padded 8 (units mod COIN)"

definition parse_amount :: "string \<Rightarrow> amount_error + nat" where
  "parse_amount s0 =
     (let s = trim s0;
          (whole, frac) = (case split_once CHR ''.'' s of Some (w, f) \<Rightarrow> (w, f) | None \<Rightarrow> (s, []))
      in if whole = [] \<and> frac = [] then Inl Empty_Amount
         else if \<not> list_all is_ascii_digit (whole @ frac) then Inl Not_An_Amount
         else if 8 < length frac then Inl Too_Many_Decimals
         else
           let scale = 10 ^ (8 - length frac) in
           and_then (if whole = [] then Inr 0 else parse_u64 whole) (\<lambda>whole.
           and_then (if frac = [] then Inr 0 else parse_u64 frac) (\<lambda>frac.
           and_then (ok_or Out_Of_Range
                       (Option.bind (chk_mul64 whole COIN) (\<lambda>u. chk_add64 u (frac * scale))))
             (\<lambda>units. if MAX_SUPPLY < units then Inl Above_Supply else Inr units))))"

lemma of_char_digit: "d < 10 \<Longrightarrow> of_char (digit_char d) = (48 + d :: nat)"
  by (simp add: digit_char_def of_char_of)

lemma decimal_value_append1: "decimal_value (s @ [c]) = decimal_value s * 10 + (of_char c - 48)"
  by (simp add: decimal_value_def)

lemma show_nat_digits: "list_all is_ascii_digit (show_nat n) \<and> show_nat n \<noteq> []"
proof (induction n rule: show_nat.induct)
  case (1 n)
  have d: "is_ascii_digit (digit_char (n mod 10))" "n < 10 \<Longrightarrow> is_ascii_digit (digit_char n)"
    by (simp_all add: is_ascii_digit_def of_char_digit)
  show ?case
  proof (cases "n < 10")
    case True
    then show ?thesis using d by (subst (1 2) show_nat.simps) simp
  next
    case False
    then show ?thesis using d 1 by (subst (1 2) show_nat.simps) simp
  qed
qed

lemma decimal_value_show_nat: "decimal_value (show_nat n) = n"
proof (induction n rule: show_nat.induct)
  case (1 n)
  show ?case
  proof (cases "n < 10")
    case True
    then show ?thesis by (subst show_nat.simps) (simp add: decimal_value_def of_char_digit)
  next
    case False
    then show ?thesis
      using 1 by (subst show_nat.simps) (simp add: decimal_value_append1 of_char_digit)
  qed
qed

lemma decimal_value_zeros: "decimal_value (replicate k CHR ''0'' @ s) = decimal_value s"
proof -
  have "foldl (\<lambda>a c. a * 10 + (of_char c - 48)) 0 (replicate k CHR ''0'') = (0 :: nat)"
    by (induction k) simp_all
  then show ?thesis by (simp add: decimal_value_def)
qed

lemma length_show_nat: "n < 10 ^ k \<Longrightarrow> 0 < k \<Longrightarrow> length (show_nat n) \<le> k"
proof (induction k arbitrary: n)
  case (Suc k)
  show ?case
  proof (cases "n < 10")
    case True
    then show ?thesis by (subst show_nat.simps) simp
  next
    case False
    then have "0 < k" using Suc.prems by (cases k) auto
    moreover have "n div 10 < 10 ^ k" using Suc.prems(1) by (simp add: less_mult_imp_div_less)
    ultimately show ?thesis using Suc.IH [of "n div 10"] False by (subst show_nat.simps) simp
  qed
qed simp

lemma length_show_padded: "n < 10 ^ k \<Longrightarrow> 0 < k \<Longrightarrow> length (show_padded k n) = k"
  using length_show_nat [of n k] by (simp add: show_padded_def)

lemma show_padded_digits: "list_all is_ascii_digit (show_padded k n)"
  using show_nat_digits [of n]
  by (auto simp: show_padded_def is_ascii_digit_def list_all_iff in_set_replicate)

lemma digit_not: "is_ascii_digit c \<Longrightarrow> \<not> is_ascii_space c \<and> c \<noteq> CHR ''.''"
  by (auto simp: is_ascii_digit_def is_ascii_space_def)

lemma trim_id: "s \<noteq> [] \<Longrightarrow> \<not> is_ascii_space (hd s) \<Longrightarrow> \<not> is_ascii_space (last s) \<Longrightarrow> trim s = s"
proof -
  assume s: "s \<noteq> []" "\<not> is_ascii_space (hd s)" "\<not> is_ascii_space (last s)"
  then have "dropWhile is_ascii_space s = s" by (cases s) simp_all
  moreover have "dropWhile is_ascii_space (rev s) = rev s"
    using s by (cases "rev s") (simp_all add: hd_rev [symmetric])
  ultimately show ?thesis by (simp add: trim_def)
qed

lemma split_once_append: "c \<notin> set w \<Longrightarrow> split_once c (w @ c # f) = Some (w, f)"
proof -
  assume "c \<notin> set w"
  then have "takeWhile (\<lambda>x. x \<noteq> c) (w @ c # f) = w" "dropWhile (\<lambda>x. x \<noteq> c) (w @ c # f) = c # f"
    by (induction w) auto
  then show ?thesis by (simp add: split_once_def)
qed

text \<open>Every amount up to the whole supply is printed with eight decimals and parsed back to
  the same number of base units.\<close>

theorem parse_format_amount:
  assumes "units \<le> MAX_SUPPLY"
  shows "parse_amount (format_amount units) = Inr units"
proof -
  let ?w = "show_nat (units div COIN)" and ?f = "show_padded 8 (units mod COIN)"
  have f: "length ?f = 8" by (rule length_show_padded) (simp_all add: COIN_def)
  then have nonempty: "?w \<noteq> []" "?f \<noteq> []" using show_nat_digits by auto
  have dig: "list_all is_ascii_digit ?w" "list_all is_ascii_digit ?f"
    using show_nat_digits show_padded_digits by blast+
  have "is_ascii_digit (hd ?w)" "is_ascii_digit (last ?f)"
    using dig nonempty by (simp_all add: list_all_iff)
  then have trim: "trim (format_amount units) = ?w @ CHR ''.'' # ?f"
    using digit_not nonempty by (subst trim_id) (simp_all add: format_amount_def)
  have "CHR ''.'' \<notin> set ?w" using dig(1) digit_not by (auto simp: list_all_iff)
  then have split: "split_once CHR ''.'' (?w @ CHR ''.'' # ?f) = Some (?w, ?f)"
    by (rule split_once_append)
  have val: "decimal_value ?w = units div COIN" "decimal_value ?f = units mod COIN"
    by (simp_all add: decimal_value_show_nat show_padded_def decimal_value_zeros)
  have small: "units div COIN * COIN + units mod COIN = units" by simp
  have b: "units div COIN \<le> units" "units mod COIN \<le> units" by simp_all
  have u64: "units \<le> U64_MAX" using assms by (simp add: MAX_SUPPLY_def COIN_def)
  then have "units div COIN \<le> U64_MAX" "units mod COIN \<le> U64_MAX" "units div COIN * COIN \<le> U64_MAX"
    using b small by linarith+
  then have "parse_u64 ?w = Inr (units div COIN)" "parse_u64 ?f = Inr (units mod COIN)"
    "chk_mul64 (units div COIN) COIN = Some (units div COIN * COIN)"
    "chk_add64 (units div COIN * COIN) (units mod COIN) = Some units"
    using u64 by (simp_all only: parse_u64_def chk_mul64_def chk_add64_def val small if_True)
  then show ?thesis
    using trim split f dig nonempty assms by (simp add: parse_amount_def ok_or_def)
qed

theorem parse_format_amount_witness:
  "parse_amount (format_amount 23932616) = Inr 23932616"
  by (rule parse_format_amount) (simp add: MAX_SUPPLY_def COIN_def)

end
