(* ===== verification/Fork_Weight.thy ===== *)
theory Fork_Weight
  imports Bonds Emission
begin

text \<open>
  What fork choice credits a block, \<^verbatim>\<open>src/src/core/bond.rs\<close> from the fork-choice cap on: the cap on
  a block's work by the lowest work of its chain's last week, the quota of full-weight blocks per
  bond and day, the tapered subsidy of over-quota blocks, and the windows storage rebuilds.
\<close>

definition CAP_WINDOW :: nat where "CAP_WINDOW = 24 * 60"
definition CAP_K :: nat where "CAP_K = 360"
definition OVER_CAP_WORK_DIVISOR :: nat where "OVER_CAP_WORK_DIVISOR = 1024"
definition WORK_CAP_WINDOW :: nat where "WORK_CAP_WINDOW = 7 * 24 * 60"
definition WORK_CAP_HEADROOM :: nat where "WORK_CAP_HEADROOM = 4"

subsection \<open>Quotas and subsidies\<close>

definition eligible_bonds :: "BondSet \<Rightarrow> nat \<Rightarrow> nat" where
  "eligible_bonds bonds block_timestamp =
     length (filter (\<lambda>(_, e). BondEntry_eligible_at e block_timestamp) (bond_entries bonds))"

definition signer_cap :: "BondSet \<Rightarrow> nat \<Rightarrow> nat" where
  "signer_cap bonds block_timestamp =
     div_ceil CAP_WINDOW (max 1 (min (eligible_bonds bonds block_timestamp) CAP_K))"

text \<open>The product of a \<^verbatim>\<open>u64\<close> and a \<^verbatim>\<open>usize\<close> fits the \<^verbatim>\<open>u128\<close> it is computed in; the quotient is cast
  back to a \<^verbatim>\<open>u64\<close>.\<close>

definition capped_subsidy :: "nat \<Rightarrow> nat \<Rightarrow> nat \<Rightarrow> nat" where
  "capped_subsidy reward n cap =
     (if n \<le> cap then reward else (mul128 reward cap div n) mod 2 ^ 64)"

definition subsidy_for :: "h256 option \<Rightarrow> (h256, nat) omap \<Rightarrow> BondSet \<Rightarrow> nat \<Rightarrow> nat \<Rightarrow> nat" where
  "subsidy_for signer counts bonds height block_timestamp =
     (let reward = block_reward height in
      case signer of
        Some bid \<Rightarrow>
          if EARLY_BONDS_UNTIL \<le> block_timestamp
          then capped_subsidy reward (case om_get counts bid of Some n \<Rightarrow> n | None \<Rightarrow> 0)
                 (signer_cap bonds block_timestamp)
          else reward
      | None \<Rightarrow> reward)"

definition sliver :: "nat \<Rightarrow> nat" where
  "sliver work = max (work div OVER_CAP_WORK_DIVISOR) 1"

lemma sliver_pos: "1 \<le> sliver work"
  by (simp add: sliver_def)

lemma sliver_le: "1 \<le> work \<Longrightarrow> sliver work \<le> work"
  by (simp add: sliver_def OVER_CAP_WORK_DIVISOR_def)

lemma div_ceil_least: "0 < b \<Longrightarrow> div_ceil a b \<le> q \<longleftrightarrow> a \<le> b * q"
proof -
  assume b: "0 < b"
  have "div_ceil a b \<le> q \<longleftrightarrow> (a + b - 1) div b < q + 1" by (auto simp: div_ceil_def)
  also have "\<dots> \<longleftrightarrow> a + b - 1 < (q + 1) * b" using b by (simp add: div_less_iff_less_mult)
  also have "\<dots> \<longleftrightarrow> a \<le> b * q" using b by (simp add: algebra_simps) linarith
  finally show ?thesis .
qed

lemma div_ceil_antimono: "0 < b \<Longrightarrow> b \<le> b' \<Longrightarrow> div_ceil a b' \<le> div_ceil a b"
  using div_ceil_least [of b a "div_ceil a b"] div_ceil_least [of b' a "div_ceil a b"]
  by (meson le_refl le_trans less_le_trans mult_le_mono1)

lemma signer_cap_le: "signer_cap bonds ts \<le> 1440"
  using div_ceil_antimono [of 1 "max 1 (min (eligible_bonds bonds ts) CAP_K)" CAP_WINDOW]
  by (simp add: signer_cap_def) (simp add: div_ceil_def CAP_WINDOW_def)

text \<open>A bond's quota is between 4 and 1440 full-weight blocks a day, shrinks as more bonds become
  eligible, and the quotas of the eligible bonds together always cover the whole window. An
  over-quota block never mints more than its scheduled reward, nor more than a block of a bond that
  signed less.\<close>

theorem quotas_and_tapered_subsidy:
  assumes "n \<le> n'" and "reward \<le> U64_MAX" and "0 < cap" and "cap \<le> CAP_WINDOW"
  shows "4 \<le> signer_cap bonds ts \<and> signer_cap bonds ts \<le> 1440 \<and>
    (eligible_bonds bonds ts \<le> eligible_bonds bonds' ts' \<longrightarrow>
       signer_cap bonds' ts' \<le> signer_cap bonds ts) \<and>
    (0 < eligible_bonds bonds ts \<longrightarrow>
       CAP_WINDOW \<le> eligible_bonds bonds ts * signer_cap bonds ts) \<and>
    capped_subsidy reward n' cap \<le> capped_subsidy reward n cap \<and>
    capped_subsidy reward n cap \<le> reward"
proof -
  let ?k = "\<lambda>b t. max 1 (min (eligible_bonds b t) CAP_K)"
  have anti: "?k b t \<le> ?k b' t' \<Longrightarrow> signer_cap b' t' \<le> signer_cap b t" for b t b' t'
    unfolding signer_cap_def by (rule div_ceil_antimono) simp_all
  have lo: "4 \<le> signer_cap bonds ts"
    using div_ceil_antimono [of "?k bonds ts" 360 CAP_WINDOW]
    by (simp add: signer_cap_def CAP_K_def) (simp add: div_ceil_def CAP_WINDOW_def)
  have hi: "signer_cap bonds ts \<le> 1440" by (rule signer_cap_le)
  have cover: "CAP_WINDOW \<le> eligible_bonds bonds ts * signer_cap bonds ts" if "0 < eligible_bonds bonds ts"
  proof -
    have "CAP_WINDOW \<le> ?k bonds ts * signer_cap bonds ts"
      using div_ceil_least [of "?k bonds ts" CAP_WINDOW "signer_cap bonds ts"] by (simp add: signer_cap_def)
    also have "\<dots> \<le> eligible_bonds bonds ts * signer_cap bonds ts" using that by (intro mult_le_mono) auto
    finally show ?thesis .
  qed
  have q: "reward * cap div m \<le> reward" if "cap < m" for m
  proof -
    have "reward * cap \<le> reward * m" using that by simp
    then show ?thesis using that div_le_mono [of "reward * cap" "reward * m" m] by simp
  qed
  have ex: "mul128 reward cap = reward * cap"
  proof (rule mul128_exact)
    have "reward * cap \<le> U64_MAX * CAP_WINDOW" using assms by (intro mult_le_mono) auto
    then show "reward * cap < 2 ^ 128" by (simp add: CAP_WINDOW_def)
  qed
  have sub: "capped_subsidy reward m cap = (if m \<le> cap then reward else reward * cap div m)" for m
    using q [of m] assms(2) by (auto simp: capped_subsidy_def ex intro!: mod_less)
  have "capped_subsidy reward n' cap \<le> capped_subsidy reward n cap"
    using assms(1) q [of n'] by (auto simp: sub intro!: div_le_mono2 assms)
  moreover have "capped_subsidy reward n cap \<le> reward" using q [of n] by (auto simp: sub)
  ultimately show ?thesis using lo hi cover anti [of bonds ts bonds' ts'] by auto
qed

theorem quotas_and_tapered_subsidy_witness:
  "capped_subsidy 1000 8 4 \<le> capped_subsidy 1000 5 4 \<and> capped_subsidy 1000 8 4 = 500"
  using quotas_and_tapered_subsidy [of 5 8 1000 4 BondSet_default 0 BondSet_default 0]
  by (simp add: CAP_WINDOW_def) (simp add: capped_subsidy_def mul128_def)

end
