(* ===== verification/Signer_Window.thy ===== *)
theory Signer_Window
  imports Fork_Weight
begin

text \<open>
  The day-long window of signers of \<^verbatim>\<open>credit_in_window\<close>, \<^verbatim>\<open>src/src/core/bond.rs\<close>: the last 1440 signers
  and how often each occurs, the weight a block is credited, and the quota that follows.
\<close>

type_synonym signer_counts = "(h256, nat) omap"

definition count_of :: "signer_counts \<Rightarrow> h256 \<Rightarrow> nat" where
  "count_of counts bid = (case om_get counts bid of Some n \<Rightarrow> n | None \<Rightarrow> 0)"

definition forget_signer :: "h256 option \<Rightarrow> signer_counts \<Rightarrow> signer_counts" where
  "forget_signer old counts =
     (case old of
        None \<Rightarrow> counts
      | Some bid \<Rightarrow>
          (case om_get counts bid of
             Some n \<Rightarrow> if 1 < n then om_insert bid (n - 1) counts else om_remove bid counts
           | None \<Rightarrow> om_remove bid counts))"

fun evict_window :: "h256 option list \<Rightarrow> signer_counts \<Rightarrow> h256 option list \<times> signer_counts" where
  "evict_window [] counts = ([], counts)"
| "evict_window (old # recent) counts =
     (if CAP_WINDOW < length (old # recent) then evict_window recent (forget_signer old counts)
      else (old # recent, counts))"

definition credit_in_window ::
    "h256 option list \<Rightarrow> signer_counts \<Rightarrow> BondSet \<Rightarrow> nat \<Rightarrow> h256 option \<Rightarrow> nat \<Rightarrow> nat
      \<Rightarrow> h256 option list \<times> signer_counts \<times> nat" where
  "credit_in_window recent counts bonds height signer work block_timestamp =
     (let counts = (case signer of
            Some bid \<Rightarrow> om_insert bid (count_of counts bid + 1) counts
          | None \<Rightarrow> counts);
          (recent, counts) = evict_window (recent @ [signer]) counts;
          credited = (case signer of
              Some bid \<Rightarrow>
                if signer_cap bonds block_timestamp < count_of counts bid then sliver work else work
            | None \<Rightarrow> if BONDED_MINING_FROM \<le> height then sliver work else work)
      in (recent, counts, credited))"

definition credit_possible :: "nat \<Rightarrow> bool \<Rightarrow> nat \<Rightarrow> nat \<Rightarrow> bool" where
  "credit_possible creditable is_signed height credited =
     (if is_signed then credited = creditable \<or> credited = sliver creditable
      else if BONDED_MINING_FROM \<le> height then credited = sliver creditable
      else credited = creditable)"

definition rebuild_signer_window ::
    "BondSet \<Rightarrow> h256 option list \<Rightarrow> h256 option list \<times> signer_counts" where
  "rebuild_signer_window bonds signers =
     foldl (\<lambda>(recent, counts) signer.
       let (recent, counts, _) = credit_in_window recent counts bonds 0 signer 0 0 in (recent, counts))
     ([], []) signers"

subsection \<open>Counts are occurrences\<close>

definition count_option :: "nat \<Rightarrow> nat option" where
  "count_option n = (if n = 0 then None else Some n)"

definition counts_exact :: "h256 option list \<Rightarrow> signer_counts \<Rightarrow> bool" where
  "counts_exact recent counts \<longleftrightarrow>
     om_wf counts \<and> (\<forall>bid. om_get counts bid = count_option (count_list recent (Some bid)))"

definition window_ok :: "h256 option list \<Rightarrow> signer_counts \<Rightarrow> bool" where
  "window_ok recent counts \<longleftrightarrow> length recent \<le> CAP_WINDOW \<and> counts_exact recent counts"

lemma window_ok_Nil: "window_ok [] []"
  by (simp add: window_ok_def counts_exact_def count_option_def)

lemma count_of_exact: "counts_exact recent counts \<Longrightarrow> count_of counts bid = count_list recent (Some bid)"
  by (simp add: counts_exact_def count_of_def count_option_def)

lemma counts_exact_forget:
  "counts_exact (old # recent) counts \<Longrightarrow> counts_exact recent (forget_signer old counts)"
  by (auto simp: counts_exact_def forget_signer_def count_option_def split: option.splits if_splits)

lemma counts_exact_push:
  assumes "counts_exact recent counts"
  shows "counts_exact (recent @ [signer])
    (case signer of Some bid \<Rightarrow> om_insert bid (count_of counts bid + 1) counts | None \<Rightarrow> counts)"
  using assms
  by (auto simp: counts_exact_def count_of_def count_option_def split: option.splits if_splits)

lemma evict_window_exact:
  "counts_exact recent counts \<Longrightarrow> evict_window recent counts = (recent', counts') \<Longrightarrow>
    recent' = drop (length recent - CAP_WINDOW) recent \<and> counts_exact recent' counts'"
proof (induction recent counts rule: evict_window.induct)
  case (2 old recent counts)
  then show ?case
    using counts_exact_forget [of old recent counts]
    by (auto simp: Suc_diff_le split: if_splits)
qed simp

definition last_signers :: "h256 option list \<Rightarrow> h256 option list" where
  "last_signers signers = drop (length signers - CAP_WINDOW) signers"

lemma credit_in_window_shape:
  assumes "counts_exact recent counts"
    and "credit_in_window recent counts bonds height signer work ts = (recent', counts', credited)"
  shows "recent' = last_signers (recent @ [signer]) \<and> counts_exact recent' counts' \<and>
    credited = (case signer of
        Some bid \<Rightarrow> if signer_cap bonds ts < count_list recent' (Some bid) then sliver work else work
      | None \<Rightarrow> if BONDED_MINING_FROM \<le> height then sliver work else work)"
proof -
  let ?c = "case signer of Some bid \<Rightarrow> om_insert bid (count_of counts bid + 1) counts | None \<Rightarrow> counts"
  obtain r c where e: "evict_window (recent @ [signer]) ?c = (r, c)" by fastforce
  have "r = last_signers (recent @ [signer])" "counts_exact r c"
    using evict_window_exact [OF counts_exact_push [OF assms(1)] e] by (auto simp: last_signers_def)
  then show ?thesis
    using assms(2) e count_of_exact [of r c]
    by (auto simp: credit_in_window_def Let_def split: option.splits)
qed

lemma credit_in_window_effect:
  assumes "window_ok recent counts" and "1 \<le> work"
    and "credit_in_window recent counts bonds height signer work ts = (recent', counts', credited)"
  shows "window_ok recent' counts' \<and> recent' = last_signers (recent @ [signer]) \<and>
    1 \<le> credited \<and> credited \<le> work \<and> credit_possible work (signer \<noteq> None) height credited"
proof -
  have ce: "counts_exact recent counts" using assms(1) by (simp add: window_ok_def)
  note sh = credit_in_window_shape [OF ce assms(3)]
  have "length (last_signers (recent @ [signer])) \<le> CAP_WINDOW" by (simp add: last_signers_def)
  then have "window_ok recent' counts'" using sh by (auto simp: window_ok_def)
  then show ?thesis
    using sh assms(2) sliver_pos [of work] sliver_le [OF assms(2)]
    by (auto simp: credit_possible_def split: option.splits if_splits)
qed

text \<open>C25. The counts always say how often each bond is_signed among the last 1440 blocks, and only of bonds
  that is_signed; the weight credited is never zero, never more than the creditable work, and always
  one that headers-first sync considers possible.\<close>

theorem signer_window_exact:
  assumes "window_ok recent counts" and "1 \<le> work"
    and "credit_in_window recent counts bonds height signer work ts = (recent', counts', credited)"
  shows "window_ok recent' counts' \<and> recent' = last_signers (recent @ [signer]) \<and>
    1 \<le> credited \<and> credited \<le> work \<and> credit_possible work (signer \<noteq> None) height credited"
  using assms by (rule credit_in_window_effect)

theorem signer_window_exact_witness:
  "credit_possible 5000 False 9 (snd (snd (credit_in_window [] [] BondSet_default 9 None 5000 0)))"
  using signer_window_exact [OF window_ok_Nil, of 5000 BondSet_default 9 None 0
      "fst (credit_in_window [] [] BondSet_default 9 None 5000 0)"
      "fst (snd (credit_in_window [] [] BondSet_default 9 None 5000 0))"
      "snd (snd (credit_in_window [] [] BondSet_default 9 None 5000 0))"]
  by simp

subsection \<open>The window storage rebuilds\<close>

lemma last_signers_snoc: "last_signers (last_signers xs @ [x]) = last_signers (xs @ [x])"
proof (cases "length xs \<le> CAP_WINDOW")
  case False
  then have "Suc (length xs) - (length xs - CAP_WINDOW + CAP_WINDOW) + (length xs - CAP_WINDOW)
      = Suc (length xs) - CAP_WINDOW" by arith
  then show ?thesis using False by (simp add: last_signers_def)
qed (simp add: last_signers_def)

lemma rebuild_signer_window_shape:
  "rebuild_signer_window bonds signers = (recent, counts) \<Longrightarrow>
    recent = last_signers signers \<and> counts_exact recent counts"
proof (induction signers arbitrary: recent counts rule: rev_induct)
  case Nil
  then show ?case
    using window_ok_Nil by (auto simp: rebuild_signer_window_def last_signers_def window_ok_def)
next
  case (snoc x signers)
  obtain r c where rc: "rebuild_signer_window bonds signers = (r, c)" by fastforce
  obtain r' c' w where st: "credit_in_window r c bonds 0 x 0 0 = (r', c', w)" by (metis prod_cases3)
  have "rebuild_signer_window bonds (signers @ [x]) = (r', c')"
    using rc st by (simp add: rebuild_signer_window_def)
  then show ?case
    using snoc.prems snoc.IH [OF rc] credit_in_window_shape [OF _ st] last_signers_snoc [of signers x] by auto
qed

text \<open>Storage rebuilds from at least the last 1440 signers exactly the window a node carries: the same
  signers and the same counts, whichever bonds are registered meanwhile.\<close>

theorem rebuilt_signer_window:
  assumes "window_ok recent counts" and "length recent = CAP_WINDOW \<or> older = []"
  shows "rebuild_signer_window bonds (older @ recent) = (recent, counts)"
proof -
  obtain r c where rc: "rebuild_signer_window bonds (older @ recent) = (r, c)" by fastforce
  have r: "r = recent" and c: "counts_exact r c"
    using rebuild_signer_window_shape [OF rc] assms by (auto simp: last_signers_def window_ok_def)
  have "c = counts"
  proof (rule om_ext)
    show "om_wf c" "om_wf counts" "om_get c = om_get counts"
      using c r assms(1) by (auto simp: window_ok_def counts_exact_def fun_eq_iff)
  qed
  then show ?thesis using rc r by simp
qed

theorem rebuilt_signer_window_witness:
  "rebuild_signer_window BondSet_default [Some 5, None] = ([Some 5, None], [(5, 1)])"
proof -
  have "window_ok [Some 5, None] [(5, 1)]"
    by (auto simp: window_ok_def counts_exact_def count_option_def CAP_WINDOW_def om_wf_def om_get_def)
  from rebuilt_signer_window [OF this, of "[]" BondSet_default] show ?thesis by simp
qed

subsection \<open>The quota\<close>

type_synonym credit_input = "BondSet \<times> nat \<times> h256 option \<times> nat \<times> nat"

fun credit_run :: "h256 option list \<Rightarrow> signer_counts \<Rightarrow> credit_input list \<Rightarrow> nat list" where
  "credit_run recent counts [] = []"
| "credit_run recent counts ((bonds, height, signer, work, ts) # blocks) =
     (let (recent, counts, credited) = credit_in_window recent counts bonds height signer work ts
      in credited # credit_run recent counts blocks)"

fun full_credits :: "h256 \<Rightarrow> credit_input list \<Rightarrow> nat list \<Rightarrow> nat" where
  "full_credits bid ((_, _, signer, work, _) # blocks) (credited # credits) =
     (if signer = Some bid \<and> credited = work then 1 else 0) + full_credits bid blocks credits"
| "full_credits bid _ _ = 0"

definition quota_at_most :: "nat \<Rightarrow> h256 \<Rightarrow> credit_input \<Rightarrow> bool" where
  "quota_at_most c bid b = (case b of (bonds, _, signer, work, ts) \<Rightarrow>
     signer = Some bid \<longrightarrow> signer_cap bonds ts \<le> c \<and> 1 < work)"

lemma count_last_signers:
  "length seg \<le> CAP_WINDOW \<Longrightarrow> count_list seg x \<le> count_list (last_signers (pre @ seg)) x"
  by (simp add: last_signers_def count_list_append)

lemma sliver_less: "1 < work \<Longrightarrow> sliver work < work"
  by (simp add: sliver_def OVER_CAP_WORK_DIVISOR_def)

lemma full_credits_bound:
  assumes "counts_exact recent counts" and "recent = last_signers (pre @ seg)"
    and "length seg + length blocks \<le> CAP_WINDOW"
    and "\<forall>b\<in>set blocks. quota_at_most c bid b"
    and "f \<le> count_list seg (Some bid)" and "f \<le> c"
  shows "f + full_credits bid blocks (credit_run recent counts blocks) \<le> c"
  using assms
proof (induction blocks arbitrary: recent counts seg f)
  case (Cons b blocks)
  obtain bonds height signer work ts where b: "b = (bonds, height, signer, work, ts)" by (metis prod_cases5)
  obtain r k w where st: "credit_in_window recent counts bonds height signer work ts = (r, k, w)"
    by (metis prod_cases3)
  note sh = credit_in_window_shape [OF Cons.prems(1) st]
  have r: "r = last_signers (pre @ (seg @ [signer]))"
    using sh Cons.prems(2) last_signers_snoc [of "pre @ seg" signer] by simp
  let ?one = "if signer = Some bid \<and> w = work then 1 else 0 :: nat"
  have cnt: "f + ?one \<le> count_list (seg @ [signer]) (Some bid)"
    using Cons.prems(5) by (auto simp: count_list_append)
  have "f + ?one \<le> c"
  proof (cases "signer = Some bid \<and> w = work")
    case True
    then have q: "signer_cap bonds ts \<le> c" "1 < work"
      using Cons.prems(4) b by (auto simp: quota_at_most_def)
    then have "count_list r (Some bid) \<le> signer_cap bonds ts"
      using sh True sliver_less [OF q(2)] by (auto split: if_splits)
    moreover have "count_list (seg @ [signer]) (Some bid) \<le> count_list r (Some bid)"
      unfolding r by (rule count_last_signers) (use Cons.prems(3) in simp)
    ultimately show ?thesis using cnt q(1) by linarith
  qed (use Cons.prems(6) in auto)
  have "counts_exact r k" using sh by blast
  from Cons.IH [OF this r _ _ cnt \<open>f + ?one \<le> c\<close>]
  have "f + ?one + full_credits bid blocks (credit_run r k blocks) \<le> c" using Cons.prems(3,4) by simp
  then show ?case by (simp add: st b add.assoc)
qed simp

text \<open>C26. In any 1440 consecutive blocks a bond adds its blocks' full work at most as often as the quota
  allows, however its blocks are ordered and whatever the window held before: blocks beyond it
  add only a sliver.\<close>

theorem bond_quota_bounds_full_credit:
  assumes "window_ok recent counts" and "length blocks \<le> CAP_WINDOW"
    and "\<forall>b\<in>set blocks. quota_at_most c bid b"
  shows "full_credits bid blocks (credit_run recent counts blocks) \<le> c"
  using full_credits_bound [of recent counts recent "[]" blocks c bid 0] assms
  by (simp add: window_ok_def last_signers_def)

theorem bond_quota_bounds_full_credit_witness:
  "full_credits 5 [(BondSet_default, 9, Some 5, 5000, 0), (BondSet_default, 10, Some 5, 5000, 60)]
     (credit_run [] [] [(BondSet_default, 9, Some 5, 5000, 0), (BondSet_default, 10, Some 5, 5000, 60)])
   \<le> 1440"
proof (rule bond_quota_bounds_full_credit [OF window_ok_Nil])
  have "signer_cap BondSet_default t \<le> 1440" for t
    by (simp add: signer_cap_def eligible_bonds_def BondSet_default_def div_ceil_def CAP_WINDOW_def CAP_K_def)
  then show "\<forall>b\<in>set [(BondSet_default, 9, Some 5, 5000, 0), (BondSet_default, 10, Some 5, 5000, 60)].
      quota_at_most 1440 5 b"
    by (simp add: quota_at_most_def)
qed (simp add: CAP_WINDOW_def)

end
