(* ===== verification/Work_Cap.thy ===== *)
theory Work_Cap
  imports Fork_Weight
begin

text \<open>
  The week-long work window of \<^verbatim>\<open>cap_work\<close>, \<^verbatim>\<open>src/src/core/bond.rs\<close>: the amortised monotone deque holds
  exactly the blocks no later block has undercut, so its front is the window's minimum.
\<close>

definition keep_window_of :: "(nat \<times> nat) list \<Rightarrow> nat \<Rightarrow> (nat \<times> nat) list" where
  "keep_window_of floor height = dropWhile (\<lambda>(h, _). h < height - WORK_CAP_WINDOW) floor"

definition cap_work :: "(nat \<times> nat) list \<Rightarrow> nat \<Rightarrow> nat \<Rightarrow> nat \<times> (nat \<times> nat) list" where
  "cap_work floor height work =
     (let floor = keep_window_of floor height;
          credited = (case floor of
              (_, low) # _ \<Rightarrow> min work (sat_add128 low (low div WORK_CAP_HEADROOM))
            | [] \<Rightarrow> work);
          floor = rev (dropWhile (\<lambda>(_, w). work \<le> w) (rev floor))
      in (credited, keep_window_of (floor @ [(height, work)]) (height + 1)))"

definition rebuild_work_floor :: "(nat \<times> nat) list \<Rightarrow> (nat \<times> nat) list" where
  "rebuild_work_floor works = foldl (\<lambda>floor (h, w). snd (cap_work floor h w)) [] works"

subsection \<open>The deque is the stair of the window\<close>

fun stair :: "(nat \<times> nat) list \<Rightarrow> (nat \<times> nat) list" where
  "stair [] = []"
| "stair ((h, w) # r) = (if \<exists>(_, w') \<in> set r. w' \<le> w then stair r else (h, w) # stair r)"

definition ascending :: "(nat \<times> nat) list \<Rightarrow> bool" where
  "ascending hist \<longleftrightarrow> sorted_wrt (<) (map fst hist)"

lemma set_stair: "set (stair xs) \<subseteq> set xs"
  by (induction xs rule: stair.induct) auto

lemma stair_snoc: "stair (xs @ [(h, w)]) = filter (\<lambda>(_, w'). w' < w) (stair xs) @ [(h, w)]"
  by (induction xs rule: stair.induct) auto

lemma sorted_stair: "sorted_wrt (\<lambda>a b. snd a < snd b) (stair xs)"
proof (induction xs rule: stair.induct)
  case (2 h w r)
  show ?case
  proof (cases "\<exists>(_, w') \<in> set r. w' \<le> w")
    case False
    then have "\<forall>y\<in>set (stair r). w < snd y" using set_stair [of r] by (fastforce simp: not_le)
    then show ?thesis using False 2 by simp
  qed (use 2 in simp)
qed simp

lemma ascending_stair: "ascending xs \<Longrightarrow> ascending (stair xs)"
proof (induction xs rule: stair.induct)
  case (2 h w r)
  then show ?case using set_stair [of r] by (auto simp: ascending_def)
qed simp

lemma ascending_filter: "ascending xs \<Longrightarrow> ascending (filter P xs)"
  by (induction xs) (auto simp: ascending_def)

lemma keep_window_filter:
  assumes "ascending xs"
  shows "keep_window_of xs height = filter (\<lambda>(h, _). height - WORK_CAP_WINDOW \<le> h) xs"
  using assms
  by (induction xs) (auto simp: keep_window_of_def ascending_def intro!: filter_True [symmetric])

lemma drop_back_filter:
  assumes "sorted_wrt (\<lambda>a b. snd a < snd b) (xs :: (nat \<times> nat) list)"
  shows "rev (dropWhile (\<lambda>(_, w). work \<le> w) (rev xs)) = filter (\<lambda>(_, w). w < work) xs"
  using assms
proof (induction xs rule: rev_induct)
  case (snoc x xs)
  show ?case
  proof (cases "work \<le> snd x")
    case True
    then show ?thesis using snoc by (auto simp: sorted_wrt_append split: prod.split)
  next
    case False
    then have "\<forall>y\<in>set (xs @ [x]). snd y < work"
      using snoc.prems by (auto simp: sorted_wrt_append)
    then have "filter (\<lambda>(_, w). w < work) (xs @ [x]) = xs @ [x]" by (auto intro!: filter_True)
    then show ?thesis using False by (auto split: prod.split)
  qed
qed simp

lemma stair_filter_heights:
  assumes "ascending xs"
  shows "stair (filter (\<lambda>(h, _). lo \<le> h) xs) = filter (\<lambda>(h, _). lo \<le> h) (stair xs)"
  using assms
proof (induction xs rule: stair.induct)
  case (2 h w r)
  have asc: "ascending r" and above: "\<And>h' w'. (h', w') \<in> set r \<Longrightarrow> h < h'"
    using "2.prems" by (auto simp: ascending_def)
  have all: "lo \<le> h \<Longrightarrow> filter (\<lambda>(h, _). lo \<le> h) r = r"
    using above by (auto intro!: filter_True) (meson le_trans less_imp_le)
  show ?case using 2 asc all by (cases "lo \<le> h") auto
qed simp

lemma hd_stair_min:
  assumes "xs \<noteq> []"
  shows "stair xs \<noteq> [] \<and> snd (hd (stair xs)) = Min (snd ` set xs)"
  using assms
proof (induction xs rule: stair.induct)
  case (2 h w r)
  show ?case
  proof (cases "r = []")
    case False
    then have ih: "stair r \<noteq> []" "snd (hd (stair r)) = Min (snd ` set r)"
      using "2.IH" by (auto split: if_splits)
    show ?thesis
    proof (cases "\<exists>(_, w') \<in> set r. w' \<le> w")
      case True
      then have "Min (snd ` set r) \<le> w"
        by (force intro: order_trans [OF Min_le])
      then show ?thesis using True ih False by (simp add: min_absorb2)
    next
      case none: False
      then have "\<forall>x\<in>snd ` set r. w < x" by force
      then have "w \<le> Min (snd ` set r)" using False by (simp add: order_less_imp_le)
      then show ?thesis using none False by (simp add: min_absorb1)
    qed
  qed simp
qed simp

definition window_of :: "nat \<Rightarrow> (nat \<times> nat) list \<Rightarrow> (nat \<times> nat) list" where
  "window_of height hist = filter (\<lambda>(h, _). height - WORK_CAP_WINDOW \<le> h) hist"

definition next_height :: "(nat \<times> nat) list \<Rightarrow> nat" where
  "next_height hist = (if hist = [] then 0 else fst (last hist) + 1)"

lemma filter_swap: "filter P (filter Q xs) = filter Q (filter P xs)"
  by (induction xs) auto

lemma window_of_window: "n \<le> m \<Longrightarrow> window_of m (window_of n xs) = window_of m xs"
  unfolding window_of_def filter_filter by (rule filter_cong [OF refl]) auto

lemma cap_work_step:
  assumes "ascending (hist @ [(h, w)])" and "n \<le> h"
  shows "snd (cap_work (window_of n (stair hist)) h w) = window_of (h + 1) (stair (hist @ [(h, w)]))"
    and "keep_window_of (window_of n (stair hist)) h = stair (window_of h hist)"
proof -
  have asc: "ascending hist" and below_h: "\<forall>x\<in>set hist. fst x < h"
    using assms(1) by (auto simp: ascending_def sorted_wrt_append)
  have k: "keep_window_of (window_of n (stair hist)) h = window_of h (stair hist)"
    using keep_window_filter [of "window_of n (stair hist)" h] window_of_window [OF assms(2), of "stair hist"]
      ascending_filter [OF ascending_stair [OF asc]]
    by (simp add: window_of_def)
  then show "keep_window_of (window_of n (stair hist)) h = stair (window_of h hist)"
    using stair_filter_heights [OF asc] by (simp add: window_of_def)
  let ?f = "filter (\<lambda>(_, w'). w' < w) (window_of h (stair hist))"
  have d: "rev (dropWhile (\<lambda>(_, w'). w \<le> w') (rev (window_of h (stair hist)))) = ?f"
    by (rule drop_back_filter) (simp add: window_of_def sorted_stair sorted_wrt_filter)
  have "ascending (?f @ [(h, w)])"
  proof -
    have "ascending ?f" unfolding window_of_def by (intro ascending_filter ascending_stair asc)
    moreover have "\<forall>x\<in>set ?f. fst x < h"
      using below_h set_stair [of hist] by (force simp: window_of_def)
    ultimately show ?thesis by (auto simp: ascending_def sorted_wrt_append)
  qed
  then have "keep_window_of (?f @ [(h, w)]) (h + 1) = window_of (h + 1) (?f @ [(h, w)])"
    by (simp add: keep_window_filter window_of_def)
  also have "\<dots> = window_of (h + 1) (stair (hist @ [(h, w)]))"
    using window_of_window [of h "h + 1" "filter (\<lambda>(_, w'). w' < w) (stair hist)"]
    unfolding stair_snoc window_of_def filter_append
    by (simp only: filter_swap [of "\<lambda>(_, w'). w' < w"])
  finally show "snd (cap_work (window_of n (stair hist)) h w) = window_of (h + 1) (stair (hist @ [(h, w)]))"
    by (simp add: cap_work_def k d Let_def)
qed

lemma next_height_le: "ascending (hist @ [(h, w)]) \<Longrightarrow> next_height hist \<le> h"
  by (cases hist rule: rev_cases) (auto simp: next_height_def ascending_def sorted_wrt_append)

lemma rebuild_is_stair:
  "ascending hist \<Longrightarrow> rebuild_work_floor hist = window_of (next_height hist) (stair hist)"
proof (induction hist rule: rev_induct)
  case Nil
  then show ?case by (simp add: rebuild_work_floor_def window_of_def)
next
  case (snoc x hist)
  obtain h w where x: "x = (h, w)" by (cases x)
  have "ascending hist" using snoc.prems by (auto simp: ascending_def sorted_wrt_append)
  then have "rebuild_work_floor (hist @ [x]) = snd (cap_work (window_of (next_height hist) (stair hist)) h w)"
    using snoc.IH by (simp add: rebuild_work_floor_def x)
  then show ?case
    using cap_work_step(1) [OF _ next_height_le, of hist h w] snoc.prems x
    by (simp add: next_height_def)
qed

text \<open>C21. A block's work is credited up to a quarter more than the lowest work among its chain's
  previous 10080 heights, whatever the deque that tracks that minimum has already dropped; and the
  deque storage rebuilds from the blocks still in the window is the one the node carries.\<close>

theorem work_cap_is_window_minimum:
  assumes "ascending hist" and "\<forall>(h, _) \<in> set hist. h < height"
  shows "fst (cap_work (rebuild_work_floor hist) height work) =
     (if window_of height hist = [] then work
      else let low = Min (snd ` set (window_of height hist)) in min work (sat_add128 low (low div 4))) \<and>
    rebuild_work_floor (window_of (next_height hist) hist) = rebuild_work_floor hist"
proof
  have asc: "ascending (hist @ [(height, work)])"
    using assms by (force simp: ascending_def sorted_wrt_append)
  note k = cap_work_step(2) [OF asc next_height_le [OF asc]]
  show "fst (cap_work (rebuild_work_floor hist) height work) =
     (if window_of height hist = [] then work
      else let low = Min (snd ` set (window_of height hist)) in min work (sat_add128 low (low div 4)))"
    unfolding cap_work_def rebuild_is_stair [OF assms(1)] k Let_def
    using hd_stair_min [of "window_of height hist"]
    by (cases "stair (window_of height hist)") (auto simp: WORK_CAP_HEADROOM_def)
  let ?n = "next_height hist"
  have asc': "ascending (window_of ?n hist)" unfolding window_of_def by (rule ascending_filter [OF assms(1)])
  have "next_height (window_of ?n hist) = ?n"
    by (cases hist rule: rev_cases) (auto simp: next_height_def window_of_def WORK_CAP_WINDOW_def)
  then show "rebuild_work_floor (window_of ?n hist) = rebuild_work_floor hist"
    using rebuild_is_stair [OF asc'] rebuild_is_stair [OF assms(1)] stair_filter_heights [OF assms(1)]
    by (simp add: window_of_def filter_filter)
qed

theorem work_cap_is_window_minimum_witness:
  "fst (cap_work (rebuild_work_floor [(1, 100), (2, 80), (3, 200)]) 4 1000) = 100"
  using work_cap_is_window_minimum [of "[(1, 100), (2, 80), (3, 200)]" 4 1000]
  by (simp add: ascending_def window_of_def WORK_CAP_WINDOW_def sat_add128_def)

end
