(* ===== verification/Curve.thy ===== *)
theory Curve
  imports Hashing
begin

text \<open>
  The MimbleWimble primitives of \<^verbatim>\<open>src/src/core/mw/crypto.rs\<close>: sums of encoded points, the sizes and
  checks around range proofs, Schnorr signatures and the two-key kernel proof. The elliptic curve,
  the extendable output of the hash and the Bulletproof verifier are the libraries the code calls;
  they are the fields of a record, with the documented group laws as \<open>curve_ok\<close>.
\<close>

subsection \<open>The curve library\<close>

record ('pt, 'sc) curve =
  decompress :: "h256 \<Rightarrow> 'pt option"
  compress :: "'pt \<Rightarrow> h256"
  scalar_from_bytes :: "h256 \<Rightarrow> 'sc option"
  scalar_to_bytes :: "'sc \<Rightarrow> h256"
  smul :: "'sc \<Rightarrow> 'pt \<Rightarrow> 'pt"
  gen_g :: 'pt
  gen_h :: 'pt
  xof64 :: "bytes \<Rightarrow> bytes"
  scalar_wide :: "bytes \<Rightarrow> 'sc"
  bulletproof_ok :: "bytes \<Rightarrow> nat \<Rightarrow> h256 \<Rightarrow> h256 list \<Rightarrow> bool"

text \<open>Documented behaviour of the curve library: encodings are canonical, the all-zero encoding is
  the identity, and scalars act on the group as a module.\<close>

definition curve_ok :: "('pt :: ab_group_add, 'sc :: comm_ring_1) curve \<Rightarrow> bool" where
  "curve_ok C \<longleftrightarrow>
     (\<forall>p. decompress C (compress C p) = Some p) \<and>
     (\<forall>b p. decompress C b = Some p \<longrightarrow> compress C p = b) \<and>
     (\<forall>s. scalar_from_bytes C (scalar_to_bytes C s) = Some s) \<and>
     (\<forall>b s. scalar_from_bytes C b = Some s \<longrightarrow> scalar_to_bytes C s = b) \<and>
     decompress C 0 = Some 0 \<and> scalar_from_bytes C 0 = Some 0 \<and>
     (\<forall>a b p. smul C (a + b) p = smul C a p + smul C b p) \<and>
     (\<forall>a p q. smul C a (p + q) = smul C a p + smul C a q) \<and>
     (\<forall>a b p. smul C (a * b) p = smul C a (smul C b p)) \<and>
     (\<forall>p. smul C 1 p = p)"

lemma curve_laws:
  assumes "curve_ok C"
  shows "decompress C (compress C p) = Some p"
    and "scalar_from_bytes C (scalar_to_bytes C s) = Some s"
    and "decompress C b = Some p \<Longrightarrow> compress C p = b"
    and "scalar_from_bytes C b = Some s \<Longrightarrow> scalar_to_bytes C s = b"
    and "decompress C 0 = Some 0" and "scalar_from_bytes C 0 = Some 0"
    and "smul C (x + y) p = smul C x p + smul C y p"
    and "smul C x (p + q) = smul C x p + smul C x q"
    and "smul C (x * y) p = smul C x (smul C y p)"
    and "smul C 1 p = p"
  using assms unfolding curve_ok_def by blast+

lemma smul_zero:
  assumes "curve_ok C"
  shows "smul C 0 p = 0"
  using curve_laws(7) [OF assms, of 0 0 p] by simp

lemma smul_minus:
  assumes "curve_ok C"
  shows "smul C (- x) p = - smul C x p" and "smul C (x - y) p = smul C x p - smul C y p"
proof -
  have neg: "smul C (- x) p = - smul C x p" for x
  proof -
    have "smul C (- x) p + smul C x p = 0"
      using curve_laws(7) [OF assms, of "- x" x p] smul_zero [OF assms, of p] by simp
    then show ?thesis by (simp add: eq_neg_iff_add_eq_0)
  qed
  then show "smul C (- x) p = - smul C x p" .
  show "smul C (x - y) p = smul C x p - smul C y p"
    using curve_laws(7) [OF assms, of x "- y" p] neg by simp
qed

lemma smul_minus_point:
  assumes "curve_ok C"
  shows "smul C x (- p) = - smul C x p"
proof -
  have "smul C x 0 = 0" using curve_laws(8) [OF assms, of x 0 0] by simp
  then have "smul C x (- p) + smul C x p = 0"
    using curve_laws(8) [OF assms, of x "- p" p] by simp
  then show ?thesis by (simp add: eq_neg_iff_add_eq_0)
qed

definition mul_base :: "('pt, 'sc) curve \<Rightarrow> 'sc \<Rightarrow> 'pt" where
  "mul_base C s = smul C s (gen_g C)"

definition IDENTITY :: h256 where "IDENTITY = 0"

subsection \<open>Sums of points\<close>

datatype crypto_error = InvalidPoint h256

definition sum_points :: "('pt :: ab_group_add, 'sc) curve \<Rightarrow> h256 list \<Rightarrow> crypto_error + 'pt" where
  "sum_points C ps =
     fold_res (\<lambda>p acc. case decompress C p of Some pt \<Rightarrow> Inr (acc + pt) | None \<Rightarrow> Inl (InvalidPoint p)) ps 0"

definition point_of :: "('pt :: ab_group_add, 'sc) curve \<Rightarrow> h256 \<Rightarrow> 'pt" where
  "point_of C p = (case decompress C p of Some pt \<Rightarrow> pt | None \<Rightarrow> 0)"

lemma sum_points_from:
  "fold_res (\<lambda>p acc. case decompress C p of Some pt \<Rightarrow> Inr (acc + pt) | None \<Rightarrow> Inl (InvalidPoint p)) ps a
     = Inr s \<longleftrightarrow>
   (\<forall>p\<in>set ps. decompress C p \<noteq> None) \<and> s = a + sum_list (map (point_of C) ps)"
  by (induction ps arbitrary: a)
     (auto simp: point_of_def add.assoc split: option.splits)

lemma sum_points_Inr [result_simps]:
  "sum_points C ps = Inr s \<longleftrightarrow>
   (\<forall>p\<in>set ps. decompress C p \<noteq> None) \<and> s = sum_list (map (point_of C) ps)"
  by (simp add: sum_points_def sum_points_from)

subsection \<open>Range proofs\<close>

definition RANGE_BITS :: nat where "RANGE_BITS = 64"
definition MAX_GROUP_OUTPUTS :: nat where "MAX_GROUP_OUTPUTS = 32"

fun next_power_of_two :: "nat \<Rightarrow> nat" where
  "next_power_of_two n = (if n \<le> 1 then 1 else 2 * next_power_of_two ((n + 1) div 2))"

declare next_power_of_two.simps [simp del]

fun trailing_zeros :: "nat \<Rightarrow> nat" where
  "trailing_zeros n = (if n = 0 then 64 else if odd n then 0 else Suc (trailing_zeros (n div 2)))"

declare trailing_zeros.simps [simp del]

definition range_proof_len :: "nat \<Rightarrow> nat" where
  "range_proof_len n =
     (let m = next_power_of_two (max n 1); rounds = trailing_zeros (RANGE_BITS * m)
      in (9 + 2 * rounds) * 32)"

text \<open>The transcript is built from the number of real outputs and the binding, and the missing
  commitments are padded with the identity; parsing the proof is part of the library's check.\<close>

definition verify_range :: "('pt, 'sc) curve \<Rightarrow> bytes \<Rightarrow> h256 list \<Rightarrow> h256 \<Rightarrow> bool" where
  "verify_range C proof_bytes commitments binding =
     (let n = length commitments in
      if n = 0 \<or> MAX_GROUP_OUTPUTS < n \<or> length proof_bytes \<noteq> range_proof_len n then False
      else
        let m = next_power_of_two n;
            padded = commitments @ replicate (m - n) IDENTITY
        in bulletproof_ok C proof_bytes n binding padded)"

lemma next_power_of_two_spec:
  "1 \<le> n \<Longrightarrow> \<exists>k. next_power_of_two n = 2 ^ k \<and> n \<le> 2 ^ k \<and> (k = 0 \<or> 2 ^ (k - 1) < n)"
proof (induction n rule: next_power_of_two.induct)
  case (1 n)
  show ?case
  proof (cases "n \<le> 1")
    case True
    then show ?thesis using 1 by (intro exI [of _ 0]) (simp add: next_power_of_two.simps [of n])
  next
    case False
    then have "1 \<le> (n + 1) div 2" by simp
    then obtain k where k: "next_power_of_two ((n + 1) div 2) = 2 ^ k" "(n + 1) div 2 \<le> 2 ^ k"
      "k = 0 \<or> 2 ^ (k - 1) < (n + 1) div 2"
      using 1 False by blast
    have "n \<le> 2 ^ Suc k" using k(2) by simp
    moreover have "2 ^ k < n"
    proof (cases k)
      case (Suc j)
      then have "2 ^ j < (n + 1) div 2" using k(3) by simp
      then show ?thesis using Suc by simp
    qed (use False in simp)
    ultimately show ?thesis
      using False k(1) by (intro exI [of _ "Suc k"]) (simp add: next_power_of_two.simps [of n])
  qed
qed

lemma trailing_zeros_power: "trailing_zeros (2 ^ k) = k"
  by (induction k) (simp_all add: trailing_zeros.simps)

text \<open>A proof over \<open>n\<close> values is \<open>672 + 64k\<close> bytes, where \<open>2 ^ k\<close> is the least power of two holding
  \<open>n\<close>; for the largest allowed group that is 992 bytes, and no group needs more.\<close>

theorem range_proof_length:
  assumes "1 \<le> n"
  shows "(\<exists>k. range_proof_len n = 672 + 64 * k \<and> n \<le> 2 ^ k \<and> (k = 0 \<or> 2 ^ (k - 1) < n)) \<and>
    (n \<le> MAX_GROUP_OUTPUTS \<longrightarrow> range_proof_len n \<le> 992)"
proof -
  obtain k where k: "next_power_of_two n = 2 ^ k" "n \<le> 2 ^ k" "k = 0 \<or> 2 ^ (k - 1) < n"
    using next_power_of_two_spec [OF assms] by blast
  have "RANGE_BITS * 2 ^ k = 2 ^ (6 + k)" by (simp add: RANGE_BITS_def power_add)
  then have len: "range_proof_len n = 672 + 64 * k"
    using assms k(1) by (simp add: range_proof_len_def max_absorb1 trailing_zeros_power)
  have "k \<le> 5" if "n \<le> 32"
  proof (rule ccontr)
    assume "\<not> k \<le> 5"
    then have "(2 :: nat) ^ 5 \<le> 2 ^ (k - 1)" by (intro power_increasing) auto
    then show False using k(3) that \<open>\<not> k \<le> 5\<close> by auto
  qed
  then show ?thesis using len k by (auto simp: MAX_GROUP_OUTPUTS_def)
qed

theorem range_proof_length_witness: "range_proof_len 3 = 800 \<and> range_proof_len 32 \<le> 992"
proof -
  have "range_proof_len 32 \<le> 992"
    using range_proof_length [of 32] by (simp add: MAX_GROUP_OUTPUTS_def)
  then show ?thesis
    by (simp add: range_proof_len_def RANGE_BITS_def next_power_of_two.simps trailing_zeros.simps)
qed

subsection \<open>Schnorr signatures\<close>

definition hash_to_scalar :: "('pt, 'sc) curve \<Rightarrow> bytes \<Rightarrow> bytes list \<Rightarrow> 'sc" where
  "hash_to_scalar C label parts = scalar_wide C (xof64 C (domain_preimage label parts))"

record SchnorrSig =
  sig_e :: h256
  sig_s :: h256

definition SCHNORR_CHALLENGE :: bytes where "SCHNORR_CHALLENGE = ascii ''midwimble.schnorr.challenge.v1''"
definition SCHNORR_NONCE :: bytes where "SCHNORR_NONCE = ascii ''midwimble.schnorr.nonce.v1''"
definition KERNEL_CHALLENGE :: bytes where "KERNEL_CHALLENGE = ascii ''midwimble.kernel.challenge.v1''"
definition KERNEL_NONCE :: bytes where "KERNEL_NONCE = ascii ''midwimble.kernel.nonce.v1''"

definition schnorr_challenge :: "('pt, 'sc) curve \<Rightarrow> h256 \<Rightarrow> h256 \<Rightarrow> h256 \<Rightarrow> 'sc" where
  "schnorr_challenge C public r msg =
     hash_to_scalar C SCHNORR_CHALLENGE [be_bytes public, be_bytes r, be_bytes msg]"

text \<open>\<open>aux\<close> stands for the fresh randomness.\<close>

definition schnorr_sign ::
    "('pt :: ab_group_add, 'sc :: comm_ring_1) curve \<Rightarrow> 'sc \<Rightarrow> h256 \<Rightarrow> h256 \<Rightarrow> SchnorrSig" where
  "schnorr_sign C secret msg aux =
     (let public = compress C (mul_base C secret);
          k = hash_to_scalar C SCHNORR_NONCE
                [be_bytes (scalar_to_bytes C secret), be_bytes public, be_bytes msg, be_bytes aux];
          r = compress C (mul_base C k);
          e = schnorr_challenge C public r msg;
          s = k + e * secret
      in \<lparr>sig_e = scalar_to_bytes C e, sig_s = scalar_to_bytes C s\<rparr>)"

definition schnorr_verify ::
    "('pt :: ab_group_add, 'sc :: comm_ring_1) curve \<Rightarrow> h256 \<Rightarrow> h256 \<Rightarrow> SchnorrSig \<Rightarrow> bool" where
  "schnorr_verify C public msg sig =
     (case decompress C public of
        None \<Rightarrow> False
      | Some p \<Rightarrow>
          if p = 0 then False
          else
            case (scalar_from_bytes C (sig_e sig), scalar_from_bytes C (sig_s sig)) of
              (Some e, Some s) \<Rightarrow>
                let r = smul C (- e) p + mul_base C s
                in schnorr_challenge C public (compress C r) msg = e
            | _ \<Rightarrow> False)"

subsection \<open>Kernel proofs\<close>

record KernelSig =
  sig_c :: h256
  sig_s1 :: h256
  sig_s2 :: h256

definition kernel_challenge :: "('pt, 'sc) curve \<Rightarrow> h256 \<Rightarrow> h256 \<Rightarrow> h256 \<Rightarrow> h256 \<Rightarrow> h256 \<Rightarrow> 'sc" where
  "kernel_challenge C excess owner_excess r1 r2 msg =
     hash_to_scalar C KERNEL_CHALLENGE
       [be_bytes excess, be_bytes owner_excess, be_bytes r1, be_bytes r2, be_bytes msg]"

definition kernel_sign ::
    "('pt :: ab_group_add, 'sc :: comm_ring_1) curve \<Rightarrow> 'sc \<Rightarrow> 'sc \<Rightarrow> h256 \<Rightarrow> h256 \<Rightarrow> h256 \<Rightarrow> h256 \<Rightarrow> KernelSig" where
  "kernel_sign C excess_secret owner_secret excess owner_excess msg aux =
     (let nonce = (\<lambda>tag. hash_to_scalar C KERNEL_NONCE
            [ascii tag, be_bytes (scalar_to_bytes C excess_secret),
             be_bytes (scalar_to_bytes C owner_secret), be_bytes msg, be_bytes aux]);
          k1 = nonce ''H'';
          k2 = nonce ''G'';
          r1 = compress C (smul C k1 (gen_h C));
          r2 = compress C (mul_base C k2);
          c = kernel_challenge C excess owner_excess r1 r2 msg
      in \<lparr>sig_c = scalar_to_bytes C c, sig_s1 = scalar_to_bytes C (k1 + c * excess_secret),
          sig_s2 = scalar_to_bytes C (k2 + c * owner_secret)\<rparr>)"

definition kernel_verify ::
    "('pt :: ab_group_add, 'sc :: comm_ring_1) curve \<Rightarrow> h256 \<Rightarrow> h256 \<Rightarrow> h256 \<Rightarrow> KernelSig \<Rightarrow> bool" where
  "kernel_verify C excess owner_excess msg sig =
     (case (decompress C excess, decompress C owner_excess) of
        (Some e_pt, Some o_pt) \<Rightarrow>
          (case (scalar_from_bytes C (sig_c sig), scalar_from_bytes C (sig_s1 sig),
                 scalar_from_bytes C (sig_s2 sig)) of
             (Some c, Some s1, Some s2) \<Rightarrow>
               let r1 = smul C s1 (gen_h C) + smul C (- c) e_pt;
                   r2 = smul C (- c) o_pt + mul_base C s2
               in kernel_challenge C excess owner_excess (compress C r1) (compress C r2) msg = c
           | _ \<Rightarrow> False)
      | _ \<Rightarrow> False)"

text \<open>The two nonce commitments a proof opens to, read back from its scalars.\<close>

definition kernel_commitments ::
    "('pt :: ab_group_add, 'sc :: comm_ring_1) curve \<Rightarrow> 'pt \<Rightarrow> 'pt \<Rightarrow> 'sc \<times> 'sc \<times> 'sc \<Rightarrow> 'pt \<times> 'pt" where
  "kernel_commitments C e_pt o_pt sc = (case sc of (c, s1, s2) \<Rightarrow>
     (smul C s1 (gen_h C) - smul C c e_pt, mul_base C s2 - smul C c o_pt))"

lemma cancel_commitment:
  assumes "curve_ok C"
  shows "smul C (- e) (smul C x g) + smul C (k + e * x) g = smul C k g"
  using assms by (simp add: curve_laws(7,9) smul_minus)

lemma schnorr_complete:
  assumes "curve_ok C" and "mul_base C secret \<noteq> 0"
  shows "schnorr_verify C (compress C (mul_base C secret)) msg (schnorr_sign C secret msg aux)"
  using assms(2) by (simp add: schnorr_verify_def schnorr_sign_def Let_def mul_base_def
      curve_laws(1,2) [OF assms(1)] cancel_commitment [OF assms(1)])

lemma kernel_complete:
  assumes "curve_ok C"
  defines "E \<equiv> \<lambda>e. compress C (smul C e (gen_h C))" and "E' \<equiv> \<lambda>e'. compress C (mul_base C e')"
  shows "kernel_verify C (E e) (E' e') msg (kernel_sign C e e' (E e) (E' e') msg aux)"
proof -
  have "smul C (k + c * e) (gen_h C) + smul C (- c) (smul C e (gen_h C)) = smul C k (gen_h C)" for k c
    using cancel_commitment [OF assms(1), of c e "gen_h C" k] by (simp add: add.commute)
  then show ?thesis
    by (simp add: kernel_verify_def kernel_sign_def Let_def E_def E'_def mul_base_def
        curve_laws(1,2) [OF assms(1)] cancel_commitment [OF assms(1)])
qed

text \<open>Every signature the code makes verifies under the key it was made for, for any randomness: the
  Schnorr signatures of inputs and miners, and the kernels' proof of both excess keys.\<close>

theorem signatures_verify:
  assumes "curve_ok C" and "mul_base C secret \<noteq> 0"
  shows "schnorr_verify C (compress C (mul_base C secret)) msg (schnorr_sign C secret msg aux) \<and>
    kernel_verify C (compress C (smul C e (gen_h C))) (compress C (mul_base C e')) msg
      (kernel_sign C e e' (compress C (smul C e (gen_h C))) (compress C (mul_base C e')) msg aux)"
  using schnorr_complete [OF assms] kernel_complete [OF assms(1)] by blast

text \<open>A module the hypotheses hold of: 256-bit words acting on themselves.\<close>

definition word_curve :: "(h256, h256) curve" where
  "word_curve = \<lparr>decompress = Some, compress = (\<lambda>p. p), scalar_from_bytes = Some,
     scalar_to_bytes = (\<lambda>s. s), smul = (*), gen_g = 1, gen_h = 3, xof64 = (\<lambda>b. b),
     scalar_wide = (\<lambda>b. of_nat (length b)), bulletproof_ok = (\<lambda>_ _ _ _. True)\<rparr>"

lemma word_curve_ok: "curve_ok word_curve"
  by (simp add: curve_ok_def word_curve_def algebra_simps)

theorem signatures_verify_witness:
  "schnorr_verify word_curve 5 9 (schnorr_sign word_curve 5 9 0)"
  using signatures_verify [OF word_curve_ok, of 5 9 0 0 0]
  by (simp add: word_curve_def mul_base_def)

text \<open>Two accepting kernel proofs with the same nonce commitments and different challenges give away
  both secrets: the blinding factor of the excess and the owner key, each on its own. This is why
  the two commitments are kept apart.\<close>

theorem kernel_proof_extracts_both_keys:
  assumes "curve_ok C" and "(c - c') * d = 1"
    and "kernel_commitments C e_pt o_pt (c, s1, s2) = kernel_commitments C e_pt o_pt (c', s1', s2')"
  shows "e_pt = smul C (d * (s1 - s1')) (gen_h C) \<and> o_pt = mul_base C (d * (s2 - s2'))"
proof -
  have ex: "p = smul C (d * (s - s')) g"
    if "smul C s g - smul C c p = smul C s' g - smul C c' p" for s s' g p
  proof -
    have "smul C (c - c') p = smul C (s - s') g"
      using that by (simp add: smul_minus [OF assms(1)] algebra_simps)
    then have "smul C (d * (c - c')) p = smul C (d * (s - s')) g"
      by (simp add: curve_laws(9) [OF assms(1)])
    moreover have "d * (c - c') = 1" using assms(2) by (simp add: mult.commute)
    ultimately show ?thesis by (simp add: curve_laws(10) [OF assms(1)])
  qed
  show ?thesis
    using assms(3) ex [of s1 "gen_h C" e_pt s1'] ex [of s2 "gen_g C" o_pt s2']
    by (simp add: kernel_commitments_def mul_base_def)
qed

theorem kernel_proof_extracts_both_keys_witness:
  "(6 :: h256) = smul word_curve 2 (gen_h word_curve)"
  using kernel_proof_extracts_both_keys [OF word_curve_ok, of 2 1 1 6 4 "7 + 2 * 2" "1 + 2 * 4" "7 + 1 * 2" "1 + 1 * 4"]
  by (simp add: kernel_commitments_def word_curve_def mul_base_def)

end
