(* ===== verification/Transaction.thy ===== *)
theory Transaction
  imports Curve "HOL-Library.Multiset"
begin

text \<open>
  MimbleWimble transactions, \<^verbatim>\<open>src/src/core/mw/transaction.rs\<close>: outputs and their groups, inputs, kernels,
  the structural rules, the two balance equations, aggregation, coinbases and pruned groups. The
  serializers of whole transactions and coinbases are parameters.
\<close>

definition INPUT_WEIGHT :: nat where "INPUT_WEIGHT = 1"
definition OUTPUT_WEIGHT :: nat where "OUTPUT_WEIGHT = 21"
definition KERNEL_WEIGHT :: nat where "KERNEL_WEIGHT = 3"
definition MAX_BLOCK_WEIGHT :: nat where "MAX_BLOCK_WEIGHT = 40000"
definition MAX_TX_WEIGHT :: nat where "MAX_TX_WEIGHT = 10000"
definition PAYLOAD_LEN :: nat where "PAYLOAD_LEN = 24 + (8 + 32) + 16"

datatype tx_error =
    BadOutputCommitment | BadOwnerKey | BadEphemeralKey | BadPayloadLen nat
  | GroupSize nat | RangeProofLen nat
  | BadKernelExcess | BadOwnerExcess | IdentityOwnerExcess | CoinbaseKernelRules
  | NeedsOneOfEach | TooHeavy nat | NoKernel | OffsetNotCanonical
  | InputsUnsorted | GroupsUnsorted | DuplicateOutput h256 | DuplicateOwnerKey | SpendsOwnOutput
  | KernelsUnsorted | NotPlainKernel
  | FeeOverflow | TxCrypto crypto_error | PedersenImbalance | OwnerImbalance
  | InvalidRangeProof | InvalidInputSignature | InvalidKernelSignature
  | DoubleSpend | DuplicateKernel
  | DuplicateCoinbaseOutput | NotCoinbaseKernel | BadCoinbaseExcess | CoinbaseAmount nat
  | InvalidCoinbaseRangeProof | InvalidCoinbaseKernelSignature
  | MemberNotUnspent nat

subsection \<open>Outputs\<close>

record Output =
  o_commitment :: h256
  o_owner_key :: h256
  o_ephemeral_key :: h256
  o_view_tag :: byte
  o_payload :: bytes
  o_recovery :: h256

definition Output_metadata_hash :: "hasher \<Rightarrow> Output \<Rightarrow> h256" where
  "Output_metadata_hash H out =
     hash_domain H (ascii ''midwimble.output.metadata.v1'')
       [be_bytes (o_owner_key out), be_bytes (o_ephemeral_key out), [o_view_tag out],
        o_payload out, be_bytes (o_recovery out)]"

definition valid_nonidentity :: "('pt :: ab_group_add, 'sc) curve \<Rightarrow> h256 \<Rightarrow> bool" where
  "valid_nonidentity C b = (case decompress C b of Some p \<Rightarrow> p \<noteq> 0 | None \<Rightarrow> False)"

definition check_encoding :: "('pt :: ab_group_add, 'sc) curve \<Rightarrow> Output \<Rightarrow> tx_error + unit" where
  "check_encoding C out =
     (if \<not> valid_nonidentity C (o_commitment out) then Inl BadOutputCommitment
      else if \<not> valid_nonidentity C (o_owner_key out) then Inl BadOwnerKey
      else if decompress C (o_ephemeral_key out) = None then Inl BadEphemeralKey
      else if length (o_payload out) \<noteq> PAYLOAD_LEN then Inl (BadPayloadLen (length (o_payload out)))
      else Inr ())"

record OutputGroup =
  group_outputs :: "Output list"
  range_proof :: bytes

definition binding_for_hashes :: "hasher \<Rightarrow> h256 list \<Rightarrow> h256" where
  "binding_for_hashes H hashes =
     hash_domain H (ascii ''midwimble.output.group.v1'')
       (NETWORK_MAGIC # le_bytes 8 (length hashes) # map be_bytes hashes)"

definition binding_for :: "hasher \<Rightarrow> Output list \<Rightarrow> h256" where
  "binding_for H outs = binding_for_hashes H (map (Output_metadata_hash H) outs)"

definition OutputGroup_commitments :: "OutputGroup \<Rightarrow> h256 list" where
  "OutputGroup_commitments g = map o_commitment (group_outputs g)"

definition OutputGroup_sort_key :: "OutputGroup \<Rightarrow> h256" where
  "OutputGroup_sort_key g = (case group_outputs g of out # _ \<Rightarrow> o_commitment out | [] \<Rightarrow> IDENTITY)"

definition verify_range_proof :: "hasher \<Rightarrow> ('pt, 'sc) curve \<Rightarrow> OutputGroup \<Rightarrow> bool" where
  "verify_range_proof H C g =
     verify_range C (range_proof g) (OutputGroup_commitments g) (binding_for H (group_outputs g))"

definition check_structure :: "('pt :: ab_group_add, 'sc) curve \<Rightarrow> OutputGroup \<Rightarrow> tx_error + unit" where
  "check_structure C g =
     (let n = length (group_outputs g) in
      if n = 0 \<or> MAX_GROUP_OUTPUTS < n then Inl (GroupSize n)
      else if length (range_proof g) \<noteq> range_proof_len n then Inl (RangeProofLen n)
      else each_ok (check_encoding C) (group_outputs g))"

subsection \<open>Inputs\<close>

record Input =
  i_commitment :: h256
  i_owner_key :: h256
  i_signature :: SchnorrSig

definition Input_message :: "hasher \<Rightarrow> h256 \<Rightarrow> h256 \<Rightarrow> h256" where
  "Input_message H commitment owner_key =
     hash_domain H (ascii ''midwimble.input.v1'') [NETWORK_MAGIC, be_bytes commitment, be_bytes owner_key]"

definition Input_sign ::
    "hasher \<Rightarrow> ('pt :: ab_group_add, 'sc :: comm_ring_1) curve \<Rightarrow> h256 \<Rightarrow> 'sc \<Rightarrow> h256 \<Rightarrow> Input" where
  "Input_sign H C commitment owner_secret aux =
     (let owner_key = compress C (mul_base C owner_secret)
      in \<lparr>i_commitment = commitment, i_owner_key = owner_key,
          i_signature = schnorr_sign C owner_secret (Input_message H commitment owner_key) aux\<rparr>)"

definition Input_verify_signature ::
    "hasher \<Rightarrow> ('pt :: ab_group_add, 'sc :: comm_ring_1) curve \<Rightarrow> Input \<Rightarrow> bool" where
  "Input_verify_signature H C i =
     schnorr_verify C (i_owner_key i) (Input_message H (i_commitment i) (i_owner_key i)) (i_signature i)"

subsection \<open>Kernels\<close>

datatype KernelFeatures = Plain | CoinbaseFeature

fun KernelFeatures_tag :: "KernelFeatures \<Rightarrow> byte" where
  "KernelFeatures_tag Plain = 0"
| "KernelFeatures_tag CoinbaseFeature = 1"

record Kernel =
  k_features :: KernelFeatures
  k_fee :: nat
  k_min_height :: nat
  k_excess :: h256
  k_owner_excess :: h256
  k_signature :: KernelSig

definition Kernel_message :: "hasher \<Rightarrow> KernelFeatures \<Rightarrow> nat \<Rightarrow> nat \<Rightarrow> h256" where
  "Kernel_message H features fee min_height =
     hash_domain H (ascii ''midwimble.kernel.v1'')
       [NETWORK_MAGIC, [KernelFeatures_tag features], le_bytes 8 fee, le_bytes 8 min_height]"

definition Kernel_id :: "hasher \<Rightarrow> Kernel \<Rightarrow> h256" where
  "Kernel_id H k =
     hash_domain H (ascii ''midwimble.kernel.id.v1'') [be_bytes (k_excess k), be_bytes (k_owner_excess k)]"

definition Kernel_new ::
    "hasher \<Rightarrow> ('pt :: ab_group_add, 'sc :: comm_ring_1) curve \<Rightarrow> KernelFeatures \<Rightarrow> nat \<Rightarrow> nat \<Rightarrow> 'sc \<Rightarrow> 'sc \<Rightarrow> h256 \<Rightarrow> Kernel" where
  "Kernel_new H C features fee min_height excess_secret owner_secret aux =
     (let excess = compress C (smul C excess_secret (gen_h C));
          owner_excess = compress C (mul_base C owner_secret);
          msg = Kernel_message H features fee min_height
      in \<lparr>k_features = features, k_fee = fee, k_min_height = min_height, k_excess = excess,
          k_owner_excess = owner_excess,
          k_signature = kernel_sign C excess_secret owner_secret excess owner_excess msg aux\<rparr>)"

definition Kernel_verify_signature ::
    "hasher \<Rightarrow> ('pt :: ab_group_add, 'sc :: comm_ring_1) curve \<Rightarrow> Kernel \<Rightarrow> bool" where
  "Kernel_verify_signature H C k =
     kernel_verify C (k_excess k) (k_owner_excess k)
       (Kernel_message H (k_features k) (k_fee k) (k_min_height k)) (k_signature k)"

definition check_rules :: "('pt :: ab_group_add, 'sc) curve \<Rightarrow> Kernel \<Rightarrow> tx_error + unit" where
  "check_rules C k =
     (if \<not> valid_nonidentity C (k_excess k) then Inl BadKernelExcess
      else if decompress C (k_owner_excess k) = None then Inl BadOwnerExcess
      else
        case k_features k of
          Plain \<Rightarrow> if k_owner_excess k = IDENTITY then Inl IdentityOwnerExcess else Inr ()
        | CoinbaseFeature \<Rightarrow>
            if k_owner_excess k \<noteq> IDENTITY \<or> k_fee k \<noteq> 0 \<or> k_min_height k \<noteq> 0
            then Inl CoinbaseKernelRules else Inr ())"

subsection \<open>Transactions\<close>

record TxBody =
  inputs :: "Input list"
  out_groups :: "OutputGroup list"
  tx_kernels :: "Kernel list"

datatype Context = Relayed | Block

record Transaction =
  tx_body :: TxBody
  kernel_offset :: h256
  owner_offset :: h256

definition Transaction_empty :: Transaction where
  "Transaction_empty = \<lparr>tx_body = \<lparr>inputs = [], out_groups = [], tx_kernels = []\<rparr>,
     kernel_offset = 0, owner_offset = 0\<rparr>"

definition Transaction_is_empty :: "Transaction \<Rightarrow> bool" where
  "Transaction_is_empty tx \<longleftrightarrow>
     inputs (tx_body tx) = [] \<and> out_groups (tx_body tx) = [] \<and> tx_kernels (tx_body tx) = []"

definition Transaction_outputs :: "Transaction \<Rightarrow> Output list" where
  "Transaction_outputs tx = concat (map group_outputs (out_groups (tx_body tx)))"

definition output_count :: "Transaction \<Rightarrow> nat" where
  "output_count tx = sum_list (map (\<lambda>g. length (group_outputs g)) (out_groups (tx_body tx)))"

definition input_commitments :: "Transaction \<Rightarrow> h256 list" where
  "input_commitments tx = map i_commitment (inputs (tx_body tx))"

definition output_commitments :: "Transaction \<Rightarrow> h256 list" where
  "output_commitments tx = map o_commitment (Transaction_outputs tx)"

definition kernel_ids :: "hasher \<Rightarrow> Transaction \<Rightarrow> h256 list" where
  "kernel_ids H tx = map (Kernel_id H) (tx_kernels (tx_body tx))"

definition Transaction_fee :: "Transaction \<Rightarrow> tx_error + nat" where
  "Transaction_fee tx =
     fold_res (\<lambda>k acc. ok_or FeeOverflow (chk_add64 acc (k_fee k))) (tx_kernels (tx_body tx)) 0"

definition lock_height :: "Transaction \<Rightarrow> nat" where
  "lock_height tx = fold max (map k_min_height (tx_kernels (tx_body tx))) 0"

definition Transaction_weight :: "Transaction \<Rightarrow> nat" where
  "Transaction_weight tx =
     length (inputs (tx_body tx)) * INPUT_WEIGHT + output_count tx * OUTPUT_WEIGHT
       + length (tx_kernels (tx_body tx)) * KERNEL_WEIGHT"

definition Transaction_hash :: "hasher \<Rightarrow> (Transaction \<Rightarrow> bytes) \<Rightarrow> Transaction \<Rightarrow> h256" where
  "Transaction_hash H ser tx = hash_domain H (ascii ''midwimble.tx.v1'') [ser tx]"

text \<open>The two sets are filled in one pass over the outputs.\<close>

fun check_outputs_unique :: "Output list \<Rightarrow> h256 list \<Rightarrow> h256 list \<Rightarrow> tx_error + h256 list" where
  "check_outputs_unique [] commitments owner_keys = Inr commitments"
| "check_outputs_unique (out # outs) commitments owner_keys =
     (if o_commitment out \<in> set commitments then Inl (DuplicateOutput (o_commitment out))
      else if o_owner_key out \<in> set owner_keys then Inl DuplicateOwnerKey
      else check_outputs_unique outs (o_commitment out # commitments) (o_owner_key out # owner_keys))"

definition check_context :: "Context \<Rightarrow> Transaction \<Rightarrow> tx_error + unit" where
  "check_context ctx tx =
     (case ctx of
        Relayed \<Rightarrow>
          if inputs (tx_body tx) = [] \<or> out_groups (tx_body tx) = [] \<or> tx_kernels (tx_body tx) = []
          then Inl NeedsOneOfEach
          else if MAX_TX_WEIGHT < Transaction_weight tx then Inl (TooHeavy (Transaction_weight tx))
          else Inr ()
      | Block \<Rightarrow>
          if MAX_BLOCK_WEIGHT < Transaction_weight tx then Inl (TooHeavy (Transaction_weight tx))
          else Inr ())"

definition validate_structure ::
    "hasher \<Rightarrow> ('pt :: ab_group_add, 'sc) curve \<Rightarrow> Context \<Rightarrow> Transaction \<Rightarrow> tx_error + unit" where
  "validate_structure H C ctx tx =
     (let b = tx_body tx in
      and_then (check_context ctx tx) (\<lambda>_.
      if tx_kernels b = [] \<and> \<not> (inputs b = [] \<and> out_groups b = []) then Inl NoKernel
      else if scalar_from_bytes C (kernel_offset tx) = None \<or> scalar_from_bytes C (owner_offset tx) = None
      then Inl OffsetNotCanonical
      else if \<not> adjacent (\<lambda>x y. i_commitment x < i_commitment y) (inputs b) then Inl InputsUnsorted
      else if \<not> adjacent (\<lambda>x y. OutputGroup_sort_key x < OutputGroup_sort_key y) (out_groups b)
      then Inl GroupsUnsorted
      else
      and_then (each_ok (check_structure C) (out_groups b)) (\<lambda>_.
      and_then (check_outputs_unique (Transaction_outputs tx) [] []) (\<lambda>commitments.
      if \<exists>i\<in>set (inputs b). i_commitment i \<in> set commitments then Inl SpendsOwnOutput
      else if \<not> adjacent (<) (kernel_ids H tx) then Inl KernelsUnsorted
      else each_ok (\<lambda>k. if k_features k \<noteq> Plain then Inl NotPlainKernel else check_rules C k)
             (tx_kernels b)))))"

definition verify_sums ::
    "('pt :: ab_group_add, 'sc :: comm_ring_1) curve \<Rightarrow> Transaction \<Rightarrow> tx_error + unit" where
  "verify_sums C tx =
     (let b = tx_body tx; sums = (\<lambda>ps. map_err TxCrypto (sum_points C ps)) in
      and_then (ok_or OffsetNotCanonical (scalar_from_bytes C (kernel_offset tx))) (\<lambda>offset.
      and_then (ok_or OffsetNotCanonical (scalar_from_bytes C (owner_offset tx))) (\<lambda>x.
      and_then (Transaction_fee tx) (\<lambda>fee.
      and_then (sums (output_commitments tx)) (\<lambda>outputs.
      and_then (sums (input_commitments tx)) (\<lambda>ins.
      and_then (sums (map k_excess (tx_kernels b))) (\<lambda>excesses.
      if outputs - ins + smul C (of_nat fee) (gen_g C) \<noteq> excesses + smul C offset (gen_h C)
      then Inl PedersenImbalance
      else
      and_then (sums (map i_owner_key (inputs b))) (\<lambda>owner_in.
      and_then (sums (map k_owner_excess (tx_kernels b))) (\<lambda>owner_excesses.
      if owner_in \<noteq> owner_excesses + mul_base C x then Inl OwnerImbalance else Inr ())))))))))"

definition verify_crypto ::
    "hasher \<Rightarrow> ('pt :: ab_group_add, 'sc :: comm_ring_1) curve \<Rightarrow> Transaction \<Rightarrow> tx_error + unit" where
  "verify_crypto H C tx =
     (let b = tx_body tx in
      if \<not> list_all (verify_range_proof H C) (out_groups b) then Inl InvalidRangeProof
      else if \<not> list_all (Input_verify_signature H C) (inputs b) then Inl InvalidInputSignature
      else if \<not> list_all (Kernel_verify_signature H C) (tx_kernels b) then Inl InvalidKernelSignature
      else Inr ())"

definition Transaction_validate ::
    "hasher \<Rightarrow> ('pt :: ab_group_add, 'sc :: comm_ring_1) curve \<Rightarrow> Context \<Rightarrow> Transaction \<Rightarrow> tx_error + unit" where
  "Transaction_validate H C ctx tx =
     and_then (validate_structure H C ctx tx) (\<lambda>_.
     and_then (verify_sums C tx) (\<lambda>_. verify_crypto H C tx))"

subsection \<open>Aggregation\<close>

definition add_offsets ::
    "('pt, 'sc :: comm_ring_1) curve \<Rightarrow> Transaction \<Rightarrow> 'sc \<times> 'sc \<Rightarrow> tx_error + 'sc \<times> 'sc" where
  "add_offsets C tx acc = (case acc of (offset, x) \<Rightarrow>
     and_then (ok_or OffsetNotCanonical (scalar_from_bytes C (kernel_offset tx))) (\<lambda>a.
     and_then (ok_or OffsetNotCanonical (scalar_from_bytes C (owner_offset tx))) (\<lambda>b.
     Inr (offset + a, x + b))))"

definition aggregate ::
    "hasher \<Rightarrow> ('pt :: ab_group_add, 'sc :: comm_ring_1) curve \<Rightarrow> Transaction list \<Rightarrow> tx_error + Transaction" where
  "aggregate H C txs =
     and_then (fold_res (add_offsets C) txs (0, 0)) (\<lambda>(offset, x).
       let ins = sort_key i_commitment (concat (map (\<lambda>tx. inputs (tx_body tx)) txs)) in
       if \<not> adjacent (\<lambda>a b. i_commitment a \<noteq> i_commitment b) ins then Inl DoubleSpend
       else
         let outs = sort_key OutputGroup_sort_key (concat (map (\<lambda>tx. out_groups (tx_body tx)) txs));
             ks = sort_key (Kernel_id H) (concat (map (\<lambda>tx. tx_kernels (tx_body tx)) txs))
         in if \<not> adjacent (\<lambda>a b. Kernel_id H a \<noteq> Kernel_id H b) ks then Inl DuplicateKernel
            else
              let agg = \<lparr>tx_body = \<lparr>inputs = ins, out_groups = outs, tx_kernels = ks\<rparr>,
                     kernel_offset = scalar_to_bytes C offset, owner_offset = scalar_to_bytes C x\<rparr>
              in and_then (validate_structure H C Block agg) (\<lambda>_. Inr agg))"

subsection \<open>Coinbases\<close>

record Coinbase =
  cb_outputs :: OutputGroup
  cb_kernel :: Kernel
  cb_extra :: h256

definition Coinbase_weight :: "Coinbase \<Rightarrow> nat" where
  "Coinbase_weight cb = length (group_outputs (cb_outputs cb)) * OUTPUT_WEIGHT + KERNEL_WEIGHT"

definition Coinbase_hash :: "hasher \<Rightarrow> (Coinbase \<Rightarrow> bytes) \<Rightarrow> Coinbase \<Rightarrow> h256" where
  "Coinbase_hash H ser cb = hash_domain H (ascii ''midwimble.coinbase.v1'') [ser cb]"

definition Coinbase_validate_structure ::
    "('pt :: ab_group_add, 'sc) curve \<Rightarrow> Coinbase \<Rightarrow> tx_error + unit" where
  "Coinbase_validate_structure C cb =
     and_then (check_structure C (cb_outputs cb)) (\<lambda>_.
     and_then (map_err (\<lambda>_. DuplicateCoinbaseOutput)
       (check_outputs_unique (group_outputs (cb_outputs cb)) [] [])) (\<lambda>_.
     if k_features (cb_kernel cb) \<noteq> CoinbaseFeature then Inl NotCoinbaseKernel
     else check_rules C (cb_kernel cb)))"

definition Coinbase_verify_sum ::
    "('pt :: ab_group_add, 'sc :: comm_ring_1) curve \<Rightarrow> Coinbase \<Rightarrow> nat \<Rightarrow> tx_error + unit" where
  "Coinbase_verify_sum C cb amount =
     and_then (map_err TxCrypto (sum_points C (map o_commitment (group_outputs (cb_outputs cb))))) (\<lambda>outputs.
     and_then (ok_or BadCoinbaseExcess (decompress C (k_excess (cb_kernel cb)))) (\<lambda>excess.
     if outputs - smul C (of_nat amount) (gen_g C) \<noteq> excess then Inl (CoinbaseAmount amount) else Inr ()))"

definition Coinbase_verify_crypto ::
    "hasher \<Rightarrow> ('pt :: ab_group_add, 'sc :: comm_ring_1) curve \<Rightarrow> Coinbase \<Rightarrow> tx_error + unit" where
  "Coinbase_verify_crypto H C cb =
     (if \<not> verify_range_proof H C (cb_outputs cb) then Inl InvalidCoinbaseRangeProof
      else if \<not> Kernel_verify_signature H C (cb_kernel cb) then Inl InvalidCoinbaseKernelSignature
      else Inr ())"

subsection \<open>What the structural rules guarantee\<close>

lemma check_outputs_unique_Inr:
  "check_outputs_unique outs cs ks = Inr r \<longleftrightarrow>
     r = rev (map o_commitment outs) @ cs \<and>
     distinct (map o_commitment outs) \<and> distinct (map o_owner_key outs) \<and>
     set (map o_commitment outs) \<inter> set cs = {} \<and> set (map o_owner_key outs) \<inter> set ks = {}"
  by (induction outs cs ks rule: check_outputs_unique.induct) auto

lemma adjacent_map: "adjacent (\<lambda>x y. r (f x) (f y)) xs \<longleftrightarrow> adjacent r (map f xs)"
  by (induction xs rule: induct_list012) simp_all

lemma adjacent_keys:
  "adjacent (\<lambda>x y. (f x :: 'a :: linorder) < f y) xs \<longleftrightarrow> sorted_wrt (<) (map f xs)"
  by (simp add: adjacent_map adjacent_less_iff)

lemma validate_structure_Inr:
  "validate_structure H C ctx tx = Inr u \<longleftrightarrow>
     check_context ctx tx = Inr () \<and>
     (tx_kernels (tx_body tx) = [] \<longrightarrow> inputs (tx_body tx) = [] \<and> out_groups (tx_body tx) = []) \<and>
     scalar_from_bytes C (kernel_offset tx) \<noteq> None \<and> scalar_from_bytes C (owner_offset tx) \<noteq> None \<and>
     sorted_wrt (<) (input_commitments tx) \<and>
     sorted_wrt (<) (map OutputGroup_sort_key (out_groups (tx_body tx))) \<and>
     (\<forall>g\<in>set (out_groups (tx_body tx)). check_structure C g = Inr ()) \<and>
     distinct (output_commitments tx) \<and> distinct (map o_owner_key (Transaction_outputs tx)) \<and>
     set (input_commitments tx) \<inter> set (output_commitments tx) = {} \<and>
     sorted_wrt (<) (kernel_ids H tx) \<and>
     (\<forall>k\<in>set (tx_kernels (tx_body tx)). k_features k = Plain \<and> check_rules C k = Inr ())"
  unfolding validate_structure_def Let_def
  by (auto simp: and_then_Inr each_ok_iff if_Inr check_outputs_unique_Inr adjacent_keys adjacent_less_iff
      input_commitments_def output_commitments_def)

text \<open>A transaction that passes the structural rules never spends an output twice or one it creates
  itself, creates no two outputs with the same commitment or the same owner key, has no two kernels
  with one id, and every output and kernel of it is a genuine curve point that is not the identity.\<close>

theorem structure_rules_out_duplicates:
  assumes "validate_structure H C ctx tx = Inr ()"
  shows "distinct (input_commitments tx) \<and> distinct (output_commitments tx) \<and>
    distinct (map o_owner_key (Transaction_outputs tx)) \<and>
    set (input_commitments tx) \<inter> set (output_commitments tx) = {} \<and> distinct (kernel_ids H tx) \<and>
    Transaction_weight tx \<le> MAX_BLOCK_WEIGHT \<and>
    (\<forall>out\<in>set (Transaction_outputs tx). valid_nonidentity C (o_commitment out) \<and> valid_nonidentity C (o_owner_key out)) \<and>
    (\<forall>k\<in>set (tx_kernels (tx_body tx)). valid_nonidentity C (k_excess k) \<and> k_owner_excess k \<noteq> IDENTITY)"
proof -
  note v = validate_structure_Inr [THEN iffD1, OF assms]
  have "Transaction_weight tx \<le> MAX_BLOCK_WEIGHT"
    using v by (auto simp: check_context_def MAX_BLOCK_WEIGHT_def MAX_TX_WEIGHT_def split: Context.splits if_splits)
  moreover have "\<forall>out\<in>set (Transaction_outputs tx). valid_nonidentity C (o_commitment out) \<and> valid_nonidentity C (o_owner_key out)"
    using v by (fastforce simp: Transaction_outputs_def check_structure_def each_ok_iff check_encoding_def
        Let_def split: if_splits)
  moreover have "\<forall>k\<in>set (tx_kernels (tx_body tx)). valid_nonidentity C (k_excess k) \<and> k_owner_excess k \<noteq> IDENTITY"
    using v by (fastforce simp: check_rules_def split: if_splits)
  ultimately show ?thesis using v strict_sorted_distinct by blast
qed

subsection \<open>The balance equations\<close>

lemma fee_from: "fold_res (\<lambda>k acc. ok_or FeeOverflow (chk_add64 acc (k_fee k))) ks a = Inr f \<longleftrightarrow>
    f = a + sum_list (map k_fee ks) \<and> (ks = [] \<or> f \<le> U64_MAX)"
proof (induction ks arbitrary: a)
  case (Cons k ks)
  have "fold_res (\<lambda>k acc. ok_or FeeOverflow (chk_add64 acc (k_fee k))) (k # ks) a = Inr f \<longleftrightarrow>
      a + k_fee k \<le> U64_MAX \<and> f = a + k_fee k + sum_list (map k_fee ks) \<and> (ks = [] \<or> f \<le> U64_MAX)"
    by (simp add: and_then_Inr ok_or_Inr chk_add64_Some Cons.IH)
  also have "\<dots> \<longleftrightarrow> f = a + sum_list (map k_fee (k # ks)) \<and> (k # ks = [] \<or> f \<le> U64_MAX)"
    by (cases "ks = []") (simp_all, linarith+)
  finally show ?case .
qed auto

lemma Transaction_fee_Inr [result_simps]:
  "Transaction_fee tx = Inr f \<longleftrightarrow>
    f = sum_list (map k_fee (tx_kernels (tx_body tx))) \<and> f \<le> U64_MAX"
  by (cases "tx_kernels (tx_body tx) = []") (auto simp: Transaction_fee_def fee_from)

definition points_sum :: "('pt :: ab_group_add, 'sc) curve \<Rightarrow> h256 list \<Rightarrow> 'pt" where
  "points_sum C ps = sum_list (map (point_of C) ps)"

definition all_points :: "('pt, 'sc) curve \<Rightarrow> h256 list \<Rightarrow> bool" where
  "all_points C ps \<longleftrightarrow> (\<forall>p\<in>set ps. decompress C p \<noteq> None)"

definition balanced ::
    "('pt :: ab_group_add, 'sc :: comm_ring_1) curve \<Rightarrow> Input list \<Rightarrow> Output list \<Rightarrow> Kernel list \<Rightarrow> 'sc \<Rightarrow> 'sc \<Rightarrow> bool" where
  "balanced C ins outs ks offset x \<longleftrightarrow>
     all_points C (map o_commitment outs) \<and> all_points C (map i_commitment ins) \<and>
     all_points C (map k_excess ks) \<and> all_points C (map i_owner_key ins) \<and>
     all_points C (map k_owner_excess ks) \<and>
     points_sum C (map o_commitment outs) - points_sum C (map i_commitment ins)
         + smul C (of_nat (sum_list (map k_fee ks))) (gen_g C)
       = points_sum C (map k_excess ks) + smul C offset (gen_h C) \<and>
     points_sum C (map i_owner_key ins) = points_sum C (map k_owner_excess ks) + mul_base C x"

lemma verify_sums_Inr:
  "verify_sums C tx = Inr u \<longleftrightarrow>
    (\<exists>offset x. scalar_from_bytes C (kernel_offset tx) = Some offset \<and>
       scalar_from_bytes C (owner_offset tx) = Some x \<and>
       sum_list (map k_fee (tx_kernels (tx_body tx))) \<le> U64_MAX \<and>
       balanced C (inputs (tx_body tx)) (Transaction_outputs tx) (tx_kernels (tx_body tx)) offset x)"
  unfolding verify_sums_def Let_def balanced_def all_points_def points_sum_def
  by (auto simp: and_then_Inr ok_or_Inr map_err_Inr if_Inr Transaction_fee_Inr sum_points_Inr
      output_commitments_def input_commitments_def)

lemma points_sum_append: "points_sum C (xs @ ys) = points_sum C xs + points_sum C ys"
  by (simp add: points_sum_def)

lemma all_points_append: "all_points C (xs @ ys) \<longleftrightarrow> all_points C xs \<and> all_points C ys"
  by (auto simp: all_points_def)

lemma balanced_append:
  assumes "curve_ok C" and "balanced C ins outs ks a x" and "balanced C ins' outs' ks' a' x'"
  shows "balanced C (ins @ ins') (outs @ outs') (ks @ ks') (a + a') (x + x')"
  using assms(2,3)
  by (simp add: balanced_def points_sum_append all_points_append mul_base_def curve_laws(7) [OF assms(1)]
      algebra_simps)

lemma points_sum_mset: "mset ps = mset qs \<Longrightarrow> points_sum C ps = points_sum C qs"
  unfolding points_sum_def sum_mset_sum_list [symmetric] mset_map by simp

lemma balanced_mset:
  assumes "balanced C ins outs ks a x"
    and "mset ins = mset ins'" and "mset outs = mset outs'" and "mset ks = mset ks'"
  shows "balanced C ins' outs' ks' a x"
proof -
  have sets: "set ins = set ins'" "set outs = set outs'" "set ks = set ks'"
    using assms(2-4) by (metis mset_eq_setD)+
  have sums: "points_sum C (map f ins) = points_sum C (map f ins')"
      "points_sum C (map g outs) = points_sum C (map g outs')"
      "points_sum C (map h ks) = points_sum C (map h ks')" for f g h
    using assms(2-4) by (auto intro!: points_sum_mset)
  have "sum_list (map k_fee ks) = sum_list (map k_fee ks')"
    using assms(4) unfolding sum_mset_sum_list [symmetric] mset_map by simp
  then show ?thesis using assms(1) sums sets by (simp add: balanced_def all_points_def)
qed

subsection \<open>Aggregates of valid transactions are valid\<close>

definition scalar_val :: "('pt, 'sc :: comm_ring_1) curve \<Rightarrow> h256 \<Rightarrow> 'sc" where
  "scalar_val C b = (case scalar_from_bytes C b of Some s \<Rightarrow> s | None \<Rightarrow> 0)"

lemma add_offsets_from:
  "fold_res (add_offsets C) txs (a, b) = Inr (offset, x) \<longleftrightarrow>
     (\<forall>tx\<in>set txs. scalar_from_bytes C (kernel_offset tx) \<noteq> None \<and> scalar_from_bytes C (owner_offset tx) \<noteq> None) \<and>
     offset = a + sum_list (map (\<lambda>tx. scalar_val C (kernel_offset tx)) txs) \<and>
     x = b + sum_list (map (\<lambda>tx. scalar_val C (owner_offset tx)) txs)"
proof (induction txs arbitrary: a b)
  case (Cons tx txs)
  then show ?case
    by (cases "scalar_from_bytes C (kernel_offset tx)"; cases "scalar_from_bytes C (owner_offset tx)")
       (simp_all add: add_offsets_def ok_or_def scalar_val_def add.assoc)
qed auto

definition merged :: "hasher \<Rightarrow> ('pt, 'sc :: comm_ring_1) curve \<Rightarrow> Transaction list \<Rightarrow> Transaction" where
  "merged H C txs = \<lparr>tx_body = \<lparr>
       inputs = sort_key i_commitment (concat (map (\<lambda>tx. inputs (tx_body tx)) txs)),
       out_groups = sort_key OutputGroup_sort_key (concat (map (\<lambda>tx. out_groups (tx_body tx)) txs)),
       tx_kernels = sort_key (Kernel_id H) (concat (map (\<lambda>tx. tx_kernels (tx_body tx)) txs))\<rparr>,
     kernel_offset = scalar_to_bytes C (sum_list (map (\<lambda>tx. scalar_val C (kernel_offset tx)) txs)),
     owner_offset = scalar_to_bytes C (sum_list (map (\<lambda>tx. scalar_val C (owner_offset tx)) txs))\<rparr>"

lemma adjacent_imp: "(\<And>x y. r x y \<Longrightarrow> r' x y) \<Longrightarrow> adjacent r xs \<Longrightarrow> adjacent r' xs"
  by (induction xs rule: induct_list012) auto

lemma aggregate_Inr:
  "aggregate H C txs = Inr agg \<longleftrightarrow>
     (\<forall>tx\<in>set txs. scalar_from_bytes C (kernel_offset tx) \<noteq> None \<and> scalar_from_bytes C (owner_offset tx) \<noteq> None) \<and>
     agg = merged H C txs \<and> validate_structure H C Block agg = Inr ()"
proof -
  have strict: "adjacent (\<lambda>a b. i_commitment a \<noteq> i_commitment b) (inputs (tx_body agg)) \<and>
      adjacent (\<lambda>a b. Kernel_id H a \<noteq> Kernel_id H b) (tx_kernels (tx_body agg))"
    if "validate_structure H C Block agg = Inr ()"
  proof -
    have "sorted_wrt (<) (map i_commitment (inputs (tx_body agg)))"
        "sorted_wrt (<) (map (Kernel_id H) (tx_kernels (tx_body agg)))"
      using that by (simp_all add: validate_structure_Inr input_commitments_def kernel_ids_def)
    then show ?thesis
      unfolding adjacent_keys [symmetric] by (auto intro: adjacent_imp [rotated] simp: less_imp_neq)
  qed
  show ?thesis
    unfolding aggregate_def and_then_Inr if_Inr Let_def
    using strict by (auto simp: and_then_Inr add_offsets_from merged_def)
qed

lemma mset_concat_map: "mset xs = mset ys \<Longrightarrow> mset (concat (map f xs)) = mset (concat (map f ys))"
proof -
  have "mset (concat (map f zs)) = sum_mset (image_mset (\<lambda>z. mset (f z)) (mset zs))" for zs
    by (induction zs) simp_all
  then show "mset xs = mset ys \<Longrightarrow> ?thesis" by simp
qed

lemma balanced_Nil: "curve_ok C \<Longrightarrow> balanced C [] [] [] 0 0"
  by (simp add: balanced_def all_points_def points_sum_def mul_base_def smul_zero)

lemma balanced_concat:
  assumes "curve_ok C"
    and "\<forall>tx\<in>set txs. balanced C (inputs (tx_body tx)) (Transaction_outputs tx) (tx_kernels (tx_body tx))
          (scalar_val C (kernel_offset tx)) (scalar_val C (owner_offset tx))"
  shows "balanced C (concat (map (\<lambda>tx. inputs (tx_body tx)) txs)) (concat (map Transaction_outputs txs))
    (concat (map (\<lambda>tx. tx_kernels (tx_body tx)) txs))
    (sum_list (map (\<lambda>tx. scalar_val C (kernel_offset tx)) txs))
    (sum_list (map (\<lambda>tx. scalar_val C (owner_offset tx)) txs))"
  using assms(2) by (induction txs) (simp_all add: balanced_Nil balanced_append assms(1))

lemma merged_outputs:
  "mset (Transaction_outputs (merged H C txs)) = mset (concat (map Transaction_outputs txs))"
proof -
  have "mset (Transaction_outputs (merged H C txs))
      = mset (concat (map group_outputs (concat (map (\<lambda>tx. out_groups (tx_body tx)) txs))))"
    unfolding Transaction_outputs_def merged_def by (rule trans [OF mset_concat_map]) simp_all
  also have "concat (map group_outputs (concat (map (\<lambda>tx. out_groups (tx_body tx)) txs)))
      = concat (map Transaction_outputs txs)"
    by (induction txs) (simp_all add: Transaction_outputs_def)
  finally show ?thesis .
qed

lemma scalar_val_Some: "scalar_from_bytes C b = Some s \<Longrightarrow> scalar_val C b = s"
  by (simp add: scalar_val_def)

lemma verify_crypto_Inr:
  "verify_crypto H C tx = Inr u \<longleftrightarrow>
     (\<forall>g\<in>set (out_groups (tx_body tx)). verify_range_proof H C g) \<and>
     (\<forall>i\<in>set (inputs (tx_body tx)). Input_verify_signature H C i) \<and>
     (\<forall>k\<in>set (tx_kernels (tx_body tx)). Kernel_verify_signature H C k)"
  by (auto simp: verify_crypto_def Let_def list_all_iff)

lemma Transaction_validate_Inr:
  "Transaction_validate H C ctx tx = Inr u \<longleftrightarrow>
     validate_structure H C ctx tx = Inr () \<and> verify_sums C tx = Inr () \<and> verify_crypto H C tx = Inr ()"
  by (auto simp: Transaction_validate_def and_then_Inr)

lemma aggregate_sums:
  assumes "curve_ok C" and "aggregate H C txs = Inr agg"
    and "\<forall>tx\<in>set txs. verify_sums C tx = Inr ()"
    and "sum_list (map k_fee (tx_kernels (tx_body agg))) \<le> U64_MAX"
  shows "verify_sums C agg = Inr ()"
proof -
  have agg: "agg = merged H C txs" using assms(2) by (simp add: aggregate_Inr)
  have "\<forall>tx\<in>set txs. balanced C (inputs (tx_body tx)) (Transaction_outputs tx) (tx_kernels (tx_body tx))
          (scalar_val C (kernel_offset tx)) (scalar_val C (owner_offset tx))"
    using assms(3) by (fastforce simp: verify_sums_Inr dest: scalar_val_Some)
  note b = balanced_mset [OF balanced_concat [OF assms(1) this]]
  have "balanced C (inputs (tx_body agg)) (Transaction_outputs agg) (tx_kernels (tx_body agg))
      (sum_list (map (\<lambda>tx. scalar_val C (kernel_offset tx)) txs))
      (sum_list (map (\<lambda>tx. scalar_val C (owner_offset tx)) txs))"
    unfolding agg by (rule b) (simp_all add: merged_outputs, simp_all add: merged_def)
  then show ?thesis
    using assms(4) unfolding verify_sums_Inr agg
    by (simp add: merged_def curve_laws(2) [OF assms(1)])
qed

text \<open>C22. Aggregating transactions that are each valid gives a valid block body whenever aggregation
  succeeds and the fees fit: both balance equations hold of the sums, and every range proof and
  signature is carried over. The aggregate does not depend on the order of the transactions.\<close>

theorem aggregation_preserves_validity:
  assumes "curve_ok C" and "aggregate H C txs = Inr agg"
    and "\<forall>tx\<in>set txs. Transaction_validate H C ctx tx = Inr ()"
    and "sum_list (map k_fee (concat (map (\<lambda>tx. tx_kernels (tx_body tx)) txs))) \<le> U64_MAX"
    and "mset txs' = mset txs"
  shows "Transaction_validate H C Block agg = Inr () \<and>
    Transaction_fee agg = Inr (sum_list (map k_fee (concat (map (\<lambda>tx. tx_kernels (tx_body tx)) txs)))) \<and>
    aggregate H C txs' = Inr agg"
proof -
  have agg: "agg = merged H C txs" and st: "validate_structure H C Block agg = Inr ()"
    and sc: "\<forall>tx\<in>set txs. scalar_from_bytes C (kernel_offset tx) \<noteq> None \<and> scalar_from_bytes C (owner_offset tx) \<noteq> None"
    using assms(2) unfolding aggregate_Inr by blast+
  have fee: "sum_list (map k_fee (tx_kernels (tx_body agg)))
      = sum_list (map k_fee (concat (map (\<lambda>tx. tx_kernels (tx_body tx)) txs)))"
    unfolding agg merged_def sum_mset_sum_list [symmetric] mset_map by simp
  have cr: "verify_crypto H C agg = Inr ()"
    using assms(3) unfolding verify_crypto_Inr agg merged_def
    by (auto simp: Transaction_validate_Inr verify_crypto_Inr)
  have su: "verify_sums C agg = Inr ()"
    using aggregate_sums [OF assms(1,2)] assms(3,4) fee by (simp add: Transaction_validate_Inr)
  have inj: "inj_on i_commitment (set (inputs (tx_body agg)))"
      "inj_on OutputGroup_sort_key (set (out_groups (tx_body agg)))"
      "inj_on (Kernel_id H) (set (tx_kernels (tx_body agg)))"
    using st strict_sorted_distinct
    by (auto simp: validate_structure_Inr input_commitments_def kernel_ids_def dest!: distinct_map [THEN iffD1, OF strict_sorted_distinct])
  have perm: "sort_key f (concat (map g txs')) = sort_key f (concat (map g txs))"
    if "inj_on f (set (sort_key f (concat (map g txs))))" for f :: "'x \<Rightarrow> h256" and g :: "Transaction \<Rightarrow> 'x list"
  proof (rule sort_key_inj_key_eq)
    show "mset (concat (map g txs')) = mset (sort_key f (concat (map g txs)))"
      using mset_concat_map [OF assms(5)] by simp
    then show "inj_on f (set (concat (map g txs')))" using that by (metis mset_eq_setD)
  qed simp
  have sums: "sum_list (map w txs') = sum_list (map w txs)" for w :: "Transaction \<Rightarrow> 'b"
    using assms(5) unfolding sum_mset_sum_list [symmetric] mset_map by simp
  have "merged H C txs' = merged H C txs"
    using inj unfolding agg by (simp add: merged_def perm sums)
  then have "aggregate H C txs' = Inr agg"
    using st sc agg mset_eq_setD [OF assms(5)] by (simp add: aggregate_Inr)
  then show ?thesis using st su cr fee assms(4) by (simp add: Transaction_validate_Inr Transaction_fee_Inr)
qed

subsection \<open>A concrete transaction\<close>

definition sample_out :: Output where
  "sample_out = \<lparr>o_commitment = 14, o_owner_key = 7, o_ephemeral_key = 1, o_view_tag = 0,
     o_payload = replicate 80 0, o_recovery = 0\<rparr>"

text \<open>Spends 10 coins into one output of 8 and a fee of 2, built with the code's own signing routines.\<close>

definition sample_tx :: "hasher \<Rightarrow> Transaction" where
  "sample_tx H = \<lparr>tx_body = \<lparr>inputs = [Input_sign H word_curve 13 5 0],
       out_groups = [\<lparr>group_outputs = [sample_out], range_proof = replicate 672 0\<rparr>],
       tx_kernels = [Kernel_new H word_curve Plain 2 0 1 4 0]\<rparr>,
     kernel_offset = 0, owner_offset = 1\<rparr>"

lemma range_proof_len_1: "range_proof_len (Suc 0) = 672"
  by (simp add: range_proof_len_def RANGE_BITS_def next_power_of_two.simps trailing_zeros.simps)

lemma sample_structure: "validate_structure H word_curve Relayed (sample_tx H) = Inr ()"
  by (simp add: validate_structure_Inr check_context_def sample_tx_def Transaction_weight_def output_count_def
      MAX_TX_WEIGHT_def INPUT_WEIGHT_def OUTPUT_WEIGHT_def KERNEL_WEIGHT_def word_curve_def input_commitments_def
      output_commitments_def Transaction_outputs_def check_structure_def range_proof_len_1 MAX_GROUP_OUTPUTS_def
      check_encoding_def valid_nonidentity_def sample_out_def PAYLOAD_LEN_def Input_sign_def Kernel_new_def
      kernel_ids_def check_rules_def IDENTITY_def mul_base_def Let_def)

lemma sample_sums: "verify_sums word_curve (sample_tx H) = Inr ()"
  by (simp add: verify_sums_Inr balanced_def all_points_def points_sum_def point_of_def sample_tx_def
      word_curve_def Transaction_outputs_def sample_out_def Input_sign_def Kernel_new_def mul_base_def Let_def)

lemma sample_crypto: "verify_crypto H word_curve (sample_tx H) = Inr ()"
proof -
  have "Input_verify_signature H word_curve (Input_sign H word_curve 13 5 0)"
    using schnorr_complete [OF word_curve_ok, of 5]
    by (simp add: Input_verify_signature_def Input_sign_def Let_def) (simp add: word_curve_def mul_base_def)
  moreover have "Kernel_verify_signature H word_curve (Kernel_new H word_curve Plain 2 0 1 4 0)"
    using kernel_complete [OF word_curve_ok, of 1 4]
    by (simp add: Kernel_verify_signature_def Kernel_new_def Let_def)
  moreover have "verify_range_proof H word_curve \<lparr>group_outputs = [sample_out], range_proof = replicate 672 0\<rparr>"
    by (simp add: verify_range_proof_def verify_range_def OutputGroup_commitments_def range_proof_len_1
        MAX_GROUP_OUTPUTS_def Let_def) (simp add: word_curve_def)
  ultimately show ?thesis by (simp add: verify_crypto_Inr sample_tx_def)
qed

lemma sample_valid: "Transaction_validate H word_curve Relayed (sample_tx H) = Inr ()"
  by (simp add: Transaction_validate_Inr sample_structure sample_sums sample_crypto)

lemma sample_aggregate: "aggregate H word_curve [sample_tx H] = Inr (sample_tx H)"
proof -
  have "merged H word_curve [sample_tx H] = sample_tx H"
    by (simp add: merged_def sample_tx_def scalar_val_def word_curve_def)
  moreover have "validate_structure H word_curve Block (sample_tx H) = Inr ()"
    using sample_structure [of H] unfolding validate_structure_Inr
    by (simp add: check_context_def MAX_BLOCK_WEIGHT_def MAX_TX_WEIGHT_def split: if_splits)
  ultimately show ?thesis by (simp add: aggregate_Inr) (simp add: word_curve_def)
qed

theorem structure_rules_out_duplicates_witness: "kernel_ids (\<lambda>_. 4) (sample_tx (\<lambda>_. 4)) = [4]"
  using structure_rules_out_duplicates [OF sample_structure, of "\<lambda>_. 4"]
  by (simp add: kernel_ids_def sample_tx_def Kernel_id_def hash_domain_def)

theorem aggregation_preserves_validity_witness:
  "Transaction_validate (\<lambda>_. 4) word_curve Block (sample_tx (\<lambda>_. 4)) = Inr ()"
  using aggregation_preserves_validity [OF word_curve_ok sample_aggregate, of "\<lambda>_. 4" Relayed "[sample_tx (\<lambda>_. 4)]"]
  by (simp add: sample_valid) (simp add: sample_tx_def Kernel_new_def Let_def)

end
