(* ===== verification/Pruned_Groups.thy ===== *)
theory Pruned_Groups
  imports Transaction
begin

text \<open>
  Output groups as a pruning node stores them, \<^verbatim>\<open>src/src/core/mw/transaction.rs\<close>: spent members keep only
  what the group's range proof needs, and the proof goes on covering the unspent ones.
\<close>

datatype GroupMember = Unspent Output | Spent h256 h256

fun GroupMember_commitment :: "GroupMember \<Rightarrow> h256" where
  "GroupMember_commitment (Unspent out) = o_commitment out"
| "GroupMember_commitment (Spent commitment metadata) = commitment"

fun GroupMember_metadata_hash :: "hasher \<Rightarrow> GroupMember \<Rightarrow> h256" where
  "GroupMember_metadata_hash H (Unspent out) = Output_metadata_hash H out"
| "GroupMember_metadata_hash H (Spent commitment metadata) = metadata"

fun is_spent :: "GroupMember \<Rightarrow> bool" where
  "is_spent (Spent _ _) = True"
| "is_spent (Unspent _) = False"

record StoredGroup =
  stored_proof :: bytes
  members :: "GroupMember list"

definition StoredGroup_from_group :: "OutputGroup \<Rightarrow> StoredGroup" where
  "StoredGroup_from_group grp =
     \<lparr>stored_proof = range_proof grp, members = map Unspent (group_outputs grp)\<rparr>"

definition StoredGroup_id :: "hasher \<Rightarrow> StoredGroup \<Rightarrow> h256" where
  "StoredGroup_id H g =
     hash_domain H (ascii ''midwimble.output-group.id.v1'')
       (stored_proof g # map (\<lambda>m. be_bytes (GroupMember_commitment m)) (members g))"

definition StoredGroup_verify ::
    "hasher \<Rightarrow> ('pt :: ab_group_add, 'sc) curve \<Rightarrow> StoredGroup \<Rightarrow> bool" where
  "StoredGroup_verify H C g =
     (let n = length (members g) in
      if n = 0 \<or> MAX_GROUP_OUTPUTS < n \<or> length (stored_proof g) \<noteq> range_proof_len n then False
      else if list_ex (\<lambda>m. case m of Unspent out \<Rightarrow> \<not> is_ok (check_encoding C out) | _ \<Rightarrow> False) (members g)
      then False
      else
        verify_range C (stored_proof g) (map GroupMember_commitment (members g))
          (binding_for_hashes H (map (GroupMember_metadata_hash H) (members g))))"

definition StoredGroup_spend :: "hasher \<Rightarrow> nat \<Rightarrow> StoredGroup \<Rightarrow> tx_error + StoredGroup" where
  "StoredGroup_spend H index g =
     (if index < length (members g) then
        case members g ! index of
          Unspent out \<Rightarrow>
            Inr (g\<lparr>members := (members g)[index := Spent (o_commitment out) (Output_metadata_hash H out)]\<rparr>)
        | Spent _ _ \<Rightarrow> Inl (MemberNotUnspent index)
      else Inl (MemberNotUnspent index))"

definition is_fully_spent :: "StoredGroup \<Rightarrow> bool" where
  "is_fully_spent g = list_all is_spent (members g)"

definition StoredGroup_unspent :: "StoredGroup \<Rightarrow> (nat \<times> Output) list" where
  "StoredGroup_unspent g =
     concat (map (\<lambda>(i, m). case m of Unspent out \<Rightarrow> [(i, out)] | _ \<Rightarrow> []) (enumerate 0 (members g)))"

lemma spend_Inr:
  "StoredGroup_spend H index g = Inr g' \<longleftrightarrow>
     index < length (members g) \<and>
     (\<exists>out. members g ! index = Unspent out \<and>
        g' = g\<lparr>members := (members g)[index := Spent (o_commitment out) (Output_metadata_hash H out)]\<rparr>)"
  by (auto simp: StoredGroup_spend_def split: GroupMember.splits)

lemma in_unspent:
  "(i, out) \<in> set (StoredGroup_unspent g) \<longleftrightarrow> i < length (members g) \<and> members g ! i = Unspent out"
  by (force simp: StoredGroup_unspent_def in_set_enumerate_eq split: GroupMember.splits)

lemma map_update_same: "f y = f (xs ! i) \<Longrightarrow> map f (xs[i := y]) = map f xs"
  by (metis list_update_id map_update)

text \<open>A stored group against the group it was made from: which members are spent, and what every member still
  shows.\<close>

definition pruned :: "hasher \<Rightarrow> OutputGroup \<Rightarrow> nat set \<Rightarrow> StoredGroup \<Rightarrow> bool" where
  "pruned H grp spent g \<longleftrightarrow>
     stored_proof g = range_proof grp \<and> length (members g) = length (group_outputs grp) \<and>
     (\<forall>i < length (group_outputs grp). members g ! i =
        (let out = group_outputs grp ! i in
         if i \<in> spent then Spent (o_commitment out) (Output_metadata_hash H out) else Unspent out))"

lemma pruned_from_group: "pruned H grp {} (StoredGroup_from_group grp)"
  by (simp add: pruned_def StoredGroup_from_group_def)

lemma pruned_spend:
  assumes "pruned H grp spent g"
  shows "StoredGroup_spend H index g = Inr g' \<longleftrightarrow>
     index < length (group_outputs grp) \<and> index \<notin> spent \<and>
     g' = g\<lparr>members := (members g)[index := Spent (o_commitment (group_outputs grp ! index))
              (Output_metadata_hash H (group_outputs grp ! index))]\<rparr>"
  using assms by (auto simp: spend_Inr pruned_def Let_def split: if_splits)

lemma pruned_step:
  assumes "pruned H grp spent g" and "StoredGroup_spend H index g = Inr g'"
  shows "pruned H grp (insert index spent) g'"
  using assms pruned_spend [OF assms(1)] by (auto simp: pruned_def Let_def nth_list_update)

lemma pruned_refused:
  assumes "pruned H grp spent g" and "index \<in> spent \<or> length (group_outputs grp) \<le> index"
  shows "StoredGroup_spend H index g = Inl (MemberNotUnspent index)"
  using assms by (auto simp: StoredGroup_spend_def pruned_def Let_def split: GroupMember.splits if_splits)

lemma pruned_run:
  "fold_res (StoredGroup_spend H) ks g = Inr g' \<Longrightarrow> pruned H grp spent g \<Longrightarrow>
     pruned H grp (spent \<union> set ks) g' \<and> distinct ks \<and> set ks \<inter> spent = {} \<and> (\<forall>i \<in> set ks. i < length (group_outputs grp))"
proof (induction ks arbitrary: g spent)
  case (Cons i ks)
  obtain g1 where g1: "StoredGroup_spend H i g = Inr g1" and rest: "fold_res (StoredGroup_spend H) ks g1 = Inr g'"
    using Cons.prems(1) by (auto simp: and_then_Inr)
  have "i < length (group_outputs grp)" "i \<notin> spent" using pruned_spend [OF Cons.prems(2)] g1 by auto
  then show ?case using Cons.IH [OF rest pruned_step [OF Cons.prems(2) g1]] by auto
qed simp

lemma pruned_shows:
  assumes "pruned H grp spent g"
  shows "map GroupMember_commitment (members g) = OutputGroup_commitments grp"
    and "map (GroupMember_metadata_hash H) (members g) = map (Output_metadata_hash H) (group_outputs grp)"
  using assms by (auto simp: pruned_def OutputGroup_commitments_def Let_def intro!: nth_equalityI)

lemma pruned_id:
  assumes "pruned H grp spent g"
  shows "StoredGroup_id H g = hash_domain H (ascii ''midwimble.output-group.id.v1'')
     (range_proof grp # map be_bytes (OutputGroup_commitments grp))"
proof -
  have "map (\<lambda>m. be_bytes (GroupMember_commitment m)) (members g) = map be_bytes (OutputGroup_commitments grp)"
    unfolding pruned_shows(1) [OF assms, symmetric] by simp
  then show ?thesis using assms by (simp add: StoredGroup_id_def pruned_def)
qed

lemma pruned_verify:
  assumes "pruned H grp spent g"
  shows "StoredGroup_verify H C g \<longleftrightarrow>
     group_outputs grp \<noteq> [] \<and> length (group_outputs grp) \<le> MAX_GROUP_OUTPUTS \<and>
     length (range_proof grp) = range_proof_len (length (group_outputs grp)) \<and>
     (\<forall>i < length (group_outputs grp). i \<notin> spent \<longrightarrow> is_ok (check_encoding C (group_outputs grp ! i))) \<and>
     verify_range_proof H C grp"
proof -
  have same: "stored_proof g = range_proof grp" "length (members g) = length (group_outputs grp)"
    using assms by (simp_all add: pruned_def)
  let ?bad = "\<lambda>m. case m of Unspent out \<Rightarrow> \<not> is_ok (check_encoding C out) | _ \<Rightarrow> False"
  have "?bad (members g ! i) \<longleftrightarrow> i \<notin> spent \<and> \<not> is_ok (check_encoding C (group_outputs grp ! i))"
    if "i < length (group_outputs grp)" for i
    using assms that by (simp add: pruned_def Let_def)
  then have bad: "list_ex ?bad (members g) \<longleftrightarrow>
      (\<exists>i < length (group_outputs grp). i \<notin> spent \<and> \<not> is_ok (check_encoding C (group_outputs grp ! i)))"
    unfolding list_ex_length same by blast
  have range: "verify_range C (stored_proof g) (map GroupMember_commitment (members g))
      (binding_for_hashes H (map (GroupMember_metadata_hash H) (members g))) = verify_range_proof H C grp"
    unfolding pruned_shows [OF assms] by (simp add: verify_range_proof_def binding_for_def same)
  show ?thesis
    unfolding StoredGroup_verify_def Let_def bad range unfolding same by auto
qed

lemma pruned_unspent:
  assumes "pruned H grp spent g"
  shows "set (StoredGroup_unspent g) = {(i, group_outputs grp ! i) | i. i < length (group_outputs grp) \<and> i \<notin> spent}"
  using assms by (auto simp: in_unspent pruned_def Let_def split: if_splits)

lemma is_spent_iff: "is_spent m \<longleftrightarrow> (\<forall>out. m \<noteq> Unspent out)"
  by (cases m) simp_all

lemma fully_spent_iff: "is_fully_spent g \<longleftrightarrow> StoredGroup_unspent g = []"
proof -
  have "StoredGroup_unspent g = [] \<longleftrightarrow> (\<forall>i out. (i, out) \<notin> set (StoredGroup_unspent g))"
    by (cases "StoredGroup_unspent g") auto
  then show ?thesis by (simp add: in_unspent is_fully_spent_def list_all_length is_spent_iff)
qed

text \<open>C23. A fresh group verifies exactly when the group's structure and its range proof are right. After any
  sequence of spends it verifies exactly when the size, the proof's length, the encodings of the members not yet
  spent and the range proof over all members are right: the proof goes on covering every output, so a group that
  verified keeps verifying. The group's identity is the hash of the
  proof and all the commitments and never changes, exactly the spent members leave the unspent ones,
  and a member can be spent once and only while it is there.\<close>

theorem pruning_keeps_range_proof:
  assumes "fold_res (StoredGroup_spend H) ks (StoredGroup_from_group grp) = Inr g"
  shows "(StoredGroup_verify H C (StoredGroup_from_group grp) \<longleftrightarrow>
           check_structure C grp = Inr () \<and> verify_range_proof H C grp) \<and>
    (StoredGroup_verify H C g \<longleftrightarrow>
       group_outputs grp \<noteq> [] \<and> length (group_outputs grp) \<le> MAX_GROUP_OUTPUTS \<and>
       length (range_proof grp) = range_proof_len (length (group_outputs grp)) \<and>
       (\<forall>i < length (group_outputs grp). i \<notin> set ks \<longrightarrow> is_ok (check_encoding C (group_outputs grp ! i))) \<and>
       verify_range_proof H C grp) \<and>
    (StoredGroup_verify H C (StoredGroup_from_group grp) \<longrightarrow> StoredGroup_verify H C g) \<and>
    StoredGroup_id H g = StoredGroup_id H (StoredGroup_from_group grp) \<and>
    StoredGroup_id H g = hash_domain H (ascii ''midwimble.output-group.id.v1'')
       (range_proof grp # map be_bytes (OutputGroup_commitments grp)) \<and>
    set (StoredGroup_unspent g) = {(i, group_outputs grp ! i) | i. i < length (group_outputs grp) \<and> i \<notin> set ks} \<and>
    (is_fully_spent g \<longleftrightarrow> set ks = {..<length (group_outputs grp)}) \<and>
    distinct ks \<and>
    (\<forall>i. StoredGroup_spend H i g = Inl (MemberNotUnspent i) \<longleftrightarrow> i \<in> set ks \<or> length (group_outputs grp) \<le> i)"
proof -
  note fresh = pruned_from_group [of H grp]
  have g: "pruned H grp (set ks) g" and ran: "distinct ks" "\<forall>i \<in> set ks. i < length (group_outputs grp)"
    using pruned_run [OF assms fresh] by simp_all
  have fresh_ok: "StoredGroup_verify H C (StoredGroup_from_group grp) \<longleftrightarrow> check_structure C grp = Inr () \<and> verify_range_proof H C grp"
    unfolding pruned_verify [OF fresh]
    by (auto simp: check_structure_def Let_def if_Inr each_ok_iff list_all_iff is_ok_iff all_set_conv_all_nth)
  have full: "is_fully_spent g \<longleftrightarrow> set ks = {..<length (group_outputs grp)}"
    using ran(2) pruned_unspent [OF g] by (auto simp: fully_spent_iff set_empty [symmetric] simp del: set_empty)
  have refused: "StoredGroup_spend H i g = Inl (MemberNotUnspent i) \<longleftrightarrow> i \<in> set ks \<or> length (group_outputs grp) \<le> i" for i
    using pruned_refused [OF g, of i] pruned_spend [OF g, of i] by (metis Inl_Inr_False not_less)
  have keeps: "StoredGroup_verify H C (StoredGroup_from_group grp) \<longrightarrow> StoredGroup_verify H C g"
    unfolding pruned_verify [OF g] pruned_verify [OF fresh] by simp
  have same: "StoredGroup_id H g = StoredGroup_id H (StoredGroup_from_group grp)"
    by (simp only: pruned_id [OF g] pruned_id [OF fresh])
  show ?thesis
    by (intro conjI fresh_ok pruned_verify [OF g] keeps same pruned_id [OF g] pruned_unspent [OF g] full ran(1) allI refused)
qed

theorem pruning_keeps_range_proof_witness:
  "\<exists>g. fold_res (StoredGroup_spend (\<lambda>_. 4)) [0]
        (StoredGroup_from_group \<lparr>group_outputs = [sample_out], range_proof = replicate 672 0\<rparr>) = Inr g
     \<and> StoredGroup_verify (\<lambda>_. 4) word_curve g \<and> is_fully_spent g"
proof -
  let ?grp = "\<lparr>group_outputs = [sample_out], range_proof = replicate 672 0\<rparr>"
  obtain g where g: "fold_res (StoredGroup_spend (\<lambda>_. 4)) [0] (StoredGroup_from_group ?grp) = Inr g"
    by (simp add: StoredGroup_spend_def StoredGroup_from_group_def)
  have "check_structure word_curve ?grp = Inr ()"
    using sample_structure [of "\<lambda>_. 4"] by (simp add: validate_structure_Inr sample_tx_def)
  moreover have "verify_range_proof (\<lambda>_. 4) word_curve ?grp"
    using sample_crypto [of "\<lambda>_. 4"] by (simp add: verify_crypto_Inr sample_tx_def)
  ultimately have "StoredGroup_verify (\<lambda>_. 4) word_curve g" using pruning_keeps_range_proof [OF g] by blast
  moreover have "is_fully_spent g" using pruning_keeps_range_proof [OF g, of word_curve] by (simp add: lessThan_Suc)
  ultimately show ?thesis using g by blast
qed

end
