(* ===== verification/Mmr.thy ===== *)
theory Mmr
  imports Smt
begin

text \<open>
  The append-only Merkle mountain range of block hashes, \<^verbatim>\<open>src/src/core/mmr.rs\<close>: node heights and peaks
  from positions, appending with carries, the bagged root, truncation and inclusion proofs. The
  reference is a forest of perfect trees with strictly falling heights. Positions and sizes stay
  below 2^63, as the source requires, so its 64-bit shifts and sums are the natural numbers' own.
\<close>

subsection \<open>Positions\<close>

lemma shifts_descend:
  assumes "1 \<le> (x :: nat)" and "2 * x - 1 \<le> pos"
  shows "pos + 2 - 2 * (2 * x) < pos + 2 - 2 * x"
    and "n + 1 + 3 - 2 * (2 * x) < max pos n + 3 - 2 * x"
  using assms by linarith+

function smallest_height :: "nat \<Rightarrow> nat \<Rightarrow> nat" where
  "smallest_height h pos = (if 2 ^ (h + 1) - 1 \<le> pos then smallest_height (h + 1) pos else h)"
  by pat_completeness auto
termination
proof (relation "measure (\<lambda>(h, pos). pos + 2 - 2 * 2 ^ h)")
  fix h pos :: nat
  assume "2 ^ (h + 1) - 1 \<le> pos"
  then show "((h + 1, pos), h, pos) \<in> measure (\<lambda>(h, pos). pos + 2 - 2 * 2 ^ h)"
    using shifts_descend(1) [of "2 ^ h" pos] by simp
qed simp

declare smallest_height.simps [simp del]

text \<open>At height 0 the position is 0, so the source's decrement of the height never wraps.\<close>

fun descend :: "nat \<Rightarrow> nat \<Rightarrow> nat" where
  "descend 0 pos = 0"
| "descend (Suc h) pos =
     (if pos = 2 ^ (Suc h + 1) - 2 then Suc h
      else
        let left_subtree_size = 2 ^ Suc h - 1
        in descend h (if left_subtree_size \<le> pos then pos - left_subtree_size else pos))"

definition pos_height :: "nat \<Rightarrow> nat" where
  "pos_height pos = descend (smallest_height 0 pos) pos"

fun count_ones :: "nat \<Rightarrow> nat" where
  "count_ones n = (if n = 0 then 0 else n mod 2 + count_ones (n div 2))"

declare count_ones.simps [simp del]

definition mmr_size :: "nat \<Rightarrow> nat" where
  "mmr_size n = (if n = 0 then 0 else 2 * n - count_ones n)"

text \<open>The loop of the source looks for the first \<open>h \<ge> 1\<close> with \<open>2 ^ (h + 1) - 1\<close> above what remains.\<close>

function peaks_from :: "nat \<Rightarrow> nat \<Rightarrow> nat list" where
  "peaks_from offset remaining =
     (if remaining = 0 then []
      else
        let tree_size = 2 ^ smallest_height 1 remaining - 1
        in if remaining < tree_size \<or> tree_size = 0 then []
           else (offset + tree_size - 1) # peaks_from (offset + tree_size) (remaining - tree_size))"
  by pat_completeness auto
termination by (relation "measure snd") auto

declare peaks_from.simps [simp del]

definition peaks :: "nat \<Rightarrow> nat list" where
  "peaks sz = peaks_from 0 sz"

subsection \<open>The range\<close>

record MerkleMountainRange =
  mmr_nodes :: "h256 list"
  leaf_count :: nat

definition Mmr_new :: MerkleMountainRange where
  "Mmr_new = \<lparr>mmr_nodes = [], leaf_count = 0\<rparr>"

definition Mmr_truncated :: "nat \<Rightarrow> MerkleMountainRange \<Rightarrow> MerkleMountainRange" where
  "Mmr_truncated n m =
     (let n = min n (leaf_count m) in \<lparr>mmr_nodes = take (mmr_size n) (mmr_nodes m), leaf_count = n\<rparr>)"

definition Mmr_get :: "MerkleMountainRange \<Rightarrow> nat \<Rightarrow> h256 option" where
  "Mmr_get m pos = (if pos < length (mmr_nodes m) then Some (mmr_nodes m ! pos) else None)"

function cascade :: "hasher \<Rightarrow> bool \<Rightarrow> nat \<Rightarrow> nat \<Rightarrow> h256 list \<Rightarrow> h256 list" where
  "cascade H is_v2 current_pos current_height ns =
     (let sibling_distance = 2 ^ (current_height + 1) - 1 in
      if current_pos < sibling_distance then ns
      else
        let left_pos = current_pos - sibling_distance in
        if pos_height left_pos \<noteq> current_height then ns
        else
          let parent_hash = hash_node H is_v2 (ns ! left_pos) (ns ! current_pos)
          in cascade H is_v2 (length ns) (current_height + 1) (ns @ [parent_hash]))"
  by pat_completeness auto
termination
proof (relation "measure (\<lambda>(H, v, p, h, ns). max p (length ns) + 3 - 2 * 2 ^ h)")
  fix H :: hasher and v :: bool and p h :: nat and ns :: "h256 list" and d l :: nat and x :: h256
  assume "d = 2 ^ (h + 1) - 1" "\<not> p < d"
  then show "((H, v, length ns, h + 1, ns @ [x]), H, v, p, h, ns)
      \<in> measure (\<lambda>(H, v, p, h, ns). max p (length ns) + 3 - 2 * 2 ^ h)"
    using shifts_descend(2) [of "2 ^ h" p "length ns"] by (simp add: not_less)
qed simp

declare cascade.simps [simp del]

definition Mmr_append :: "hasher \<Rightarrow> bool \<Rightarrow> h256 \<Rightarrow> MerkleMountainRange \<Rightarrow> MerkleMountainRange \<times> nat" where
  "Mmr_append H is_v2 leaf_hash m =
     (let leaf_pos = length (mmr_nodes m)
      in (\<lparr>mmr_nodes = cascade H is_v2 leaf_pos 0 (mmr_nodes m @ [leaf_hash]),
           leaf_count = leaf_count m + 1\<rparr>, leaf_pos))"

text \<open>The accumulator starts with the last peak and takes in the others from right to left.\<close>

definition bag_peaks :: "hasher \<Rightarrow> bool \<Rightarrow> h256 list \<Rightarrow> h256" where
  "bag_peaks H is_v2 hashes =
     (if hashes = [] then 0
      else foldl (\<lambda>acc peak. hash_node H is_v2 peak acc) (last hashes) (drop 1 (rev hashes)))"

definition Mmr_root :: "hasher \<Rightarrow> bool \<Rightarrow> MerkleMountainRange \<Rightarrow> h256" where
  "Mmr_root H is_v2 m =
     bag_peaks H is_v2 (map (\<lambda>pos. mmr_nodes m ! pos) (peaks (length (mmr_nodes m))))"

subsection \<open>The forest\<close>

datatype mtree = MLeaf h256 | MNode mtree mtree

fun mheight :: "mtree \<Rightarrow> nat" where
  "mheight (MLeaf x) = 0"
| "mheight (MNode l r) = mheight r + 1"

fun perfect :: "mtree \<Rightarrow> bool" where
  "perfect (MLeaf x) \<longleftrightarrow> True"
| "perfect (MNode l r) \<longleftrightarrow> mheight l = mheight r \<and> perfect l \<and> perfect r"

fun mhash :: "hasher \<Rightarrow> bool \<Rightarrow> mtree \<Rightarrow> h256" where
  "mhash H v (MLeaf x) = x"
| "mhash H v (MNode l r) = hash_node H v (mhash H v l) (mhash H v r)"

fun mleaves :: "mtree \<Rightarrow> h256 list" where
  "mleaves (MLeaf x) = [x]"
| "mleaves (MNode l r) = mleaves l @ mleaves r"

fun postorder :: "hasher \<Rightarrow> bool \<Rightarrow> mtree \<Rightarrow> h256 list" where
  "postorder H v (MLeaf x) = [x]"
| "postorder H v (MNode l r) = postorder H v l @ postorder H v r @ [mhash H v (MNode l r)]"

text \<open>The forest is kept smallest tree first while it is built.\<close>

fun carry :: "mtree \<Rightarrow> mtree list \<Rightarrow> mtree list" where
  "carry t [] = [t]"
| "carry t (u # us) = (if mheight u = mheight t then carry (MNode u t) us else t # u # us)"

definition mforest :: "h256 list \<Rightarrow> mtree list" where
  "mforest xs = foldl (\<lambda>ts x. carry (MLeaf x) ts) [] xs"

definition falling :: "mtree list \<Rightarrow> bool" where
  "falling ts \<longleftrightarrow> (\<forall>t\<in>set ts. perfect t) \<and> sorted_wrt (<) (map mheight ts)"

definition flat :: "hasher \<Rightarrow> bool \<Rightarrow> mtree list \<Rightarrow> h256 list" where
  "flat H v ts = concat (map (postorder H v) (rev ts))"

lemma length_postorder: "perfect t \<Longrightarrow> length (postorder H v t) = 2 ^ (mheight t + 1) - 1"
  by (induction t) (simp_all add: le_add_diff_inverse2)

lemma length_mleaves: "perfect t \<Longrightarrow> length (mleaves t) = 2 ^ mheight t"
  by (induction t) simp_all

lemma last_postorder: "postorder H v t \<noteq> [] \<and> last (postorder H v t) = mhash H v t"
  by (cases t) simp_all

lemma falling_carry:
  assumes "perfect t" and "falling ts" and "\<forall>u\<in>set ts. mheight t \<le> mheight u"
  shows "falling (carry t ts) \<and> concat (map mleaves (rev (carry t ts))) = concat (map mleaves (rev ts)) @ mleaves t"
  using assms
proof (induction t ts rule: carry.induct)
  case (2 t u us)
  show ?case
  proof (cases "mheight u = mheight t")
    case True
    then have "\<forall>w\<in>set us. mheight (MNode u t) \<le> mheight w"
      using 2(3) by (auto simp: falling_def)
    then show ?thesis using 2 True by (simp add: falling_def)
  next
    case False
    then have "mheight t < mheight u" using 2(4) by simp
    then show ?thesis using 2(2,3) False by (auto simp: falling_def intro: less_trans)
  qed
qed (simp add: falling_def)

lemma mforest_ok: "falling (mforest xs) \<and> concat (map mleaves (rev (mforest xs))) = xs"
proof (induction xs rule: rev_induct)
  case Nil
  then show ?case by (simp add: mforest_def falling_def)
next
  case (snoc x xs)
  then show ?case using falling_carry [of "MLeaf x" "mforest xs"] by (simp add: mforest_def)
qed

subsection \<open>Heights by position\<close>

fun heights_of :: "nat \<Rightarrow> nat list" where
  "heights_of 0 = [0]"
| "heights_of (Suc k) = heights_of k @ heights_of k @ [Suc k]"

lemma length_heights_of: "length (heights_of k) = 2 ^ (k + 1) - 1"
  by (induction k) simp_all

lemma descend_heights: "pos < 2 ^ (h + 1) - 1 \<Longrightarrow> descend h pos = heights_of h ! pos"
proof (induction h arbitrary: pos)
  case (Suc h)
  let ?n = "2 ^ Suc h - 1 :: nat"
  have len: "length (heights_of h) = ?n" by (simp add: length_heights_of)
  have two: "2 ^ (Suc h + 1) - 2 = 2 * ?n" by simp
  have whole: "heights_of (Suc h) ! pos = Suc h" if "pos = 2 * ?n"
    using that len nth_append_length [of "heights_of h @ heights_of h" "Suc h" "[]"] by (simp add: mult_2)
  consider "pos < ?n" | "?n \<le> pos" "pos < 2 * ?n" | "pos = 2 * ?n" using Suc.prems by force
  then show ?case
  proof cases
    case 1
    then have "pos \<noteq> 2 ^ (Suc h + 1) - 2" unfolding two by linarith
    then show ?thesis using 1 Suc.IH [of pos] by (simp add: nth_append len Let_def del: power_Suc)
  next
    case 2
    then have "pos \<noteq> 2 ^ (Suc h + 1) - 2" unfolding two by linarith
    moreover have "pos - ?n < ?n" using 2 by linarith
    ultimately show ?thesis
      using 2 Suc.IH [of "pos - ?n"] by (simp add: nth_append len Let_def del: power_Suc)
  next
    case 3
    then have "pos = 2 ^ (Suc h + 1) - 2" unfolding two .
    then show ?thesis using whole [OF 3] by (simp del: heights_of.simps power_Suc)
  qed
qed simp

lemma smallest_height_spec:
  "pos < 2 ^ (smallest_height h pos + 1) - 1 \<and> h \<le> smallest_height h pos \<and>
   (smallest_height h pos = h \<or> 2 ^ smallest_height h pos - 1 \<le> pos)"
proof (induction h pos rule: smallest_height.induct)
  case (1 h pos)
  show ?case
  proof (cases "2 ^ (h + 1) - 1 \<le> pos")
    case True
    then show ?thesis using 1 smallest_height.simps [of h pos] by auto
  next
    case False
    then show ?thesis using smallest_height.simps [of h pos] by auto
  qed
qed

lemma heights_of_prefix: "k \<le> k' \<Longrightarrow> pos < 2 ^ (k + 1) - 1 \<Longrightarrow> heights_of k' ! pos = heights_of k ! pos"
proof (induction k' rule: nat_induct_at_least)
  case (Suc n)
  have "(2 :: nat) ^ (k + 1) \<le> 2 ^ (n + 1)" using Suc by (intro power_increasing) auto
  then have "pos < length (heights_of n)" using Suc.prems unfolding length_heights_of by linarith
  then show ?case using Suc by (simp add: nth_append)
qed simp

lemma pos_height_nth: "pos < 2 ^ (k + 1) - 1 \<Longrightarrow> pos_height pos = heights_of k ! pos"
proof -
  assume k: "pos < 2 ^ (k + 1) - 1"
  let ?h = "smallest_height 0 pos"
  note sp = smallest_height_spec [of pos 0]
  have "?h \<le> k"
  proof (rule ccontr)
    assume "\<not> ?h \<le> k"
    then have "(2 :: nat) ^ (k + 1) \<le> 2 ^ ?h" by (intro power_increasing) auto
    then show False using sp k \<open>\<not> ?h \<le> k\<close> by auto
  qed
  then show ?thesis
    using descend_heights [of pos ?h] heights_of_prefix [of ?h k pos] sp by (simp add: pos_height_def)
qed

lemma two_power_room: "2 \<le> (2 :: nat) ^ (m + 1)" "Suc 0 < (2 :: nat) ^ Suc m"
  using one_less_power [of "2 :: nat" "Suc m"] by (simp_all del: power_Suc)

definition flat_heights :: "nat list \<Rightarrow> nat list" where
  "flat_heights ks = concat (map heights_of (rev ks))"

lemma flat_heights_prefix:
  assumes "sorted_wrt (<) ks" and "\<forall>k\<in>set ks. k < m"
  shows "length (flat_heights ks) < 2 ^ (m + 1) - 1 \<and>
    (\<forall>pos < length (flat_heights ks). flat_heights ks ! pos = heights_of m ! pos)"
  using assms
proof (induction ks arbitrary: m rule: rev_induct)
  case Nil
  show ?case using two_power_room [of m] by (simp add: flat_heights_def del: power_Suc)
next
  case (snoc k ks)
  have split: "flat_heights (ks @ [k]) = heights_of k @ flat_heights ks" by (simp add: flat_heights_def)
  have ih: "length (flat_heights ks) < 2 ^ (k + 1) - 1"
      "\<And>pos. pos < length (flat_heights ks) \<Longrightarrow> flat_heights ks ! pos = heights_of k ! pos"
    using snoc.IH [of k] snoc.prems(1) by (auto simp: sorted_wrt_append)
  have len: "length (heights_of k) = 2 ^ (k + 1) - 1" by (rule length_heights_of)
  have pow: "(2 :: nat) ^ (Suc k + 1) \<le> 2 ^ (m + 1)" using snoc.prems(2) by (intro power_increasing) auto
  have dbl: "(2 :: nat) ^ (Suc k + 1) = 2 * 2 ^ (k + 1)" by simp
  have tot: "length (flat_heights (ks @ [k])) < 2 ^ (Suc k + 1) - 1"
    unfolding split length_append len using ih(1) dbl by linarith
  moreover have "flat_heights (ks @ [k]) ! pos = heights_of m ! pos"
    if "pos < length (flat_heights (ks @ [k]))" for pos
  proof -
    have "flat_heights (ks @ [k]) ! pos = heights_of (Suc k) ! pos"
      using that ih unfolding split heights_of.simps by (auto simp: nth_append len)
    moreover have "pos < 2 ^ (Suc k + 1) - 1" using that tot by linarith
    ultimately show ?thesis using heights_of_prefix [of "Suc k" m pos] snoc.prems(2) by simp
  qed
  ultimately show ?case using pow by auto
qed

lemma pos_height_flat:
  assumes "sorted_wrt (<) ks" and "pos < length (flat_heights ks)"
  shows "pos_height pos = flat_heights ks ! pos"
proof -
  obtain m where m: "\<forall>k\<in>set ks. k < m" by (metis finite_nat_set_iff_bounded List.finite_set)
  then show ?thesis
    using flat_heights_prefix [OF assms(1) m] assms(2) pos_height_nth [of pos m] by simp
qed

lemma length_flat:
  "\<forall>t\<in>set ts. perfect t \<Longrightarrow> length (flat H v ts) = length (flat_heights (map mheight ts))"
  by (induction ts) (simp_all add: flat_def flat_heights_def length_postorder length_heights_of)

lemma flat_Cons: "flat H v (t # ts) = flat H v ts @ postorder H v t"
  by (simp add: flat_def)

lemma last_heights_of: "heights_of k ! (2 ^ (k + 1) - 2) = k"
proof (cases k)
  case (Suc j)
  have "2 ^ (k + 1) - 2 = length (heights_of j @ heights_of j)"
    by (simp add: Suc length_heights_of)
  then show ?thesis using Suc nth_append_length [of "heights_of j @ heights_of j" "Suc j" "[]"] by simp
qed simp

lemma peak_height:
  assumes "falling (u # us)"
  shows "pos_height (length (flat H v us @ postorder H v u) - 1) = mheight u"
proof -
  let ?ks = "map mheight (u # us)"
  let ?h = "mheight u"
  have perf: "\<forall>t\<in>set us. perfect t" "perfect u" using assms by (auto simp: falling_def)
  have fl: "flat_heights ?ks = flat_heights (map mheight us) @ heights_of ?h"
    by (simp add: flat_heights_def)
  note one = two_power_room [of ?h]
  have pos: "length (flat H v us @ postorder H v u) - 1
      = length (flat_heights (map mheight us)) + (2 ^ (?h + 1) - 2)"
    using one unfolding length_append length_flat [OF perf(1)] length_postorder [OF perf(2)] by linarith
  have "length (flat_heights (map mheight us)) + (2 ^ (?h + 1) - 2) < length (flat_heights ?ks)"
    using one unfolding fl length_append length_heights_of by linarith
  then have "pos_height (length (flat H v us @ postorder H v u) - 1)
      = flat_heights ?ks ! (length (flat_heights (map mheight us)) + (2 ^ (?h + 1) - 2))"
    unfolding pos using assms by (intro pos_height_flat) (simp_all add: falling_def)
  also have "\<dots> = mheight u" unfolding fl nth_append_length_plus by (rule last_heights_of)
  finally show ?thesis .
qed

lemma nth_last_append: "ys \<noteq> [] \<Longrightarrow> (xs @ ys) ! (length (xs @ ys) - 1) = last ys"
  by (subst last_conv_nth [symmetric]) simp_all

lemma cascade_carry:
  assumes "perfect t" and "falling ts" and "\<forall>u\<in>set ts. mheight t \<le> mheight u"
  shows "cascade H v (length (flat H v (t # ts)) - 1) (mheight t) (flat H v (t # ts)) = flat H v (carry t ts)"
  using assms
proof (induction t ts rule: carry.induct)
  case (1 t)
  have "length (postorder H v t) - 1 < 2 ^ (mheight t + 1) - 1"
    using two_power_room [of "mheight t"] unfolding length_postorder [OF 1(1)] by linarith
  then show ?case
    using cascade.simps [of H v "length (postorder H v t) - 1" "mheight t" "postorder H v t"]
    by (simp add: flat_def Let_def del: power_Suc)
next
  case (2 t u us)
  let ?d = "2 ^ (mheight t + 1) - 1 :: nat"
  let ?ns = "flat H v (t # u # us)"
  let ?left = "length (flat H v us @ postorder H v u) - 1"
  have d: "length (postorder H v t) = ?d" by (rule length_postorder [OF 2(2)])
  have one: "1 \<le> length (postorder H v u)" using last_postorder [of H v u] by (simp add: Suc_leI)
  have len: "length ?ns = length (flat H v us @ postorder H v u) + ?d"
    unfolding flat_Cons length_append d by simp
  have cur: "\<not> length ?ns - 1 < ?d" "length ?ns - 1 - ?d = ?left"
    using len one unfolding length_append by linarith+
  have left: "pos_height ?left = mheight u" by (rule peak_height [OF 2(3)])
  have hl: "?ns ! ?left = mhash H v u"
  proof -
    have "?left < length (flat H v us @ postorder H v u)" using one unfolding length_append by linarith
    then have "?ns ! ?left = (flat H v us @ postorder H v u) ! ?left"
      unfolding flat_Cons by (rule nth_append_left)
    then show ?thesis using nth_last_append [of "postorder H v u" "flat H v us"] last_postorder [of H v u] by simp
  qed
  have hc: "?ns ! (length ?ns - 1) = mhash H v t"
    using nth_last_append [of "postorder H v t" "flat H v (u # us)"] last_postorder [of H v t] by (simp add: flat_Cons)
  show ?case
  proof (cases "mheight u = mheight t")
    case True
    have fall: "falling us" "perfect (MNode u t)" "\<forall>w\<in>set us. mheight (MNode u t) \<le> mheight w"
      using 2(2,3) True by (auto simp: falling_def)
    have app: "?ns @ [hash_node H v (?ns ! ?left) (?ns ! (length ?ns - 1))] = flat H v (MNode u t # us)"
      unfolding hl hc by (simp add: flat_Cons)
    have "cascade H v (length ?ns - 1) (mheight t) ?ns
        = cascade H v (length ?ns) (mheight t + 1) (flat H v (MNode u t # us))"
      using cascade.simps [of H v "length ?ns - 1" "mheight t" ?ns] cur left True app
      by (simp add: Let_def del: power_Suc)
    also have "\<dots> = flat H v (carry (MNode u t) us)"
    proof -
      have "length (flat H v (MNode u t # us)) - 1 = length ?ns" unfolding app [symmetric] by simp
      then show ?thesis using 2(1) [OF True fall(2,1,3)] by simp
    qed
    finally show ?thesis using True by simp
  next
    case False
    then show ?thesis
      using cascade.simps [of H v "length ?ns - 1" "mheight t" ?ns] cur left by (simp add: Let_def del: power_Suc)
  qed
qed

subsection \<open>Peaks\<close>

lemma smallest_height_peak:
  assumes "2 ^ (k + 1) - 1 \<le> r" and "r < 2 ^ (Suc k + 1) - 1"
  shows "smallest_height 1 r = k + 1"
proof -
  let ?h = "smallest_height 1 r"
  note sp = smallest_height_spec [of r 1]
  have "\<not> ?h \<le> k"
  proof
    assume "?h \<le> k"
    then have "(2 :: nat) ^ (?h + 1) \<le> 2 ^ (k + 1)" by (intro power_increasing) auto
    then show False using sp assms(1) by linarith
  qed
  moreover have "\<not> Suc k + 1 \<le> ?h"
  proof
    assume h: "Suc k + 1 \<le> ?h"
    then have "(2 :: nat) ^ (Suc k + 1) \<le> 2 ^ ?h" by (intro power_increasing) auto
    then show False using sp assms(2) h by linarith
  qed
  ultimately show ?thesis by linarith
qed

lemma peaks_from_step:
  assumes "smallest_height 1 (s + r) = h" and "s = 2 ^ h - 1" and "1 \<le> s"
  shows "peaks_from off (s + r) = (off + s - 1) # peaks_from (off + s) r"
proof -
  have "2 ^ smallest_height 1 (s + r) - 1 = s" using assms(1,2) by simp
  from peaks_from.simps [of off "s + r", unfolded this] show ?thesis
    using assms(3) by (simp add: Let_def)
qed

lemma peaks_from_heights:
  assumes "sorted_wrt (<) (ks @ [k])"
  shows "peaks_from off (length (flat_heights (ks @ [k])))
    = (off + (2 ^ (k + 1) - 1) - 1) # peaks_from (off + (2 ^ (k + 1) - 1)) (length (flat_heights ks))"
proof -
  let ?s = "2 ^ (k + 1) - 1 :: nat"
  have len: "length (flat_heights (ks @ [k])) = ?s + length (flat_heights ks)"
    by (simp add: flat_heights_def length_heights_of)
  have small: "length (flat_heights ks) < ?s"
    using assms flat_heights_prefix [of ks k] by (simp add: sorted_wrt_append)
  have "(2 :: nat) ^ (Suc k + 1) = 2 * 2 ^ (k + 1)" by simp
  then have h: "smallest_height 1 (length (flat_heights (ks @ [k]))) = k + 1"
    using small unfolding len by (intro smallest_height_peak) linarith+
  have s: "1 \<le> ?s" using two_power_room(1) [of k] by linarith
  show ?thesis unfolding len by (rule peaks_from_step [OF h [unfolded len] refl s])
qed

lemma peaks_from_flat:
  assumes "falling ts"
  shows "map (\<lambda>pos. (pre @ flat H v ts) ! pos) (peaks_from (length pre) (length (flat H v ts)))
    = map (mhash H v) (rev ts)"
  using assms
proof (induction ts arbitrary: pre rule: rev_induct)
  case Nil
  then show ?case by (simp add: flat_def peaks_from.simps)
next
  case (snoc t ts)
  have fall: "falling ts" "perfect t" "\<forall>k\<in>set (map mheight ts). k < mheight t"
    and perf: "\<forall>u\<in>set ts. perfect u" and sorted: "sorted_wrt (<) (map mheight ts)"
    using snoc.prems by (auto simp: falling_def sorted_wrt_append)
  let ?s = "2 ^ (mheight t + 1) - 1 :: nat"
  have split: "flat H v (ts @ [t]) = postorder H v t @ flat H v ts" by (simp add: flat_def)
  have s: "1 \<le> ?s" using two_power_room(1) [of "mheight t"] by linarith
  have lens: "length (flat H v ts) = length (flat_heights (map mheight ts))"
    "length (flat H v (ts @ [t])) = length (flat_heights (map mheight ts @ [mheight t]))"
    using length_flat [OF perf] length_flat [of "ts @ [t]"] perf fall(2) by simp_all
  have step: "peaks_from (length pre) (length (flat H v (ts @ [t])))
      = (length pre + ?s - 1) # peaks_from (length pre + ?s) (length (flat H v ts))"
    unfolding lens using snoc.prems by (intro peaks_from_heights) (simp add: falling_def)
  have off: "length pre + ?s = length (pre @ postorder H v t)" by (simp add: length_postorder [OF fall(2)])
  have at: "(pre @ flat H v (ts @ [t])) ! (length pre + ?s - 1) = mhash H v t"
  proof -
    have i: "length pre + ?s - 1 = length (pre @ postorder H v t) - 1"
      by (simp add: length_postorder [OF fall(2)])
    have "length (pre @ postorder H v t) - 1 < length (pre @ postorder H v t)"
      using s by (simp add: length_postorder [OF fall(2)])
    then have "((pre @ postorder H v t) @ flat H v ts) ! (length pre + ?s - 1)
        = (pre @ postorder H v t) ! (length (pre @ postorder H v t) - 1)"
      unfolding i by (rule nth_append_left)
    then show ?thesis
      using nth_last_append [of "postorder H v t" pre] last_postorder [of H v t] by (simp add: split)
  qed
  have assoc: "pre @ flat H v (ts @ [t]) = (pre @ postorder H v t) @ flat H v ts" by (simp add: split)
  have "map (\<lambda>pos. (pre @ flat H v (ts @ [t])) ! pos) (peaks_from (length pre) (length (flat H v (ts @ [t]))))
      = mhash H v t # map (\<lambda>pos. (pre @ flat H v (ts @ [t])) ! pos) (peaks_from (length pre + ?s) (length (flat H v ts)))"
    unfolding step list.map at ..
  also have "\<dots> = mhash H v t # map (mhash H v) (rev ts)"
    unfolding off assoc snoc.IH [OF fall(1), of "pre @ postorder H v t"] ..
  finally show ?case by simp
qed

subsection \<open>Sizes\<close>

lemma count_ones_double: "count_ones (2 * n) = count_ones n" "count_ones (2 * n + 1) = Suc (count_ones n)"
  using count_ones.simps [of "2 * n"] count_ones.simps [of "2 * n + 1"] count_ones.simps [of 0] by auto

lemma sum_powers_pred:
  "\<forall>k\<in>set ks. 0 < k \<Longrightarrow> sum_list (map (\<lambda>k. 2 ^ k) ks) = (2 :: nat) * sum_list (map (\<lambda>k. 2 ^ (k - 1)) ks)"
  by (induction ks) (auto simp: algebra_simps power_eq_if)

lemma sorted_pred:
  "sorted_wrt (<) ks \<Longrightarrow> \<forall>k\<in>set ks. 0 < (k :: nat) \<Longrightarrow> sorted_wrt (<) (map (\<lambda>k. k - 1) ks)"
  by (induction ks) (auto simp: diff_less_mono)

lemma count_ones_powers:
  "sorted_wrt (<) ks \<Longrightarrow> count_ones (sum_list (map (\<lambda>k. 2 ^ k) ks)) = length ks"
proof (induction "sum_list (map (\<lambda>k. 2 ^ k) ks) :: nat" arbitrary: ks rule: less_induct)
  case less
  show ?case
  proof (cases ks)
    case Nil
    then show ?thesis by (simp add: count_ones.simps)
  next
    case (Cons k js)
    define js' where "js' = (if k = 0 then js else ks)"
    have pos: "\<forall>j\<in>set js'. 0 < j" using less.prems Cons by (auto simp: js'_def)
    have sorted: "sorted_wrt (<) (map (\<lambda>k. k - 1) js')"
      using sorted_pred [OF _ pos] less.prems Cons by (auto simp: js'_def)
    let ?m = "sum_list (map (\<lambda>k. 2 ^ k) (map (\<lambda>k. k - 1) js')) :: nat"
    have m: "sum_list (map (\<lambda>k. 2 ^ k) js') = 2 * ?m"
      using sum_powers_pred [OF pos] by (simp add: comp_def)
    have tot: "sum_list (map (\<lambda>k. 2 ^ k) ks) = 2 * ?m + (if k = 0 then 1 else 0)"
      using m Cons by (auto simp: js'_def)
    have "0 < (2 :: nat) ^ k" by simp
    then have "(0 :: nat) < sum_list (map (\<lambda>k. 2 ^ k) ks)" using Cons by simp
    then have "?m < sum_list (map (\<lambda>k. 2 ^ k) ks)" using tot by (cases "k = 0") auto
    from less.hyps [OF this sorted] show ?thesis
      using tot Cons count_ones_double [of ?m] by (auto simp: js'_def)
  qed
qed

lemma forest_leaf_count:
  "\<forall>t\<in>set ts. perfect t \<Longrightarrow>
     length (concat (map mleaves (rev ts))) = sum_list (map (\<lambda>k. 2 ^ k) (map mheight ts))"
  by (induction ts) (simp_all add: length_mleaves)

lemma flat_heights_size:
  "length (flat_heights ks) + length ks = 2 * sum_list (map (\<lambda>k. 2 ^ k) ks)"
proof (induction ks)
  case (Cons k ks)
  have "length (flat_heights (k # ks)) = length (flat_heights ks) + (2 ^ (k + 1) - 1)"
    by (simp add: flat_heights_def length_heights_of)
  moreover have "(2 :: nat) ^ (k + 1) = 2 * 2 ^ k" by simp
  moreover have "length (k # ks) = length ks + 1"
    "sum_list (map (\<lambda>k. 2 ^ k) (k # ks)) = 2 ^ k + (sum_list (map (\<lambda>k. 2 ^ k) ks) :: nat)" by simp_all
  ultimately show ?case using Cons two_power_room(1) [of k] by linarith
qed (simp add: flat_heights_def)

lemma flat_size:
  assumes "falling ts"
  shows "length (flat H v ts) = mmr_size (length (concat (map mleaves (rev ts))))"
proof -
  let ?ks = "map mheight ts"
  have perf: "\<forall>t\<in>set ts. perfect t" and sorted: "sorted_wrt (<) ?ks" using assms by (auto simp: falling_def)
  have "length (flat_heights ?ks) + count_ones (sum_list (map (\<lambda>k. 2 ^ k) ?ks))
      = 2 * sum_list (map (\<lambda>k. 2 ^ k) ?ks)"
    using flat_heights_size [of ?ks] count_ones_powers [OF sorted] by simp
  then show ?thesis
    unfolding mmr_size_def forest_leaf_count [OF perf] length_flat [OF perf] by auto
qed

subsection \<open>The reference\<close>

fun big_power :: "nat \<Rightarrow> nat" where
  "big_power n = (if n \<le> 1 then 1 else 2 * big_power (n div 2))"

declare big_power.simps [simp del]

lemma big_power_eq: "2 ^ h \<le> n \<Longrightarrow> n < 2 ^ (h + 1) \<Longrightarrow> big_power n = 2 ^ h"
proof (induction h arbitrary: n)
  case 0
  then show ?case by (simp add: big_power.simps)
next
  case (Suc h)
  have "2 ^ h \<le> n div 2" "n div 2 < 2 ^ (h + 1)" using Suc.prems by auto
  moreover have "\<not> n \<le> 1" using Suc.prems(1) two_power_room(1) [of h] unfolding Suc_eq_plus1 by linarith
  ultimately show ?case using Suc.IH [of "n div 2"] big_power.simps [of n] by simp
qed

lemma big_power_le: "1 \<le> n \<Longrightarrow> 1 \<le> big_power n \<and> big_power n \<le> n"
proof (induction n rule: big_power.induct)
  case (1 n)
  show ?case
  proof (cases "n \<le> 1")
    case False
    then have "1 \<le> big_power (n div 2)" "big_power (n div 2) \<le> n div 2" using 1 by auto
    then show ?thesis using big_power.simps [of n] False by simp
  qed (use 1 big_power.simps [of n] in simp)
qed

text \<open>The Merkle tree of a list of leaves, and the root of a list of any length: the largest full tree
  on the left, the rest on the right.\<close>

function merkle :: "hasher \<Rightarrow> bool \<Rightarrow> h256 list \<Rightarrow> h256" where
  "merkle H v xs =
     (if length xs \<le> 1 then (case xs of x # _ \<Rightarrow> x | [] \<Rightarrow> 0)
      else hash_node H v (merkle H v (take (length xs div 2) xs)) (merkle H v (drop (length xs div 2) xs)))"
  by pat_completeness auto
termination by (relation "measure (\<lambda>(_, _, xs). length xs)") auto

declare merkle.simps [simp del]

function root_of_leaves :: "hasher \<Rightarrow> bool \<Rightarrow> h256 list \<Rightarrow> h256" where
  "root_of_leaves H v xs =
     (if xs = [] then 0
      else
        let k = big_power (length xs) in
        if k = length xs then merkle H v xs
        else hash_node H v (merkle H v (take k xs)) (root_of_leaves H v (drop k xs)))"
  by pat_completeness auto
termination
proof (relation "measure (\<lambda>(_, _, xs). length xs)")
  fix H :: hasher and v :: bool and xs :: "h256 list" and k :: nat
  assume "xs \<noteq> []" "k = big_power (length xs)"
  then show "((H, v, drop k xs), H, v, xs) \<in> measure (\<lambda>(_, _, xs). length xs)"
    using big_power_le [of "length xs"] by (cases xs) auto
qed simp

declare root_of_leaves.simps [simp del]

lemma merkle_perfect: "perfect t \<Longrightarrow> merkle H v (mleaves t) = mhash H v t"
proof (induction t)
  case (MLeaf x)
  then show ?case by (simp add: merkle.simps)
next
  case (MNode l r)
  have len: "length (mleaves l) = 2 ^ mheight r" "length (mleaves r) = 2 ^ mheight r"
    using MNode.prems by (simp_all add: length_mleaves)
  have "\<not> length (mleaves l @ mleaves r) \<le> 1"
    using len two_power_room(1) [of "mheight r"] unfolding length_append power_add power_one_right by linarith
  then show ?case
    using MNode merkle.simps [of H v "mleaves l @ mleaves r"] len by (simp add: mult_2 [symmetric])
qed

lemma bag_peaks_Cons: "xs \<noteq> [] \<Longrightarrow> bag_peaks H v (x # xs) = hash_node H v x (bag_peaks H v xs)"
  by (cases xs rule: rev_cases) (simp_all add: bag_peaks_def)

lemma bag_peaks_single: "bag_peaks H v [x] = x"
  by (simp add: bag_peaks_def)

lemma forest_leaves_small:
  "falling ts \<Longrightarrow> \<forall>t\<in>set ts. mheight t < k \<Longrightarrow> length (concat (map mleaves (rev ts))) < 2 ^ k"
proof (induction ts arbitrary: k rule: rev_induct)
  case (snoc t ts)
  have "falling ts" "\<forall>u\<in>set ts. mheight u < mheight t" "perfect t"
    using snoc.prems(1) by (auto simp: falling_def sorted_wrt_append)
  then have "length (concat (map mleaves (rev (ts @ [t])))) < 2 ^ mheight t + 2 ^ mheight t"
    using snoc.IH [of "mheight t"] by (simp add: length_mleaves)
  also have "\<dots> = (2 :: nat) ^ Suc (mheight t)" by simp
  also have "\<dots> \<le> 2 ^ k" using snoc.prems(2) by (intro power_increasing) auto
  finally show ?case .
qed simp

lemma mleaves_nonempty: "mleaves t \<noteq> []"
  by (induction t) simp_all

lemma root_of_forest:
  assumes "falling ts"
  shows "root_of_leaves H v (concat (map mleaves (rev ts))) = bag_peaks H v (map (mhash H v) (rev ts))"
  using assms
proof (induction ts rule: rev_induct)
  case Nil
  then show ?case by (simp add: root_of_leaves.simps bag_peaks_def)
next
  case (snoc t ts)
  have fall: "falling ts" "\<forall>u\<in>set ts. mheight u < mheight t" "perfect t"
    using snoc.prems by (auto simp: falling_def sorted_wrt_append)
  let ?rest = "concat (map mleaves (rev ts))"
  let ?xs = "concat (map mleaves (rev (ts @ [t])))"
  have xs: "?xs = mleaves t @ ?rest" and len: "length (mleaves t) = 2 ^ mheight t"
    by (simp_all add: length_mleaves [OF fall(3)])
  have small: "length ?rest < 2 ^ mheight t" by (rule forest_leaves_small [OF fall(1,2)])
  have k: "big_power (length ?xs) = 2 ^ mheight t"
    using small by (intro big_power_eq) (simp_all add: xs len)
  have ne: "?xs \<noteq> []" using mleaves_nonempty [of t] by (simp add: xs)
  show ?case
  proof (cases "ts = []")
    case True
    then show ?thesis
      using root_of_leaves.simps [of H v ?xs] ne k len merkle_perfect [OF fall(3)]
      by (simp add: Let_def bag_peaks_single)
  next
    case False
    then have "0 < length ?rest" using mleaves_nonempty by (cases ts) auto
    then have kl: "2 ^ mheight t \<noteq> length ?xs" by (simp add: xs len)
    have "root_of_leaves H v ?xs
        = hash_node H v (merkle H v (take (2 ^ mheight t) ?xs)) (root_of_leaves H v (drop (2 ^ mheight t) ?xs))"
      using root_of_leaves.simps [of H v ?xs, unfolded k] ne kl unfolding Let_def by presburger
    also have "\<dots> = hash_node H v (mhash H v t) (root_of_leaves H v ?rest)"
      using len merkle_perfect [OF fall(3)] by (simp add: xs)
    finally show ?thesis using snoc.IH [OF fall(1)] False by (simp add: bag_peaks_Cons)
  qed
qed

subsection \<open>The range is its list of leaves\<close>

definition mmr_of :: "hasher \<Rightarrow> bool \<Rightarrow> h256 list \<Rightarrow> MerkleMountainRange" where
  "mmr_of H v xs = \<lparr>mmr_nodes = flat H v (mforest xs), leaf_count = length xs\<rparr>"

lemma mforest_snoc: "mforest (xs @ [x]) = carry (MLeaf x) (mforest xs)"
  by (simp add: mforest_def)

lemma append_mmr_of: "Mmr_append H v x (mmr_of H v xs) = (mmr_of H v (xs @ [x]), length (flat H v (mforest xs)))"
proof -
  have "cascade H v (length (flat H v (mforest xs))) 0 (flat H v (mforest xs) @ [x])
      = flat H v (carry (MLeaf x) (mforest xs))"
    using cascade_carry [of "MLeaf x" "mforest xs" H v] mforest_ok [of xs] by (simp add: flat_Cons)
  then show ?thesis by (simp add: Mmr_append_def mmr_of_def mforest_snoc Let_def)
qed

lemma flat_mforest_size: "length (flat H v (mforest xs)) = mmr_size (length xs)"
  using flat_size [of "mforest xs" H v] mforest_ok [of xs] by simp

lemma root_mmr_of: "Mmr_root H v (mmr_of H v xs) = root_of_leaves H v xs"
  using peaks_from_flat [of "mforest xs" "[]" H v] root_of_forest [of "mforest xs" H v] mforest_ok [of xs]
  by (simp add: Mmr_root_def mmr_of_def peaks_def)

lemma carry_extends: "\<exists>zs. flat H v (carry t ts) = flat H v (t # ts) @ zs"
proof (induction t ts rule: carry.induct)
  case (2 t u us)
  show ?case
  proof (cases "mheight u = mheight t")
    case True
    with 2 obtain zs where "flat H v (carry (MNode u t) us) = flat H v (MNode u t # us) @ zs" by blast
    then show ?thesis using True by (simp add: flat_Cons)
  qed simp
qed simp

lemma mforest_extends: "\<exists>zs. flat H v (mforest (xs @ ys)) = flat H v (mforest xs) @ zs"
proof (induction ys rule: rev_induct)
  case (snoc y ys)
  then obtain zs where "flat H v (mforest (xs @ ys)) = flat H v (mforest xs) @ zs" by blast
  then show ?case
    using carry_extends [of H v "MLeaf y" "mforest (xs @ ys)"] mforest_snoc [of "xs @ ys" y]
    by (auto simp: flat_Cons)
qed simp

lemma truncated_mmr_of: "Mmr_truncated n (mmr_of H v xs) = mmr_of H v (take n xs)"
proof -
  obtain zs where "flat H v (mforest xs) = flat H v (mforest (take n xs)) @ zs"
    using mforest_extends [of H v "take n xs" "drop n xs"] by auto
  then show ?thesis
    using flat_mforest_size [of H v "take n xs"]
    by (simp add: Mmr_truncated_def mmr_of_def Let_def min.commute)
qed

text \<open>C24. The position arithmetic implements the list of leaves: appending adds a leaf at the next position,
  the node array of \<open>n\<close> leaves has \<open>2n - popcount n\<close> entries, the root is the Merkle root of the leaves,
  and truncating to \<open>n\<close> leaves gives the range of the first \<open>n\<close> with nothing rehashed.\<close>

theorem mmr_refines_leaves:
  "mmr_of H v [] = Mmr_new \<and>
   Mmr_append H v x (mmr_of H v xs) = (mmr_of H v (xs @ [x]), mmr_size (length xs)) \<and>
   length (mmr_nodes (mmr_of H v xs)) = mmr_size (length xs) \<and>
   Mmr_root H v (mmr_of H v xs) = root_of_leaves H v xs \<and>
   Mmr_truncated n (mmr_of H v xs) = mmr_of H v (take n xs)"
  using append_mmr_of root_mmr_of truncated_mmr_of flat_mforest_size
  by (simp add: mmr_of_def Mmr_new_def mforest_def flat_def)

subsection \<open>Inclusion proofs\<close>

record MmrProof =
  mp_leaf_pos :: nat
  mp_siblings :: "ProofElement list"
  mp_peak_hashes :: "h256 list"
  mp_peak_index :: nat
  mp_mmr_size :: nat

definition climb_step :: "hasher \<Rightarrow> bool \<Rightarrow> ProofElement \<Rightarrow> h256 \<Rightarrow> h256" where
  "climb_step H is_v2 elem current =
     (if is_right elem then hash_node H is_v2 current (pe_hash elem)
      else hash_node H is_v2 (pe_hash elem) current)"

definition verify_mmr_proof :: "hasher \<Rightarrow> bool \<Rightarrow> h256 \<Rightarrow> MmrProof \<Rightarrow> h256 \<Rightarrow> bool" where
  "verify_mmr_proof H is_v2 leaf_hash p expected_root =
     (if mp_peak_hashes p = [] \<or> length (mp_peak_hashes p) \<le> mp_peak_index p then False
      else
        let current = fold (climb_step H is_v2) (mp_siblings p) leaf_hash in
        if current \<noteq> mp_peak_hashes p ! mp_peak_index p then False
        else bag_peaks H is_v2 (mp_peak_hashes p) = expected_root)"

datatype mmr_error = OutOfRange nat nat | NotALeaf nat | ClimbedToNonPeak

text \<open>The climb of \<^verbatim>\<open>prove\<close>: one sibling a level, until a peak. The fuel bounds the steps; the
  position grows at each, so the number of nodes is enough.\<close>

fun prove_climb ::
    "nat \<Rightarrow> h256 list \<Rightarrow> nat list \<Rightarrow> nat \<Rightarrow> nat \<Rightarrow> ProofElement list \<Rightarrow> (ProofElement list \<times> nat) option" where
  "prove_climb 0 ns peak_positions pos height sibs = None"
| "prove_climb (Suc fuel) ns peak_positions pos height sibs =
     (if pos \<in> set peak_positions then Some (sibs, pos)
      else
        let right_sibling = pos + 2 ^ (height + 1) - 1 in
        if right_sibling < length ns \<and> pos_height right_sibling = height
        then prove_climb fuel ns peak_positions (right_sibling + 1) (height + 1)
               (sibs @ [\<lparr>pe_hash = ns ! right_sibling, is_right = True\<rparr>])
        else
          let left_sibling = pos - (2 ^ (height + 1) - 1)
          in prove_climb fuel ns peak_positions (pos + 1) (height + 1)
               (sibs @ [\<lparr>pe_hash = ns ! left_sibling, is_right = False\<rparr>]))"

definition Mmr_prove :: "MerkleMountainRange \<Rightarrow> nat \<Rightarrow> mmr_error + MmrProof" where
  "Mmr_prove m leaf_pos =
     (let ns = mmr_nodes m; sz = length ns in
      if sz \<le> leaf_pos then Inl (OutOfRange leaf_pos sz)
      else if pos_height leaf_pos \<noteq> 0 then Inl (NotALeaf leaf_pos)
      else
        let peak_positions = peaks sz in
        case prove_climb sz ns peak_positions leaf_pos 0 [] of
          None \<Rightarrow> Inl ClimbedToNonPeak
        | Some (sibs, our_peak_pos) \<Rightarrow>
            Inr \<lparr>mp_leaf_pos = leaf_pos, mp_siblings = sibs,
                 mp_peak_hashes = map (\<lambda>p. ns ! p) peak_positions,
                 mp_peak_index = length (takeWhile (\<lambda>p. p \<noteq> our_peak_pos) peak_positions),
                 mp_mmr_size = sz\<rparr>)"

text \<open>A position that is no peak is a left child, with its sibling and parent behind it, or a right child,
  and the source's test tells which.\<close>

definition child :: "nat list \<Rightarrow> nat \<Rightarrow> bool" where
  "child hs p \<longleftrightarrow>
     (let h = hs ! p; d = 2 ^ (h + 1) in
      p + d < length hs \<and> hs ! (p + d - 1) = h \<and> hs ! (p + d) = h + 1 \<or>
      p + 1 < length hs \<and> hs ! (p + 1) = h + 1 \<and> d - 1 \<le> p \<and>
        \<not> (p + d - 1 < length hs \<and> hs ! (p + d - 1) = h))"

lemma heights_of_le: "i < length (heights_of m) \<Longrightarrow> heights_of m ! i \<le> m"
proof -
  have "x \<in> set (heights_of m) \<Longrightarrow> x \<le> m" for x by (induction m) auto
  then show "i < length (heights_of m) \<Longrightarrow> heights_of m ! i \<le> m" using nth_mem by blast
qed

lemma heights_of_small:
  assumes "i < length (heights_of m)" and "i < 2 ^ (h + 1) - 2"
  shows "heights_of m ! i < h"
proof (cases "m < h")
  case True
  then show ?thesis using heights_of_le [OF assms(1)] by simp
next
  case False
  have "heights_of m ! i = heights_of h ! i" using False assms(2) by (intro heights_of_prefix) linarith+
  also have "\<dots> < h"
  proof (cases h)
    case 0
    then show ?thesis using assms(2) by simp
  next
    case (Suc j)
    have "length (heights_of j @ heights_of j) = 2 ^ (h + 1) - 2" by (simp add: Suc length_heights_of)
    then have i: "i < length (heights_of j @ heights_of j)" using assms(2) by simp
    then have "heights_of h ! i = (heights_of j @ heights_of j) ! i"
      unfolding Suc heights_of.simps append_assoc [symmetric] by (rule nth_append_left)
    also have "\<dots> \<le> j" using i heights_of_le [of _ j] by (auto simp: nth_append)
    finally show ?thesis by (simp add: Suc)
  qed
  finally show ?thesis .
qed

lemma child_append:
  assumes "child A p" and "p + 1 < length A"
    and "\<And>i. i < length xs \<Longrightarrow> i < 2 ^ (A ! p + 1) - 2 \<Longrightarrow> xs ! i \<noteq> A ! p"
  shows "child (A @ xs) p"
proof -
  let ?d = "2 ^ (A ! p + 1) :: nat"
  have "(A @ xs) ! (p + ?d - 1) \<noteq> A ! p" if "length A \<le> p + ?d - 1" "p + ?d - 1 < length (A @ xs)"
  proof -
    have "p + ?d - 1 - length A < length xs" "p + ?d - 1 - length A < ?d - 2"
      using that assms(2) two_power_room(1) [of "A ! p"] by (simp_all del: power_Suc; linarith)+
    from assms(3) [OF this] show ?thesis using that by (simp add: nth_append del: power_Suc)
  qed
  then show ?thesis
    using assms(1,2) unfolding child_def Let_def
    by (auto simp: nth_append not_less simp del: power_Suc)
qed

lemma child_prepend:
  assumes "child A q"
  shows "child (B @ A) (length B + q)"
proof -
  let ?d = "2 ^ (A ! q + 1) :: nat"
  have at: "(B @ A) ! (length B + i) = A ! i" for i by simp
  have "length B + q + ?d - 1 = length B + (q + ?d - 1)"
    using two_power_room(1) [of "A ! q"] by linarith
  then have "(B @ A) ! (length B + q + ?d - 1) = A ! (q + ?d - 1)"
    "(B @ A) ! (length B + q + ?d) = A ! (q + ?d)" "(B @ A) ! (length B + q + 1) = A ! (q + 1)"
    "length B + q + ?d - 1 < length (B @ A) \<longleftrightarrow> q + ?d - 1 < length A"
    by (simp_all only: add.assoc at length_append add_less_cancel_left)
  then show ?thesis using assms unfolding child_def Let_def at by auto
qed

lemma tree_child: "p < 2 ^ (m + 1) - 2 \<Longrightarrow> child (heights_of m) p"
proof (induction m arbitrary: p)
  case (Suc m)
  let ?A = "heights_of m"
  let ?L = "length ?A"
  have L: "?L = 2 ^ (m + 1) - 1" and L1: "1 \<le> ?L" and pw: "2 ^ (m + 1) = ?L + 1"
    using two_power_room(1) [of m] unfolding length_heights_of by linarith+
  have two: "2 ^ (Suc m + 1) - 2 = 2 * ?L" unfolding L by simp
  have ne: "?A \<noteq> []" using L1 by auto
  have inner: "child ?A q" if "q < ?L - 1" for q using that Suc.IH [of q] L by (simp del: power_Suc)
  have rootA: "?A ! (?L - 1) = m" using last_heights_of [of m] L by (simp add: numeral_2_eq_2 del: power_Suc)
  have le: "?A ! q \<le> m" if "q < ?L" for q by (rule heights_of_le [OF that])
  have small: "(?A @ [Suc m]) ! i \<noteq> ?A ! q" if "q < ?L" "i < length (?A @ [Suc m])" "i < 2 ^ (?A ! q + 1) - 2" for i q
    using that le [of q] heights_of_small [of i m "?A ! q"] by (auto simp: nth_append not_less less_Suc_eq simp del: power_Suc)
  consider "p < ?L - 1" | "p = ?L - 1" | q where "p = ?L + q" "q < ?L - 1" | "p = ?L + (?L - 1)"
  proof -
    have "p < 2 * ?L" using Suc.prems two by simp
    then have "p < ?L - 1 \<or> p = ?L - 1 \<or> p = ?L + (p - ?L) \<and> p - ?L < ?L - 1 \<or> p = ?L + (?L - 1)"
      using L1 by linarith
    then show ?thesis using that by blast
  qed
  then show ?case
  proof cases
    case 1
    then show ?thesis using child_append [OF inner [OF 1], of "?A @ [Suc m]"] small [of p] by simp
  next
    case 2
    have at: "(?A @ ?A @ [Suc m]) ! p = m" "(?A @ ?A @ [Suc m]) ! (p + ?L) = m"
      "(?A @ ?A @ [Suc m]) ! (p + (?L + 1)) = Suc m"
    proof -
      show "(?A @ ?A @ [Suc m]) ! p = m" using 2 ne rootA by (simp add: nth_append)
      have "p + ?L = ?L + (?L - 1)" using 2 L1 by linarith
      then have "(?A @ ?A @ [Suc m]) ! (p + ?L) = (?A @ [Suc m]) ! (?L - 1)"
        by (simp only: nth_append_length_plus)
      then show "(?A @ ?A @ [Suc m]) ! (p + ?L) = m" using ne rootA by (simp add: nth_append)
      have "p + (?L + 1) = ?L + ?L" using 2 L1 by linarith
      then show "(?A @ ?A @ [Suc m]) ! (p + (?L + 1)) = Suc m"
        by (simp only: nth_append_length_plus nth_append_length)
    qed
    have "p + (?L + 1) < length (?A @ ?A @ [Suc m])" "p + (?L + 1) - 1 = p + ?L" using 2 L1 by simp_all
    then show ?thesis unfolding child_def Let_def heights_of.simps at(1) pw using at by simp
  next
    case (3 q)
    have q: "q + 1 < ?L" "q < ?L" using 3(2) by linarith+
    have "child (?A @ [Suc m]) q"
      using child_append [OF inner [OF 3(2)] q(1), of "[Suc m]"] le [OF q(2)] by simp
    then show ?thesis using child_prepend [of "?A @ [Suc m]" q ?A] 3 by simp
  next
    case 4
    have at: "(?A @ ?A @ [Suc m]) ! p = m" "(?A @ ?A @ [Suc m]) ! (p + 1) = Suc m"
    proof -
      show "(?A @ ?A @ [Suc m]) ! p = m"
        unfolding 4 nth_append_length_plus using ne rootA by (simp add: nth_append)
      have "p + 1 = ?L + ?L" using 4 L1 by linarith
      then show "(?A @ ?A @ [Suc m]) ! (p + 1) = Suc m"
        by (simp only: nth_append_length_plus nth_append_length)
    qed
    have "p + 1 < length (?A @ ?A @ [Suc m])" "?L + 1 - 1 \<le> p" using 4 L1 by simp_all
    moreover have "\<not> (p + (?L + 1) - 1 < length (?A @ ?A @ [Suc m]) \<and> (?A @ ?A @ [Suc m]) ! (p + (?L + 1) - 1) = m)"
    proof
      assume a: "p + (?L + 1) - 1 < length (?A @ ?A @ [Suc m]) \<and> (?A @ ?A @ [Suc m]) ! (p + (?L + 1) - 1) = m"
      have "p + (?L + 1) - 1 = ?L + (?L - 1) + ?L" "length (?A @ ?A @ [Suc m]) = ?L + ?L + 1" using 4 L1 by simp_all
      then have "?L = 1" using a L1 by linarith
      then show False using a at 4 by simp
    qed
    ultimately show ?thesis unfolding child_def Let_def heights_of.simps at(1) pw using at by simp
  qed
qed simp
lemma flat_heights_small:
  assumes "sorted_wrt (<) ks" and "i < length (flat_heights ks)" and "i < 2 ^ (h + 1) - 2"
  shows "flat_heights ks ! i < h"
proof -
  obtain m where "\<forall>k\<in>set ks. k < m" by (metis finite_nat_set_iff_bounded List.finite_set)
  from flat_heights_prefix [OF assms(1) this]
  have "i < length (heights_of m)" "flat_heights ks ! i = heights_of m ! i"
    using assms(2) by (auto simp: length_heights_of simp del: power_Suc)
  then show ?thesis using heights_of_small [OF _ assms(3)] by simp
qed

lemma forest_child:
  assumes "sorted_wrt (<) ks" and "p < length (flat_heights ks)"
  shows "off + p \<in> set (peaks_from off (length (flat_heights ks))) \<or> child (flat_heights ks) p"
  using assms
proof (induction ks arbitrary: off p rule: rev_induct)
  case Nil
  then show ?case by (simp add: flat_heights_def)
next
  case (snoc k ks)
  let ?L = "2 ^ (k + 1) - 1 :: nat"
  have split: "flat_heights (ks @ [k]) = heights_of k @ flat_heights ks" by (simp add: flat_heights_def)
  have len: "length (heights_of k) = ?L" by (rule length_heights_of)
  have sorted: "sorted_wrt (<) ks" using snoc.prems by (simp add: sorted_wrt_append)
  have step: "peaks_from off (length (flat_heights (ks @ [k])))
      = (off + ?L - 1) # peaks_from (off + ?L) (length (flat_heights ks))"
    by (rule peaks_from_heights [OF snoc.prems(1)])
  consider "p < ?L - 1" | "p = ?L - 1" | "?L \<le> p" by linarith
  then show ?case
  proof cases
    case 1
    have "child (heights_of k @ flat_heights ks) p"
      using 1 len less_imp_neq [OF flat_heights_small [OF sorted]]
      by (intro child_append tree_child) (simp_all del: power_Suc)
    then show ?thesis by (simp add: split)
  next
    case 2
    then have "off + p = off + ?L - 1" using two_power_room(1) [of k] by linarith
    then show ?thesis unfolding step list.set by blast
  next
    case 3
    have "p - ?L < length (flat_heights ks)" using 3 snoc.prems(2) unfolding split length_append len by linarith
    note ih = snoc.IH [OF sorted this, of "off + ?L"]
    have i: "off + ?L + (p - ?L) = off + p" "?L + (p - ?L) = p" using 3 by linarith+
    show ?thesis
      using ih child_prepend [of "flat_heights ks" "p - ?L" "heights_of k"]
      unfolding i len unfolding step list.set unfolding split by blast
  qed
qed

definition hashed :: "hasher \<Rightarrow> bool \<Rightarrow> nat list \<Rightarrow> h256 list \<Rightarrow> bool" where
  "hashed H v hs ns \<longleftrightarrow> length ns = length hs \<and>
     (\<forall>p<length hs. \<forall>h. hs ! p = Suc h \<longrightarrow>
        2 ^ (h + 1) \<le> p \<and> ns ! p = hash_node H v (ns ! (p - 2 ^ (h + 1))) (ns ! (p - 1)))"

lemma hashed_append:
  assumes "hashed H v hs ns" and "hashed H v hs' ns'"
  shows "hashed H v (hs @ hs') (ns @ ns')"
  unfolding hashed_def
proof (intro conjI allI impI)
  show "length (ns @ ns') = length (hs @ hs')" using assms by (simp add: hashed_def)
next
  fix p h
  assume p: "p < length (hs @ hs')" and h: "(hs @ hs') ! p = Suc h"
  have len: "length ns = length hs" using assms(1) by (simp add: hashed_def)
  have "2 ^ (h + 1) \<le> p \<and>
      (ns @ ns') ! p = hash_node H v ((ns @ ns') ! (p - 2 ^ (h + 1))) ((ns @ ns') ! (p - 1))"
  proof (cases "p < length hs")
    case True
    then have "2 ^ (h + 1) \<le> p \<and> ns ! p = hash_node H v (ns ! (p - 2 ^ (h + 1))) (ns ! (p - 1))"
      using assms(1) h nth_append_left [OF True, of hs'] unfolding hashed_def by simp
    moreover have "p < length ns" "p - 2 ^ (h + 1) < length ns" "p - 1 < length ns"
      using True len by linarith+
    ultimately show ?thesis by (simp only: nth_append_left)
  next
    case False
    let ?q = "p - length hs"
    have q: "?q < length hs'" "hs' ! ?q = Suc h" using p h False by (auto simp: nth_append)
    then have b: "2 ^ (h + 1) \<le> ?q" "ns' ! ?q = hash_node H v (ns' ! (?q - 2 ^ (h + 1))) (ns' ! (?q - 1))"
      using assms(2) by (auto simp: hashed_def simp del: power_Suc)
    have at: "(ns @ ns') ! i = ns' ! (i - length hs)" if "length hs \<le> i" for i
      using that len by (simp add: nth_append)
    have one: "1 \<le> (2 :: nat) ^ (h + 1)" using two_power_room(1) [of h] by linarith
    have i: "length hs \<le> p - 2 ^ (h + 1)" "length hs \<le> p - 1" "p - 2 ^ (h + 1) - length hs = ?q - 2 ^ (h + 1)"
      "p - 1 - length hs = ?q - 1" "length hs \<le> p" "2 ^ (h + 1) \<le> p"
      using b(1) False one by linarith+
    show ?thesis unfolding at [OF i(1)] at [OF i(2)] at [OF i(5)] i(3,4) using b(2) i(6) by blast
  qed
  then show "2 ^ (h + 1) \<le> p"
    and "(ns @ ns') ! p = hash_node H v ((ns @ ns') ! (p - 2 ^ (h + 1))) ((ns @ ns') ! (p - 1))" by blast+
qed

lemma hashed_postorder: "perfect t \<Longrightarrow> hashed H v (heights_of (mheight t)) (postorder H v t)"
proof (induction t)
  case (MLeaf x)
  then show ?case by (simp add: hashed_def)
next
  case (MNode l r)
  let ?A = "heights_of (mheight r)"
  let ?ns = "postorder H v l @ postorder H v r"
  have both: "hashed H v (?A @ ?A) ?ns" using MNode by (intro hashed_append) auto
  have L: "length (postorder H v l) = 2 ^ (mheight r + 1) - 1" "length (postorder H v r) = 2 ^ (mheight r + 1) - 1"
    using MNode.prems length_postorder [of l H v] length_postorder [of r H v] by simp_all
  note room = two_power_room(1) [of "mheight r"]
  have len: "length (?A @ ?A) = length ?ns" using both by (simp add: hashed_def)
  have lr: "?ns ! (length ?ns - 1) = mhash H v r"
    using nth_last_append [of "postorder H v r" "postorder H v l"] last_postorder [of H v r] by simp
  have i: "length ?ns - 2 ^ (mheight r + 1) = length (postorder H v l) - 1" "2 ^ (mheight r + 1) \<le> length ?ns"
    "length (postorder H v l) - 1 < length (postorder H v l)" "length ?ns - 1 < length ?ns"
    using room unfolding length_append L by linarith+
  have ll: "?ns ! (length ?ns - 2 ^ (mheight r + 1)) = mhash H v l"
    unfolding i(1) nth_append_left [OF i(3)]
    using nth_last_append [of "postorder H v l" "[]"] last_postorder [of H v l] by simp
  show ?case unfolding hashed_def
  proof (intro conjI allI impI)
    show "length (postorder H v (MNode l r)) = length (heights_of (mheight (MNode l r)))" using len by simp
  next
    fix p h
    assume p: "p < length (heights_of (mheight (MNode l r)))" and h: "heights_of (mheight (MNode l r)) ! p = Suc h"
    have shape: "heights_of (mheight (MNode l r)) = (?A @ ?A) @ [Suc (mheight r)]"
      "postorder H v (MNode l r) = ?ns @ [mhash H v (MNode l r)]" by simp_all
    have "2 ^ (h + 1) \<le> p \<and> (?ns @ [mhash H v (MNode l r)]) ! p
        = hash_node H v ((?ns @ [mhash H v (MNode l r)]) ! (p - 2 ^ (h + 1))) ((?ns @ [mhash H v (MNode l r)]) ! (p - 1))"
    proof (cases "p < length ?ns")
      case True
      then have "p < length (?A @ ?A)" "(?A @ ?A) ! p = Suc h"
        using h nth_append_left [of p "?A @ ?A" "[Suc (mheight r)]"] unfolding shape len by simp_all
      then have "2 ^ (h + 1) \<le> p \<and> ?ns ! p = hash_node H v (?ns ! (p - 2 ^ (h + 1))) (?ns ! (p - 1))"
        using both unfolding hashed_def by blast
      moreover have "p - 2 ^ (h + 1) < length ?ns" "p - 1 < length ?ns" using True by linarith+
      ultimately show ?thesis using True by (simp only: nth_append_left)
    next
      case False
      then have peq: "p = length ?ns" using p unfolding shape length_append len [unfolded length_append] by simp
      then have "h = mheight r" using h len nth_append_length [of "?A @ ?A" "Suc (mheight r)" "[]"] unfolding shape by simp
      moreover have "length ?ns - 2 ^ (mheight r + 1) < length ?ns" using i(2) room by linarith
      ultimately show ?thesis unfolding peq using i(2,4) ll lr by (simp only: nth_append_left nth_append_length mhash.simps)
    qed
    then show "2 ^ (h + 1) \<le> p" and "postorder H v (MNode l r) ! p
        = hash_node H v (postorder H v (MNode l r) ! (p - 2 ^ (h + 1))) (postorder H v (MNode l r) ! (p - 1))"
      unfolding shape by blast+
  qed
qed

lemma hashed_flat: "\<forall>t\<in>set ts. perfect t \<Longrightarrow> hashed H v (flat_heights (map mheight ts)) (flat H v ts)"
proof (induction ts)
  case Nil
  then show ?case by (simp add: hashed_def flat_heights_def flat_def)
next
  case (Cons t ts)
  then show ?case
    using hashed_append [of H v "flat_heights (map mheight ts)" "flat H v ts" "heights_of (mheight t)" "postorder H v t"]
      hashed_postorder [of t H v]
    by (simp add: flat_heights_def flat_Cons)
qed
subsection \<open>Proofs verify\<close>

lemma prove_climb_reaches:
  assumes "sorted_wrt (<) ks" and "hs = flat_heights ks" and "hashed H v hs ns"
    and "p < length hs" and "length hs - p \<le> fuel"
  shows "\<exists>q s. prove_climb fuel ns (peaks (length ns)) p (hs ! p) sibs = Some (sibs @ s, q) \<and>
    q \<in> set (peaks (length ns)) \<and> fold (climb_step H v) s (ns ! p) = ns ! q"
  using assms(4,5)
proof (induction fuel arbitrary: p sibs)
  case 0
  then show ?case by simp
next
  case (Suc fuel)
  let ?P = "set (peaks (length ns))"
  let ?h = "hs ! p"
  let ?d = "2 ^ (?h + 1) :: nat"
  have len: "length ns = length hs" using assms(3) by (simp add: hashed_def)
  have ph: "pos_height r = hs ! r" if "r < length hs" for r
    using pos_height_flat [OF assms(1)] that assms(2) by simp
  have parent: "ns ! r = hash_node H v (ns ! (r - 2 ^ (h + 1))) (ns ! (r - 1))"
    if "r < length hs" "hs ! r = h + 1" for r h
    using assms(3) that unfolding hashed_def by simp
  have d: "1 < ?d" using two_power_room(1) [of ?h] by linarith
  show ?case
  proof (cases "p \<in> ?P")
    case True
    then show ?thesis by simp
  next
    case False
    then have ch: "child hs p"
      using forest_child [OF assms(1), of p 0] Suc.prems(1) len unfolding assms(2) peaks_def by simp
    show ?thesis
    proof (cases "p + ?d - 1 < length hs \<and> hs ! (p + ?d - 1) = ?h")
      case True
      then have up: "p + ?d < length hs" "hs ! (p + ?d) = ?h + 1" using ch unfolding child_def Let_def by blast+
      have idx: "p + ?d - 1 + 1 = p + ?d" "p + ?d - ?d = p" using d by linarith+
      have climb: "climb_step H v \<lparr>pe_hash = ns ! (p + ?d - 1), is_right = True\<rparr> (ns ! p) = ns ! (p + ?d)"
        using parent [OF up] unfolding idx climb_step_def by simp
      have "length hs - (p + ?d) \<le> fuel" using Suc.prems d by linarith
      from Suc.IH [OF up(1) this, of "sibs @ [\<lparr>pe_hash = ns ! (p + ?d - 1), is_right = True\<rparr>]"]
      obtain q s where "prove_climb fuel ns (peaks (length ns)) (p + ?d) (?h + 1)
          (sibs @ [\<lparr>pe_hash = ns ! (p + ?d - 1), is_right = True\<rparr>])
          = Some (sibs @ \<lparr>pe_hash = ns ! (p + ?d - 1), is_right = True\<rparr> # s, q)"
        "q \<in> ?P" "fold (climb_step H v) s (ns ! (p + ?d)) = ns ! q"
        unfolding up(2) by auto
      then show ?thesis
        using False True ph [of "p + ?d - 1"] climb len idx(1)
        by (intro exI [of _ q] exI [of _ "\<lparr>pe_hash = ns ! (p + ?d - 1), is_right = True\<rparr> # s"])
          (simp add: Let_def del: power_Suc)
    next
      case right: False
      then have up: "p + 1 < length hs" "hs ! (p + 1) = ?h + 1" and le: "?d - 1 \<le> p"
        using ch d unfolding child_def Let_def by (auto simp del: power_Suc)
      have test: "\<not> (p + ?d - 1 < length ns \<and> pos_height (p + ?d - 1) = ?h)"
        using right ph [of "p + ?d - 1"] len by auto
      have idx: "p + 1 - ?d = p - (?d - 1)" "p + 1 - 1 = p" using d by linarith+
      let ?e = "\<lparr>pe_hash = ns ! (p - (?d - 1)), is_right = False\<rparr>"
      have climb: "climb_step H v ?e (ns ! p) = ns ! (p + 1)"
        using parent [OF up] unfolding idx climb_step_def by simp
      have "length hs - (p + 1) \<le> fuel" using Suc.prems by linarith
      from Suc.IH [OF up(1) this, of "sibs @ [?e]"]
      obtain q s where "prove_climb fuel ns (peaks (length ns)) (p + 1) (?h + 1) (sibs @ [?e])
          = Some (sibs @ ?e # s, q)" "q \<in> ?P" "fold (climb_step H v) s (ns ! (p + 1)) = ns ! q"
        unfolding up(2) by auto
      moreover have "prove_climb (Suc fuel) ns (peaks (length ns)) p ?h sibs
          = prove_climb fuel ns (peaks (length ns)) (p + 1) (?h + 1) (sibs @ [?e])"
        unfolding prove_climb.simps Let_def using False test by presburger
      ultimately show ?thesis
        using climb by (intro exI [of _ q] exI [of _ "?e # s"]) (simp del: prove_climb.simps)
    qed
  qed
qed

lemma carry_heights: "\<exists>zs. flat_heights (map mheight (carry t ts)) = flat_heights (map mheight (t # ts)) @ zs"
proof (induction t ts rule: carry.induct)
  case (2 t u us)
  show ?case
  proof (cases "mheight u = mheight t")
    case True
    with 2 obtain zs where "flat_heights (map mheight (carry (MNode u t) us))
        = flat_heights (map mheight (MNode u t # us)) @ zs" by blast
    then show ?thesis using True by (simp add: flat_heights_def)
  qed simp
qed (simp add: flat_heights_def)

lemma leaf_at:
  assumes "i < length xs"
  shows "mmr_size i < length (flat H v (mforest xs)) \<and> flat H v (mforest xs) ! mmr_size i = xs ! i \<and>
    pos_height (mmr_size i) = 0"
proof -
  let ?ts = "mforest (take i xs)"
  have pre: "length (flat H v ?ts) = mmr_size i" using flat_mforest_size [of H v "take i xs"] assms by simp
  have xs: "xs = (take i xs @ [xs ! i]) @ drop (Suc i) xs" using assms by (simp add: id_take_nth_drop [symmetric])
  obtain zs where "flat H v (mforest (take i xs @ [xs ! i])) = flat H v (MLeaf (xs ! i) # ?ts) @ zs"
    unfolding mforest_snoc using carry_extends by blast
  moreover obtain ws where "flat H v (mforest xs) = flat H v (mforest (take i xs @ [xs ! i])) @ ws"
    using mforest_extends [of H v "take i xs @ [xs ! i]" "drop (Suc i) xs"] xs by auto
  ultimately have fl: "flat H v (mforest xs) = flat H v ?ts @ xs ! i # zs @ ws" by (simp add: flat_Cons)
  let ?us = "carry (MLeaf (xs ! i)) ?ts"
  have us: "mforest (take i xs @ [xs ! i]) = ?us" by (rule mforest_snoc)
  have fall: "falling ?us" "falling ?ts"
    using mforest_ok [of "take i xs @ [xs ! i]"] mforest_ok [of "take i xs"] unfolding us by blast+
  obtain ys where "flat_heights (map mheight ?us) = flat_heights (map mheight (MLeaf (xs ! i) # ?ts)) @ ys"
    using carry_heights by blast
  then have hs: "flat_heights (map mheight ?us) = flat_heights (map mheight ?ts) @ 0 # ys"
    by (simp add: flat_heights_def)
  have plen: "mmr_size i = length (flat_heights (map mheight ?ts))"
    using length_flat [of ?ts H v] fall(2) pre by (simp add: falling_def)
  have "pos_height (mmr_size i) = flat_heights (map mheight ?us) ! mmr_size i"
    using fall(1) by (intro pos_height_flat) (simp_all add: falling_def hs plen)
  then show ?thesis unfolding hs plen using fl pre [unfolded plen] by (simp add: nth_append)
qed

lemma nth_takeWhile_index:
  "q \<in> set ps \<Longrightarrow> length (takeWhile (\<lambda>p. p \<noteq> q) ps) < length ps \<and> ps ! length (takeWhile (\<lambda>p. p \<noteq> q) ps) = q"
  by (induction ps) auto

lemma leaf_proof_verifies:
  assumes "i < length xs"
  shows "\<exists>p. Mmr_prove (mmr_of H v xs) (mmr_size i) = Inr p \<and>
    verify_mmr_proof H v (xs ! i) p (Mmr_root H v (mmr_of H v xs))"
proof -
  let ?ns = "flat H v (mforest xs)"
  let ?ks = "map mheight (mforest xs)"
  have ok: "sorted_wrt (<) ?ks" "\<forall>t\<in>set (mforest xs). perfect t"
    using mforest_ok [of xs] by (auto simp: falling_def)
  note hashed = hashed_flat [OF ok(2), of H v]
  then have len: "length ?ns = length (flat_heights ?ks)" by (simp add: hashed_def)
  note leaf = leaf_at [OF assms, of H v]
  then have h0: "flat_heights ?ks ! mmr_size i = 0"
    using pos_height_flat [OF ok(1), of "mmr_size i"] len by simp
  obtain q s where climb: "prove_climb (length ?ns) ?ns (peaks (length ?ns)) (mmr_size i) 0 [] = Some (s, q)"
    and q: "q \<in> set (peaks (length ?ns))" and fold: "fold (climb_step H v) s (xs ! i) = ?ns ! q"
    using prove_climb_reaches [OF ok(1) refl hashed, of "mmr_size i" "length ?ns" "[]"] leaf len h0 by auto
  show ?thesis
    using leaf climb fold nth_takeWhile_index [OF q] length_pos_if_in_set [OF q]
    by (auto simp: Mmr_prove_def mmr_of_def verify_mmr_proof_def Mmr_root_def Let_def)
qed

text \<open>Every leaf has a proof, and it verifies against the root.\<close>

theorem inclusion_proofs_verify:
  assumes "i < length xs"
  shows "\<exists>p. Mmr_prove (mmr_of H v xs) (mmr_size i) = Inr p \<and>
    verify_mmr_proof H v (xs ! i) p (Mmr_root H v (mmr_of H v xs))"
  using assms by (rule leaf_proof_verifies)
theorem inclusion_proofs_verify_witness:
  "\<exists>p. Mmr_prove (mmr_of (\<lambda>bs. of_nat (length bs)) True [7, 8, 9]) (mmr_size 1) = Inr p \<and>
    verify_mmr_proof (\<lambda>bs. of_nat (length bs)) True ([7, 8, 9] ! 1) p (Mmr_root (\<lambda>bs. of_nat (length bs)) True (mmr_of (\<lambda>bs. of_nat (length bs)) True [7, 8, 9]))"
  using inclusion_proofs_verify [of 1 "[7, 8, 9]" "\<lambda>bs. of_nat (length bs)" True] by simp

text \<open>The verifier reads neither the claimed leaf position nor the claimed size: a proof that verifies
  for one position verifies with any other written into it.\<close>

theorem verifier_ignores_position:
  "verify_mmr_proof H v x (p\<lparr>mp_leaf_pos := q, mp_mmr_size := s\<rparr>) r = verify_mmr_proof H v x p r"
  by (simp add: verify_mmr_proof_def)

end
