(* ===== verification/Chain_State.thy ===== *)
theory Chain_State
  imports Signer_Window Work_Cap Emission Transaction Mmr
begin

text \<open>
  The chain state and the blocks of \<^verbatim>\<open>src/src/core/types.rs\<close>: unspent outputs and their committed
  leaves, the parts of the state root, the whole-chain supply audit, blocks and their headers, the
  folds and hashes a proof of work covers, and the bonded-mining authorisation of \<^verbatim>\<open>src/src/core/bond.rs\<close>.
\<close>

subsection \<open>What the code calls\<close>

text \<open>BLAKE3, the memory-hard walk, the curve library and the binary serializer are parameters, as is
  the number of proof-of-work jobs checked at a time.\<close>

record ('pt, 'sc) env =
  env_hash :: hasher
  env_walk :: walker
  env_curve :: "('pt, 'sc) curve"
  tx_bytes :: "Transaction \<Rightarrow> bytes"
  coinbase_bytes :: "Coinbase \<Rightarrow> bytes"
  registrations_bytes :: "BondRegistration list \<Rightarrow> bytes"
  relay_bytes :: "RelayHeaders \<Rightarrow> bytes"
  pow_piece :: nat

subsection \<open>Constants\<close>

definition BITCOIN_BLOCK_HASH :: string where
  "BITCOIN_BLOCK_HASH = ''0000000000000000000002e8c04d9ecd85080d6371bc002543ae0e425fd5cd52''"
definition BITCOIN_BLOCK_HEIGHT :: nat where "BITCOIN_BLOCK_HEIGHT = 971656"
definition MIDSTATE_BLOCK_HASH_HEX :: string where
  "MIDSTATE_BLOCK_HASH_HEX = ''00000001c2f5feb4ea71852dabc7c7c99662a6fb5da5845306bffbf95c60cbd2''"
definition GENESIS_INSCRIPTION :: bytes where
  "GENESIS_INSCRIPTION = ascii ''midwimble: midstate consensus and networking, pluribit mimblewimble''"
definition COINBASE_MATURITY :: nat where "COINBASE_MATURITY = 100"

definition network_anchor :: "hasher \<Rightarrow> h256" where
  "network_anchor H =
     hash_domain H (ascii ''midwimble.network-anchor.v1'') [ascii BITCOIN_BLOCK_HASH, NETWORK_MAGIC]"

subsection \<open>Unspent outputs\<close>

record UtxoEntry =
  ue_output_hash :: h256
  ue_owner_key :: h256
  ue_recovery :: h256
  ue_height :: nat
  ue_coinbase :: bool

definition utxo_leaf :: "hasher \<Rightarrow> h256 \<Rightarrow> UtxoEntry \<Rightarrow> h256" where
  "utxo_leaf H commitment entry =
     hash_domain H (ascii ''midwimble.utxo-leaf.v1'')
       [be_bytes commitment, be_bytes (ue_output_hash entry), be_bytes (ue_owner_key entry),
        be_bytes (ue_recovery entry), le_bytes 8 (ue_height entry), [if ue_coinbase entry then 1 else 0]]"

record StateRootParts =
  sr_utxo_root :: h256
  sr_kernel_root :: h256
  sr_chain_mmr_root :: h256
  sr_kernel_excess_sum :: h256
  sr_total_kernel_offset :: h256
  sr_supply :: nat
  sr_bonds_root :: h256
  sr_relay_root :: h256

definition StateRootParts_root :: "hasher \<Rightarrow> StateRootParts \<Rightarrow> h256" where
  "StateRootParts_root H p =
     hash_domain H (ascii ''midwimble.state-root.v1'')
       [be_bytes (sr_utxo_root p), be_bytes (sr_kernel_root p), be_bytes (sr_chain_mmr_root p),
        be_bytes (sr_kernel_excess_sum p), be_bytes (sr_total_kernel_offset p), le_bytes 8 (sr_supply p),
        be_bytes (sr_bonds_root p), be_bytes (sr_relay_root p)]"

subsection \<open>The state\<close>

record BlockEffects =
  bonds_added :: "(h256 \<times> BondEntry) list"
  bonds_removed :: "(h256 \<times> BondEntry) list"
  relay_added :: "RelayEntry list"
  relay_removed :: "RelayEntry list"

record State =
  mw_midstate :: h256
  utxos :: "(h256, UtxoEntry) omap"
  utxo_set :: UtxoAccumulator
  st_kernels :: UtxoAccumulator
  kernel_excess_sum :: h256
  total_kernel_offset :: h256
  st_supply :: nat
  depth :: nat
  capped :: nat
  st_target :: h256
  st_height :: nat
  st_timestamp :: nat
  chain_mmr :: MerkleMountainRange
  header_hash :: h256
  st_bonds :: BondSet
  st_relay :: Relay
  recent_signers :: "h256 option list"
  st_counts :: signer_counts
  work_floor :: "(nat \<times> nat) list"
  effects :: BlockEffects

definition State_weight :: "State \<Rightarrow> nat" where
  "State_weight s = depth s - capped s"

definition no_effects :: BlockEffects where
  "no_effects = \<lparr>bonds_added = [], bonds_removed = [], relay_added = [], relay_removed = []\<rparr>"

definition State_genesis :: "hasher \<Rightarrow> State" where
  "State_genesis H =
     (let initial = hash_domain H (ascii ''midwimble.genesis.v1'')
            [be_bytes (network_anchor H), le_bytes 8 BITCOIN_BLOCK_HEIGHT, ascii MIDSTATE_BLOCK_HASH_HEX,
             le_bytes 8 MIDSTATE_BLOCK_HEIGHT, GENESIS_INSCRIPTION]
      in \<lparr>mw_midstate = initial, utxos = [], utxo_set = UtxoAccumulator_new, st_kernels = UtxoAccumulator_new,
          kernel_excess_sum = IDENTITY, total_kernel_offset = 0, st_supply = 0, depth = 0, capped = 0,
          st_target = GENESIS_TARGET, st_height = 0, st_timestamp = GENESIS_TIMESTAMP, chain_mmr = Mmr_new,
          header_hash = initial, st_bonds = BondSet_default, st_relay = Relay_genesis H, recent_signers = [],
          st_counts = [], work_floor = [], effects = no_effects\<rparr>)"

definition root_parts :: "hasher \<Rightarrow> State \<Rightarrow> StateRootParts" where
  "root_parts H s =
     \<lparr>sr_utxo_root = UtxoAccumulator_root H True (utxo_set s),
      sr_kernel_root = UtxoAccumulator_root H True (st_kernels s),
      sr_chain_mmr_root = Mmr_root H True (chain_mmr s),
      sr_kernel_excess_sum = kernel_excess_sum s, sr_total_kernel_offset = total_kernel_offset s,
      sr_supply = st_supply s, sr_bonds_root = BondSet_root H (st_bonds s),
      sr_relay_root = Relay_commitment (st_relay s)\<rparr>"

definition state_root :: "hasher \<Rightarrow> State \<Rightarrow> h256" where
  "state_root H s = StateRootParts_root H (root_parts H s)"

definition checkpoint_parts :: "hasher \<Rightarrow> State \<Rightarrow> StateRootParts" where
  "checkpoint_parts H s =
     (root_parts H s)\<lparr>sr_chain_mmr_root := Mmr_root H True (Mmr_truncated (st_height s - 1) (chain_mmr s))\<rparr>"

definition rebuild_caches :: "hasher \<Rightarrow> State \<Rightarrow> State" where
  "rebuild_caches H s =
     s\<lparr>utxo_set := rebuild_tree H True (utxo_set s), st_kernels := rebuild_tree H True (st_kernels s)\<rparr>"

datatype supply_error = AuditPoint crypto_error | CorruptExcessSum | CorruptOffset | AuditFailed

definition verify_supply ::
    "('pt :: ab_group_add, 'sc :: comm_ring_1) curve \<Rightarrow> State \<Rightarrow> supply_error + unit" where
  "verify_supply C s =
     and_then (map_err AuditPoint (sum_points C (om_keys (utxos s)))) (\<lambda>unspent.
     and_then (ok_or CorruptExcessSum (decompress C (kernel_excess_sum s))) (\<lambda>excess.
     and_then (ok_or CorruptOffset (scalar_from_bytes C (total_kernel_offset s))) (\<lambda>offset.
     if unspent - smul C (of_nat (st_supply s)) (gen_g C) \<noteq> excess + smul C offset (gen_h C)
     then Inl AuditFailed else Inr ())))"

text \<open>The wrappers of \<^verbatim>\<open>bond.rs\<close> that keep the fork-choice windows of a state.\<close>

definition credit_work :: "h256 option \<Rightarrow> nat \<Rightarrow> nat \<Rightarrow> State \<Rightarrow> State \<times> nat" where
  "credit_work signer work block_timestamp s =
     (let (creditable, floor) = cap_work (work_floor s) (st_height s) work;
          (recent, counts, credited) = credit_in_window (recent_signers s) (st_counts s) (st_bonds s)
             (st_height s) signer creditable block_timestamp
      in (s\<lparr>work_floor := floor, recent_signers := recent, st_counts := counts\<rparr>, credited))"

subsection \<open>Blocks\<close>

record MinerAuth =
  auth_bond_id :: h256
  auth_signature :: SchnorrSig

definition MinerAuth_hash :: "hasher \<Rightarrow> MinerAuth \<Rightarrow> h256" where
  "MinerAuth_hash H a =
     hash_domain H (ascii ''midwimble.miner-auth.v1'')
       [be_bytes (auth_bond_id a), be_bytes (sig_e (auth_signature a)), be_bytes (sig_s (auth_signature a))]"

record Batch =
  prev_midstate :: h256
  prev_header_hash :: h256
  bt_body :: Transaction
  bt_coinbase :: "Coinbase option"
  bt_extension :: Extension
  bt_timestamp :: nat
  bt_target :: h256
  bt_state_root :: h256
  bt_aux_pow :: "AuxPow option"
  bt_registrations :: "BondRegistration list"
  bt_miner :: "MinerAuth option"
  bt_relay :: "RelayHeaders option"
  bt_chain_weight :: nat

record BatchHeader =
  hd_height :: nat
  hd_prev_midstate :: h256
  hd_post_tx_midstate :: h256
  hd_extension :: Extension
  hd_timestamp :: nat
  hd_target :: h256
  hd_state_root :: h256
  hd_prev_header_hash :: h256
  hd_signer :: "h256 option"
  hd_chain_weight :: nat
  hd_aux_pow :: "AuxPow option"

definition header_bytes :: "BatchHeader \<Rightarrow> bytes" where
  "header_bytes h =
     be_bytes (hd_prev_header_hash h) @ be_bytes (hd_post_tx_midstate h) @ be_bytes (hd_state_root h)
     @ le_bytes 8 (hd_timestamp h) @ be_bytes (hd_target h)
     @ (case hd_signer h of None \<Rightarrow> [0] | Some bid \<Rightarrow> 1 # be_bytes bid)
     @ le_bytes 16 (hd_chain_weight h)"

definition compute_header_hash :: "hasher \<Rightarrow> BatchHeader \<Rightarrow> h256" where
  "compute_header_hash H h = H (header_bytes h)"

abbreviation concat_h :: "('pt, 'sc) env \<Rightarrow> h256 \<Rightarrow> h256 \<Rightarrow> h256" where
  "concat_h E a b \<equiv> hash_concat (env_hash E) (be_bytes a) (be_bytes b)"

definition fold_midstate ::
    "('pt, 'sc) env \<Rightarrow> h256 \<Rightarrow> Transaction \<Rightarrow> Coinbase option \<Rightarrow> h256 \<Rightarrow> h256" where
  "fold_midstate E prev body coinbase root =
     (let m = concat_h E prev (Transaction_hash (env_hash E) (tx_bytes E) body);
          m = (case coinbase of Some cb \<Rightarrow> concat_h E m (Coinbase_hash (env_hash E) (coinbase_bytes E) cb) | None \<Rightarrow> m)
      in concat_h E m root)"

definition registrations_hash :: "('pt, 'sc) env \<Rightarrow> BondRegistration list \<Rightarrow> h256" where
  "registrations_hash E rs =
     hash_domain (env_hash E) (ascii ''midwimble.registrations.v1'') [registrations_bytes E rs]"

definition RelayHeaders_hash :: "('pt, 'sc) env \<Rightarrow> RelayHeaders \<Rightarrow> h256" where
  "RelayHeaders_hash E r =
     hash_domain (env_hash E) (ascii ''midwimble.relay-headers.v1'') [relay_bytes E r]"

definition fold_unsigned :: "('pt, 'sc) env \<Rightarrow> h256 \<Rightarrow> Batch \<Rightarrow> h256" where
  "fold_unsigned E prev b =
     (let m = fold_midstate E prev (bt_body b) (bt_coinbase b) (bt_state_root b);
          m = (if bt_registrations b \<noteq> [] then concat_h E m (registrations_hash E (bt_registrations b)) else m)
      in case bt_relay b of Some r \<Rightarrow> concat_h E m (RelayHeaders_hash E r) | None \<Rightarrow> m)"

definition fold_block :: "('pt, 'sc) env \<Rightarrow> h256 \<Rightarrow> Batch \<Rightarrow> h256" where
  "fold_block E prev b =
     (case bt_miner b of
        Some auth \<Rightarrow> concat_h E (fold_unsigned E prev b) (MinerAuth_hash (env_hash E) auth)
      | None \<Rightarrow> fold_unsigned E prev b)"

definition Batch_header :: "('pt, 'sc) env \<Rightarrow> Batch \<Rightarrow> BatchHeader" where
  "Batch_header E b =
     \<lparr>hd_height = 0, hd_prev_midstate = prev_midstate b, hd_post_tx_midstate = fold_block E (prev_midstate b) b,
      hd_extension = bt_extension b, hd_timestamp = bt_timestamp b, hd_target = bt_target b,
      hd_state_root = bt_state_root b, hd_prev_header_hash = prev_header_hash b,
      hd_signer = map_option auth_bond_id (bt_miner b), hd_chain_weight = bt_chain_weight b,
      hd_aux_pow = bt_aux_pow b\<rparr>"

text \<open>Counts of objects held in memory: their sum does not reach 2^64.\<close>

definition Batch_weight :: "Batch \<Rightarrow> nat" where
  "Batch_weight b =
     Transaction_weight (bt_body b)
     + (case bt_coinbase b of Some cb \<Rightarrow> Coinbase_weight cb | None \<Rightarrow> 0)
     + sum_list (map registration_weight (bt_registrations b))
     + (case bt_relay b of Some r \<Rightarrow> RelayHeaders_weight r | None \<Rightarrow> 0)"

definition Batch_genesis :: "('pt, 'sc) env \<Rightarrow> Batch" where
  "Batch_genesis E =
     (let s = State_genesis (env_hash E);
          root = state_root (env_hash E) (s\<lparr>st_height := 0\<rparr>);
          body = Transaction_empty;
          weight = sat_add128 (State_weight s) (calculate_work (st_target s));
          header = \<lparr>hd_height = 0, hd_prev_midstate = mw_midstate s,
             hd_post_tx_midstate = fold_midstate E (mw_midstate s) body None root,
             hd_extension = \<lparr>ext_nonce = 0, ext_final_hash = 0\<rparr>, hd_timestamp = st_timestamp s,
             hd_target = st_target s, hd_state_root = root, hd_prev_header_hash = header_hash s,
             hd_signer = None, hd_chain_weight = weight, hd_aux_pow = None\<rparr>;
          ext = create_extension (env_hash E) (compute_header_hash (env_hash E) header) 0
      in \<lparr>prev_midstate = mw_midstate s, prev_header_hash = header_hash s, bt_body = body,
          bt_coinbase = None, bt_extension = ext, bt_timestamp = st_timestamp s, bt_target = st_target s,
          bt_state_root = root, bt_aux_pow = None, bt_registrations = [], bt_miner = None,
          bt_relay = None, bt_chain_weight = weight\<rparr>)"

definition State_header :: "hasher \<Rightarrow> State \<Rightarrow> BatchHeader" where
  "State_header H s =
     \<lparr>hd_height = st_height s, hd_prev_midstate = 0, hd_post_tx_midstate = mw_midstate s,
      hd_extension = \<lparr>ext_nonce = 0, ext_final_hash = header_hash s\<rparr>, hd_timestamp = st_timestamp s,
      hd_target = st_target s, hd_state_root = state_root H s, hd_prev_header_hash = 0,
      hd_signer = (if recent_signers s = [] then None else last (recent_signers s)),
      hd_chain_weight = State_weight s, hd_aux_pow = None\<rparr>"

subsection \<open>Bonded mining\<close>

definition authorization_message :: "('pt, 'sc) env \<Rightarrow> h256 \<Rightarrow> Batch \<Rightarrow> h256" where
  "authorization_message E prev b =
     (let header = \<lparr>hd_height = 0, hd_prev_midstate = prev, hd_post_tx_midstate = fold_unsigned E prev b,
            hd_extension = bt_extension b, hd_timestamp = bt_timestamp b, hd_target = bt_target b,
            hd_state_root = bt_state_root b, hd_prev_header_hash = prev_header_hash b, hd_signer = None,
            hd_chain_weight = bt_chain_weight b, hd_aux_pow = None\<rparr>
      in hash_domain (env_hash E) (ascii ''midwimble.block-authorisation.v1'')
           [be_bytes (compute_header_hash (env_hash E) header), NETWORK_MAGIC])"

datatype auth_error = NotAuthorised | UnregisteredBond h256 | BondNotEligible h256 | BadMinerSignature

definition check_miner_authorization ::
    "('pt :: ab_group_add, 'sc :: comm_ring_1) env \<Rightarrow> BondSet \<Rightarrow> h256 \<Rightarrow> Batch \<Rightarrow> auth_error + unit" where
  "check_miner_authorization E bonds prev b =
     and_then (ok_or NotAuthorised (bt_miner b)) (\<lambda>auth.
     and_then (ok_or (UnregisteredBond (auth_bond_id auth)) (BondSet_get bonds (auth_bond_id auth))) (\<lambda>bond.
     if \<not> BondEntry_eligible_at bond (bt_timestamp b) then Inl (BondNotEligible (auth_bond_id auth))
     else if \<not> schnorr_verify (env_curve E) (be_mining_key bond) (authorization_message E prev b) (auth_signature auth)
     then Inl BadMinerSignature
     else Inr ()))"

end
