(* ===== verification/Block_Application.thy ===== *)
theory Block_Application
  imports Chain_State
begin

text \<open>
  Applying a block to the chain state, \<^verbatim>\<open>src/src/core/state.rs\<close>: the stateless rules on a block's
  contents, the state transition of its body, and the whole validation that \<^verbatim>\<open>apply_batch\<close> and its
  two variants share. A rejected block is an \<open>Inl\<close>: the caller's state is assigned only at the end.
  The clock is an argument.
\<close>

datatype block_error =
    ParentMismatch | HeaderHashMismatch | TargetMismatch | NotGenesis | BadTimestamp TimestampError
  | BadPow pow_error | IntegrityFailure h256 h256
  | BadRelay relay_error | BadRegistration registration_error | BondRegisteredTwice h256
  | BadAuthorisation auth_error | UnsignedButSignable nat | WeightMismatch nat nat
  | BodyError tx_error | TooManyRegistrations nat | RelayCount nat | RelayOffBase | RelayPow PowCheck
  | RewardOverflow | NothingToClaim nat | GenesisNotEmpty | MissingCoinbase nat nat | BlockTooHeavy nat
  | GenesisCoinbase | CoinbaseDuplicatesBody | SpendsOwnCoinbase | CoinbaseKernelDuplicate
  | TimeLocked nat nat | InputNotFound h256 | OwnerKeyMismatch | ImmatureCoinbase nat nat
  | OutputExists h256 | CorruptExcess | KernelExists h256 | InvalidKernelExcess | CorruptTotalOffset
  | InvalidKernelOffset | SupplyOverflow | AboveSchedule nat nat
  | StateRootMismatch h256 h256

subsection \<open>The body's state transition\<close>

definition spend_input :: "hasher \<Rightarrow> nat \<Rightarrow> Input \<Rightarrow> State \<Rightarrow> block_error + State" where
  "spend_input H height i next =
     (let c = i_commitment i in
      and_then (ok_or (InputNotFound c) (om_get (utxos next) c)) (\<lambda>entry.
      if ue_owner_key entry \<noteq> i_owner_key i then Inl OwnerKeyMismatch
      else if ue_coinbase entry \<and> height < sat_add64 (ue_height entry) COINBASE_MATURITY
      then Inl (ImmatureCoinbase (ue_height entry) height)
      else Inr (next\<lparr>utxo_set := fst (UtxoAccumulator_remove H True (utxo_leaf H c entry) (utxo_set next)),
                     utxos := om_remove c (utxos next)\<rparr>)))"

definition new_entry :: "hasher \<Rightarrow> nat \<Rightarrow> bool \<Rightarrow> Output \<Rightarrow> UtxoEntry" where
  "new_entry H height is_coinbase out =
     \<lparr>ue_output_hash = Output_metadata_hash H out, ue_owner_key = o_owner_key out,
      ue_recovery = o_recovery out, ue_height = height, ue_coinbase = is_coinbase\<rparr>"

definition add_output :: "hasher \<Rightarrow> nat \<Rightarrow> bool \<Rightarrow> Output \<Rightarrow> State \<Rightarrow> block_error + State" where
  "add_output H height is_coinbase out next =
     (let c = o_commitment out in
      if om_has (utxos next) c then Inl (OutputExists c)
      else
        let entry = new_entry H height is_coinbase out
        in Inr (next\<lparr>utxo_set := fst (UtxoAccumulator_insert H True (utxo_leaf H c entry) (utxo_set next)),
                     utxos := om_insert c entry (utxos next)\<rparr>))"

definition add_kernel ::
    "hasher \<Rightarrow> ('pt :: ab_group_add, 'sc) curve \<Rightarrow> Kernel \<Rightarrow> State \<times> 'pt \<Rightarrow> block_error + State \<times> 'pt" where
  "add_kernel H C k acc = (case acc of (next, excess_sum) \<Rightarrow>
     let (ks, fresh) = UtxoAccumulator_insert H True (Kernel_id H k) (st_kernels next) in
     if \<not> fresh then Inl (KernelExists (Kernel_id H k))
     else
       and_then (ok_or InvalidKernelExcess (decompress C (k_excess k))) (\<lambda>e.
       Inr (next\<lparr>st_kernels := ks\<rparr>, excess_sum + e)))"

definition coinbase_outputs :: "Coinbase option \<Rightarrow> Output list" where
  "coinbase_outputs coinbase = (case coinbase of Some cb \<Rightarrow> group_outputs (cb_outputs cb) | None \<Rightarrow> [])"

definition block_kernels :: "Transaction \<Rightarrow> Coinbase option \<Rightarrow> Kernel list" where
  "block_kernels body coinbase =
     tx_kernels (tx_body body) @ (case coinbase of Some cb \<Rightarrow> [cb_kernel cb] | None \<Rightarrow> [])"

definition apply_body ::
    "('pt :: ab_group_add, 'sc :: comm_ring_1) env \<Rightarrow> State \<Rightarrow> Transaction \<Rightarrow> Coinbase option \<Rightarrow> nat
      \<Rightarrow> block_error + State" where
  "apply_body E state body coinbase subsidy =
     (let H = env_hash E; C = env_curve E; height = st_height state in
      and_then (each_ok (\<lambda>k. if height < k_min_height k then Inl (TimeLocked (k_min_height k) height) else Inr ())
        (tx_kernels (tx_body body))) (\<lambda>_.
      and_then (fold_res (spend_input H height) (inputs (tx_body body)) state) (\<lambda>next.
      and_then (fold_res (add_output H height False) (Transaction_outputs body) next) (\<lambda>next.
      and_then (fold_res (add_output H height True) (coinbase_outputs coinbase) next) (\<lambda>next.
      and_then (ok_or CorruptExcess (decompress C (kernel_excess_sum next))) (\<lambda>excess_sum.
      and_then (fold_res (add_kernel H C) (block_kernels body coinbase) (next, excess_sum)) (\<lambda>(next, excess_sum).
      and_then (ok_or CorruptTotalOffset (scalar_from_bytes C (total_kernel_offset next))) (\<lambda>total.
      and_then (ok_or InvalidKernelOffset (scalar_from_bytes C (kernel_offset body))) (\<lambda>offset.
      and_then (ok_or SupplyOverflow (chk_add64 (st_supply next) subsidy)) (\<lambda>minted.
      if issued_before (add64 height 1) < minted then Inl (AboveSchedule minted height)
      else Inr (next\<lparr>kernel_excess_sum := compress C excess_sum,
                     total_kernel_offset := scalar_to_bytes C (total + offset), st_supply := minted\<rparr>)))))))))))"

subsection \<open>Contents\<close>

definition check_relay_pow ::
    "('pt, 'sc) env \<Rightarrow> bool \<Rightarrow> RelayHeaders option \<Rightarrow> nat option \<Rightarrow> block_error + unit" where
  "check_relay_pow E skip_crypto relayed relay_from =
     (case relayed of
        None \<Rightarrow> Inr ()
      | Some r \<Rightarrow>
          if rh_headers r = [] \<or> MAX_RELAY_HEADERS_PER_BLOCK < length (rh_headers r)
          then Inl (RelayCount (length (rh_headers r)))
          else if skip_crypto then Inr ()
          else
            and_then (ok_or RelayOffBase relay_from) (\<lambda>from_height.
            map_err RelayPow (RelayHeaders_verify_pow (env_hash E) (env_walk E) (pow_piece E) r from_height)))"

definition check_coinbase_unique :: "hasher \<Rightarrow> Transaction \<Rightarrow> Coinbase \<Rightarrow> block_error + unit" where
  "check_coinbase_unique H body cb =
     and_then (each_ok (\<lambda>out.
         if o_commitment out \<in> set (output_commitments body)
            \<or> o_owner_key out \<in> set (map o_owner_key (Transaction_outputs body))
         then Inl CoinbaseDuplicatesBody
         else if o_commitment out \<in> set (input_commitments body) then Inl SpendsOwnCoinbase
         else Inr ()) (group_outputs (cb_outputs cb))) (\<lambda>_.
     if Kernel_id H (cb_kernel cb) \<in> set (kernel_ids H body) then Inl CoinbaseKernelDuplicate else Inr ())"

definition validate_block_contents ::
    "('pt :: ab_group_add, 'sc :: comm_ring_1) env \<Rightarrow> Batch \<Rightarrow> nat \<Rightarrow> bool \<Rightarrow> nat \<Rightarrow> nat option
      \<Rightarrow> block_error + unit" where
  "validate_block_contents E b height skip_crypto subsidy relay_from =
     (let H = env_hash E; C = env_curve E; is_genesis = (height = 0); body = bt_body b;
          crypto = (\<lambda>r. if skip_crypto then Inr () else map_err BodyError r);
          heavy = (\<lambda>r. if MAX_BLOCK_WEIGHT < Batch_weight b then Inl (BlockTooHeavy (Batch_weight b)) else r) in
      and_then (map_err BodyError (validate_structure H C Block body)) (\<lambda>_.
      if MAX_REGISTRATIONS_PER_BLOCK < length (bt_registrations b)
      then Inl (TooManyRegistrations (length (bt_registrations b)))
      else
      and_then (check_relay_pow E skip_crypto (bt_relay b) relay_from) (\<lambda>_.
      and_then (map_err BodyError (Transaction_fee body)) (\<lambda>fees.
      and_then (ok_or RewardOverflow (chk_add64 subsidy fees)) (\<lambda>amount.
      case (bt_coinbase b, is_genesis) of
        (None, True) \<Rightarrow> if \<not> Transaction_is_empty body then Inl GenesisNotEmpty else Inr ()
      | (None, False) \<Rightarrow>
          if amount \<noteq> 0 then Inl (MissingCoinbase height amount)
          else heavy (and_then (map_err BodyError (verify_sums C body)) (\<lambda>_. crypto (verify_crypto H C body)))
      | (Some _, True) \<Rightarrow> Inl GenesisCoinbase
      | (Some cb, False) \<Rightarrow>
          if amount = 0 then Inl (NothingToClaim height)
          else
            and_then (map_err BodyError (Coinbase_validate_structure C cb)) (\<lambda>_.
            heavy (and_then (check_coinbase_unique H body cb) (\<lambda>_.
            and_then (map_err BodyError (verify_sums C body)) (\<lambda>_.
            and_then (map_err BodyError (Coinbase_verify_sum C cb amount)) (\<lambda>_.
            and_then (crypto (verify_crypto H C body)) (\<lambda>_.
            crypto (Coinbase_verify_crypto H C cb))))))))))))"

subsection \<open>The whole block\<close>

definition relay_start :: "State \<Rightarrow> Batch \<Rightarrow> nat option" where
  "relay_start s b =
     Option.bind (bt_relay b) (\<lambda>relayed.
       map_option (\<lambda>e. re_height e + 1) (Relay_by_hash (st_relay s) (rh_prev relayed)))"

definition check_linkage ::
    "('pt :: ab_group_add, 'sc) env \<Rightarrow> State \<Rightarrow> Batch \<Rightarrow> nat list \<Rightarrow> nat \<Rightarrow> block_error + unit" where
  "check_linkage E s b previous_timestamps now =
     (if prev_midstate b \<noteq> mw_midstate s then Inl ParentMismatch
      else if prev_header_hash b \<noteq> header_hash s then Inl HeaderHashMismatch
      else if bt_target b \<noteq> st_target s then Inl TargetMismatch
      else if st_height s = 0 then (if b \<noteq> Batch_genesis E then Inl NotGenesis else Inr ())
      else map_err BadTimestamp (validate_timestamp (bt_timestamp b) previous_timestamps now))"

definition candidate_header :: "('pt, 'sc) env \<Rightarrow> State \<Rightarrow> Batch \<Rightarrow> BatchHeader" where
  "candidate_header E s b =
     \<lparr>hd_height = st_height s, hd_prev_midstate = mw_midstate s,
      hd_post_tx_midstate = fold_block E (mw_midstate s) b, hd_extension = bt_extension b,
      hd_timestamp = bt_timestamp b, hd_target = bt_target b, hd_state_root = bt_state_root b,
      hd_prev_header_hash = header_hash s, hd_signer = map_option auth_bond_id (bt_miner b),
      hd_chain_weight = bt_chain_weight b, hd_aux_pow = None\<rparr>"

definition check_work ::
    "('pt, 'sc) env \<Rightarrow> State \<Rightarrow> Batch \<Rightarrow> h256 option \<Rightarrow> block_error + unit" where
  "check_work E s b preverified =
     (let mining = compute_header_hash (env_hash E) (candidate_header E s b) in
      if st_height s = 0 then Inr ()
      else
        case preverified of
          None \<Rightarrow> map_err BadPow
            (verify_pow (env_hash E) (env_walk E) (st_height s) mining (bt_extension b) (bt_target b) (bt_aux_pow b))
        | Some expected \<Rightarrow> if mining \<noteq> expected then Inl (IntegrityFailure mining expected) else Inr ())"

text \<open>The relay and the bonds as the block leaves them, with the bonds removed and registered and what
  the relay changed.\<close>

definition extend_relay ::
    "hasher \<Rightarrow> State \<Rightarrow> Batch \<Rightarrow> nat list
      \<Rightarrow> block_error + (BondSet \<times> Relay \<times> (h256 \<times> BondEntry) list \<times> RelayChange)" where
  "extend_relay H s b previous_timestamps =
     (let (bonds, gone) = prune_expired H (min_next_timestamp previous_timestamps) (st_bonds s) in
      case bt_relay b of
        None \<Rightarrow> Inr (bonds, st_relay s, gone, \<lparr>added = [], removed = [], fork_from = None\<rparr>)
      | Some relayed \<Rightarrow>
          and_then (map_err BadRelay (Relay_extend H (st_relay s) relayed (bt_timestamp b))) (\<lambda>(relay, change).
          case fork_from change of
            None \<Rightarrow> Inr (bonds, relay, gone, change)
          | Some fork \<Rightarrow>
              let (bonds, revoked) = revoke_above H fork bonds
              in Inr (bonds, relay, gone @ revoked, change)))"

definition register_bond ::
    "hasher \<Rightarrow> h256 \<times> BondEntry \<Rightarrow> BondSet \<Rightarrow> block_error + BondSet" where
  "register_bond H entry bonds = (case entry of (bid, e) \<Rightarrow>
     (case BondSet_insert H bid e bonds of (bonds', old) \<Rightarrow>
        if old \<noteq> None then Inl (BondRegisteredTwice bid) else Inr bonds'))"

definition register_bonds ::
    "hasher \<Rightarrow> BondSet \<Rightarrow> Relay \<Rightarrow> Batch \<Rightarrow> block_error + ((h256 \<times> BondEntry) list \<times> BondSet)" where
  "register_bonds H bonds relay b =
     and_then (map_err BadRegistration
       (precheck_registrations H bonds (bt_registrations b) (bt_target b) (bt_timestamp b))) (\<lambda>_.
     and_then (map_err BadRegistration (map_res (\<lambda>r.
         and_then (BondRegistration_verify H r relay (bt_target b)) (\<lambda>e. Inr (registration_bond_id H r, e)))
       (bt_registrations b))) (\<lambda>registered.
     and_then (fold_res (register_bond H) registered bonds) (\<lambda>bonds'. Inr (registered, bonds'))))"

definition check_signer ::
    "('pt :: ab_group_add, 'sc :: comm_ring_1) env \<Rightarrow> State \<Rightarrow> BondSet \<Rightarrow> Batch \<Rightarrow> block_error + unit" where
  "check_signer E s bonds b =
     (let height = st_height s in
      if height = 0 then Inr ()
      else if bt_miner b \<noteq> None
      then map_err BadAuthorisation (check_miner_authorization E bonds (mw_midstate s) b)
      else if BONDED_MINING_FROM \<le> height \<and> any_can_sign bonds (bt_timestamp b)
      then Inl (UnsignedButSignable height)
      else Inr ())"

text \<open>The last steps: the chain's linkage, its history, the fork-choice windows and the next target.\<close>

definition finalize_block ::
    "('pt, 'sc) env \<Rightarrow> State \<Rightarrow> Batch \<Rightarrow> (nat \<times> nat) list \<Rightarrow> h256 option list \<Rightarrow> signer_counts \<Rightarrow> nat \<Rightarrow> State \<Rightarrow> State" where
  "finalize_block E state b floor recent counts credited next =
     (let work = calculate_work (bt_target b); height = add64 (st_height state) 1; tip = ext_final_hash (bt_extension b) in
      next\<lparr>mw_midstate := fold_block E (mw_midstate state) b, header_hash := tip,
        chain_mmr := fst (Mmr_append (env_hash E) True tip (chain_mmr next)),
        recent_signers := recent, st_counts := counts, work_floor := floor,
        depth := sat_add128 (depth next) work, capped := sat_add128 (capped next) (sub128 work credited),
        st_height := height, st_timestamp := bt_timestamp b,
        st_target := calculate_target height (bt_timestamp b)\<rparr>)"

text \<open>From the chain weight on, with the relay and the bonds as the block leaves them.\<close>

definition connect_block ::
    "('pt :: ab_group_add, 'sc :: comm_ring_1) env \<Rightarrow> State \<Rightarrow> Batch \<Rightarrow> bool \<Rightarrow> BondSet \<Rightarrow> Relay
      \<Rightarrow> (h256 \<times> BondEntry) list \<Rightarrow> RelayChange \<Rightarrow> (h256 \<times> BondEntry) list \<Rightarrow> BondSet \<Rightarrow> block_error + State" where
  "connect_block E state b skip_crypto base_bonds relay gone change registered bonds =
     (let H = env_hash E; height = st_height state;
          base = state\<lparr>st_bonds := base_bonds, st_relay := relay\<rparr>;
          signer = map_option auth_bond_id (bt_miner b);
          work = calculate_work (bt_target b);
          (creditable, floor) = cap_work (work_floor base) height work;
          (recent, counts, credited) = credit_in_window (recent_signers base) (st_counts base) bonds
             height signer creditable (bt_timestamp b);
          weight = sat_add128 (State_weight base) credited;
          subsidy = subsidy_for signer counts bonds height (bt_timestamp b)
      in if bt_chain_weight b \<noteq> weight then Inl (WeightMismatch (bt_chain_weight b) weight)
         else
           and_then (validate_block_contents E b height skip_crypto subsidy (relay_start state b)) (\<lambda>_.
           and_then (apply_body E base (bt_body b) (bt_coinbase b) subsidy) (\<lambda>next.
             let next = next\<lparr>st_bonds := bonds,
                   effects := \<lparr>bonds_added = registered, bonds_removed = gone,
                      relay_added = added change, relay_removed = removed change\<rparr>\<rparr>
             in if bt_state_root b \<noteq> state_root H next
                then Inl (StateRootMismatch (state_root H next) (bt_state_root b))
                else Inr (finalize_block E state b floor recent counts credited next))))"

definition apply_batch_internal ::
    "('pt :: ab_group_add, 'sc :: comm_ring_1) env \<Rightarrow> State \<Rightarrow> Batch \<Rightarrow> nat list \<Rightarrow> nat
      \<Rightarrow> h256 option \<Rightarrow> bool \<Rightarrow> block_error + State" where
  "apply_batch_internal E state b previous_timestamps now preverified skip_crypto =
     (let H = env_hash E in
      and_then (check_linkage E state b previous_timestamps now) (\<lambda>_.
      and_then (check_work E state b preverified) (\<lambda>_.
      and_then (extend_relay H state b previous_timestamps) (\<lambda>(base_bonds, relay, gone, change).
      and_then (register_bonds H base_bonds relay b) (\<lambda>(registered, bonds).
      and_then (check_signer E state bonds b) (\<lambda>_.
      connect_block E state b skip_crypto base_bonds relay gone change registered bonds))))))"

definition apply_batch ::
    "('pt :: ab_group_add, 'sc :: comm_ring_1) env \<Rightarrow> State \<Rightarrow> Batch \<Rightarrow> nat list \<Rightarrow> nat \<Rightarrow> block_error + State" where
  "apply_batch E state b previous_timestamps now = apply_batch_internal E state b previous_timestamps now None False"

definition apply_batch_skip_pow ::
    "('pt :: ab_group_add, 'sc :: comm_ring_1) env \<Rightarrow> State \<Rightarrow> Batch \<Rightarrow> nat list \<Rightarrow> nat \<Rightarrow> h256 \<Rightarrow> block_error + State" where
  "apply_batch_skip_pow E state b previous_timestamps now verified =
     apply_batch_internal E state b previous_timestamps now (Some verified) False"

definition apply_batch_trusted ::
    "('pt :: ab_group_add, 'sc :: comm_ring_1) env \<Rightarrow> State \<Rightarrow> Batch \<Rightarrow> nat list \<Rightarrow> nat \<Rightarrow> h256 \<Rightarrow> block_error + State" where
  "apply_batch_trusted E state b previous_timestamps now verified =
     apply_batch_internal E state b previous_timestamps now (Some verified) True"

definition choose_best_state :: "State \<Rightarrow> State \<Rightarrow> State" where
  "choose_best_state a b =
     (if State_weight b < State_weight a then a
      else if State_weight a < State_weight b then b
      else if mw_midstate a < mw_midstate b then a else b)"

end
