(* ===== verification/Chain_Supply.thy ===== *)
theory Chain_Supply
  imports Block_Application
begin

text \<open>
  What an accepted block does to the coins: the unspent set, the kernels and the tracked supply move so
  that the whole-chain audit of \<^verbatim>\<open>State::verify_supply\<close> stays balanced.
\<close>

subsection \<open>The unspent set\<close>

definition unspent :: "('pt :: ab_group_add, 'sc) curve \<Rightarrow> State \<Rightarrow> 'pt" where
  "unspent C s = points_sum C (om_keys (utxos s))"

lemma unspent_total: "unspent C s = om.total (\<lambda>c _. point_of C c) (utxos s)"
  by (simp add: unspent_def points_sum_def om.total_def comp_def case_prod_unfold)

lemma spend_input_Inr:
  "spend_input H height i s = Inr s' \<longleftrightarrow>
     (\<exists>entry. om_get (utxos s) (i_commitment i) = Some entry \<and> ue_owner_key entry = i_owner_key i \<and>
        (ue_coinbase entry \<longrightarrow> sat_add64 (ue_height entry) COINBASE_MATURITY \<le> height) \<and>
        s' = s\<lparr>utxo_set := fst (UtxoAccumulator_remove H True (utxo_leaf H (i_commitment i) entry) (utxo_set s)),
               utxos := om_remove (i_commitment i) (utxos s)\<rparr>)"
  by (auto simp: spend_input_def Let_def and_then_Inr ok_or_Inr not_less)

lemma add_output_Inr:
  "add_output H height cb out s = Inr s' \<longleftrightarrow>
     om_get (utxos s) (o_commitment out) = None \<and>
     s' = s\<lparr>utxo_set := fst (UtxoAccumulator_insert H True
               (utxo_leaf H (o_commitment out) (new_entry H height cb out)) (utxo_set s)),
            utxos := om_insert (o_commitment out) (new_entry H height cb out) (utxos s)\<rparr>"
  by (auto simp: add_output_def Let_def om_has_def)

text \<open>A step of either loop touches the unspent set and its accumulator only.\<close>

definition utxo_frame :: "State \<Rightarrow> State \<Rightarrow> bool" where
  "utxo_frame s s' \<longleftrightarrow> (\<exists>acc m. s' = s\<lparr>utxo_set := acc, utxos := m\<rparr>)"

lemma utxo_frame_refl: "utxo_frame s s"
proof -
  have "s = s\<lparr>utxo_set := utxo_set s, utxos := utxos s\<rparr>" by simp
  then show ?thesis unfolding utxo_frame_def by blast
qed

lemma utxo_frame_trans: "utxo_frame a b \<Longrightarrow> utxo_frame b c \<Longrightarrow> utxo_frame a c"
proof -
  assume "utxo_frame a b" "utxo_frame b c"
  then obtain acc m acc' m' where b: "b = a\<lparr>utxo_set := acc, utxos := m\<rparr>" and c: "c = b\<lparr>utxo_set := acc', utxos := m'\<rparr>"
    unfolding utxo_frame_def by blast
  have "c = a\<lparr>utxo_set := acc', utxos := m'\<rparr>" unfolding c b by simp
  then show ?thesis unfolding utxo_frame_def by blast
qed

lemma utxo_frame_fields:
  assumes "utxo_frame s s'"
  shows "st_kernels s' = st_kernels s" and "kernel_excess_sum s' = kernel_excess_sum s"
    and "total_kernel_offset s' = total_kernel_offset s" and "st_supply s' = st_supply s"
  using assms by (auto simp: utxo_frame_def)

definition utxos_ok :: "hasher \<Rightarrow> State \<Rightarrow> bool" where
  "utxos_ok H s \<longleftrightarrow> om_wf (utxos s) \<and> utxo_ok H True (utxo_set s)"

lemma spend_input_step:
  assumes "spend_input H height i s = Inr s'" and "utxos_ok H s"
  shows "utxo_frame s s'" and "utxos_ok H s'" and "unspent C s = point_of C (i_commitment i) + unspent C s'"
    and "om_get (utxos s') = (om_get (utxos s))(i_commitment i := None)"
proof -
  obtain entry where e: "om_get (utxos s) (i_commitment i) = Some entry"
    and s': "s' = s\<lparr>utxo_set := fst (UtxoAccumulator_remove H True (utxo_leaf H (i_commitment i) entry) (utxo_set s)),
               utxos := om_remove (i_commitment i) (utxos s)\<rparr>"
    using assms(1) by (auto simp: spend_input_Inr)
  show "utxo_frame s s'" unfolding s' utxo_frame_def by blast
  show "utxos_ok H s'" using assms(2) utxo_remove by (simp add: s' utxos_ok_def)
  show "unspent C s = point_of C (i_commitment i) + unspent C s'"
    using om.total_remove_present [OF _ e, of "\<lambda>c _. point_of C c"] assms(2)
    by (simp add: unspent_total s' utxos_ok_def)
  show "om_get (utxos s') = (om_get (utxos s))(i_commitment i := None)" by (simp add: s')
qed

lemma add_output_step:
  assumes "add_output H height cb out s = Inr s'" and "utxos_ok H s"
  shows "utxo_frame s s'" and "utxos_ok H s'" and "unspent C s' = point_of C (o_commitment out) + unspent C s"
    and "om_get (utxos s') = (om_get (utxos s))(o_commitment out \<mapsto> new_entry H height cb out)"
proof -
  have e: "om_get (utxos s) (o_commitment out) = None"
    and s': "s' = s\<lparr>utxo_set := fst (UtxoAccumulator_insert H True
               (utxo_leaf H (o_commitment out) (new_entry H height cb out)) (utxo_set s)),
            utxos := om_insert (o_commitment out) (new_entry H height cb out) (utxos s)\<rparr>"
    using assms(1) by (auto simp: add_output_Inr)
  show "utxo_frame s s'" unfolding s' utxo_frame_def by blast
  show "utxos_ok H s'" using assms(2) utxo_insert by (simp add: s' utxos_ok_def)
  show "unspent C s' = point_of C (o_commitment out) + unspent C s"
    using om.total_insert_fresh [OF _ e, of "\<lambda>c _. point_of C c"] assms(2)
    by (simp add: unspent_total s' utxos_ok_def)
  show "om_get (utxos s') = (om_get (utxos s))(o_commitment out \<mapsto> new_entry H height cb out)"
    using assms(2) by (simp add: s' utxos_ok_def)
qed

text \<open>The two loops.\<close>

lemma spend_inputs:
  assumes "fold_res (spend_input H height) ins s = Inr s'" and "utxos_ok H s"
  shows "utxo_frame s s' \<and> utxos_ok H s' \<and>
    unspent C s = points_sum C (map i_commitment ins) + unspent C s' \<and>
    om_get (utxos s') = (\<lambda>c. if c \<in> i_commitment ` set ins then None else om_get (utxos s) c) \<and>
    (\<forall>i\<in>set ins. \<exists>entry. om_get (utxos s) (i_commitment i) = Some entry \<and> ue_owner_key entry = i_owner_key i \<and>
        (ue_coinbase entry \<longrightarrow> sat_add64 (ue_height entry) COINBASE_MATURITY \<le> height))"
  using assms
proof (induction ins arbitrary: s)
  case Nil
  then show ?case by (simp add: utxo_frame_refl points_sum_def)
next
  case (Cons i ins)
  then obtain t where t: "spend_input H height i s = Inr t" "fold_res (spend_input H height) ins t = Inr s'"
    by (auto simp: and_then_Inr)
  note st = spend_input_step [OF t(1) Cons.prems(2)]
  note ih = Cons.IH [OF t(2) st(2)]
  have found: "\<forall>j\<in>set ins. \<exists>entry. om_get (utxos s) (i_commitment j) = Some entry \<and> ue_owner_key entry = i_owner_key j \<and>
        (ue_coinbase entry \<longrightarrow> sat_add64 (ue_height entry) COINBASE_MATURITY \<le> height)"
  proof
    fix j assume "j \<in> set ins"
    then obtain entry where "om_get (utxos t) (i_commitment j) = Some entry" "ue_owner_key entry = i_owner_key j"
      "ue_coinbase entry \<longrightarrow> sat_add64 (ue_height entry) COINBASE_MATURITY \<le> height"
      using ih by blast
    then show "\<exists>entry. om_get (utxos s) (i_commitment j) = Some entry \<and> ue_owner_key entry = i_owner_key j \<and>
        (ue_coinbase entry \<longrightarrow> sat_add64 (ue_height entry) COINBASE_MATURITY \<le> height)"
      unfolding st(4) by (auto split: if_splits)
  qed
  show ?case
  proof (intro conjI)
    show "utxo_frame s s'" using utxo_frame_trans [OF st(1)] ih by blast
    show "utxos_ok H s'" using ih by blast
    show "unspent C s = points_sum C (map i_commitment (i # ins)) + unspent C s'"
      using ih st(3) [of C] by (simp add: points_sum_def add.assoc)
    show "om_get (utxos s') = (\<lambda>c. if c \<in> i_commitment ` set (i # ins) then None else om_get (utxos s) c)"
      using ih st(4) by (auto simp: fun_eq_iff)
    show "\<forall>j\<in>set (i # ins). \<exists>entry. om_get (utxos s) (i_commitment j) = Some entry \<and> ue_owner_key entry = i_owner_key j \<and>
        (ue_coinbase entry \<longrightarrow> sat_add64 (ue_height entry) COINBASE_MATURITY \<le> height)"
      using found t(1) unfolding spend_input_Inr by auto
  qed
qed

lemma add_outputs:
  assumes "fold_res (add_output H height cb) outs s = Inr s'" and "utxos_ok H s"
  shows "utxo_frame s s' \<and> utxos_ok H s' \<and>
    unspent C s' = points_sum C (map o_commitment outs) + unspent C s \<and>
    dom (om_get (utxos s')) = o_commitment ` set outs \<union> dom (om_get (utxos s)) \<and>
    (\<forall>c. c \<notin> o_commitment ` set outs \<longrightarrow> om_get (utxos s') c = om_get (utxos s) c)"
  using assms
proof (induction outs arbitrary: s)
  case Nil
  then show ?case by (simp add: utxo_frame_refl points_sum_def)
next
  case (Cons out outs)
  then obtain t where t: "add_output H height cb out s = Inr t" "fold_res (add_output H height cb) outs t = Inr s'"
    by (auto simp: and_then_Inr)
  note st = add_output_step [OF t(1) Cons.prems(2)]
  note ih = Cons.IH [OF t(2) st(2)]
  have "utxo_frame s s'" using utxo_frame_trans [OF st(1)] ih by blast
  then show ?case
    using ih st(3) [of C] st(4) by (auto simp: points_sum_def algebra_simps)
qed
subsection \<open>Kernels\<close>

lemma add_kernel_Inr:
  "add_kernel H C k (s, e) = Inr (s', e') \<longleftrightarrow>
     snd (UtxoAccumulator_insert H True (Kernel_id H k) (st_kernels s)) \<and> decompress C (k_excess k) \<noteq> None \<and>
     s' = s\<lparr>st_kernels := fst (UtxoAccumulator_insert H True (Kernel_id H k) (st_kernels s))\<rparr> \<and>
     e' = e + point_of C (k_excess k)"
  by (cases "UtxoAccumulator_insert H True (Kernel_id H k) (st_kernels s)"; cases "decompress C (k_excess k)")
     (auto simp: add_kernel_def point_of_def ok_or_def)

lemma add_kernels:
  assumes "fold_res (add_kernel H C) ks (s, e) = Inr (s', e')" and "utxo_ok H True (st_kernels s)"
  shows "(\<exists>acc. s' = s\<lparr>st_kernels := acc\<rparr>) \<and> utxo_ok H True (st_kernels s') \<and>
    e' = e + points_sum C (map k_excess ks) \<and>
    set (coins (st_kernels s')) = set (coins (st_kernels s)) \<union> Kernel_id H ` set ks \<and>
    distinct (map (Kernel_id H) ks) \<and> set (coins (st_kernels s)) \<inter> Kernel_id H ` set ks = {}"
  using assms
proof (induction ks arbitrary: s e)
  case Nil
  have "s = s\<lparr>st_kernels := st_kernels s\<rparr>" by simp
  then show ?case using Nil by (auto simp: points_sum_def intro: exI [of _ "st_kernels s"])
next
  case (Cons k ks)
  obtain t f where t: "add_kernel H C k (s, e) = Inr (t, f)" "fold_res (add_kernel H C) ks (t, f) = Inr (s', e')"
    using Cons.prems(1) by (cases "add_kernel H C k (s, e)") auto
  note k = t(1) [unfolded add_kernel_Inr]
  note ins = utxo_insert [OF Cons.prems(2), of "Kernel_id H k"]
  have "utxo_ok H True (st_kernels t)" using k ins by simp
  note ih = Cons.IH [OF t(2) this]
  have ids: "set (coins (st_kernels t)) = insert (Kernel_id H k) (set (coins (st_kernels s)))"
    and fresh: "Kernel_id H k \<notin> set (coins (st_kernels s))"
    using k ins by auto
  obtain acc where "s' = t\<lparr>st_kernels := acc\<rparr>" using ih by blast
  then have "s' = s\<lparr>st_kernels := acc\<rparr>" using k by simp
  then show ?case
    using ih k ids fresh by (auto simp: points_sum_def add.assoc)
qed

subsection \<open>The body's transition\<close>

lemma each_ok_guard: "each_ok (\<lambda>x. if P x then Inl (e x) else Inr ()) xs = Inr u \<longleftrightarrow> (\<forall>x\<in>set xs. \<not> P x)"
  by (simp add: each_ok_iff)

lemma apply_body_exec:
  assumes "apply_body E s body cb subsidy = Inr s'"
  shows "\<exists>s1 s2 s3 s4 e e' offset total minted.
    (\<forall>k\<in>set (tx_kernels (tx_body body)). \<not> st_height s < k_min_height k) \<and>
    fold_res (spend_input (env_hash E) (st_height s)) (inputs (tx_body body)) s = Inr s1 \<and>
    fold_res (add_output (env_hash E) (st_height s) False) (Transaction_outputs body) s1 = Inr s2 \<and>
    fold_res (add_output (env_hash E) (st_height s) True) (coinbase_outputs cb) s2 = Inr s3 \<and>
    decompress (env_curve E) (kernel_excess_sum s3) = Some e \<and>
    fold_res (add_kernel (env_hash E) (env_curve E)) (block_kernels body cb) (s3, e) = Inr (s4, e') \<and>
    scalar_from_bytes (env_curve E) (total_kernel_offset s4) = Some total \<and>
    scalar_from_bytes (env_curve E) (kernel_offset body) = Some offset \<and>
    chk_add64 (st_supply s4) subsidy = Some minted \<and> \<not> issued_before (add64 (st_height s) 1) < minted \<and>
    s4\<lparr>kernel_excess_sum := compress (env_curve E) e', total_kernel_offset := scalar_to_bytes (env_curve E) (total + offset),
             st_supply := minted\<rparr> = s'"
  using assms
  unfolding apply_body_def Let_def and_then_Inr split_paired_Ex prod.case each_ok_guard if_Inr ok_or_Inr sum.inject
  by (elim exE conjE) (intro exI conjI; assumption)

lemma apply_body_Inr:
  assumes "apply_body E s body cb subsidy = Inr s'"
    and "utxos_ok (env_hash E) s" and "utxo_ok (env_hash E) True (st_kernels s)"
  obtains s1 s2 s3 s4 e offset total where
    "fold_res (spend_input (env_hash E) (st_height s)) (inputs (tx_body body)) s = Inr s1"
    "fold_res (add_output (env_hash E) (st_height s) False) (Transaction_outputs body) s1 = Inr s2"
    "fold_res (add_output (env_hash E) (st_height s) True) (coinbase_outputs cb) s2 = Inr s3"
    "decompress (env_curve E) (kernel_excess_sum s) = Some e"
    "fold_res (add_kernel (env_hash E) (env_curve E)) (block_kernels body cb) (s3, e)
       = Inr (s4, e + points_sum (env_curve E) (map k_excess (block_kernels body cb)))"
    "scalar_from_bytes (env_curve E) (total_kernel_offset s) = Some total"
    "scalar_from_bytes (env_curve E) (kernel_offset body) = Some offset"
    "utxo_frame s s3" "utxos_ok (env_hash E) s3" "\<exists>acc. s4 = s3\<lparr>st_kernels := acc\<rparr>"
    "st_supply s + subsidy \<le> U64_MAX" "st_supply s + subsidy \<le> issued_before (add64 (st_height s) 1)"
    "\<forall>k\<in>set (tx_kernels (tx_body body)). k_min_height k \<le> st_height s"
    "s' = s4\<lparr>kernel_excess_sum := compress (env_curve E)
               (e + points_sum (env_curve E) (map k_excess (block_kernels body cb))),
             total_kernel_offset := scalar_to_bytes (env_curve E) (total + offset),
             st_supply := st_supply s + subsidy\<rparr>"
proof -
  let ?H = "env_hash E" and ?C = "env_curve E"
  obtain s1 s2 s3 s4 e e' offset total minted where 0: "\<forall>k\<in>set (tx_kernels (tx_body body)). \<not> st_height s < k_min_height k"
    and 1: "fold_res (spend_input ?H (st_height s)) (inputs (tx_body body)) s = Inr s1"
    and 2: "fold_res (add_output ?H (st_height s) False) (Transaction_outputs body) s1 = Inr s2"
    and 3: "fold_res (add_output ?H (st_height s) True) (coinbase_outputs cb) s2 = Inr s3"
    and 4: "decompress ?C (kernel_excess_sum s3) = Some e"
    and 5: "fold_res (add_kernel ?H ?C) (block_kernels body cb) (s3, e) = Inr (s4, e')"
    and 6: "scalar_from_bytes ?C (total_kernel_offset s4) = Some total"
    and 7: "scalar_from_bytes ?C (kernel_offset body) = Some offset"
    and 8: "chk_add64 (st_supply s4) subsidy = Some minted" "\<not> issued_before (add64 (st_height s) 1) < minted"
    and 9: "s4\<lparr>kernel_excess_sum := compress ?C e', total_kernel_offset := scalar_to_bytes ?C (total + offset),
             st_supply := minted\<rparr> = s'"
    using apply_body_exec [OF assms(1)] by (elim exE conjE) (rule that; assumption)
  note sp = spend_inputs [OF 1 assms(2)]
  note a1 = add_outputs [OF 2] and a2 = add_outputs [OF 3]
  have ok1: "utxos_ok ?H s1" using sp by blast
  have ok2: "utxos_ok ?H s2" using a1 [OF ok1] by blast
  have fr: "utxo_frame s s3"
    using sp [THEN conjunct1] a1 [OF ok1, THEN conjunct1] a2 [OF ok2, THEN conjunct1] utxo_frame_trans by blast
  note fields = utxo_frame_fields [OF fr]
  have kok: "utxo_ok ?H True (st_kernels s3)" using assms(3) fields(1) by simp
  note ker = add_kernels [OF 5 kok]
  then have e': "e' = e + points_sum ?C (map k_excess (block_kernels body cb))" by blast
  obtain acc where acc: "s4 = s3\<lparr>st_kernels := acc\<rparr>" using ker by blast
  then have s4: "total_kernel_offset s4 = total_kernel_offset s" "st_supply s4 = st_supply s"
    using fields by simp_all
  have minted: "minted = st_supply s + subsidy" "st_supply s + subsidy \<le> U64_MAX"
    using 8(1) unfolding s4 chk_add64_Some by blast+
  show thesis
  proof (rule that [OF 1 2 3 _ _ _ 7 fr])
    show "decompress ?C (kernel_excess_sum s) = Some e" using 4 fields(2) by simp
    show "fold_res (add_kernel ?H ?C) (block_kernels body cb) (s3, e)
        = Inr (s4, e + points_sum ?C (map k_excess (block_kernels body cb)))" using 5 e' by simp
    show "scalar_from_bytes ?C (total_kernel_offset s) = Some total" using 6 s4 by simp
    show "utxos_ok ?H s3" using a2 [OF ok2] by blast
    show "\<exists>acc. s4 = s3\<lparr>st_kernels := acc\<rparr>" using acc by blast
    show "st_supply s + subsidy \<le> U64_MAX" by (rule minted(2))
    show "st_supply s + subsidy \<le> issued_before (add64 (st_height s) 1)" using 8(2) minted(1) by simp
    show "\<forall>k\<in>set (tx_kernels (tx_body body)). k_min_height k \<le> st_height s" using 0 by (simp add: not_less)
    show "s' = s4\<lparr>kernel_excess_sum := compress ?C (e + points_sum ?C (map k_excess (block_kernels body cb))),
        total_kernel_offset := scalar_to_bytes ?C (total + offset), st_supply := st_supply s + subsidy\<rparr>"
      using 9 e' minted(1) by simp
  qed
qed
subsection \<open>Contents that balance\<close>

lemma contents_Inr:
  assumes "validate_block_contents E b height skip subsidy relay_from = Inr ()"
  shows "validate_structure (env_hash E) (env_curve E) Block (bt_body b) = Inr () \<and>
    (if height = 0 then bt_coinbase b = None \<and> Transaction_is_empty (bt_body b)
     else
       (\<exists>fees. Transaction_fee (bt_body b) = Inr fees \<and> verify_sums (env_curve E) (bt_body b) = Inr () \<and>
          Batch_weight b \<le> MAX_BLOCK_WEIGHT \<and>
          (\<not> skip \<longrightarrow> verify_crypto (env_hash E) (env_curve E) (bt_body b) = Inr ()) \<and>
          (case bt_coinbase b of
             None \<Rightarrow> subsidy + fees = 0
           | Some cb \<Rightarrow> subsidy + fees \<noteq> 0 \<and> Coinbase_verify_sum (env_curve E) cb (subsidy + fees) = Inr () \<and>
               Coinbase_validate_structure (env_curve E) cb = Inr () \<and>
               check_coinbase_unique (env_hash E) (bt_body b) cb = Inr () \<and>
               (\<not> skip \<longrightarrow> Coinbase_verify_crypto (env_hash E) (env_curve E) cb = Inr ()))))"
  using assms unfolding validate_block_contents_def Let_def and_then_Inr map_err_Inr if_Inr ok_or_Inr chk_add64_Some
  by (cases "bt_coinbase b"; cases "height = 0"; cases skip) (auto simp: and_then_Inr map_err_Inr if_Inr not_less)

lemma contents_balance:
  assumes "curve_ok (env_curve E)"
    and "validate_block_contents E b height skip subsidy relay_from = Inr ()"
    and "scalar_from_bytes (env_curve E) (kernel_offset (bt_body b)) = Some offset"
    and "height = 0 \<Longrightarrow> bt_body b = Transaction_empty \<and> subsidy = 0"
  shows "all_points (env_curve E) (map o_commitment (Transaction_outputs (bt_body b) @ coinbase_outputs (bt_coinbase b)))"
    and "points_sum (env_curve E) (map o_commitment (Transaction_outputs (bt_body b) @ coinbase_outputs (bt_coinbase b)))
         - points_sum (env_curve E) (input_commitments (bt_body b)) - smul (env_curve E) (of_nat subsidy) (gen_g (env_curve E))
       = points_sum (env_curve E) (map k_excess (block_kernels (bt_body b) (bt_coinbase b)))
         + smul (env_curve E) offset (gen_h (env_curve E))"
proof -
  let ?C = "env_curve E" and ?body = "bt_body b"
  note c = contents_Inr [OF assms(2)]
  have "all_points ?C (map o_commitment (Transaction_outputs ?body @ coinbase_outputs (bt_coinbase b))) \<and>
      points_sum ?C (map o_commitment (Transaction_outputs ?body @ coinbase_outputs (bt_coinbase b)))
         - points_sum ?C (input_commitments ?body) - smul ?C (of_nat subsidy) (gen_g ?C)
       = points_sum ?C (map k_excess (block_kernels ?body (bt_coinbase b))) + smul ?C offset (gen_h ?C)"
  proof (cases "height = 0")
    case True
    then have "bt_body b = Transaction_empty" "subsidy = 0" "bt_coinbase b = None" using assms(4) c by auto
    moreover have "offset = 0"
      using assms(3) curve_laws(6) [OF assms(1)] calculation by (simp add: Transaction_empty_def)
    ultimately show ?thesis
      using smul_zero [OF assms(1)]
      by (simp add: Transaction_empty_def Transaction_outputs_def coinbase_outputs_def block_kernels_def
          input_commitments_def all_points_def points_sum_def)
  next
    case False
    then obtain fees where fees: "Transaction_fee ?body = Inr fees" and sums: "verify_sums ?C ?body = Inr ()"
      and cb: "case bt_coinbase b of None \<Rightarrow> subsidy + fees = 0
           | Some cb \<Rightarrow> subsidy + fees \<noteq> 0 \<and> Coinbase_verify_sum ?C cb (subsidy + fees) = Inr () \<and>
               Coinbase_validate_structure ?C cb = Inr () \<and>
               check_coinbase_unique (env_hash E) ?body cb = Inr () \<and>
               (\<not> skip \<longrightarrow> Coinbase_verify_crypto (env_hash E) ?C cb = Inr ())"
      using c by auto
    have pts: "all_points ?C (map o_commitment (Transaction_outputs ?body))"
      and bal: "points_sum ?C (map o_commitment (Transaction_outputs ?body)) - points_sum ?C (input_commitments ?body)
          + smul ?C (of_nat fees) (gen_g ?C)
        = points_sum ?C (map k_excess (tx_kernels (tx_body ?body))) + smul ?C offset (gen_h ?C)"
      using sums fees assms(3) by (auto simp: verify_sums_Inr balanced_def Transaction_fee_Inr input_commitments_def)
    show ?thesis
    proof (cases "bt_coinbase b")
      case None
      then have "subsidy = 0" "fees = 0" using cb by auto
      then show ?thesis using None pts bal smul_zero [OF assms(1)]
        by (simp add: coinbase_outputs_def block_kernels_def)
    next
      case (Some coinbase)
      then have sum: "Coinbase_verify_sum ?C coinbase (subsidy + fees) = Inr ()" using cb by simp
      then have cpts: "all_points ?C (map o_commitment (group_outputs (cb_outputs coinbase)))"
        and cbal: "points_sum ?C (map o_commitment (group_outputs (cb_outputs coinbase)))
            - smul ?C (of_nat (subsidy + fees)) (gen_g ?C) = point_of ?C (k_excess (cb_kernel coinbase))"
        by (auto simp: Coinbase_verify_sum_def and_then_Inr ok_or_Inr map_err_Inr sum_points_Inr all_points_def
            points_sum_def point_of_def split: if_splits)
      have "smul ?C (of_nat (subsidy + fees)) (gen_g ?C) = smul ?C (of_nat subsidy) (gen_g ?C) + smul ?C (of_nat fees) (gen_g ?C)"
        using curve_laws(7) [OF assms(1)] by simp
      then show ?thesis
        using Some pts cpts bal cbal
        by (simp add: coinbase_outputs_def block_kernels_def points_sum_append all_points_append algebra_simps)
          (simp add: points_sum_def algebra_simps)
    qed
  qed
  then show "all_points ?C (map o_commitment (Transaction_outputs ?body @ coinbase_outputs (bt_coinbase b)))"
    and "points_sum ?C (map o_commitment (Transaction_outputs ?body @ coinbase_outputs (bt_coinbase b)))
         - points_sum ?C (input_commitments ?body) - smul ?C (of_nat subsidy) (gen_g ?C)
       = points_sum ?C (map k_excess (block_kernels ?body (bt_coinbase b))) + smul ?C offset (gen_h ?C)" by blast+
qed
subsection \<open>The audit\<close>

lemma verify_supply_Inr:
  "verify_supply C s = Inr u \<longleftrightarrow>
     all_points C (om_keys (utxos s)) \<and>
     (\<exists>excess offset. decompress C (kernel_excess_sum s) = Some excess \<and>
        scalar_from_bytes C (total_kernel_offset s) = Some offset \<and>
        unspent C s - smul C (of_nat (st_supply s)) (gen_g C) = excess + smul C offset (gen_h C))"
  unfolding verify_supply_def unspent_def all_points_def points_sum_def
  by (auto simp: and_then_Inr ok_or_Inr map_err_Inr if_Inr sum_points_Inr)

lemma dom_om_get: "dom (om_get m) = fst ` set m"
  by (simp add: om_get_def dom_map_of_conv_image_fst)

lemma apply_body_audit:
  assumes "curve_ok (env_curve E)" and "apply_body E s body cb subsidy = Inr s'"
    and "utxos_ok (env_hash E) s" and "utxo_ok (env_hash E) True (st_kernels s)"
    and "verify_supply (env_curve E) s = Inr ()"
    and "all_points (env_curve E) (map o_commitment (Transaction_outputs body @ coinbase_outputs cb))"
    and "\<And>offset. scalar_from_bytes (env_curve E) (kernel_offset body) = Some offset \<Longrightarrow>
       points_sum (env_curve E) (map o_commitment (Transaction_outputs body @ coinbase_outputs cb))
         - points_sum (env_curve E) (input_commitments body) - smul (env_curve E) (of_nat subsidy) (gen_g (env_curve E))
       = points_sum (env_curve E) (map k_excess (block_kernels body cb))
         + smul (env_curve E) offset (gen_h (env_curve E))"
  shows "verify_supply (env_curve E) s' = Inr ()"
proof -
  let ?H = "env_hash E" and ?C = "env_curve E"
  obtain s1 s2 s3 s4 e offset total where
    1: "fold_res (spend_input ?H (st_height s)) (inputs (tx_body body)) s = Inr s1"
    and 2: "fold_res (add_output ?H (st_height s) False) (Transaction_outputs body) s1 = Inr s2"
    and 3: "fold_res (add_output ?H (st_height s) True) (coinbase_outputs cb) s2 = Inr s3"
    and e: "decompress ?C (kernel_excess_sum s) = Some e"
    and total: "scalar_from_bytes ?C (total_kernel_offset s) = Some total"
    and offset: "scalar_from_bytes ?C (kernel_offset body) = Some offset"
    and s4: "\<exists>acc. s4 = s3\<lparr>st_kernels := acc\<rparr>"
    and s': "s' = s4\<lparr>kernel_excess_sum := compress ?C (e + points_sum ?C (map k_excess (block_kernels body cb))),
             total_kernel_offset := scalar_to_bytes ?C (total + offset), st_supply := st_supply s + subsidy\<rparr>"
    using apply_body_Inr [OF assms(2-4)] by metis
  note sp = spend_inputs [OF 1 assms(3), of ?C]
  have ok1: "utxos_ok ?H s1" using sp [THEN conjunct2, THEN conjunct1] .
  note a1 = add_outputs [OF 2 ok1, of ?C]
  have ok2: "utxos_ok ?H s2" using a1 [THEN conjunct2, THEN conjunct1] .
  note a2 = add_outputs [OF 3 ok2, of ?C]
  have same: "utxos s' = utxos s3" using s' s4 by auto
  then have un: "unspent ?C s' = points_sum ?C (map o_commitment (Transaction_outputs body @ coinbase_outputs cb))
      + unspent ?C s - points_sum ?C (input_commitments body)"
  proof -
    have "unspent ?C s' = unspent ?C s3" by (simp add: unspent_def same)
    moreover have "unspent ?C s3 = points_sum ?C (map o_commitment (coinbase_outputs cb)) + unspent ?C s2"
      "unspent ?C s2 = points_sum ?C (map o_commitment (Transaction_outputs body)) + unspent ?C s1"
      "unspent ?C s = points_sum ?C (input_commitments body) + unspent ?C s1"
      using sp a1 a2 unfolding input_commitments_def by blast+
    ultimately show ?thesis by (simp add: points_sum_append)
  qed
  have keys: "fst ` set (utxos s') \<subseteq> o_commitment ` set (Transaction_outputs body @ coinbase_outputs cb) \<union> fst ` set (utxos s)"
  proof -
    have "dom (om_get (utxos s1)) \<subseteq> dom (om_get (utxos s))" using sp by (auto split: if_splits)
    moreover have "dom (om_get (utxos s2)) = o_commitment ` set (Transaction_outputs body) \<union> dom (om_get (utxos s1))"
      using a1 by blast
    moreover have "dom (om_get (utxos s3)) = o_commitment ` set (coinbase_outputs cb) \<union> dom (om_get (utxos s2))"
      using a2 by blast
    ultimately show ?thesis unfolding same dom_om_get [symmetric] by auto
  qed
  obtain e' total' where e': "decompress ?C (kernel_excess_sum s) = Some e'"
    and t': "scalar_from_bytes ?C (total_kernel_offset s) = Some total'"
    and audit: "unspent ?C s - smul ?C (of_nat (st_supply s)) (gen_g ?C) = e' + smul ?C total' (gen_h ?C)"
    and pts: "all_points ?C (om_keys (utxos s))"
    using assms(5) by (auto simp: verify_supply_Inr)
  have eqs: "e' = e" "total' = total" using e e' total t' by simp_all
  have "all_points ?C (om_keys (utxos s'))" using keys pts assms(6) unfolding all_points_def set_map by blast
  moreover have "unspent ?C s' - smul ?C (of_nat (st_supply s')) (gen_g ?C)
      = e + points_sum ?C (map k_excess (block_kernels body cb)) + smul ?C (total + offset) (gen_h ?C)"
    using audit assms(7) [OF offset] curve_laws(7) [OF assms(1)] un
    by (simp add: s' eqs algebra_simps)
  ultimately show ?thesis
    unfolding verify_supply_Inr using curve_laws(1,2) [OF assms(1)] by (simp add: s')
qed

subsection \<open>An accepted block\<close>

lemma accepted:
  assumes "apply_batch_internal E s b previous_timestamps now preverified skip = Inr s'"
  shows "\<exists>base_bonds relay gone change registered bonds.
    check_linkage E s b previous_timestamps now = Inr () \<and> check_work E s b preverified = Inr () \<and>
    extend_relay (env_hash E) s b previous_timestamps = Inr (base_bonds, relay, gone, change) \<and>
    register_bonds (env_hash E) base_bonds relay b = Inr (registered, bonds) \<and>
    check_signer E s bonds b = Inr () \<and>
    connect_block E s b skip base_bonds relay gone change registered bonds = Inr s'"
  using assms unfolding apply_batch_internal_def Let_def and_then_Inr split_paired_Ex prod.case
  by (elim exE conjE) (intro exI conjI; simp)

lemma connected:
  assumes "connect_block E s b skip base_bonds relay gone change registered bonds = Inr s'"
  obtains creditable floor recent counts credited subsidy "next" where
    "cap_work (work_floor s) (st_height s) (calculate_work (bt_target b)) = (creditable, floor)"
    "credit_in_window (recent_signers s) (st_counts s) bonds (st_height s) (map_option auth_bond_id (bt_miner b))
       creditable (bt_timestamp b) = (recent, counts, credited)"
    "bt_chain_weight b = sat_add128 (State_weight s) credited"
    "subsidy = subsidy_for (map_option auth_bond_id (bt_miner b)) counts bonds (st_height s) (bt_timestamp b)"
    "validate_block_contents E b (st_height s) skip subsidy (relay_start s b) = Inr ()"
    "apply_body E (s\<lparr>st_bonds := base_bonds, st_relay := relay\<rparr>) (bt_body b) (bt_coinbase b) subsidy = Inr next"
    "bt_state_root b = state_root (env_hash E) (next\<lparr>st_bonds := bonds\<rparr>)"
    "s' = finalize_block E s b floor recent counts credited (next\<lparr>st_bonds := bonds,
        effects := \<lparr>bonds_added = registered, bonds_removed = gone,
          relay_added = added change, relay_removed = removed change\<rparr>\<rparr>)"
proof -
  obtain creditable floor where cap: "cap_work (work_floor s) (st_height s) (calculate_work (bt_target b)) = (creditable, floor)"
    by (cases "cap_work (work_floor s) (st_height s) (calculate_work (bt_target b))")
  obtain recent counts credited where cr: "credit_in_window (recent_signers s) (st_counts s) bonds (st_height s)
      (map_option auth_bond_id (bt_miner b)) creditable (bt_timestamp b) = (recent, counts, credited)"
    by (cases "credit_in_window (recent_signers s) (st_counts s) bonds (st_height s)
      (map_option auth_bond_id (bt_miner b)) creditable (bt_timestamp b)")
  let ?subsidy = "subsidy_for (map_option auth_bond_id (bt_miner b)) counts bonds (st_height s) (bt_timestamp b)"
  have w: "State_weight (s\<lparr>st_bonds := base_bonds, st_relay := relay\<rparr>) = State_weight s"
    by (simp add: State_weight_def)
  have r: "state_root H (x\<lparr>st_bonds := bonds, effects := y\<rparr>) = state_root H (x\<lparr>st_bonds := bonds\<rparr>)" for H x y
    by (simp add: state_root_def root_parts_def)
  obtain x where "bt_chain_weight b = sat_add128 (State_weight s) credited"
    "validate_block_contents E b (st_height s) skip ?subsidy (relay_start s b) = Inr ()"
    "apply_body E (s\<lparr>st_bonds := base_bonds, st_relay := relay\<rparr>) (bt_body b) (bt_coinbase b) ?subsidy = Inr x"
    "bt_state_root b = state_root (env_hash E) (x\<lparr>st_bonds := bonds\<rparr>)"
    "s' = finalize_block E s b floor recent counts credited (x\<lparr>st_bonds := bonds,
        effects := \<lparr>bonds_added = registered, bonds_removed = gone,
          relay_added = added change, relay_removed = removed change\<rparr>\<rparr>)"
    using assms by (auto simp: connect_block_def cap cr w r and_then_Inr Let_def split: if_splits)
  then show thesis using that [OF cap cr _ refl] by blast
qed

end
