(* ===== verification/Chain_Invariants.thy ===== *)
theory Chain_Invariants
  imports Chain_Supply
begin

text \<open>
  What holds of every chain of accepted blocks: no coin from nothing, a supply under the schedule, no
  kernel twice, a history that matches its commitments, and a weight that only grows.
\<close>

subsection \<open>The invariant\<close>

definition chain_inv :: "('pt :: ab_group_add, 'sc :: comm_ring_1) env \<Rightarrow> State \<Rightarrow> bool" where
  "chain_inv E s \<longleftrightarrow>
     utxos_ok (env_hash E) s \<and> utxo_ok (env_hash E) True (st_kernels s) \<and>
     verify_supply (env_curve E) s = Inr () \<and> st_supply s \<le> issued_before (st_height s) \<and>
     capped s \<le> depth s \<and> depth s \<le> U128_MAX \<and> st_target s \<noteq> 0 \<and>
     window_ok (recent_signers s) (st_counts s) \<and> (\<forall>(_, w)\<in>set (work_floor s). 1 \<le> w) \<and>
     relay_ok (env_hash E) (st_relay s) \<and>
     (\<exists>hashes. chain_mmr s = mmr_of (env_hash E) True hashes \<and> length hashes = st_height s)"

lemma genesis_inv:
  assumes "curve_ok (env_curve E)"
  shows "chain_inv E (State_genesis (env_hash E))"
proof -
  have "mmr_of (env_hash E) True [] = Mmr_new" by (simp add: mmr_of_def Mmr_new_def mforest_def flat_def)
  then show ?thesis
    using curve_laws(5,6) [OF assms] smul_zero [OF assms] utxo_ok_new relay_ok_genesis window_ok_Nil
    by (simp add: chain_inv_def State_genesis_def Let_def utxos_ok_def verify_supply_Inr unspent_def
        all_points_def points_sum_def IDENTITY_def GENESIS_TARGET_def)
qed

subsection \<open>Work and credit\<close>

lemma calculate_work_pos: "t \<noteq> 0 \<Longrightarrow> 1 \<le> calculate_work t \<and> calculate_work t \<le> U128_MAX"
  using work_antitone [of t t] by (simp add: word_gt_0)

lemma cap_work_effect:
  assumes "cap_work floor height work = (creditable, floor')" and "\<forall>(_, w)\<in>set floor. 1 \<le> w" and "1 \<le> work"
  shows "1 \<le> creditable \<and> creditable \<le> work \<and> (\<forall>(_, w)\<in>set floor'. 1 \<le> w)"
proof -
  have sub: "set (keep_window_of f h) \<subseteq> set f" for f h
    unfolding keep_window_of_def by (rule set_dropWhileD [THEN subsetI])
  let ?fl = "keep_window_of floor height"
  have pos: "\<forall>(_, w)\<in>set ?fl. 1 \<le> w" using sub [of floor height] assms(2) by blast
  have "set (rev (dropWhile (\<lambda>(_, w). work \<le> w) (rev ?fl))) \<subseteq> set ?fl"
    using set_dropWhileD by fastforce
  then have "\<forall>(_, w)\<in>set (rev (dropWhile (\<lambda>(_, w). work \<le> w) (rev ?fl)) @ [(height, work)]). 1 \<le> w"
    using pos assms(3) by fastforce
  moreover have "floor' = keep_window_of (rev (dropWhile (\<lambda>(_, w). work \<le> w) (rev ?fl)) @ [(height, work)]) (height + 1)"
    using assms(1) by (simp add: cap_work_def Let_def)
  ultimately have "\<forall>(_, w)\<in>set floor'. 1 \<le> w" using sub by blast
  moreover have "creditable = (case ?fl of (_, low) # _ \<Rightarrow> min work (sat_add128 low (low div WORK_CAP_HEADROOM)) | [] \<Rightarrow> work)"
    using assms(1) by (simp add: cap_work_def Let_def)
  then have "1 \<le> creditable \<and> creditable \<le> work"
    using pos assms(3) by (auto simp: sat_add128_def split: list.splits)
  ultimately show ?thesis by blast
qed
subsection \<open>One block\<close>

lemma extend_relay_ok:
  assumes "extend_relay H s b ts = Inr (bonds, relay, gone, change)" and "relay_ok H (st_relay s)"
  shows "relay_ok H relay"
proof (cases "bt_relay b")
  case None
  then show ?thesis using assms by (auto simp: extend_relay_def split: prod.splits)
next
  case (Some relayed)
  then have "\<exists>change'. Relay_extend H (st_relay s) relayed (bt_timestamp b) = Inr (relay, change')"
    using assms(1)
    by (auto simp: extend_relay_def and_then_Inr map_err_Inr Let_def case_prod_unfold split: option.splits)
  then show ?thesis using relay_extend_effect [OF assms(2)] by blast
qed

lemma apply_body_effect:
  assumes "apply_body E s body cb subsidy = Inr s'"
    and "utxos_ok (env_hash E) s" and "utxo_ok (env_hash E) True (st_kernels s)"
  shows "\<exists>acc m ks ex off. s' = s\<lparr>utxo_set := acc, utxos := m, st_kernels := ks, kernel_excess_sum := ex,
      total_kernel_offset := off, st_supply := st_supply s + subsidy\<rparr>"
    and "utxos_ok (env_hash E) s'" and "utxo_ok (env_hash E) True (st_kernels s')"
    and "st_supply s + subsidy \<le> issued_before (add64 (st_height s) 1)"
    and "set (coins (st_kernels s')) = set (coins (st_kernels s)) \<union> Kernel_id (env_hash E) ` set (block_kernels body cb)"
    and "distinct (map (Kernel_id (env_hash E)) (block_kernels body cb))"
    and "set (coins (st_kernels s)) \<inter> Kernel_id (env_hash E) ` set (block_kernels body cb) = {}"
    and "\<forall>i\<in>set (inputs (tx_body body)).
        \<exists>entry. om_get (utxos s) (i_commitment i) = Some entry \<and> ue_owner_key entry = i_owner_key i \<and>
          (ue_coinbase entry \<longrightarrow> sat_add64 (ue_height entry) COINBASE_MATURITY \<le> st_height s)"
    and "\<forall>k\<in>set (tx_kernels (tx_body body)). k_min_height k \<le> st_height s"
proof -
  let ?H = "env_hash E" and ?C = "env_curve E"
  obtain s1 s3 s4 e offset total where
    sp: "fold_res (spend_input ?H (st_height s)) (inputs (tx_body body)) s = Inr s1"
    and ker: "fold_res (add_kernel ?H ?C) (block_kernels body cb) (s3, e)
       = Inr (s4, e + points_sum ?C (map k_excess (block_kernels body cb)))"
    and fr: "utxo_frame s s3" and ok3: "utxos_ok ?H s3" and s4: "\<exists>acc. s4 = s3\<lparr>st_kernels := acc\<rparr>"
    and room: "st_supply s + subsidy \<le> issued_before (add64 (st_height s) 1)"
    and locks: "\<forall>k\<in>set (tx_kernels (tx_body body)). k_min_height k \<le> st_height s"
    and s': "s' = s4\<lparr>kernel_excess_sum := compress ?C (e + points_sum ?C (map k_excess (block_kernels body cb))),
             total_kernel_offset := scalar_to_bytes ?C (total + offset), st_supply := st_supply s + subsidy\<rparr>"
    using apply_body_Inr [OF assms] by metis
  obtain acc m where s3: "s3 = s\<lparr>utxo_set := acc, utxos := m\<rparr>" using fr unfolding utxo_frame_def by blast
  obtain ks where ks: "s4 = s3\<lparr>st_kernels := ks\<rparr>" using s4 by blast
  have "s' = s\<lparr>utxo_set := acc, utxos := m, st_kernels := ks,
      kernel_excess_sum := compress ?C (e + points_sum ?C (map k_excess (block_kernels body cb))),
      total_kernel_offset := scalar_to_bytes ?C (total + offset), st_supply := st_supply s + subsidy\<rparr>"
    unfolding s' ks s3 by simp
  then show "\<exists>acc m ks ex off. s' = s\<lparr>utxo_set := acc, utxos := m, st_kernels := ks, kernel_excess_sum := ex,
      total_kernel_offset := off, st_supply := st_supply s + subsidy\<rparr>" by blast
  show "utxos_ok ?H s'" using ok3 by (simp add: s' ks utxos_ok_def)
  have same: "st_kernels s3 = st_kernels s" "st_kernels s' = st_kernels s4" by (simp_all add: s3 s')
  have "utxo_ok ?H True (st_kernels s3)" using assms(3) same by simp
  note k = add_kernels [OF ker this, unfolded same(1)]
  show "utxo_ok ?H True (st_kernels s')"
    and "set (coins (st_kernels s')) = set (coins (st_kernels s)) \<union> Kernel_id ?H ` set (block_kernels body cb)"
    and "distinct (map (Kernel_id ?H) (block_kernels body cb))"
    and "set (coins (st_kernels s)) \<inter> Kernel_id ?H ` set (block_kernels body cb) = {}"
    using k unfolding same(2) by blast+
  show "st_supply s + subsidy \<le> issued_before (add64 (st_height s) 1)" by (rule room)
  show "\<forall>k\<in>set (tx_kernels (tx_body body)). k_min_height k \<le> st_height s" by (rule locks)
  show "\<forall>i\<in>set (inputs (tx_body body)).
        \<exists>entry. om_get (utxos s) (i_commitment i) = Some entry \<and> ue_owner_key entry = i_owner_key i \<and>
          (ue_coinbase entry \<longrightarrow> sat_add64 (ue_height entry) COINBASE_MATURITY \<le> st_height s)"
    using spend_inputs [OF sp assms(2), of ?C] by blast
qed

subsection \<open>The committed unspent set\<close>

definition entry_leaf :: "hasher \<Rightarrow> h256 \<times> UtxoEntry \<Rightarrow> h256" where
  "entry_leaf H p = utxo_leaf H (fst p) (snd p)"

text \<open>The accumulator holds the leaf of every unspent output and no other.\<close>

definition committed :: "hasher \<Rightarrow> State \<Rightarrow> bool" where
  "committed H s \<longleftrightarrow> set (coins (utxo_set s)) = entry_leaf H ` set (utxos s)"

lemma set_om_remove_keys: "set (om_remove k m) = {p \<in> set m. fst p \<noteq> k}"
  by (auto simp: om_remove_def)

lemma spend_inputs_committed:
  assumes "fold_res (spend_input H height) ins s = Inr s'" and "utxos_ok H s" and "committed H s"
    and "inj_on (entry_leaf H) (set (utxos s))"
  shows "committed H s' \<and> set (utxos s') \<subseteq> set (utxos s)"
  using assms
proof (induction ins arbitrary: s)
  case (Cons i ins)
  then obtain t where t: "spend_input H height i s = Inr t" "fold_res (spend_input H height) ins t = Inr s'"
    by (auto simp: and_then_Inr)
  have ok: "utxos_ok H t" by (rule spend_input_step(2) [OF t(1) Cons.prems(2)])
  obtain entry where e: "om_get (utxos s) (i_commitment i) = Some entry"
    and te: "utxo_set t = fst (UtxoAccumulator_remove H True (utxo_leaf H (i_commitment i) entry) (utxo_set s))"
      "utxos t = om_remove (i_commitment i) (utxos s)"
    using t(1) by (auto simp: spend_input_Inr)
  let ?p = "(i_commitment i, entry)"
  have mem: "?p \<in> set (utxos s)" using e Cons.prems(2) by (simp add: utxos_ok_def om_get_iff)
  have uniq: "q = ?p" if "q \<in> set (utxos s)" "fst q = i_commitment i" for q
  proof -
    have "om_get (utxos s) (fst q) = Some (snd q)"
      using that(1) Cons.prems(2) om_get_iff [of "utxos s" "fst q" "snd q"] by (simp add: utxos_ok_def)
    then show ?thesis using e that(2) by (simp add: prod_eq_iff)
  qed
  have "fst q \<noteq> i_commitment i \<longleftrightarrow> q \<noteq> ?p" if "q \<in> set (utxos s)" for q
    using uniq [OF that] by (cases q) auto
  then have rem: "set (utxos t) = set (utxos s) - {?p}" unfolding te set_om_remove_keys by blast
  have "set (coins (utxo_set t)) = entry_leaf H ` set (utxos s) - {entry_leaf H ?p}"
    using utxo_remove [of H True "utxo_set s" "utxo_leaf H (i_commitment i) entry"] Cons.prems(2,3)
    by (simp add: te utxos_ok_def committed_def entry_leaf_def)
  also have "\<dots> = entry_leaf H ` (set (utxos s) - {?p})"
    using inj_on_image_set_diff [OF Cons.prems(4), of "set (utxos s)" "{?p}"] mem by simp
  finally have com: "committed H t" by (simp add: committed_def rem)
  have "inj_on (entry_leaf H) (set (utxos t))" using Cons.prems(4) by (simp add: rem inj_on_diff)
  then show ?case using Cons.IH [OF t(2) ok com] rem by blast
qed simp

lemma add_outputs_committed:
  assumes "fold_res (add_output H height cb) outs s = Inr s'" and "utxos_ok H s" and "committed H s"
  shows "committed H s'"
  using assms
proof (induction outs arbitrary: s)
  case (Cons out outs)
  then obtain t where t: "add_output H height cb out s = Inr t" "fold_res (add_output H height cb) outs t = Inr s'"
    by (auto simp: and_then_Inr)
  have ok: "utxos_ok H t" by (rule add_output_step(2) [OF t(1) Cons.prems(2)])
  let ?e = "new_entry H height cb out"
  have fresh: "om_get (utxos s) (o_commitment out) = None"
    and te: "utxo_set t = fst (UtxoAccumulator_insert H True (utxo_leaf H (o_commitment out) ?e) (utxo_set s))"
      "utxos t = om_insert (o_commitment out) ?e (utxos s)"
    using t(1) by (auto simp: add_output_Inr)
  have "set_mset (mset (om_insert (o_commitment out) ?e (utxos s)))
      = insert (o_commitment out, ?e) (set (utxos s))"
    using om.mset_insert_fresh [OF _ fresh] Cons.prems(2) by (simp add: utxos_ok_def)
  then have "set (utxos t) = insert (o_commitment out, ?e) (set (utxos s))" by (simp add: te)
  then have "committed H t"
    using utxo_insert [of H True "utxo_set s" "utxo_leaf H (o_commitment out) ?e"] Cons.prems(2,3)
    by (simp add: te(1) utxos_ok_def committed_def entry_leaf_def)
  then show ?case using Cons.IH [OF t(2) ok] by blast
qed simp

text \<open>What an accepted block was checked to do.\<close>

definition block_effect ::
    "('pt :: ab_group_add, 'sc :: comm_ring_1) env \<Rightarrow> State \<Rightarrow> Batch \<Rightarrow> State \<Rightarrow> nat \<Rightarrow> nat \<Rightarrow> bool" where
  "block_effect E s b s' subsidy credited \<longleftrightarrow>
     st_height s' = st_height s + 1 \<and> st_supply s' = st_supply s + subsidy \<and>
     mw_midstate s' = fold_block E (prev_midstate b) b \<and> prev_midstate b = mw_midstate s \<and>
     header_hash s' = ext_final_hash (bt_extension b) \<and> prev_header_hash b = header_hash s \<and>
     bt_chain_weight b = sat_add128 (State_weight s) credited \<and>
     1 \<le> credited \<and> credited \<le> calculate_work (bt_target b) \<and>
     depth s' = sat_add128 (depth s) (calculate_work (bt_target b)) \<and>
     capped s' = sat_add128 (capped s) (calculate_work (bt_target b) - credited) \<and>
     bt_state_root b = StateRootParts_root (env_hash E) (checkpoint_parts (env_hash E) s') \<and>
     set (coins (st_kernels s')) = set (coins (st_kernels s)) \<union>
       Kernel_id (env_hash E) ` set (block_kernels (bt_body b) (bt_coinbase b)) \<and>
     distinct (map (Kernel_id (env_hash E)) (block_kernels (bt_body b) (bt_coinbase b))) \<and>
     set (coins (st_kernels s)) \<inter> Kernel_id (env_hash E) ` set (block_kernels (bt_body b) (bt_coinbase b)) = {} \<and>
     (\<forall>i\<in>set (inputs (tx_body (bt_body b))).
        \<exists>entry. om_get (utxos s) (i_commitment i) = Some entry \<and> ue_owner_key entry = i_owner_key i \<and>
          (ue_coinbase entry \<longrightarrow> sat_add64 (ue_height entry) COINBASE_MATURITY \<le> st_height s)) \<and>
     (\<forall>k\<in>set (tx_kernels (tx_body (bt_body b))). k_min_height k \<le> st_height s)"

lemma block_reward_genesis: "block_reward 0 = 0"
  by (simp add: block_reward_def Emission_block_reward_def)

lemma genesis_contents:
  assumes "check_linkage E s b ts now = Inr ()" and "st_height s = 0"
  shows "bt_body b = Transaction_empty \<and> bt_miner b = None"
  using assms by (auto simp: check_linkage_def Batch_genesis_def Let_def split: if_splits)

lemma finalize_audit: "verify_supply C (finalize_block E s b floor recent counts credited next) = verify_supply C next"
  by (simp add: verify_supply_def finalize_block_def Let_def)

lemma audit_update: "verify_supply C (s\<lparr>st_bonds := x, st_relay := y\<rparr>) = verify_supply C s"
  "verify_supply C (s\<lparr>st_bonds := x, effects := z\<rparr>) = verify_supply C s"
  by (simp_all add: verify_supply_def)

lemma accepted_inv:
  assumes curve: "curve_ok (env_curve E)" and inv: "chain_inv E s" and room: "st_height s < U64_MAX"
    and acc: "apply_batch_internal E s b previous_timestamps now preverified skip = Inr s'"
  shows "chain_inv E s'" and "\<exists>subsidy credited. block_effect E s b s' subsidy credited"
proof -
  let ?H = "env_hash E" and ?C = "env_curve E" and ?w = "calculate_work (bt_target b)"
  obtain base_bonds relay gone change registered bonds where
    link: "check_linkage E s b previous_timestamps now = Inr ()"
    and ext: "extend_relay ?H s b previous_timestamps = Inr (base_bonds, relay, gone, change)"
    and con: "connect_block E s b skip base_bonds relay gone change registered bonds = Inr s'"
    using accepted [OF acc] by blast
  obtain creditable floor recent counts credited subsidy "next" where
    cap: "cap_work (work_floor s) (st_height s) ?w = (creditable, floor)"
    and cr: "credit_in_window (recent_signers s) (st_counts s) bonds (st_height s) (map_option auth_bond_id (bt_miner b))
       creditable (bt_timestamp b) = (recent, counts, credited)"
    and wt: "bt_chain_weight b = sat_add128 (State_weight s) credited"
    and sub: "subsidy = subsidy_for (map_option auth_bond_id (bt_miner b)) counts bonds (st_height s) (bt_timestamp b)"
    and val: "validate_block_contents E b (st_height s) skip subsidy (relay_start s b) = Inr ()"
    and ab: "apply_body E (s\<lparr>st_bonds := base_bonds, st_relay := relay\<rparr>) (bt_body b) (bt_coinbase b) subsidy = Inr next"
    and root: "bt_state_root b = state_root ?H (next\<lparr>st_bonds := bonds\<rparr>)"
    and s': "s' = finalize_block E s b floor recent counts credited (next\<lparr>st_bonds := bonds,
        effects := \<lparr>bonds_added = registered, bonds_removed = gone,
          relay_added = added change, relay_removed = removed change\<rparr>\<rparr>)"
    by (rule connected [OF con])
  let ?base = "s\<lparr>st_bonds := base_bonds, st_relay := relay\<rparr>"
  have i: "utxos_ok ?H s" "utxo_ok ?H True (st_kernels s)" "verify_supply ?C s = Inr ()" "capped s \<le> depth s"
    "depth s \<le> U128_MAX" "st_target s \<noteq> 0" "window_ok (recent_signers s) (st_counts s)"
    "\<forall>(_, w)\<in>set (work_floor s). 1 \<le> w" "relay_ok ?H (st_relay s)"
    using inv unfolding chain_inv_def by blast+
  obtain hashes where mmr: "chain_mmr s = mmr_of ?H True hashes" "length hashes = st_height s"
    using inv unfolding chain_inv_def by blast
  have target: "bt_target b = st_target s" using link by (auto simp: check_linkage_def split: if_splits)
  have work: "1 \<le> ?w" "?w \<le> U128_MAX" using calculate_work_pos i(6) unfolding target by blast+
  note capped = cap_work_effect [OF cap i(8) work(1)]
  then have "1 \<le> creditable" by blast
  note win = credit_in_window_effect [OF i(7) this cr]
  have credit: "1 \<le> credited" "credited \<le> ?w" using win capped by auto
  have height: "add64 (st_height s) 1 = st_height s + 1" using room by (simp add: add64_def)
  have base: "utxos_ok ?H ?base" "utxo_ok ?H True (st_kernels ?base)"
    using i by (simp_all add: utxos_ok_def)
  note eff = apply_body_effect [OF ab base]
  obtain acc m ks ex off where nxt: "next = ?base\<lparr>utxo_set := acc, utxos := m, st_kernels := ks, kernel_excess_sum := ex,
      total_kernel_offset := off, st_supply := st_supply ?base + subsidy\<rparr>" using eff(1) by blast
  have zero: "bt_body b = Transaction_empty \<and> subsidy = 0" if "st_height s = 0"
    using genesis_contents [OF link that] that by (simp add: sub subsidy_for_def block_reward_genesis)
  obtain offset where off: "scalar_from_bytes ?C (kernel_offset (bt_body b)) = Some offset"
    using contents_Inr [OF val] by (auto simp: validate_structure_Inr)
  have audit: "verify_supply ?C next = Inr ()"
    using i(3) contents_balance(2) [OF curve val _ zero]
    by (intro apply_body_audit [OF curve ab base _ contents_balance(1) [OF curve val off zero]]) (simp_all add: audit_update)
  have tip: "chain_mmr s' = mmr_of ?H True (hashes @ [ext_final_hash (bt_extension b)])"
    using append_mmr_of [of ?H True "ext_final_hash (bt_extension b)" hashes] mmr(1)
    by (simp add: s' finalize_block_def nxt Let_def)
  have fields: "st_height s' = st_height s + 1" "st_supply s' = st_supply s + subsidy"
    "depth s' = sat_add128 (depth s) ?w" "capped s' = sat_add128 (capped s) (?w - credited)"
    "st_kernels s' = st_kernels next" "header_hash s' = ext_final_hash (bt_extension b)"
    "mw_midstate s' = fold_block E (mw_midstate s) b"
    using height credit work sub128_exact [of credited ?w] by (simp_all add: s' finalize_block_def nxt Let_def)
  have "sat_add128 (capped s) (?w - credited) \<le> sat_add128 (depth s) ?w"
    using i(4) credit by (intro sat_add128_mono) auto
  moreover have "verify_supply ?C s' = Inr ()" unfolding s' finalize_audit audit_update by (rule audit)
  moreover have "utxos_ok ?H s'" "utxo_ok ?H True (st_kernels s')" "st_relay s' = relay" "st_target s' \<noteq> 0"
    "recent_signers s' = recent" "st_counts s' = counts" "work_floor s' = floor"
    using eff(2,3) calculate_target_nonzero by (simp_all add: s' finalize_block_def nxt Let_def utxos_ok_def)
  moreover have "window_ok recent counts" "\<forall>(_, w)\<in>set floor. 1 \<le> w" using win capped by blast+
  moreover have "\<exists>hs. chain_mmr s' = mmr_of ?H True hs \<and> length hs = st_height s + 1"
    using tip mmr(2) by (intro exI [of _ "hashes @ [ext_final_hash (bt_extension b)]"]) simp
  ultimately show "chain_inv E s'"
    unfolding chain_inv_def fields(1-4)
    using eff(4) extend_relay_ok [OF ext i(9)] height by simp
  have "StateRootParts_root ?H (checkpoint_parts ?H s') = state_root ?H (next\<lparr>st_bonds := bonds\<rparr>)"
    using truncated_mmr_of [of "st_height s" ?H True "hashes @ [ext_final_hash (bt_extension b)]"] mmr tip fields(1)
    by (simp add: checkpoint_parts_def root_parts_def state_root_def)
      (simp add: s' finalize_block_def nxt Let_def)
  moreover have "prev_midstate b = mw_midstate s" "prev_header_hash b = header_hash s"
    using link by (auto simp: check_linkage_def split: if_splits)
  ultimately have "block_effect E s b s' subsidy credited"
    unfolding block_effect_def fields using eff(5-9) wt credit root by simp
  then show "\<exists>subsidy credited. block_effect E s b s' subsidy credited" by blast
qed
lemma accepted_mmr:
  assumes "chain_inv E s" and "apply_batch_internal E s b previous_timestamps now preverified skip = Inr s'"
  shows "chain_mmr s' = fst (Mmr_append (env_hash E) True (ext_final_hash (bt_extension b)) (chain_mmr s))"
proof -
  obtain base_bonds relay gone change registered bonds where
    con: "connect_block E s b skip base_bonds relay gone change registered bonds = Inr s'"
    using accepted [OF assms(2)] by blast
  obtain floor recent counts credited subsidy "next" where
    ab: "apply_body E (s\<lparr>st_bonds := base_bonds, st_relay := relay\<rparr>) (bt_body b) (bt_coinbase b) subsidy = Inr next"
    and s': "s' = finalize_block E s b floor recent counts credited (next\<lparr>st_bonds := bonds,
        effects := \<lparr>bonds_added = registered, bonds_removed = gone,
          relay_added = added change, relay_removed = removed change\<rparr>\<rparr>)"
    by (rule connected [OF con])
  have base: "utxos_ok (env_hash E) (s\<lparr>st_bonds := base_bonds, st_relay := relay\<rparr>)"
    "utxo_ok (env_hash E) True (st_kernels (s\<lparr>st_bonds := base_bonds, st_relay := relay\<rparr>))"
    using assms(1) by (simp_all add: chain_inv_def utxos_ok_def)
  have "chain_mmr next = chain_mmr s" using apply_body_effect(1) [OF ab base] by auto
  then show ?thesis by (simp add: s' finalize_block_def Let_def)
qed

text \<open>The unspent set after a block, and its accumulator.\<close>

lemma accepted_body:
  assumes "chain_inv E s" and "apply_batch_internal E s b previous_timestamps now preverified skip = Inr s'"
  obtains t t1 t2 t3 subsidy where
    "utxos t = utxos s" "utxo_set t = utxo_set s" "utxos_ok (env_hash E) t"
    "fold_res (spend_input (env_hash E) (st_height s)) (inputs (tx_body (bt_body b))) t = Inr t1"
    "fold_res (add_output (env_hash E) (st_height s) False) (Transaction_outputs (bt_body b)) t1 = Inr t2"
    "fold_res (add_output (env_hash E) (st_height s) True) (coinbase_outputs (bt_coinbase b)) t2 = Inr t3"
    "utxos s' = utxos t3" "utxo_set s' = utxo_set t3"
proof -
  obtain base_bonds relay gone change registered bonds where
    con: "connect_block E s b skip base_bonds relay gone change registered bonds = Inr s'"
    using accepted [OF assms(2)] by blast
  obtain floor recent counts credited subsidy "next" where
    ab: "apply_body E (s\<lparr>st_bonds := base_bonds, st_relay := relay\<rparr>) (bt_body b) (bt_coinbase b) subsidy = Inr next"
    and s': "s' = finalize_block E s b floor recent counts credited (next\<lparr>st_bonds := bonds,
        effects := \<lparr>bonds_added = registered, bonds_removed = gone,
          relay_added = added change, relay_removed = removed change\<rparr>\<rparr>)"
    by (rule connected [OF con])
  let ?t = "s\<lparr>st_bonds := base_bonds, st_relay := relay\<rparr>"
  have base: "utxos_ok (env_hash E) ?t" "utxo_ok (env_hash E) True (st_kernels ?t)"
    using assms(1) by (simp_all add: chain_inv_def utxos_ok_def)
  obtain s1 s2 s3 s4 e offset total where
    "fold_res (spend_input (env_hash E) (st_height ?t)) (inputs (tx_body (bt_body b))) ?t = Inr s1"
    "fold_res (add_output (env_hash E) (st_height ?t) False) (Transaction_outputs (bt_body b)) s1 = Inr s2"
    "fold_res (add_output (env_hash E) (st_height ?t) True) (coinbase_outputs (bt_coinbase b)) s2 = Inr s3"
    and s4: "\<exists>acc. s4 = s3\<lparr>st_kernels := acc\<rparr>"
    and nx: "next = s4\<lparr>kernel_excess_sum := compress (env_curve E)
               (e + points_sum (env_curve E) (map k_excess (block_kernels (bt_body b) (bt_coinbase b)))),
             total_kernel_offset := scalar_to_bytes (env_curve E) (total + offset),
             st_supply := st_supply ?t + subsidy\<rparr>"
    using apply_body_Inr [OF ab base] by metis
  moreover have "utxos s' = utxos s3" "utxo_set s' = utxo_set s3"
    using s4 by (auto simp: s' finalize_block_def Let_def nx)
  ultimately show thesis using base(1) by (intro that [of ?t s1 s2 s3]) simp_all
qed

lemma accepted_keys:
  assumes "chain_inv E s" and "apply_batch_internal E s b previous_timestamps now preverified skip = Inr s'"
  shows "set (om_keys (utxos s')) = (set (om_keys (utxos s)) - set (input_commitments (bt_body b))) \<union>
      o_commitment ` set (Transaction_outputs (bt_body b) @ coinbase_outputs (bt_coinbase b))"
proof -
  obtain t t1 t2 t3 where t: "utxos t = utxos s" "utxos_ok (env_hash E) t" and
    1: "fold_res (spend_input (env_hash E) (st_height s)) (inputs (tx_body (bt_body b))) t = Inr t1" and
    2: "fold_res (add_output (env_hash E) (st_height s) False) (Transaction_outputs (bt_body b)) t1 = Inr t2" and
    3: "fold_res (add_output (env_hash E) (st_height s) True) (coinbase_outputs (bt_coinbase b)) t2 = Inr t3" and
    s': "utxos s' = utxos t3"
    by (rule accepted_body [OF assms])
  note sp = spend_inputs [OF 1 t(2), of "env_curve E"]
  then have ok1: "utxos_ok (env_hash E) t1" by blast
  note a1 = add_outputs [OF 2 ok1, of "env_curve E"]
  then have ok2: "utxos_ok (env_hash E) t2" by blast
  note a2 = add_outputs [OF 3 ok2, of "env_curve E"]
  have "dom (om_get (utxos t1)) = dom (om_get (utxos s)) - set (input_commitments (bt_body b))"
    using sp t(1) by (auto simp: input_commitments_def split: if_splits)
  moreover have "dom (om_get (utxos t2)) = o_commitment ` set (Transaction_outputs (bt_body b)) \<union> dom (om_get (utxos t1))"
    using a1 by blast
  moreover have "dom (om_get (utxos t3)) = o_commitment ` set (coinbase_outputs (bt_coinbase b)) \<union> dom (om_get (utxos t2))"
    using a2 by blast
  ultimately show ?thesis unfolding s' set_map dom_om_get [symmetric] by auto
qed

lemma accepted_committed:
  assumes "chain_inv E s" and "apply_batch_internal E s b previous_timestamps now preverified skip = Inr s'"
    and "committed (env_hash E) s" and "inj_on (entry_leaf (env_hash E)) (set (utxos s))"
  shows "committed (env_hash E) s'"
proof -
  obtain t t1 t2 t3 where t: "utxos t = utxos s" "utxo_set t = utxo_set s" "utxos_ok (env_hash E) t" and
    1: "fold_res (spend_input (env_hash E) (st_height s)) (inputs (tx_body (bt_body b))) t = Inr t1" and
    2: "fold_res (add_output (env_hash E) (st_height s) False) (Transaction_outputs (bt_body b)) t1 = Inr t2" and
    3: "fold_res (add_output (env_hash E) (st_height s) True) (coinbase_outputs (bt_coinbase b)) t2 = Inr t3" and
    s': "utxos s' = utxos t3" "utxo_set s' = utxo_set t3"
    by (rule accepted_body [OF assms(1,2)])
  have c: "committed (env_hash E) t" "inj_on (entry_leaf (env_hash E)) (set (utxos t))"
    using assms(3,4) t by (simp_all add: committed_def)
  have ok1: "utxos_ok (env_hash E) t1" using spend_inputs [OF 1 t(3), of "env_curve E"] by blast
  have ok2: "utxos_ok (env_hash E) t2" using add_outputs [OF 2 ok1, of "env_curve E"] by blast
  have "committed (env_hash E) t3"
    using spend_inputs_committed [OF 1 t(3) c] add_outputs_committed [OF 2 ok1] add_outputs_committed [OF 3 ok2] by blast
  then show ?thesis by (simp add: committed_def s')
qed

subsection \<open>Genesis\<close>

lemma genesis_body:
  assumes "curve_ok (env_curve E)"
  shows "apply_body E (State_genesis (env_hash E)) Transaction_empty None 0 = Inr (State_genesis (env_hash E))"
proof -
  have "compress (env_curve E) 0 = 0" "scalar_to_bytes (env_curve E) 0 = 0"
    using curve_laws(3-6) [OF assms] by blast+
  then show ?thesis
    using curve_laws(5,6) [OF assms]
    by (simp add: apply_body_def Let_def Transaction_empty_def Transaction_outputs_def coinbase_outputs_def
        block_kernels_def ok_or_def State_genesis_def IDENTITY_def chk_add64_def)
qed

lemma genesis_contents_ok:
  assumes "curve_ok (env_curve E)"
  shows "validate_block_contents E (Batch_genesis E) 0 skip 0 None = Inr ()"
proof -
  have "validate_structure (env_hash E) (env_curve E) Block Transaction_empty = Inr ()"
    using curve_laws(6) [OF assms]
    by (simp add: validate_structure_Inr check_context_def Transaction_weight_def output_count_def
        Transaction_empty_def input_commitments_def output_commitments_def Transaction_outputs_def kernel_ids_def)
  then show ?thesis
    by (simp add: validate_block_contents_def Batch_genesis_def Let_def check_relay_pow_def Transaction_fee_def
        ok_or_def chk_add64_def Transaction_is_empty_def) (simp add: Transaction_empty_def)
qed

lemma prune_default: "prune_expired H t BondSet_default = (BondSet_default, [])"
  by (simp add: prune_expired_def drain_bonds_def BondSet_default_def)

lemma genesis_accepted:
  assumes "curve_ok (env_curve E)"
  shows "\<exists>s. apply_batch_internal E (State_genesis (env_hash E)) (Batch_genesis E) ts now preverified skip = Inr s"
proof -
  let ?H = "env_hash E" and ?g = "State_genesis (env_hash E)" and ?b = "Batch_genesis E"
  let ?w = "calculate_work GENESIS_TARGET"
  have g: "st_height ?g = 0" "st_bonds ?g = BondSet_default" "st_relay ?g = Relay_genesis ?H" "work_floor ?g = []"
    "recent_signers ?g = []" "st_counts ?g = []" "State_weight ?g = 0" "st_target ?g = GENESIS_TARGET"
    by (simp_all add: State_genesis_def Let_def State_weight_def)
  have same: "?g\<lparr>st_bonds := BondSet_default, st_relay := Relay_genesis ?H\<rparr> = ?g"
    "?g\<lparr>st_bonds := BondSet_default\<rparr> = ?g" "?g\<lparr>st_height := 0\<rparr> = ?g"
    "?g\<lparr>st_relay := Relay_genesis ?H\<rparr> = ?g"
    by (simp_all add: State_genesis_def Let_def)
  have b: "bt_miner ?b = None" "bt_relay ?b = None" "bt_registrations ?b = []" "bt_target ?b = GENESIS_TARGET"
    "bt_body ?b = Transaction_empty" "bt_coinbase ?b = None" "prev_midstate ?b = mw_midstate ?g"
    "prev_header_hash ?b = header_hash ?g" "bt_state_root ?b = state_root ?H ?g"
    "bt_chain_weight ?b = sat_add128 0 ?w"
    by (simp_all add: Batch_genesis_def Let_def same(3) g(7,8))
  have link: "check_linkage E ?g ?b ts now = Inr ()" "check_work E ?g ?b preverified = Inr ()"
    "check_signer E ?g BondSet_default ?b = Inr ()"
    by (simp_all add: check_linkage_def check_work_def check_signer_def Let_def b g)
  have ext: "extend_relay ?H ?g ?b ts
      = Inr (BondSet_default, Relay_genesis ?H, [], \<lparr>added = [], removed = [], fork_from = None\<rparr>)"
    by (simp add: extend_relay_def g b prune_default)
  have reg: "register_bonds ?H BondSet_default (Relay_genesis ?H) ?b = Inr ([], BondSet_default)"
    by (simp add: register_bonds_def b precheck_registrations_def Let_def)
  have cap: "\<exists>fl. cap_work [] 0 ?w = (?w, fl)" by (simp add: cap_work_def keep_window_of_def Let_def)
  then obtain fl where cap: "cap_work [] 0 ?w = (?w, fl)" by blast
  have ce: "counts_exact [] []" using window_ok_Nil by (simp add: window_ok_def)
  obtain recent counts credited where cr: "credit_in_window [] [] BondSet_default 0 None ?w (bt_timestamp ?b)
      = (recent, counts, credited)" by (cases "credit_in_window [] [] BondSet_default 0 None ?w (bt_timestamp ?b)")
  have credited: "credited = ?w"
    using credit_in_window_shape [OF ce cr] by (simp add: BONDED_MINING_FROM_def)
  have sub: "subsidy_for None counts BondSet_default 0 (bt_timestamp ?b) = 0"
    by (simp add: subsidy_for_def block_reward_genesis)
  have rs: "relay_start ?g ?b = None" by (simp add: relay_start_def b)
  have root: "state_root ?H (?g\<lparr>st_bonds := BondSet_default, effects := x\<rparr>) = state_root ?H ?g"
    "state_root ?H (?g\<lparr>effects := x\<rparr>) = state_root ?H ?g" for x
    by (simp_all add: state_root_def root_parts_def g)
  have "\<exists>s. connect_block E ?g ?b skip BondSet_default (Relay_genesis ?H) []
      \<lparr>added = [], removed = [], fork_from = None\<rparr> [] BondSet_default = Inr s"
    by (simp add: connect_block_def same g b cap cr credited sub rs genesis_contents_ok [OF assms]
        genesis_body [OF assms] root Let_def)
  then show ?thesis
    by (simp add: apply_batch_internal_def Let_def link ext reg)
qed
subsection \<open>Chains of accepted blocks\<close>

inductive accepted_chain ::
    "('pt :: ab_group_add, 'sc :: comm_ring_1) env \<Rightarrow> State \<Rightarrow> Batch list \<Rightarrow> State \<Rightarrow> bool"
  for E :: "('pt, 'sc) env" and s0 :: State where
  no_block: "accepted_chain E s0 [] s0"
| next_block: "accepted_chain E s0 bs s \<Longrightarrow>
    apply_batch_internal E s b previous_timestamps now preverified skip = Inr s' \<Longrightarrow> accepted_chain E s0 (bs @ [b]) s'"

inductive_cases accepted_chain_snoc: "accepted_chain E s0 (bs @ [b]) s"

definition block_ids :: "hasher \<Rightarrow> Batch \<Rightarrow> h256 list" where
  "block_ids H b = map (Kernel_id H) (block_kernels (bt_body b) (bt_coinbase b))"

abbreviation from_genesis :: "('pt :: ab_group_add, 'sc :: comm_ring_1) env \<Rightarrow> Batch list \<Rightarrow> State \<Rightarrow> bool" where
  "from_genesis E bs s \<equiv> accepted_chain E (State_genesis (env_hash E)) bs s"

lemma chain_from_genesis:
  assumes "curve_ok (env_curve E)" and "from_genesis E bs s" and "length bs \<le> U64_MAX"
  shows "chain_inv E s \<and> st_height s = length bs \<and>
    distinct (concat (map (block_ids (env_hash E)) bs)) \<and>
    set (coins (st_kernels s)) = set (concat (map (block_ids (env_hash E)) bs)) \<and>
    (bs \<noteq> [] \<longrightarrow> bt_state_root (last bs) = StateRootParts_root (env_hash E) (checkpoint_parts (env_hash E) s)) \<and>
    chain_mmr s = mmr_of (env_hash E) True (map (\<lambda>b. ext_final_hash (bt_extension b)) bs)"
  using assms(2,3)
proof (induction rule: accepted_chain.induct)
  case no_block
  have "mmr_of (env_hash E) True [] = Mmr_new" by (simp add: mmr_of_def Mmr_new_def mforest_def flat_def)
  then show ?case
    using genesis_inv [OF assms(1)] by (simp add: State_genesis_def Let_def UtxoAccumulator_new_def)
next
  case (next_block bs s b previous_timestamps now preverified skip s')
  have room: "length bs \<le> U64_MAX" using next_block.prems by simp
  note ih = next_block.IH [OF room]
  have inv: "chain_inv E s" and h: "st_height s < U64_MAX" using ih next_block.prems by simp_all
  note step = accepted_inv [OF assms(1) inv h next_block.hyps(2)]
  obtain subsidy credited where eff: "block_effect E s b s' subsidy credited" using step(2) by blast
  have mmr: "chain_mmr s' = fst (Mmr_append (env_hash E) True (ext_final_hash (bt_extension b)) (chain_mmr s))"
    by (rule accepted_mmr [OF inv next_block.hyps(2)])
  show ?case
    using step(1) ih eff mmr append_mmr_of [of "env_hash E" True "ext_final_hash (bt_extension b)" "map (\<lambda>b. ext_final_hash (bt_extension b)) bs"]
    by (auto simp: block_effect_def block_ids_def)
qed

end
