(* ===== verification/Chain_Properties.thy ===== *)
theory Chain_Properties
  imports Chain_Invariants
begin

text \<open>
  The properties of block application and of the chains it builds, and a sample chain: the genesis
  block over a toy curve, hash and serializer.
\<close>

subsection \<open>A sample\<close>

definition sample_env :: "(256 word, 256 word) env" where
  "sample_env = \<lparr>env_hash = (\<lambda>_. 7), env_walk = (\<lambda>h n. h), env_curve = word_curve, tx_bytes = (\<lambda>_. []),
     coinbase_bytes = (\<lambda>_. []), registrations_bytes = (\<lambda>_. []), relay_bytes = (\<lambda>_. []), pow_piece = 1\<rparr>"

lemma sample_env_ok: "curve_ok (env_curve sample_env)"
  by (simp add: sample_env_def word_curve_ok)

lemma sample_chain: "\<exists>s. from_genesis sample_env [Batch_genesis sample_env] s"
proof -
  obtain s where "apply_batch_internal sample_env (State_genesis (env_hash sample_env)) (Batch_genesis sample_env) [] 0 None False = Inr s"
    using genesis_accepted [OF sample_env_ok] by blast
  from next_block [OF no_block this] show ?thesis by auto
qed

lemma genesis_ids: "block_ids H (Batch_genesis E) = []"
  by (simp add: block_ids_def block_kernels_def Batch_genesis_def Transaction_empty_def Let_def)

subsection \<open>Coins\<close>

text \<open>C1. No coin from nothing: on every chain of accepted blocks from genesis, the unspent outputs
  balance against the kernels and the tracked supply, and the supply never exceeds what the schedule
  has issued.\<close>

theorem no_inflation:
  assumes "curve_ok (env_curve E)" and "from_genesis E bs s" and "length bs \<le> U64_MAX"
  shows "verify_supply (env_curve E) s = Inr () \<and> st_height s = length bs \<and>
    st_supply s \<le> issued_before (length bs) \<and> st_supply s \<le> MAX_SUPPLY"
proof -
  note c = chain_from_genesis [OF assms]
  have "issued_before (length bs) \<le> MAX_SUPPLY"
    using issued_before_cap [of EMISSION "length bs"] by (simp add: issued_before_def EMISSION_def MAINNET_EMISSION_def)
  moreover have "verify_supply (env_curve E) s = Inr ()" "st_supply s \<le> issued_before (st_height s)" "st_height s = length bs"
    using c unfolding chain_inv_def by blast+
  ultimately show ?thesis by (metis order_trans)
qed

theorem no_inflation_witness:
  "\<exists>s. from_genesis sample_env [Batch_genesis sample_env] s \<and> verify_supply (env_curve sample_env) s = Inr ()"
proof -
  obtain s where s: "from_genesis sample_env [Batch_genesis sample_env] s" using sample_chain by blast
  then show ?thesis using no_inflation [OF sample_env_ok s] by auto
qed

text \<open>C2. No kernel is ever mined twice on a chain, and the kernel accumulator holds exactly the ids of
  every kernel mined: an old transaction cannot be replayed.\<close>

theorem kernels_never_repeat:
  assumes "curve_ok (env_curve E)" and "from_genesis E bs s" and "length bs \<le> U64_MAX"
  shows "distinct (concat (map (block_ids (env_hash E)) bs)) \<and>
    set (coins (st_kernels s)) = set (concat (map (block_ids (env_hash E)) bs)) \<and>
    UtxoAccumulator_root (env_hash E) True (st_kernels s)
      = dense (env_hash E) True 256 0 (set (concat (map (block_ids (env_hash E)) bs)))"
proof -
  note c = chain_from_genesis [OF assms]
  have "utxo_ok (env_hash E) True (st_kernels s)" using c by (simp add: chain_inv_def)
  note root = utxo_root [OF this]
  then show ?thesis using c by simp
qed

theorem kernels_never_repeat_witness:
  "\<exists>s. from_genesis sample_env [Batch_genesis sample_env] s \<and> coins (st_kernels s) = []"
proof -
  obtain s where s: "from_genesis sample_env [Batch_genesis sample_env] s" using sample_chain by blast
  then show ?thesis using kernels_never_repeat [OF sample_env_ok s] by (auto simp: genesis_ids)
qed

text \<open>C3. A spend is authorised: every input of an accepted block names an unspent output, under its
  owner key, past its maturity; no kernel is before its lock height; and the unspent set changes by
  exactly the block's inputs and outputs.\<close>

theorem spends_are_authorised:
  assumes "curve_ok (env_curve E)" and "chain_inv E s" and "st_height s < U64_MAX"
    and "apply_batch_internal E s b previous_timestamps now preverified skip = Inr s'"
  shows "(\<forall>i\<in>set (inputs (tx_body (bt_body b))).
        \<exists>entry. om_get (utxos s) (i_commitment i) = Some entry \<and> ue_owner_key entry = i_owner_key i \<and>
          (ue_coinbase entry \<longrightarrow> sat_add64 (ue_height entry) COINBASE_MATURITY \<le> st_height s)) \<and>
    (\<forall>k\<in>set (tx_kernels (tx_body (bt_body b))). k_min_height k \<le> st_height s) \<and>
    set (om_keys (utxos s')) = (set (om_keys (utxos s)) - set (input_commitments (bt_body b))) \<union>
      o_commitment ` set (Transaction_outputs (bt_body b) @ coinbase_outputs (bt_coinbase b))"
  using accepted_inv(2) [OF assms] accepted_keys [OF assms(2,4)] by (auto simp: block_effect_def)

theorem spends_are_authorised_witness:
  "\<exists>s. apply_batch_internal sample_env (State_genesis (env_hash sample_env)) (Batch_genesis sample_env) [] 0 None False
     = Inr s \<and> om_keys (utxos s) = []"
proof -
  obtain s where s: "apply_batch_internal sample_env (State_genesis (env_hash sample_env)) (Batch_genesis sample_env) [] 0 None False = Inr s"
    using genesis_accepted [OF sample_env_ok] by blast
  have "st_height (State_genesis (env_hash sample_env)) < U64_MAX" by (simp add: State_genesis_def Let_def)
  from spends_are_authorised [OF sample_env_ok genesis_inv [OF sample_env_ok] this s] have "utxos s = []"
    by (simp add: State_genesis_def Let_def Batch_genesis_def Transaction_empty_def Transaction_outputs_def coinbase_outputs_def)
  then show ?thesis using s by simp
qed
text \<open>C6. The unspent-output root of the state commits to exactly the unspent outputs: as long as no two
  of their leaves collide, the accumulator after an accepted block holds the leaf of every unspent
  output and nothing else, and its root is the dense Merkle root over them.\<close>

theorem utxo_root_commits:
  assumes "curve_ok (env_curve E)" and "chain_inv E s" and "st_height s < U64_MAX"
    and "apply_batch_internal E s b previous_timestamps now preverified skip = Inr s'"
    and "committed (env_hash E) s" and "inj_on (entry_leaf (env_hash E)) (set (utxos s))"
  shows "committed (env_hash E) s' \<and>
    sr_utxo_root (root_parts (env_hash E) s') = dense (env_hash E) True 256 0 (entry_leaf (env_hash E) ` set (utxos s'))"
proof -
  have com: "committed (env_hash E) s'" by (rule accepted_committed [OF assms(2,4-6)])
  have "utxo_ok (env_hash E) True (utxo_set s')"
    using accepted_inv(1) [OF assms(1-4)] by (simp add: chain_inv_def utxos_ok_def)
  from utxo_root [OF this] show ?thesis using com by (simp add: root_parts_def committed_def)
qed

theorem utxo_root_commits_witness:
  "\<exists>s. apply_batch_internal sample_env (State_genesis (env_hash sample_env)) (Batch_genesis sample_env) [] 0 None False
     = Inr s \<and> committed (env_hash sample_env) s"
proof -
  obtain s where s: "apply_batch_internal sample_env (State_genesis (env_hash sample_env)) (Batch_genesis sample_env) [] 0 None False = Inr s"
    using genesis_accepted [OF sample_env_ok] by blast
  have "st_height (State_genesis (env_hash sample_env)) < U64_MAX" "committed (env_hash sample_env) (State_genesis (env_hash sample_env))"
    "inj_on (entry_leaf (env_hash sample_env)) (set (utxos (State_genesis (env_hash sample_env))))"
    by (simp_all add: State_genesis_def Let_def committed_def UtxoAccumulator_new_def)
  from utxo_root_commits [OF sample_env_ok genesis_inv [OF sample_env_ok] this(1) s this(2,3)] show ?thesis using s by blast
qed

subsection \<open>History\<close>

text \<open>C4. The last block of every chain commits to the state it leads to, whose history is the Merkle
  mountain range of every block hash: each block of the chain has an inclusion proof that verifies
  against it.\<close>

theorem history_is_committed:
  assumes "curve_ok (env_curve E)" and "from_genesis E bs s" and "length bs \<le> U64_MAX" and "i < length bs"
  shows "bt_state_root (last bs) = StateRootParts_root (env_hash E) (checkpoint_parts (env_hash E) s) \<and>
    Mmr_root (env_hash E) True (chain_mmr s)
      = root_of_leaves (env_hash E) True (map (\<lambda>b. ext_final_hash (bt_extension b)) bs) \<and>
    (\<exists>p. Mmr_prove (chain_mmr s) (mmr_size i) = Inr p \<and>
      verify_mmr_proof (env_hash E) True (ext_final_hash (bt_extension (bs ! i))) p
        (Mmr_root (env_hash E) True (chain_mmr s)))"
proof -
  let ?hs = "map (\<lambda>b. ext_final_hash (bt_extension b)) bs"
  note c = chain_from_genesis [OF assms(1-3)]
  have "chain_mmr s = mmr_of (env_hash E) True ?hs" using c by blast
  then show ?thesis
    using c assms(4) root_mmr_of [of "env_hash E" True ?hs] leaf_proof_verifies [of i ?hs "env_hash E" True] by auto
qed

theorem history_is_committed_witness:
  "\<exists>s p. from_genesis sample_env [Batch_genesis sample_env] s \<and> Mmr_prove (chain_mmr s) 0 = Inr p"
proof -
  obtain s where s: "from_genesis sample_env [Batch_genesis sample_env] s" using sample_chain by blast
  from history_is_committed [OF sample_env_ok s, of 0] show ?thesis using s by (auto simp: mmr_size_def)
qed

text \<open>An accepted block weighs its chain up to the weight it claims, which is more than before.\<close>

lemma accepted_weight:
  assumes "curve_ok (env_curve E)" and "chain_inv E s" and "st_height s < U64_MAX"
    and "apply_batch_internal E s b previous_timestamps now preverified skip = Inr s'"
    and "depth s + calculate_work (bt_target b) \<le> U128_MAX"
  shows "State_weight s < State_weight s'" "State_weight s' = bt_chain_weight b"
proof -
  obtain subsidy credited where eff: "block_effect E s b s' subsidy credited" using accepted_inv(2) [OF assms(1-4)] by blast
  let ?w = "calculate_work (bt_target b)"
  have c: "capped s \<le> depth s" using assms(2) by (simp add: chain_inv_def)
  have e: "1 \<le> credited" "credited \<le> ?w" "bt_chain_weight b = sat_add128 (State_weight s) credited"
    "depth s' = depth s + ?w" "capped s' = capped s + (?w - credited)"
    using eff assms(5) c by (auto simp: block_effect_def sat_add128_exact)
  have w: "State_weight s' = State_weight s + credited" using e c by (simp add: State_weight_def)
  moreover have "bt_chain_weight b = State_weight s + credited"
    using e assms(5) by (simp add: sat_add128_def State_weight_def)
  ultimately show "State_weight s < State_weight s'" "State_weight s' = bt_chain_weight b" using e(1) by simp_all
qed

text \<open>C5. Fork choice: an accepted block makes its chain strictly heavier, its header's claimed chain
  weight is the weight the state then has, and the longer chain is the one chosen, from either side. The
  chain's total work must not have reached the 128-bit ceiling, where the source's sums saturate.\<close>

theorem blocks_add_weight:
  assumes "curve_ok (env_curve E)" and "chain_inv E s" and "st_height s < U64_MAX"
    and "apply_batch_internal E s b previous_timestamps now preverified skip = Inr s'"
    and "depth s + calculate_work (bt_target b) \<le> U128_MAX"
  shows "State_weight s < State_weight s' \<and> State_weight s' = bt_chain_weight b \<and>
    choose_best_state s s' = s' \<and> choose_best_state s' s = s'"
proof -
  show ?thesis using accepted_weight [OF assms] by (simp add: choose_best_state_def)
qed

theorem blocks_add_weight_witness:
  "\<exists>s. apply_batch_internal sample_env (State_genesis (env_hash sample_env)) (Batch_genesis sample_env) [] 0 None False
     = Inr s \<and> 0 < State_weight s"
proof -
  obtain s where s: "apply_batch_internal sample_env (State_genesis (env_hash sample_env)) (Batch_genesis sample_env) [] 0 None False = Inr s"
    using genesis_accepted [OF sample_env_ok] by blast
  have "st_height (State_genesis (env_hash sample_env)) < U64_MAX"
    "depth (State_genesis (env_hash sample_env)) + calculate_work (bt_target (Batch_genesis sample_env)) \<le> U128_MAX"
    using calculate_work_pos [of GENESIS_TARGET]
    by (simp_all add: State_genesis_def Batch_genesis_def Let_def GENESIS_TARGET_def)
  from blocks_add_weight [OF sample_env_ok genesis_inv [OF sample_env_ok] this(1) s this(2)]
  show ?thesis using s by fastforce
qed

subsection \<open>Entry points\<close>

lemma check_relay_pow_trusted:
  "check_relay_pow E False r from_height = Inr () \<Longrightarrow> check_relay_pow E True r from_height = Inr ()"
  by (auto simp: check_relay_pow_def split: option.splits if_splits)

lemma contents_trusted:
  assumes "validate_block_contents E b height False subsidy relay_from = Inr ()"
  shows "validate_block_contents E b height True subsidy relay_from = Inr ()"
  using assms check_relay_pow_trusted [of E "bt_relay b" relay_from]
  unfolding validate_block_contents_def Let_def and_then_Inr map_err_Inr if_Inr ok_or_Inr
  by (cases "bt_coinbase b"; cases "height = 0") (auto simp: and_then_Inr map_err_Inr if_Inr not_less)

lemma connect_trusted:
  assumes "connect_block E s b False base_bonds relay gone change registered bonds = Inr s'"
  shows "connect_block E s b True base_bonds relay gone change registered bonds = Inr s'"
proof -
  obtain creditable floor recent counts credited subsidy "next" where
    cap: "cap_work (work_floor s) (st_height s) (calculate_work (bt_target b)) = (creditable, floor)"
    and cr: "credit_in_window (recent_signers s) (st_counts s) bonds (st_height s) (map_option auth_bond_id (bt_miner b))
       creditable (bt_timestamp b) = (recent, counts, credited)"
    and wt: "bt_chain_weight b = sat_add128 (State_weight s) credited"
    and sub: "subsidy = subsidy_for (map_option auth_bond_id (bt_miner b)) counts bonds (st_height s) (bt_timestamp b)"
    and val: "validate_block_contents E b (st_height s) False subsidy (relay_start s b) = Inr ()"
    and ab: "apply_body E (s\<lparr>st_bonds := base_bonds, st_relay := relay\<rparr>) (bt_body b) (bt_coinbase b) subsidy = Inr next"
    and root: "bt_state_root b = state_root (env_hash E) (next\<lparr>st_bonds := bonds\<rparr>)"
    and s': "s' = finalize_block E s b floor recent counts credited (next\<lparr>st_bonds := bonds,
        effects := \<lparr>bonds_added = registered, bonds_removed = gone,
          relay_added = added change, relay_removed = removed change\<rparr>\<rparr>)"
    by (rule connected [OF assms])
  have r: "state_root H (x\<lparr>st_bonds := bonds, effects := y\<rparr>) = state_root H (x\<lparr>st_bonds := bonds\<rparr>)" for H x y
    by (simp add: state_root_def root_parts_def)
  have w: "State_weight (s\<lparr>st_bonds := base_bonds, st_relay := relay\<rparr>) = State_weight s"
    by (simp add: State_weight_def)
  show ?thesis
    using contents_trusted [OF val] ab
    by (simp add: connect_block_def Let_def cap cr wt w sub [symmetric] r root s')
qed

text \<open>C7. The three entry points agree: full validation accepts a block exactly when validation with a
  pre-verified header accepts it with the block's own header hash and the proof of work verifies, with
  the same result; and what full validation accepts, the trusted replay accepts with the same result.\<close>

theorem entry_points_agree:
  assumes "hash = compute_header_hash (env_hash E) (candidate_header E s b)"
  shows "(apply_batch E s b ts now = Inr s' \<longleftrightarrow>
      apply_batch_skip_pow E s b ts now hash = Inr s' \<and>
      (st_height s = 0 \<or>
       verify_pow (env_hash E) (env_walk E) (st_height s) hash (bt_extension b) (bt_target b) (bt_aux_pow b) = Inr ())) \<and>
    (apply_batch E s b ts now = Inr s' \<longrightarrow> apply_batch_trusted E s b ts now hash = Inr s')"
proof -
  have w: "check_work E s b (Some hash) = Inr ()" "check_work E s b None = Inr () \<longleftrightarrow> st_height s = 0 \<or>
      verify_pow (env_hash E) (env_walk E) (st_height s) hash (bt_extension b) (bt_target b) (bt_aux_pow b) = Inr ()"
    using assms by (simp_all add: check_work_def Let_def map_err_Inr)
  have "apply_batch E s b ts now = Inr s' \<longleftrightarrow>
      check_work E s b None = Inr () \<and> apply_batch_skip_pow E s b ts now hash = Inr s'"
    by (auto simp: apply_batch_def apply_batch_skip_pow_def apply_batch_internal_def Let_def and_then_Inr w(1))
  moreover have "apply_batch_skip_pow E s b ts now hash = Inr s' \<Longrightarrow> apply_batch_trusted E s b ts now hash = Inr s'"
    unfolding apply_batch_skip_pow_def apply_batch_trusted_def apply_batch_internal_def Let_def case_prod_unfold and_then_Inr
    using connect_trusted by blast
  ultimately show ?thesis using w(2) by blast
qed

theorem entry_points_agree_witness:
  "\<exists>s. apply_batch_trusted sample_env (State_genesis (env_hash sample_env)) (Batch_genesis sample_env) [] 0
     (compute_header_hash (env_hash sample_env)
       (candidate_header sample_env (State_genesis (env_hash sample_env)) (Batch_genesis sample_env))) = Inr s"
proof -
  obtain s where "apply_batch sample_env (State_genesis (env_hash sample_env)) (Batch_genesis sample_env) [] 0 = Inr s"
    using genesis_accepted [OF sample_env_ok, of "[]" 0 None False] by (auto simp: apply_batch_def)
  then show ?thesis
    using entry_points_agree [OF refl, of sample_env "State_genesis (env_hash sample_env)" "Batch_genesis sample_env" "[]" 0 s]
    by blast
qed

subsection \<open>The schedule is a ceiling\<close>

text \<open>C32. From the end of the early phase, a block whose bond is over its quota mints less than the
  scheduled reward, so a supply that was on the schedule (or under it) is strictly under it afterwards.\<close>

theorem tapered_supply_falls_behind:
  assumes "EARLY_BONDS_UNTIL \<le> ts" and "om_get counts bid = Some n" and "signer_cap bonds ts < n"
    and "0 < block_reward h" and "h < U64_MAX" and "issued \<le> issued_before h"
  shows "issued + subsidy_for (Some bid) counts bonds h ts < issued_before (h + 1)"
proof -
  let ?r = "block_reward h" and ?c = "signer_cap bonds ts"
  have step: "issued_before (h + 1) = issued_before h + ?r"
    using issued_step [OF emission_ok_mainnet(1) assms(5)] by (simp add: issued_before_def block_reward_def)
  have "issued_before (h + 1) \<le> max_supply EMISSION" by (simp add: issued_before_def)
  then have r: "?r \<le> U64_MAX" using step by (simp add: EMISSION_def MAINNET_EMISSION_def MAX_SUPPLY_def COIN_def)
  have c: "?c \<le> 1440" using signer_cap_le [of bonds ts] by simp
  have "?r * ?c \<le> U64_MAX * 1440" using r c by (intro mult_le_mono) auto
  then have "mul128 ?r ?c = ?r * ?c" by (intro mul128_exact) simp
  moreover have "?r * ?c div n < ?r"
    using assms(3,4) by (simp add: div_less_iff_less_mult)
  moreover have "(?r * ?c div n) mod 2 ^ 64 \<le> ?r * ?c div n" by (rule mod_less_eq_dividend)
  ultimately have "subsidy_for (Some bid) counts bonds h ts < ?r"
    using assms(1-3) by (simp add: subsidy_for_def capped_subsidy_def Let_def)
  then show ?thesis using step assms(6) by simp
qed

definition two_bonds :: BondSet where
  "two_bonds = (let e = \<lparr>be_mining_key = 1, be_value = MIN_MINING_BOND, be_bonded_until = 1000000000,
       be_proven_height = 100, be_proven_hash = 0\<rparr>
     in \<lparr>bond_entries = [(1, e), (2, e)], leaves = UtxoAccumulator_new\<rparr>)"

lemma two_bonds_quota: "signer_cap two_bonds 1793404800 = 720"
  by (simp add: signer_cap_def eligible_bonds_def two_bonds_def Let_def BondEntry_eligible_at_def eligible_def
      BondRules_eligible_def min_bond_at_def in_early_phase_of_def bond_rule_defs del: power_Suc)
    (simp add: div_ceil_def CAP_WINDOW_def CAP_K_def min_lock_at_def in_early_phase_of_def est_midstate_height_def
        MIDSTATE_GENESIS_TIMESTAMP_def CLOCK_MARGIN_def sat_add64_def flip: numeral_2_eq_2)

theorem tapered_supply_falls_behind_witness:
  "issued_before 2100000 + subsidy_for (Some 5) [(5, 1000)] two_bonds 2100000 1793404800 < issued_before 2100001"
proof -
  have "Emission_issued_before EMISSION (2100000 + 1) < max_supply EMISSION"
    using scheduled_before_2100001
    by (simp add: Emission_issued_before_def EMISSION_def MAX_SUPPLY_def COIN_def)
  then have "0 < block_reward 2100000"
    using reward_past_slow_start [OF emission_ok_mainnet(1), of 2100000] by (simp add: EMISSION_def block_reward_def)
  then show ?thesis
    using tapered_supply_falls_behind [of 1793404800 "[(5, 1000)]" 5 1000 two_bonds 2100000 "issued_before 2100000"]
    by (simp add: two_bonds_quota om_get_def EARLY_BONDS_UNTIL_def)
qed

subsection \<open>Liveness\<close>

text \<open>C8. The genesis block built from the launch constants is accepted on the genesis state by every
  entry point, whatever the hash function, the curve library and the serializer, and its state root is
  the root the genesis state has.\<close>

theorem genesis_block_accepted:
  assumes "curve_ok (env_curve E)"
  shows "\<exists>s. apply_batch_internal E (State_genesis (env_hash E)) (Batch_genesis E) ts now preverified skip = Inr s \<and>
    st_height s = 1 \<and> st_supply s = 0 \<and>
    bt_state_root (Batch_genesis E) = state_root (env_hash E) (State_genesis (env_hash E))"
proof -
  obtain s where s: "apply_batch_internal E (State_genesis (env_hash E)) (Batch_genesis E) ts now preverified skip = Inr s"
    using genesis_accepted [OF assms] by blast
  have h: "st_height (State_genesis (env_hash E)) < U64_MAX" by (simp add: State_genesis_def Let_def)
  have "st_height s = 1" using accepted_inv(2) [OF assms genesis_inv [OF assms] h s]
    by (auto simp: block_effect_def State_genesis_def Let_def)
  moreover have "st_supply s \<le> issued_before 1"
    using accepted_inv(1) [OF assms genesis_inv [OF assms] h s] calculation by (simp add: chain_inv_def)
  then have "st_supply s = 0" by (simp add: issued_before_def)
  moreover have "(State_genesis (env_hash E))\<lparr>st_height := 0\<rparr> = State_genesis (env_hash E)"
    by (simp add: State_genesis_def Let_def)
  then have "bt_state_root (Batch_genesis E) = state_root (env_hash E) (State_genesis (env_hash E))"
    by (simp add: Batch_genesis_def Let_def)
  ultimately show ?thesis using s by blast
qed

theorem genesis_block_accepted_witness:
  "\<exists>s. apply_batch sample_env (State_genesis (\<lambda>_. 7)) (Batch_genesis sample_env) [] 0 = Inr s \<and> st_height s = 1"
  using genesis_block_accepted [OF sample_env_ok, of "[]" 0 None False]
  by (auto simp: apply_batch_def) (simp add: sample_env_def)

end
