(* ===== verification/Blake3_Lanes.thy ===== *)
theory Blake3_Lanes
  imports Pow
begin

text \<open>
  One BLAKE3 block at a time in SIMD lanes, \<^verbatim>\<open>src/src/core/wots_simd.rs\<close> and
  \<^verbatim>\<open>src/src/core/simd_mining.rs\<close>: the compression both files write once per instruction set, over a
  \<open>backend\<close> of vector operations, the three instruction sets (AVX2, NEON, WebAssembly SIMD128) as
  backends, and the reference, the same compression on single words. The locale
  \<open>lane_backend\<close> is what the kernels need of an instruction set: each lane computes what
  the single word would. The intrinsics are the platform's; they are written out by their
  documented effect on the lanes of a register.
\<close>

subsection \<open>The kernels over a backend\<close>

definition IV :: "32 word list" where
  "IV = [0x6A09E667, 0xBB67AE85, 0x3C6EF372, 0xA54FF53A, 0x510E527F, 0x9B05688C, 0x1F83D9AB, 0x5BE0CD19]"

definition HASH_FLAGS :: "32 word" where "HASH_FLAGS = 1 OR 2 OR 8"

definition MSG_SCHEDULE :: "nat list list" where
  "MSG_SCHEDULE =
     [[0, 1, 2, 3, 4, 5, 6, 7, 8, 9, 10, 11, 12, 13, 14, 15],
      [2, 6, 3, 10, 7, 0, 4, 13, 1, 11, 12, 5, 9, 14, 15, 8],
      [3, 4, 10, 12, 13, 2, 7, 14, 6, 5, 9, 0, 11, 15, 8, 1],
      [10, 7, 12, 9, 14, 3, 13, 15, 4, 0, 11, 2, 5, 8, 1, 6],
      [12, 13, 9, 11, 15, 10, 14, 8, 7, 2, 5, 3, 0, 1, 6, 4],
      [9, 14, 11, 5, 8, 12, 15, 1, 13, 3, 0, 10, 2, 6, 4, 7],
      [11, 15, 5, 0, 1, 9, 8, 6, 14, 10, 2, 12, 3, 4, 7, 13]]"

definition u32_le :: "bytes \<Rightarrow> 32 word" where
  "u32_le bs = word_of_nat (of_le_bytes bs)"

definition read_word :: "h256 \<Rightarrow> nat \<Rightarrow> 32 word" where
  "read_word b idx = u32_le (take 4 (drop (idx * 4) (be_bytes b)))"

definition bytes_to_words :: "h256 \<Rightarrow> 32 word list" where
  "bytes_to_words b = map (read_word b) [0..<8]"

record 'v backend =
  width :: nat
  splat :: "32 word \<Rightarrow> 'v"
  load :: "32 word list \<Rightarrow> 'v"
  lane_of :: "'v \<Rightarrow> nat \<Rightarrow> 32 word"
  vadd :: "'v \<Rightarrow> 'v \<Rightarrow> 'v"
  vxor :: "'v \<Rightarrow> 'v \<Rightarrow> 'v"
  vrot16 :: "'v \<Rightarrow> 'v"
  vrot12 :: "'v \<Rightarrow> 'v"
  vrot8 :: "'v \<Rightarrow> 'v"
  vrot7 :: "'v \<Rightarrow> 'v"

definition lane_g ::
    "'v backend \<Rightarrow> 'v list \<Rightarrow> nat \<Rightarrow> nat \<Rightarrow> nat \<Rightarrow> nat \<Rightarrow> 'v \<Rightarrow> 'v \<Rightarrow> 'v list" where
  "lane_g B v a b c d mx my =
     (let v = v[a := vadd B (vadd B (v ! a) (v ! b)) mx];
          v = v[d := vrot16 B (vxor B (v ! d) (v ! a))];
          v = v[c := vadd B (v ! c) (v ! d)];
          v = v[b := vrot12 B (vxor B (v ! b) (v ! c))];
          v = v[a := vadd B (vadd B (v ! a) (v ! b)) my];
          v = v[d := vrot8 B (vxor B (v ! d) (v ! a))];
          v = v[c := vadd B (v ! c) (v ! d)]
      in v[b := vrot7 B (vxor B (v ! b) (v ! c))])"

definition lane_round :: "'v backend \<Rightarrow> 'v list \<Rightarrow> 'v list \<Rightarrow> nat list \<Rightarrow> 'v list" where
  "lane_round B v m s =
     (let v = lane_g B v 0 4 8 12 (m ! (s ! 0)) (m ! (s ! 1));
          v = lane_g B v 1 5 9 13 (m ! (s ! 2)) (m ! (s ! 3));
          v = lane_g B v 2 6 10 14 (m ! (s ! 4)) (m ! (s ! 5));
          v = lane_g B v 3 7 11 15 (m ! (s ! 6)) (m ! (s ! 7));
          v = lane_g B v 0 5 10 15 (m ! (s ! 8)) (m ! (s ! 9));
          v = lane_g B v 1 6 11 12 (m ! (s ! 10)) (m ! (s ! 11));
          v = lane_g B v 2 7 8 13 (m ! (s ! 12)) (m ! (s ! 13))
      in lane_g B v 3 4 9 14 (m ! (s ! 14)) (m ! (s ! 15)))"

definition lane_compress :: "'v backend \<Rightarrow> 'v list \<Rightarrow> 'v list \<Rightarrow> 32 word \<Rightarrow> 'v list" where
  "lane_compress B cv msg block_len =
     (let zero = splat B 0;
          v = [cv ! 0, cv ! 1, cv ! 2, cv ! 3, cv ! 4, cv ! 5, cv ! 6, cv ! 7,
               splat B (IV ! 0), splat B (IV ! 1), splat B (IV ! 2), splat B (IV ! 3),
               zero, zero, splat B block_len, splat B HASH_FLAGS];
          v = fold (\<lambda>r v. lane_round B v msg (MSG_SCHEDULE ! r)) [0..<7] v
      in map (\<lambda>i. vxor B (v ! i) (v ! (i + 8))) [0..<8])"

definition extract_hash :: "'v backend \<Rightarrow> 'v list \<Rightarrow> nat \<Rightarrow> h256" where
  "extract_hash B out lane =
     h256_of_be (concat (map (\<lambda>i. le_bytes 4 (unat (lane_of B (out ! i) lane))) [0..<8]))"

definition lane_cv :: "'v backend \<Rightarrow> 'v list" where
  "lane_cv B = map (splat B) IV"

definition transpose_in :: "'v backend \<Rightarrow> h256 list \<Rightarrow> 'v list" where
  "transpose_in B starts = map (\<lambda>i. load B (map (\<lambda>s. read_word s i) starts)) [0..<8]"

definition lane_step :: "'v backend \<Rightarrow> 'v list \<Rightarrow> 'v list" where
  "lane_step B hw = lane_compress B (lane_cv B) (hw @ replicate 8 (splat B 0)) 32"

text \<open>Variable-length chains in lockstep: each lane's hash is taken out at the step it is due.\<close>

definition capture ::
    "'v backend \<Rightarrow> nat list \<Rightarrow> nat \<Rightarrow> 'v list \<times> h256 list \<Rightarrow> 'v list \<times> h256 list" where
  "capture B iters step st =
     (let (hw, results) = st; hw = lane_step B hw
      in (hw, map (\<lambda>lane. if 0 < iters ! lane \<and> step = iters ! lane - 1
                          then extract_hash B hw lane else results ! lane) [0..<width B]))"

definition compute_ways :: "'v backend \<Rightarrow> h256 list \<Rightarrow> nat list \<Rightarrow> h256 list" where
  "compute_ways B starts iters =
     (let max_iters = fold max iters 0 in
      if max_iters = 0 then starts
      else snd (fold (capture B iters) [0..<max_iters] (transpose_in B starts, starts)))"

definition iterate_ways :: "'v backend \<Rightarrow> h256 list \<Rightarrow> h256 list" where
  "iterate_ways B seeds =
     (let hw = iterate EXTENSION_ITERATIONS (lane_step B) (transpose_in B seeds)
      in map (extract_hash B hw) [0..<width B])"

definition create_extensions_ways :: "'v backend \<Rightarrow> h256 \<Rightarrow> nat list \<Rightarrow> (nat \<times> h256) list" where
  "create_extensions_ways B midstate nonces =
     (let nonce_lo = load B (map word_of_nat nonces);
          nonce_hi = load B (map (\<lambda>n. word_of_nat (n div 2 ^ 32)) nonces);
          msg = map (splat B) (bytes_to_words midstate) @ [nonce_lo, nonce_hi] @ replicate 6 (splat B 0);
          hw = iterate EXTENSION_ITERATIONS (lane_step B) (lane_compress B (lane_cv B) msg 40)
      in map (\<lambda>i. (nonces ! i, extract_hash B hw i)) [0..<width B])"

subsection \<open>The reference: single words\<close>

definition word_backend :: "32 word backend" where
  "word_backend = \<lparr>width = 1, splat = (\<lambda>w. w), load = hd, lane_of = (\<lambda>w _. w),
     vadd = (+), vxor = (XOR), vrot16 = word_rotr 16, vrot12 = word_rotr 12,
     vrot8 = word_rotr 8, vrot7 = word_rotr 7\<rparr>"

text \<open>BLAKE3 of at most one block: the padded block's words, compressed with its length under the
  three flags of a lone root chunk.\<close>

definition block_words :: "bytes \<Rightarrow> 32 word list" where
  "block_words bs =
     (let padded = bs @ replicate (64 - length bs) 0
      in map (\<lambda>i. u32_le (take 4 (drop (4 * i) padded))) [0..<16])"

definition blake3_block :: "bytes \<Rightarrow> h256" where
  "blake3_block bs =
     extract_hash word_backend
       (lane_compress word_backend IV (block_words bs) (word_of_nat (length bs))) 0"

definition is_blake3 :: "hasher \<Rightarrow> bool" where
  "is_blake3 H \<longleftrightarrow> (\<forall>bs. length bs \<le> 64 \<longrightarrow> H bs = blake3_block bs)"

subsection \<open>Words and bytes\<close>

lemma take_drop_split:
  "length bs = 4 * n \<Longrightarrow> concat (map (\<lambda>i. take 4 (drop (i * 4) bs)) [0..<n]) = bs"
proof (induction n arbitrary: bs)
  case (Suc n)
  have "concat (map (\<lambda>i. take 4 (drop (i * 4) bs)) [0..<Suc n])
      = take 4 bs @ concat (map (\<lambda>i. take 4 (drop (i * 4) (drop 4 bs))) [0..<n])"
    by (simp add: upt_conv_Cons map_Suc_upt [symmetric] comp_def add.commute [of 4] del: upt_Suc map_Suc_upt)
  then show ?case using Suc.IH [of "drop 4 bs"] Suc.prems by (simp del: drop_drop)
qed simp

lemma nth_block_concat:
  "(\<And>x. x \<in> set xs \<Longrightarrow> length (f x) = 4) \<Longrightarrow> i < length xs \<Longrightarrow>
   take 4 (drop (i * 4) (concat (map f xs))) = f (xs ! i)"
proof (induction xs arbitrary: i)
  case (Cons x xs)
  then show ?case by (cases i) auto
qed simp

lemma u32_le_bytes [simp]: "u32_le (le_bytes 4 n) = word_of_nat n"
  by (simp add: u32_le_def of_le_bytes_le_bytes word_unat_eq_iff unat_of_nat del: of_nat_mod)

lemma le_bytes_u32: "length bs = 4 \<Longrightarrow> le_bytes 4 (unat (u32_le bs)) = bs"
  using of_le_bytes_bound [of bs] le_bytes_of_le_bytes [of bs 4]
  by (simp add: u32_le_def unat_of_nat)

definition words_to_hash :: "32 word list \<Rightarrow> h256" where
  "words_to_hash u = h256_of_be (concat (map (\<lambda>i. le_bytes 4 (unat (u ! i))) [0..<8]))"

lemma length_word_blocks: "length (concat (map (\<lambda>i. le_bytes 4 (f i)) [0..<n])) = 4 * n"
  by (induction n) auto

lemma bytes_to_words_to_hash: "length u = 8 \<Longrightarrow> bytes_to_words (words_to_hash u) = u"
proof -
  assume u: "length u = 8"
  let ?bs = "concat (map (\<lambda>i. le_bytes 4 (unat (u ! i))) [0..<8])"
  have "be_bytes (words_to_hash u) = ?bs"
    unfolding words_to_hash_def by (rule be_bytes_h256_of_be) (simp only: length_word_blocks)
  then have "read_word (words_to_hash u) i = u ! i" if "i < 8" for i
    using that nth_block_concat [of "[0..<8]" "\<lambda>i. le_bytes 4 (unat (u ! i))" i]
    by (simp add: read_word_def del: upt_Suc)
  then show ?thesis using u by (intro nth_equalityI) (simp_all add: bytes_to_words_def)
qed

lemma words_to_hash_of_bytes: "words_to_hash (bytes_to_words x) = x"
proof -
  have "le_bytes 4 (unat (bytes_to_words x ! i)) = take 4 (drop (i * 4) (be_bytes x))" if "i < 8" for i
    using that by (simp add: bytes_to_words_def read_word_def le_bytes_u32)
  then have "map (\<lambda>i. le_bytes 4 (unat (bytes_to_words x ! i))) [0..<8]
      = map (\<lambda>i. take 4 (drop (i * 4) (be_bytes x))) [0..<8]" by simp
  then have "words_to_hash (bytes_to_words x)
      = h256_of_be (concat (map (\<lambda>i. take 4 (drop (i * 4) (be_bytes x))) [0..<8]))"
    by (simp only: words_to_hash_def)
  then show ?thesis using take_drop_split [of "be_bytes x" 8] by simp
qed

lemma length_bytes_to_words [simp]: "length (bytes_to_words x) = 8"
  by (simp add: bytes_to_words_def)

lemma extract_word_backend: "extract_hash word_backend u 0 = words_to_hash u"
  by (simp add: extract_hash_def words_to_hash_def word_backend_def)

lemma upt_8: "[0..<8] = [0, 1, 2, 3, 4, 5, 6, 7::nat]"
  by code_simp

lemma upt_16: "[0..<16] = [0..<8] @ map (\<lambda>i. 8 + i) [0..<8::nat]"
  by code_simp

lemma block_words_append:
  assumes "length bs \<le> 32"
  shows "block_words (be_bytes b @ bs)
    = bytes_to_words b @ map (\<lambda>i. u32_le (take 4 (drop (4 * i) (bs @ replicate (32 - length bs) 0)))) [0..<8]"
proof -
  have first: "take 4 (drop (4 * i) ((be_bytes b @ bs) @ zs)) = take 4 (drop (i * 4) (be_bytes b))"
    if "i < 8" for i zs using that by (simp add: mult.commute)
  have second: "drop (4 * (8 + i)) ((be_bytes b @ bs) @ zs) = drop (4 * i) (bs @ zs)" for i zs
    by (simp add: add_mult_distrib2)
  have "32 + length bs \<le> 64" using assms by simp
  then show ?thesis
    unfolding block_words_def Let_def upt_16 map_append map_map comp_def second
    by (intro arg_cong2 [where f = "(@)"])
       (simp_all add: first mult.commute [of 4] bytes_to_words_def read_word_def del: append_assoc)
qed

lemma blocks_u32:
  assumes "\<forall>x\<in>set bss. length x = 4" and "length bss = n"
  shows "map (\<lambda>i. u32_le (take 4 (drop (4 * i) (concat bss)))) [0..<n] = map u32_le bss"
  using nth_block_concat [of bss "\<lambda>x. x"] assms
  by (intro nth_equalityI) (auto simp: mult.commute [of 4] simp del: upt_Suc)

lemma concat_zeros: "concat (replicate n (replicate 4 0)) = replicate (4 * n) (0 :: byte)"
  by (induction n) (simp_all add: replicate_add)

lemma u32_le_zeros: "u32_le (replicate 4 0) = 0"
  by (simp add: u32_le_def numeral_eq_Suc)

lemma block_words_hash: "block_words (be_bytes b) = bytes_to_words b @ replicate 8 0"
proof -
  have "map (\<lambda>i. u32_le (take 4 (drop (4 * i) (replicate 32 0)))) [0..<8] = replicate 8 0"
    using blocks_u32 [of "replicate 8 (replicate 4 0)" 8] concat_zeros [of 8]
    by (simp add: u32_le_zeros del: upt_Suc)
  then show ?thesis using block_words_append [of "[]" b] by simp
qed

lemma le_bytes_append: "le_bytes (k + m) n = le_bytes k n @ le_bytes m (n div 256 ^ k)"
  by (induction k arbitrary: n) (simp_all add: le_bytes_Suc div_mult2_eq)

lemma block_words_seed:
  "block_words (be_bytes b @ le_bytes 8 n)
   = bytes_to_words b @ [word_of_nat n, word_of_nat (n div 2 ^ 32)] @ replicate 6 0"
proof -
  let ?bss = "[le_bytes 4 n, le_bytes 4 (n div 2 ^ 32)] @ replicate 6 (replicate 4 0)"
  have eight: "le_bytes 8 n = le_bytes 4 n @ le_bytes 4 (n div 2 ^ 32)"
    using le_bytes_append [of 4 4 n] by simp
  have "concat ?bss = le_bytes 8 n @ replicate 24 0"
    using concat_zeros [of 6] by (simp only: concat_append eight) simp
  moreover have "\<forall>x\<in>set ?bss. length x = 4" and "length ?bss = 8" by auto
  ultimately have "map (\<lambda>i. u32_le (take 4 (drop (4 * i) (le_bytes 8 n @ replicate 24 0)))) [0..<8]
      = map u32_le ?bss"
    using blocks_u32 [of ?bss 8] by metis
  then show ?thesis using block_words_append [of "le_bytes 8 n" b] by (simp add: u32_le_zeros)
qed

lemma iterate_snoc: "iterate (Suc n) f x = f (iterate n f x)"
  by (induction n arbitrary: x) simp_all

lemma iterate_add: "iterate (m + n) f x = iterate n f (iterate m f x)"
  by (induction m arbitrary: x) simp_all

text \<open>One step of a chain: BLAKE3 of a 32-byte value.\<close>

abbreviation blake3_32 :: "h256 \<Rightarrow> h256" where
  "blake3_32 x \<equiv> blake3_block (be_bytes x)"

lemma lane_cv_word: "lane_cv word_backend = IV"
  by (simp add: lane_cv_def word_backend_def)

lemma length_lane_compress [simp]: "length (lane_compress B cv msg n) = 8"
  by (simp add: lane_compress_def Let_def)

lemma blake3_32_words: "bytes_to_words (blake3_32 x) = lane_step word_backend (bytes_to_words x)"
proof -
  have "blake3_32 x = words_to_hash (lane_compress word_backend IV (bytes_to_words x @ replicate 8 0) 32)"
    by (simp add: blake3_block_def extract_word_backend block_words_hash)
  also have "\<dots> = words_to_hash (lane_step word_backend (bytes_to_words x))"
    by (simp add: lane_step_def lane_cv_word) (simp add: word_backend_def)
  finally show ?thesis by (simp add: bytes_to_words_to_hash lane_step_def)
qed

lemma blake3_seed_words:
  "bytes_to_words (blake3_block (be_bytes b @ le_bytes 8 n))
   = lane_compress word_backend IV
       (bytes_to_words b @ [word_of_nat n, word_of_nat (n div 2 ^ 32)] @ replicate 6 0) 40"
  by (simp add: blake3_block_def extract_word_backend bytes_to_words_to_hash block_words_seed)

subsection \<open>What the kernels need of an instruction set\<close>

locale lane_backend =
  fixes B :: "'v backend"
    and valid :: "'v \<Rightarrow> bool"
  assumes valid_splat: "valid (splat B w)"
    and valid_load: "length ws = width B \<Longrightarrow> valid (load B ws)"
    and valid_add: "valid x \<Longrightarrow> valid y \<Longrightarrow> valid (vadd B x y)"
    and valid_xor: "valid x \<Longrightarrow> valid y \<Longrightarrow> valid (vxor B x y)"
    and valid_rot: "valid x \<Longrightarrow> valid (vrot16 B x) \<and> valid (vrot12 B x) \<and> valid (vrot8 B x) \<and> valid (vrot7 B x)"
    and lane_splat: "k < width B \<Longrightarrow> lane_of B (splat B w) k = w"
    and lane_load: "length ws = width B \<Longrightarrow> k < width B \<Longrightarrow> lane_of B (load B ws) k = ws ! k"
    and lane_add: "valid x \<Longrightarrow> valid y \<Longrightarrow> k < width B \<Longrightarrow>
      lane_of B (vadd B x y) k = lane_of B x k + lane_of B y k"
    and lane_xor: "valid x \<Longrightarrow> valid y \<Longrightarrow> k < width B \<Longrightarrow>
      lane_of B (vxor B x y) k = lane_of B x k XOR lane_of B y k"
    and lane_rot: "valid x \<Longrightarrow> k < width B \<Longrightarrow>
      lane_of B (vrot16 B x) k = word_rotr 16 (lane_of B x k) \<and>
      lane_of B (vrot12 B x) k = word_rotr 12 (lane_of B x k) \<and>
      lane_of B (vrot8 B x) k = word_rotr 8 (lane_of B x k) \<and>
      lane_of B (vrot7 B x) k = word_rotr 7 (lane_of B x k)"
begin

definition holds :: "nat \<Rightarrow> 'v \<Rightarrow> 32 word \<Rightarrow> bool" where
  "holds k x w \<longleftrightarrow> k < width B \<and> valid x \<and> lane_of B x k = w"

lemma holds_splat: "k < width B \<Longrightarrow> holds k (splat B w) w"
  by (simp add: holds_def valid_splat lane_splat)

lemma holds_load: "length ws = width B \<Longrightarrow> k < width B \<Longrightarrow> holds k (load B ws) (ws ! k)"
  by (simp add: holds_def valid_load lane_load)

lemma holds_add: "holds k x w \<Longrightarrow> holds k y u \<Longrightarrow> holds k (vadd B x y) (vadd word_backend w u)"
  by (auto simp: holds_def valid_add lane_add word_backend_def)

lemma holds_xor: "holds k x w \<Longrightarrow> holds k y u \<Longrightarrow> holds k (vxor B x y) (vxor word_backend w u)"
  by (auto simp: holds_def valid_xor lane_xor word_backend_def)

lemma holds_rot:
  "holds k x w \<Longrightarrow> holds k (vrot16 B x) (vrot16 word_backend w)"
  "holds k x w \<Longrightarrow> holds k (vrot12 B x) (vrot12 word_backend w)"
  "holds k x w \<Longrightarrow> holds k (vrot8 B x) (vrot8 word_backend w)"
  "holds k x w \<Longrightarrow> holds k (vrot7 B x) (vrot7 word_backend w)"
  using valid_rot [of x] lane_rot [of x k] by (auto simp: holds_def word_backend_def)

definition agree :: "nat \<Rightarrow> nat \<Rightarrow> 'v list \<Rightarrow> 32 word list \<Rightarrow> bool" where
  "agree k n v u \<longleftrightarrow> list_all2 (holds k) v u \<and> length u = n"

lemma agree_length: "agree k n v u \<Longrightarrow> length v = n \<and> length u = n"
  by (auto simp: agree_def dest: list_all2_lengthD)

lemma agree_nth: "agree k n v u \<Longrightarrow> i < n \<Longrightarrow> holds k (v ! i) (u ! i)"
  by (metis agree_def list_all2_conv_all_nth)

lemma agree_update: "agree k n v u \<Longrightarrow> holds k x w \<Longrightarrow> agree k n (v[i := x]) (u[i := w])"
  by (simp add: agree_def list_all2_update_cong)

lemma agree_append: "agree k n v u \<Longrightarrow> agree k m v' u' \<Longrightarrow> agree k (n + m) (v @ v') (u @ u')"
  by (simp add: agree_def list_all2_appendI)

lemma agree_Nil: "agree k 0 [] []"
  by (simp add: agree_def)

lemma agree_Cons: "holds k x w \<Longrightarrow> agree k n v u \<Longrightarrow> agree k (Suc n) (x # v) (w # u)"
  by (simp add: agree_def)

lemma agree_replicate: "holds k x w \<Longrightarrow> agree k n (replicate n x) (replicate n w)"
  by (induction n) (auto simp: agree_def)

lemma agree_map: "(\<And>x. x \<in> set xs \<Longrightarrow> holds k (f x) (g x)) \<Longrightarrow> agree k (length xs) (map f xs) (map g xs)"
  by (induction xs) (auto simp: agree_def)

lemma agree_let:
  assumes "agree k n v u" and "\<And>v u. agree k n v u \<Longrightarrow> agree k n (f v) (g u)"
  shows "agree k n (let x = v in f x) (let x = u in g x)"
  using assms by (simp add: Let_def)

lemma agree_lane_g:
  assumes "agree k n v u" and "holds k mx mw" and "holds k my mw'"
    and "a < n" and "b < n" and "c < n" and "d < n"
  shows "agree k n (lane_g B v a b c d mx my) (lane_g word_backend u a b c d mw mw')"
  unfolding lane_g_def
  by (intro agree_let agree_update holds_add holds_xor holds_rot agree_nth) (use assms in simp_all)

lemma agree_lane_round:
  assumes "agree k 16 v u" and "agree k 16 m mw" and "\<forall>i\<in>set s. i < 16" and "length s = 16"
  shows "agree k 16 (lane_round B v m s) (lane_round word_backend u mw s)"
proof -
  have "holds k (m ! (s ! i)) (mw ! (s ! i))" if "i < 16" for i
    using assms that by (intro agree_nth) auto
  then show ?thesis
    unfolding lane_round_def by (intro agree_let agree_lane_g) (use assms in simp_all)
qed

lemma agree_compress:
  assumes "k < width B" and "agree k 8 cv cw" and "agree k 16 m mw"
  shows "agree k 8 (lane_compress B cv m len) (lane_compress word_backend cw mw len)"
proof -
  have cv: "holds k (cv ! i) (cw ! i)" if "i < 8" for i using assms(2) that by (rule agree_nth)
  have rounds: "agree k 16 (fold (\<lambda>r v. lane_round B v m (MSG_SCHEDULE ! r)) rs v)
      (fold (\<lambda>r v. lane_round word_backend v mw (MSG_SCHEDULE ! r)) rs u)"
    if "agree k 16 v u" and "\<forall>r\<in>set rs. r < 7" for v u rs
    using that
  proof (induction rs arbitrary: v u)
    case (Cons r rs)
    have s: "length (MSG_SCHEDULE ! r) = 16" "\<forall>i\<in>set (MSG_SCHEDULE ! r). i < 16" if "r < 7"
    proof -
      have "MSG_SCHEDULE ! r \<in> set MSG_SCHEDULE" using that by (intro nth_mem) (simp add: MSG_SCHEDULE_def)
      then show "length (MSG_SCHEDULE ! r) = 16" "\<forall>i\<in>set (MSG_SCHEDULE ! r). i < 16"
        by (auto simp: MSG_SCHEDULE_def)
    qed
    have "agree k 16 (lane_round B v m (MSG_SCHEDULE ! r)) (lane_round word_backend u mw (MSG_SCHEDULE ! r))"
      using Cons.prems by (intro agree_lane_round assms(3) s) auto
    then show ?case using Cons by simp
  qed simp
  let ?v = "[cv ! 0, cv ! 1, cv ! 2, cv ! 3, cv ! 4, cv ! 5, cv ! 6, cv ! 7,
         splat B (IV ! 0), splat B (IV ! 1), splat B (IV ! 2), splat B (IV ! 3),
         splat B 0, splat B 0, splat B len, splat B HASH_FLAGS]"
  let ?u = "[cw ! 0, cw ! 1, cw ! 2, cw ! 3, cw ! 4, cw ! 5, cw ! 6, cw ! 7,
         IV ! 0, IV ! 1, IV ! 2, IV ! 3, 0, 0, len, HASH_FLAGS]"
  let ?V = "fold (\<lambda>r v. lane_round B v m (MSG_SCHEDULE ! r)) [0..<7] ?v"
  let ?U = "fold (\<lambda>r v. lane_round word_backend v mw (MSG_SCHEDULE ! r)) [0..<7] ?u"
  have "agree k 16 ?v ?u" using cv assms(1) by (simp add: agree_def holds_splat)
  then have VU: "agree k 16 ?V ?U" by (rule rounds) simp
  have w: "splat word_backend x = x" for x by (simp add: word_backend_def)
  have "agree k (length [0..<8]) (map (\<lambda>i. vxor B (?V ! i) (?V ! (i + 8))) [0..<8])
      (map (\<lambda>i. vxor word_backend (?U ! i) (?U ! (i + 8))) [0..<8])"
    by (intro agree_map holds_xor agree_nth [OF VU]) simp_all
  then show ?thesis unfolding lane_compress_def w Let_def by simp
qed

lemma agree_transpose:
  assumes "length starts = width B" and "k < width B"
  shows "agree k 8 (transpose_in B starts) (bytes_to_words (starts ! k))"
proof -
  have "agree k (length [0..<8::nat]) (transpose_in B starts) (bytes_to_words (starts ! k))"
    unfolding transpose_in_def bytes_to_words_def
  proof (rule agree_map)
    fix i
    have "holds k (load B (map (\<lambda>s. read_word s i) starts)) (map (\<lambda>s. read_word s i) starts ! k)"
      using assms by (intro holds_load) simp_all
    then show "holds k (load B (map (\<lambda>s. read_word s i) starts)) (read_word (starts ! k) i)"
      using assms by simp
  qed
  then show ?thesis by simp
qed

lemma agree_cv:
  assumes "k < width B"
  shows "agree k 8 (lane_cv B) IV"
proof -
  have "agree k (length IV) (map (splat B) IV) (map (\<lambda>w. w) IV)"
    by (rule agree_map) (rule holds_splat [OF assms])
  moreover have "length IV = 8" by (simp add: IV_def)
  ultimately show ?thesis by (simp add: lane_cv_def)
qed

lemma agree_step:
  assumes "k < width B" and "agree k 8 hw (bytes_to_words x)"
  shows "agree k 8 (lane_step B hw) (bytes_to_words (blake3_32 x))"
proof -
  have "agree k 8 (lane_cv B) (lane_cv word_backend)"
    unfolding lane_cv_word by (rule agree_cv [OF assms(1)])
  moreover have "agree k (8 + 8) (hw @ replicate 8 (splat B 0))
      (bytes_to_words x @ replicate 8 (splat word_backend 0))"
    using assms holds_splat by (intro agree_append agree_replicate) (simp_all add: word_backend_def)
  then have "agree k 16 (hw @ replicate 8 (splat B 0))
      (bytes_to_words x @ replicate 8 (splat word_backend 0))" by simp
  ultimately show ?thesis
    unfolding blake3_32_words lane_step_def [of word_backend] lane_step_def [of B]
    by (intro agree_compress assms(1))
qed

lemma extract_agree: "agree k 8 hw (bytes_to_words x) \<Longrightarrow> extract_hash B hw k = x"
proof -
  assume *: "agree k 8 hw (bytes_to_words x)"
  have "lane_of B (hw ! i) k = bytes_to_words x ! i" if "i < 8" for i
    using agree_nth [OF * that] by (simp add: holds_def)
  then have "map (\<lambda>i. le_bytes 4 (unat (lane_of B (hw ! i) k))) [0..<8]
      = map (\<lambda>i. le_bytes 4 (unat (bytes_to_words x ! i))) [0..<8]" by simp
  then have "extract_hash B hw k = words_to_hash (bytes_to_words x)"
    by (simp only: extract_hash_def words_to_hash_def)
  then show ?thesis by (simp add: words_to_hash_of_bytes)
qed

lemma agree_iterate:
  "k < width B \<Longrightarrow> agree k 8 hw (bytes_to_words x) \<Longrightarrow>
   agree k 8 (iterate n (lane_step B) hw) (bytes_to_words (iterate n blake3_32 x))"
  by (induction n arbitrary: hw x) (simp_all add: agree_step)

lemma iterate_ways_chains:
  assumes "length seeds = width B"
  shows "iterate_ways B seeds = map (iterate EXTENSION_ITERATIONS blake3_32) seeds"
proof -
  have "extract_hash B (iterate EXTENSION_ITERATIONS (lane_step B) (transpose_in B seeds)) k
      = iterate EXTENSION_ITERATIONS blake3_32 (seeds ! k)" if "k < width B" for k
    using assms that by (intro extract_agree agree_iterate agree_transpose)
  then show ?thesis
    using assms by (intro nth_equalityI) (simp_all add: iterate_ways_def Let_def)
qed

lemma create_extensions_ways_chains:
  assumes "length nonces = width B"
  shows "create_extensions_ways B midstate nonces
    = map (\<lambda>n. (n, iterate EXTENSION_ITERATIONS blake3_32 (blake3_block (be_bytes midstate @ le_bytes 8 n)))) nonces"
proof -
  let ?lo = "load B (map word_of_nat nonces)"
  let ?hi = "load B (map (\<lambda>n. word_of_nat (n div 2 ^ 32)) nonces)"
  let ?msg = "map (splat B) (bytes_to_words midstate) @ [?lo, ?hi] @ replicate 6 (splat B 0)"
  let ?hw = "lane_compress B (lane_cv B) ?msg 40"
  have seed: "agree k 8 ?hw (bytes_to_words (blake3_block (be_bytes midstate @ le_bytes 8 (nonces ! k))))"
    if k: "k < width B" for k
  proof -
    let ?u = "bytes_to_words midstate @ [word_of_nat (nonces ! k), word_of_nat (nonces ! k div 2 ^ 32)]
      @ replicate 6 0"
    have "holds k ?lo (map word_of_nat nonces ! k)"
      and "holds k ?hi (map (\<lambda>n. word_of_nat (n div 2 ^ 32)) nonces ! k)"
      using assms k by (intro holds_load; simp)+
    then have "agree k 2 [?lo, ?hi] [word_of_nat (nonces ! k), word_of_nat (nonces ! k div 2 ^ 32)]"
      using assms k by (simp add: agree_def)
    moreover have "agree k 6 (replicate 6 (splat B 0)) (replicate 6 0)"
      by (intro agree_replicate holds_splat k)
    moreover have "agree k 8 (map (splat B) (bytes_to_words midstate)) (bytes_to_words midstate)"
      using agree_map [of "bytes_to_words midstate" k "splat B" "\<lambda>w. w"] holds_splat k by simp
    ultimately have "agree k (8 + (2 + 6)) ?msg ?u" by (intro agree_append)
    then have msg: "agree k 16 ?msg ?u" by simp
    show ?thesis unfolding blake3_seed_words by (intro agree_compress k msg agree_cv)
  qed
  have "extract_hash B (iterate EXTENSION_ITERATIONS (lane_step B) ?hw) k
      = iterate EXTENSION_ITERATIONS blake3_32 (blake3_block (be_bytes midstate @ le_bytes 8 (nonces ! k)))"
    if "k < width B" for k
    using that by (intro extract_agree agree_iterate seed)
  then show ?thesis
    using assms by (intro nth_equalityI) (simp_all add: create_extensions_ways_def Let_def)
qed

text \<open>The lockstep loop: after some steps each lane has gone that many steps along its chain, and the
  lanes whose chains were short enough have been captured.\<close>

lemma capture_steps:
  assumes "length starts = width B" and "length iters = width B" and "k < width B"
  shows "case fold (capture B iters) [0..<n] (transpose_in B starts, starts) of (hw, results) \<Rightarrow>
    agree k 8 hw (bytes_to_words (iterate n blake3_32 (starts ! k))) \<and> length results = width B \<and>
    (iters ! k \<le> n \<longrightarrow> results ! k = iterate (iters ! k) blake3_32 (starts ! k)) \<and>
    (n < iters ! k \<longrightarrow> results ! k = starts ! k)"
proof (induction n)
  case 0
  then show ?case using assms by (auto simp: agree_transpose)
next
  case (Suc n)
  obtain hw results where st: "fold (capture B iters) [0..<n] (transpose_in B starts, starts) = (hw, results)"
    by force
  have IH: "agree k 8 hw (bytes_to_words (iterate n blake3_32 (starts ! k)))" "length results = width B"
    "iters ! k \<le> n \<Longrightarrow> results ! k = iterate (iters ! k) blake3_32 (starts ! k)"
    "n < iters ! k \<Longrightarrow> results ! k = starts ! k"
    using Suc.IH st by auto
  let ?hw = "lane_step B hw"
  have hw: "agree k 8 ?hw (bytes_to_words (iterate (Suc n) blake3_32 (starts ! k)))"
    unfolding iterate_snoc by (rule agree_step [OF assms(3) IH(1)])
  have "fold (capture B iters) [0..<Suc n] (transpose_in B starts, starts)
      = (?hw, map (\<lambda>lane. if 0 < iters ! lane \<and> n = iters ! lane - 1
                          then extract_hash B ?hw lane else results ! lane) [0..<width B])"
    using st by (simp add: capture_def Let_def)
  moreover have "iters ! k = Suc n \<Longrightarrow> extract_hash B ?hw k = iterate (iters ! k) blake3_32 (starts ! k)"
    using extract_agree [OF hw] by metis
  moreover have "0 < iters ! k \<and> n = iters ! k - 1 \<longleftrightarrow> iters ! k = Suc n" by auto
  ultimately show ?case
    using hw IH(3,4) assms(3) by (auto simp del: iterate.simps upt_Suc simp: le_Suc_eq)
qed

lemma length_captures:
  "length (snd st) = width B \<Longrightarrow> length (snd (fold (capture B iters) ns st)) = width B"
  by (induction ns arbitrary: st) (simp_all add: capture_def Let_def split_beta)

lemma le_fold_max: "m \<le> fold max ns m \<and> (n \<in> set ns \<longrightarrow> n \<le> fold max ns m)" for n m :: nat
proof (induction ns arbitrary: m)
  case (Cons a ns)
  have "max a m \<le> fold max ns (max a m)" and "n \<in> set ns \<longrightarrow> n \<le> fold max ns (max a m)"
    using Cons.IH [of "max a m"] by blast+
  then show ?case by auto
qed simp

lemma compute_ways_chains:
  assumes "length starts = width B" and "length iters = width B"
  shows "compute_ways B starts iters = map2 (\<lambda>x n. iterate n blake3_32 x) starts iters"
proof (rule nth_equalityI)
  let ?m = "fold max iters 0"
  have le: "iters ! k \<le> ?m" if "k < width B" for k
    using that assms(2) le_fold_max [of 0 iters "iters ! k"] by simp
  have len: "length (compute_ways B starts iters) = width B"
    using assms by (simp add: compute_ways_def Let_def length_captures)
  then show "length (compute_ways B starts iters) = length (map2 (\<lambda>x n. iterate n blake3_32 x) starts iters)"
    using assms by simp
  fix k
  assume "k < length (compute_ways B starts iters)"
  then have k: "k < width B" using len by simp
  have "compute_ways B starts iters ! k = iterate (iters ! k) blake3_32 (starts ! k)"
  proof (cases "?m = 0")
    case True
    then show ?thesis using le [OF k] by (simp add: compute_ways_def)
  next
    case False
    then show ?thesis
      using capture_steps [OF assms k, of ?m] le [OF k]
      by (simp add: compute_ways_def Let_def split_beta)
  qed
  then show "compute_ways B starts iters ! k = map2 (\<lambda>x n. iterate n blake3_32 x) starts iters ! k"
    using k assms by simp
qed

end

end
