(* ===== verification/Simd_Backends.thy ===== *)
theory Simd_Backends
  imports Blake3_Lanes
begin

text \<open>
  The instruction sets of \<^verbatim>\<open>src/src/core/wots_simd.rs\<close> and \<^verbatim>\<open>src/src/core/simd_mining.rs\<close> as backends:
  AVX2 with eight lanes, NEON and WebAssembly SIMD128 with four, each with the rotations the source
  builds from that instruction set's shuffles and shifts. A register is the list of its 32-bit
  lanes, lowest first. Each backend interprets \<open>lane_backend\<close>, so every kernel computes the scalar
  chain in every lane; on top of it stand the batch functions of both files.
\<close>

subsection \<open>Intrinsics\<close>

type_synonym simd_register = "32 word list"

definition lanes_add :: "simd_register \<Rightarrow> simd_register \<Rightarrow> simd_register" where
  "lanes_add = map2 (+)"

definition lanes_xor :: "simd_register \<Rightarrow> simd_register \<Rightarrow> simd_register" where
  "lanes_xor = map2 (XOR)"

definition lanes_or :: "simd_register \<Rightarrow> simd_register \<Rightarrow> simd_register" where
  "lanes_or = map2 (OR)"

definition lanes_shr :: "nat \<Rightarrow> simd_register \<Rightarrow> simd_register" where
  "lanes_shr n = map (drop_bit n)"

definition lanes_shl :: "nat \<Rightarrow> simd_register \<Rightarrow> simd_register" where
  "lanes_shl n = map (push_bit n)"

text \<open>\<^verbatim>\<open>_mm256_set_epi32\<close> and \<^verbatim>\<open>_mm256_set_epi8\<close> take the highest element first.\<close>

definition mm256_set_epi32 :: "32 word list \<Rightarrow> simd_register" where
  "mm256_set_epi32 = rev"

definition mm256_set_epi8 :: "bytes \<Rightarrow> bytes" where
  "mm256_set_epi8 = rev"

definition register_bytes :: "simd_register \<Rightarrow> bytes" where
  "register_bytes x = concat (map (\<lambda>w. le_bytes 4 (unat w)) x)"

definition mm256_shuffle_epi8 :: "simd_register \<Rightarrow> bytes \<Rightarrow> simd_register" where
  "mm256_shuffle_epi8 x ctl =
     (let src = register_bytes x;
          out = map (\<lambda>i. if bit (ctl ! i) 7 then 0 else src ! (i div 16 * 16 + unat (ctl ! i AND 15))) [0..<32]
      in map (\<lambda>k. u32_le (take 4 (drop (k * 4) out))) [0..<8])"

definition vreinterpretq_u16_u32 :: "simd_register \<Rightarrow> 16 word list" where
  "vreinterpretq_u16_u32 x = concat (map (\<lambda>w. [ucast w, ucast (drop_bit 16 w)]) x)"

fun vrev32q_u16 :: "16 word list \<Rightarrow> 16 word list" where
  "vrev32q_u16 (a # b # xs) = b # a # vrev32q_u16 xs"
| "vrev32q_u16 xs = xs"

fun vreinterpretq_u32_u16 :: "16 word list \<Rightarrow> simd_register" where
  "vreinterpretq_u32_u16 (a # b # xs) = (ucast a OR push_bit 16 (ucast b)) # vreinterpretq_u32_u16 xs"
| "vreinterpretq_u32_u16 xs = []"

subsection \<open>Rotations\<close>

definition avx2_vrot16 :: "simd_register \<Rightarrow> simd_register" where
  "avx2_vrot16 x =
     mm256_shuffle_epi8 x (mm256_set_epi8
       [13, 12, 15, 14, 9, 8, 11, 10, 5, 4, 7, 6, 1, 0, 3, 2,
        13, 12, 15, 14, 9, 8, 11, 10, 5, 4, 7, 6, 1, 0, 3, 2])"

definition avx2_vrot12 :: "simd_register \<Rightarrow> simd_register" where
  "avx2_vrot12 x = lanes_or (lanes_shr 12 x) (lanes_shl 20 x)"

definition avx2_vrot8 :: "simd_register \<Rightarrow> simd_register" where
  "avx2_vrot8 x =
     mm256_shuffle_epi8 x (mm256_set_epi8
       [12, 15, 14, 13, 8, 11, 10, 9, 4, 7, 6, 5, 0, 3, 2, 1,
        12, 15, 14, 13, 8, 11, 10, 9, 4, 7, 6, 5, 0, 3, 2, 1])"

definition avx2_vrot7 :: "simd_register \<Rightarrow> simd_register" where
  "avx2_vrot7 x = lanes_or (lanes_shr 7 x) (lanes_shl 25 x)"

definition neon_vrot16 :: "simd_register \<Rightarrow> simd_register" where
  "neon_vrot16 x = vreinterpretq_u32_u16 (vrev32q_u16 (vreinterpretq_u16_u32 x))"

definition neon_vrot12 :: "simd_register \<Rightarrow> simd_register" where
  "neon_vrot12 x = lanes_or (lanes_shr 12 x) (lanes_shl 20 x)"

definition neon_vrot8 :: "simd_register \<Rightarrow> simd_register" where
  "neon_vrot8 x = lanes_or (lanes_shr 8 x) (lanes_shl 24 x)"

definition neon_vrot7 :: "simd_register \<Rightarrow> simd_register" where
  "neon_vrot7 x = lanes_or (lanes_shr 7 x) (lanes_shl 25 x)"

definition wasm_vrot16 :: "simd_register \<Rightarrow> simd_register" where
  "wasm_vrot16 x = lanes_or (lanes_shr 16 x) (lanes_shl 16 x)"

definition wasm_vrot12 :: "simd_register \<Rightarrow> simd_register" where
  "wasm_vrot12 x = lanes_or (lanes_shr 12 x) (lanes_shl 20 x)"

definition wasm_vrot8 :: "simd_register \<Rightarrow> simd_register" where
  "wasm_vrot8 x = lanes_or (lanes_shr 8 x) (lanes_shl 24 x)"

definition wasm_vrot7 :: "simd_register \<Rightarrow> simd_register" where
  "wasm_vrot7 x = lanes_or (lanes_shr 7 x) (lanes_shl 25 x)"

subsection \<open>The backends\<close>

definition avx2 :: "simd_register backend" where
  "avx2 = \<lparr>width = 8, splat = replicate 8, load = (\<lambda>ws. mm256_set_epi32 (rev ws)), lane_of = (!),
     vadd = lanes_add, vxor = lanes_xor, vrot16 = avx2_vrot16, vrot12 = avx2_vrot12,
     vrot8 = avx2_vrot8, vrot7 = avx2_vrot7\<rparr>"

definition neon :: "simd_register backend" where
  "neon = \<lparr>width = 4, splat = replicate 4, load = (\<lambda>ws. ws), lane_of = (!),
     vadd = lanes_add, vxor = lanes_xor, vrot16 = neon_vrot16, vrot12 = neon_vrot12,
     vrot8 = neon_vrot8, vrot7 = neon_vrot7\<rparr>"

definition wasm_simd :: "simd_register backend" where
  "wasm_simd = \<lparr>width = 4, splat = replicate 4, load = (\<lambda>ws. ws), lane_of = (!),
     vadd = lanes_add, vxor = lanes_xor, vrot16 = wasm_vrot16, vrot12 = wasm_vrot12,
     vrot8 = wasm_vrot8, vrot7 = wasm_vrot7\<rparr>"

subsection \<open>Every lane rotates\<close>

lemma length_lanes [simp]:
  "length (lanes_add x y) = min (length x) (length y)"
  "length (lanes_xor x y) = min (length x) (length y)"
  "length (lanes_or x y) = min (length x) (length y)"
  "length (lanes_shr n x) = length x" "length (lanes_shl n x) = length x"
  by (simp_all add: lanes_add_def lanes_xor_def lanes_or_def lanes_shr_def lanes_shl_def)

lemma nth_lanes [simp]:
  "k < length x \<Longrightarrow> k < length y \<Longrightarrow> lanes_add x y ! k = x ! k + y ! k"
  "k < length x \<Longrightarrow> k < length y \<Longrightarrow> lanes_xor x y ! k = x ! k XOR y ! k"
  "k < length x \<Longrightarrow> k < length y \<Longrightarrow> lanes_or x y ! k = x ! k OR y ! k"
  "k < length x \<Longrightarrow> lanes_shr n x ! k = drop_bit n (x ! k)"
  "k < length x \<Longrightarrow> lanes_shl n x ! k = push_bit n (x ! k)"
  by (simp_all add: lanes_add_def lanes_xor_def lanes_or_def lanes_shr_def lanes_shl_def)

lemma rotr_shifts: "0 < n \<Longrightarrow> n < 32 \<Longrightarrow> drop_bit n (w :: 32 word) OR push_bit (32 - n) w = word_rotr n w"
proof (rule bit_word_eqI)
  fix i
  assume n: "0 < n" "n < 32" and i: "i < LENGTH(32)"
  have "bit (word_rotr n w) i = bit w ((i + n) mod 32)"
    using i by (simp add: bit_word_rotr_iff)
  also have "(i + n) mod 32 = (if i + n < 32 then i + n else i + n - 32)"
    using i n by (auto simp: mod_if)
  finally show "bit (drop_bit n w OR push_bit (32 - n) w) i = bit (word_rotr n w) i"
    using i n by (auto simp: bit_or_iff bit_drop_bit_eq bit_push_bit_iff add.commute dest: bit_imp_le_length)
qed

definition byte_at :: "32 word \<Rightarrow> nat \<Rightarrow> byte" where
  "byte_at w i = word_of_nat (unat w div 256 ^ i)"

lemma le_bytes_byte_at: "le_bytes 4 (unat w) = [byte_at w 0, byte_at w 1, byte_at w 2, byte_at w 3]"
proof -
  have "[0..<4] = [0, 1, 2, 3::nat]" by code_simp
  then show ?thesis by (simp add: byte_at_def le_bytes_def)
qed

lemma bit_byte_at: "j < 8 \<Longrightarrow> bit (byte_at w i) j \<longleftrightarrow> bit w (8 * i + j)"
proof -
  assume j: "j < 8"
  have "unat w div 256 ^ i = drop_bit (8 * i) (unat w)"
    by (simp add: drop_bit_eq_div power_mult)
  then show ?thesis
    using j by (simp add: byte_at_def bit_of_nat_iff possible_bit_def bit_drop_bit_eq bit_unsigned_iff)
qed

lemma byte_at_rotr:
  assumes "i < 4"
  shows "byte_at (word_rotr 16 w) i = byte_at w ((i + 2) mod 4)"
    and "byte_at (word_rotr 8 w) i = byte_at w ((i + 1) mod 4)"
proof -
  have arith: "8 * i + j < 32 \<and> (8 * i + j + 8 * s) mod 32 = 8 * ((i + s) mod 4) + j" if "j < 8" for j s
  proof -
    have "(8 * (i + s) + j) mod (8 * 4) = 8 * ((8 * (i + s) + j) div 8 mod 4) + (8 * (i + s) + j) mod 8"
      by (rule mod_mult2_eq)
    moreover have "(8 * q + j) div 8 = q \<and> (8 * q + j) mod 8 = j" for q using that by simp
    then have "(8 * (i + s) + j) div 8 = i + s" and "(8 * (i + s) + j) mod 8 = j" by blast+
    ultimately show ?thesis using that assms by (simp add: algebra_simps)
  qed
  have "bit (byte_at (word_rotr (8 * s) w) i) j \<longleftrightarrow> bit (byte_at w ((i + s) mod 4)) j" if "j < 8" for j s
    using that arith [OF that, of s] by (simp add: bit_byte_at bit_word_rotr_iff)
  from this [of _ 2] this [of _ 1]
  show "byte_at (word_rotr 16 w) i = byte_at w ((i + 2) mod 4)"
    and "byte_at (word_rotr 8 w) i = byte_at w ((i + 1) mod 4)"
    by (auto intro!: bit_word_eqI)
qed

lemma u32_le_rotated:
  "u32_le [byte_at w 2, byte_at w 3, byte_at w 0, byte_at w 1] = word_rotr 16 w"
  "u32_le [byte_at w 1, byte_at w 2, byte_at w 3, byte_at w 0] = word_rotr 8 w"
proof -
  have v: "u32_le (le_bytes 4 (unat v)) = v" for v :: "32 word" by simp
  have nums: "(0 + 2) mod 4 = (2::nat)" "(1 + 2) mod 4 = (3::nat)" "(2 + 2) mod 4 = (0::nat)"
      "(3 + 2) mod 4 = (1::nat)" "(0 + 1) mod 4 = (1::nat)" "(1 + 1) mod 4 = (2::nat)"
      "(2 + 1) mod 4 = (3::nat)" "(3 + 1) mod 4 = (0::nat)" by code_simp+
  have less: "(0::nat) < 4" "(1::nat) < 4" "(2::nat) < 4" "(3::nat) < 4" by simp_all
  note r16 = less [THEN byte_at_rotr(1), of w, unfolded nums]
  note r8 = less [THEN byte_at_rotr(2), of w, unfolded nums]
  show "u32_le [byte_at w 2, byte_at w 3, byte_at w 0, byte_at w 1] = word_rotr 16 w"
    using v [of "word_rotr 16 w"] unfolding le_bytes_byte_at r16 .
  show "u32_le [byte_at w 1, byte_at w 2, byte_at w 3, byte_at w 0] = word_rotr 8 w"
    using v [of "word_rotr 8 w"] unfolding le_bytes_byte_at r8 .
qed

lemma length_8E:
  assumes "length x = 8"
  obtains a b c d e f g h where "x = [a, b, c, d, e, f, g, h]"
  using assms by (auto simp: numeral_eq_Suc length_Suc_conv)

lemma upt_32: "[0..<32] = [0, 1, 2, 3, 4, 5, 6, 7, 8, 9, 10, 11, 12, 13, 14, 15, 16, 17, 18, 19, 20,
    21, 22, 23, 24, 25, 26, 27, 28, 29, 30, 31::nat]"
  by code_simp

lemma avx2_vrot16_map:
  assumes "length x = 8"
  shows "avx2_vrot16 x = map (word_rotr 16) x"
  using assms
  by (elim length_8E)
     (simp add: avx2_vrot16_def mm256_shuffle_epi8_def mm256_set_epi8_def register_bytes_def
        le_bytes_byte_at upt_32 upt_8 u32_le_rotated [simplified])

lemma avx2_vrot8_map:
  assumes "length x = 8"
  shows "avx2_vrot8 x = map (word_rotr 8) x"
  using assms
  by (elim length_8E)
     (simp add: avx2_vrot8_def mm256_shuffle_epi8_def mm256_set_epi8_def register_bytes_def
        le_bytes_byte_at upt_32 upt_8 u32_le_rotated [simplified])

lemma halves_swapped:
  "ucast (ucast (drop_bit 16 w) :: 16 word) OR push_bit 16 (ucast (ucast w :: 16 word)) = word_rotr 16 w"
  for w :: "32 word"
proof -
  have "ucast (ucast (drop_bit 16 w) :: 16 word) = drop_bit 16 w"
    by (rule bit_word_eqI) (auto simp: bit_ucast_iff bit_drop_bit_eq dest: bit_imp_le_length)
  moreover have "push_bit 16 (ucast (ucast w :: 16 word)) = push_bit 16 w"
    by (rule bit_word_eqI) (auto simp: bit_ucast_iff bit_push_bit_iff)
  ultimately show ?thesis using rotr_shifts [of 16 w] by simp
qed

lemma neon_vrot16_map: "neon_vrot16 x = map (word_rotr 16) x"
  by (induction x) (simp_all add: neon_vrot16_def vreinterpretq_u16_u32_def halves_swapped)

lemmas rotation_defs = avx2_vrot12_def avx2_vrot7_def neon_vrot12_def neon_vrot8_def neon_vrot7_def
  wasm_vrot16_def wasm_vrot12_def wasm_vrot8_def wasm_vrot7_def

lemma rotr_by_shifts:
  "drop_bit 16 w OR push_bit 16 w = word_rotr 16 w" "drop_bit 12 w OR push_bit 20 w = word_rotr 12 w"
  "drop_bit 8 w OR push_bit 24 w = word_rotr 8 w" "drop_bit 7 w OR push_bit 25 w = word_rotr 7 w"
  for w :: "32 word"
  using rotr_shifts [of 16 w] rotr_shifts [of 12 w] rotr_shifts [of 8 w] rotr_shifts [of 7 w] by simp_all

text \<open>Each instruction set is a lane backend, so the chains of its kernels are the scalar ones.\<close>

interpretation avx2: lane_backend avx2 "\<lambda>x. length x = 8"
  by unfold_locales
     (auto simp: avx2_def mm256_set_epi32_def avx2_vrot16_map avx2_vrot8_map rotation_defs rotr_by_shifts)

interpretation neon: lane_backend neon "\<lambda>x. length x = 4"
  by unfold_locales (auto simp: neon_def neon_vrot16_map rotation_defs rotr_by_shifts)

interpretation wasm: lane_backend wasm_simd "\<lambda>x. length x = 4"
  by unfold_locales (auto simp: wasm_simd_def rotation_defs rotr_by_shifts)

lemma backend_widths [simp]: "width avx2 = 8" "width neon = 4" "width wasm_simd = 4"
  by (simp_all add: avx2_def neon_def wasm_simd_def)

text \<open>The kernels of each instruction set, by their names.\<close>

definition compute_8way_avx2 :: "h256 list \<Rightarrow> nat list \<Rightarrow> h256 list" where
  [simp]: "compute_8way_avx2 = compute_ways avx2"

definition compute_4way_neon :: "h256 list \<Rightarrow> nat list \<Rightarrow> h256 list" where
  [simp]: "compute_4way_neon = compute_ways neon"

definition compute_4way_wasm :: "h256 list \<Rightarrow> nat list \<Rightarrow> h256 list" where
  [simp]: "compute_4way_wasm = compute_ways wasm_simd"

definition verify_pow_8way_avx2 :: "h256 list \<Rightarrow> h256 list" where
  [simp]: "verify_pow_8way_avx2 = iterate_ways avx2"

definition verify_pow_4way_neon :: "h256 list \<Rightarrow> h256 list" where
  [simp]: "verify_pow_4way_neon = iterate_ways neon"

definition verify_pow_4way_wasm :: "h256 list \<Rightarrow> h256 list" where
  [simp]: "verify_pow_4way_wasm = iterate_ways wasm_simd"

definition iterate_seeds_8way_avx2 :: "h256 list \<Rightarrow> h256 list" where
  [simp]: "iterate_seeds_8way_avx2 = iterate_ways avx2"

definition iterate_seeds_4way_neon :: "h256 list \<Rightarrow> h256 list" where
  [simp]: "iterate_seeds_4way_neon = iterate_ways neon"

definition create_extensions_8way_avx2 :: "h256 \<Rightarrow> nat list \<Rightarrow> (nat \<times> h256) list" where
  [simp]: "create_extensions_8way_avx2 = create_extensions_ways avx2"

definition create_extensions_4way_neon :: "h256 \<Rightarrow> nat list \<Rightarrow> (nat \<times> h256) list" where
  [simp]: "create_extensions_4way_neon = create_extensions_ways neon"

definition create_extensions_4way_wasm :: "h256 \<Rightarrow> nat list \<Rightarrow> (nat \<times> h256) list" where
  [simp]: "create_extensions_4way_wasm = create_extensions_ways wasm_simd"

subsection \<open>Batches of one-time signature chains\<close>

datatype WotsLevel = WotsScalar | WotsWasm128_4 | WotsNeon4 | WotsAvx2_8

fun wots_lanes :: "WotsLevel \<Rightarrow> nat" where
  "wots_lanes WotsScalar = 1"
| "wots_lanes WotsWasm128_4 = 4"
| "wots_lanes WotsNeon4 = 4"
| "wots_lanes WotsAvx2_8 = 8"

fun wots_ways :: "WotsLevel \<Rightarrow> h256 list \<Rightarrow> nat list \<Rightarrow> h256 list" where
  "wots_ways WotsScalar starts iters = []"
| "wots_ways WotsWasm128_4 starts iters = compute_4way_wasm starts iters"
| "wots_ways WotsNeon4 starts iters = compute_4way_neon starts iters"
| "wots_ways WotsAvx2_8 starts iters = compute_8way_avx2 starts iters"

definition scalar_wots_chain :: "hasher \<Rightarrow> h256 \<Rightarrow> nat \<Rightarrow> h256" where
  "scalar_wots_chain H x iters = iterate iters (\<lambda>x. H (be_bytes x)) x"

function batch_loop :: "hasher \<Rightarrow> WotsLevel \<Rightarrow> h256 list \<Rightarrow> nat list \<Rightarrow> h256 list" where
  "batch_loop H level xs ns =
     (if xs = [] then []
      else if wots_lanes level \<le> length xs \<and> 1 < wots_lanes level
      then wots_ways level (take (wots_lanes level) xs) (take (wots_lanes level) ns)
           @ batch_loop H level (drop (wots_lanes level) xs) (drop (wots_lanes level) ns)
      else scalar_wots_chain H (hd xs) (hd ns) # batch_loop H level (tl xs) (tl ns))"
  by pat_completeness auto
termination by (relation "measure (\<lambda>(H, level, xs, ns). length xs)") auto

declare batch_loop.simps [simp del]

definition unshuffle :: "nat list \<Rightarrow> h256 list \<Rightarrow> h256 list" where
  "unshuffle order srt =
     fold (\<lambda>(pos, idx) results. results[idx := srt ! pos]) (zip [0..<length order] order)
       (replicate (length order) 0)"

text \<open>\<open>order\<close> is what sorting the indices by falling iteration count gives; the sort is unstable, so any
  order of equal counts may come out. Lists of different lengths panic.\<close>

definition process_wots_batch ::
    "hasher \<Rightarrow> WotsLevel \<Rightarrow> nat list \<Rightarrow> h256 list \<Rightarrow> nat list \<Rightarrow> h256 list option" where
  "process_wots_batch H level order inputs iters =
     (if length inputs \<noteq> length iters then None
      else Some (unshuffle order
        (batch_loop H level (map ((!) inputs) order) (map ((!) iters) order))))"

lemma unshuffle_inverse:
  assumes "mset order = mset [0..<n]" and "length srt = n"
    and "\<And>p. p < n \<Longrightarrow> srt ! p = f (order ! p)"
  shows "unshuffle order srt = map f [0..<n]"
proof -
  have len: "length order = n" using mset_eq_length [OF assms(1)] by simp
  have dist: "distinct order" using mset_eq_imp_distinct_iff [OF assms(1)] by simp
  have set: "set order = {..<n}" using mset_eq_setD [OF assms(1)] by (simp add: lessThan_atLeast0)
  have steps: "length (fold (\<lambda>(pos, idx) r. r[idx := srt ! pos]) (zip [0..<m] (take m order)) r) = length r \<and>
      (\<forall>p<m. fold (\<lambda>(pos, idx) r. r[idx := srt ! pos]) (zip [0..<m] (take m order)) r ! (order ! p) = f (order ! p))"
    if "m \<le> n" and "length r = n" for m and r :: "h256 list"
    using that(1)
  proof (induction m)
    case (Suc m)
    let ?r = "fold (\<lambda>(pos, idx) r. r[idx := srt ! pos]) (zip [0..<m] (take m order)) r"
    have IH: "length ?r = length r" "\<forall>p<m. ?r ! (order ! p) = f (order ! p)" using Suc by auto
    have in_range: "order ! p < n" if "p < n" for p using set len that nth_mem by force
    have step: "fold (\<lambda>(pos, idx) r. r[idx := srt ! pos]) (zip [0..<Suc m] (take (Suc m) order)) r
        = ?r[order ! m := srt ! m]"
      using Suc.prems len by (simp add: take_Suc_conv_app_nth zip_append)
    have "?r[order ! m := srt ! m] ! (order ! p) = f (order ! p)" if "p < Suc m" for p
    proof (cases "p = m")
      case True
      then show ?thesis using IH(1) in_range [of m] Suc.prems assms(3) \<open>length r = n\<close> by simp
    next
      case False
      then have "order ! m \<noteq> order ! p"
        using dist len Suc.prems that by (auto simp: nth_eq_iff_index_eq)
      then show ?thesis using IH(2) False that by simp
    qed
    then show ?case unfolding step using IH(1) by simp
  qed simp
  let ?u = "unshuffle order srt"
  have u: "length ?u = n" "\<forall>p<n. ?u ! (order ! p) = f (order ! p)"
    using steps [of n "replicate n 0"] len by (simp_all add: unshuffle_def)
  show ?thesis
  proof (rule nth_equalityI)
    show "length ?u = length (map f [0..<n])" using u(1) by simp
    fix i
    assume "i < length ?u"
    then have i: "i < n" using u(1) by simp
    then obtain p where "p < n" "order ! p = i" using set len by (metis in_set_conv_nth lessThan_iff)
    then show "?u ! i = map f [0..<n] ! i" using u(2) i by auto
  qed
qed

lemma blake3_step: "is_blake3 H \<Longrightarrow> (\<lambda>x. H (be_bytes x)) = blake3_32"
  by (simp add: is_blake3_def)

lemma wots_ways_chains:
  assumes "1 < wots_lanes level" and "length starts = wots_lanes level" and "length iters = wots_lanes level"
  shows "wots_ways level starts iters = map2 (\<lambda>x n. iterate n blake3_32 x) starts iters"
  using assms avx2.compute_ways_chains [of starts iters] neon.compute_ways_chains [of starts iters]
    wasm.compute_ways_chains [of starts iters]
  by (cases level) simp_all

lemma batch_loop_chains:
  assumes "is_blake3 H" and "length xs = length ns"
  shows "batch_loop H level xs ns = map2 (scalar_wots_chain H) xs ns"
  using assms
proof (induction H level xs ns rule: batch_loop.induct)
  case (1 H level xs ns)
  let ?l = "wots_lanes level"
  note unf = batch_loop.simps [of H level xs ns]
  have chain: "scalar_wots_chain H = (\<lambda>x n. iterate n blake3_32 x)"
    using blake3_step [OF 1(3)] by (simp add: scalar_wots_chain_def fun_eq_iff)
  show ?case
  proof (cases "xs = []")
    case False
    show ?thesis
    proof (cases "?l \<le> length xs \<and> 1 < ?l")
      case True
      have "batch_loop H level (drop ?l xs) (drop ?l ns) = map2 (scalar_wots_chain H) (drop ?l xs) (drop ?l ns)"
        using 1(1) [OF False True 1(3)] 1(4) by simp
      moreover have "wots_ways level (take ?l xs) (take ?l ns) = map2 (scalar_wots_chain H) (take ?l xs) (take ?l ns)"
        using wots_ways_chains [of level "take ?l xs" "take ?l ns"] True 1(4) by (simp add: chain min_def)
      ultimately have "batch_loop H level xs ns
          = map2 (scalar_wots_chain H) (take ?l xs) (take ?l ns) @ map2 (scalar_wots_chain H) (drop ?l xs) (drop ?l ns)"
        using unf False True by simp
      also have "\<dots> = map2 (scalar_wots_chain H) xs ns"
        by (simp add: take_zip [symmetric] drop_zip [symmetric] take_map [symmetric] drop_map [symmetric])
      finally show ?thesis .
    next
      case False': False
      obtain x xs' n ns' where "xs = x # xs'" "ns = n # ns'"
        using False 1(4) by (cases xs; cases ns) auto
      moreover have "batch_loop H level xs ns
          = scalar_wots_chain H (hd xs) (hd ns) # batch_loop H level (tl xs) (tl ns)"
        using unf by (simp only: False False' if_False)
      ultimately show ?thesis using 1(2) [OF False False' 1(3)] 1(4) by simp
    qed
  qed (use unf in simp)
qed

lemma process_wots_batch_chains:
  assumes "is_blake3 H" and "length inputs = length iters" and "mset order = mset [0..<length inputs]"
  shows "process_wots_batch H level order inputs iters = Some (map2 (scalar_wots_chain H) inputs iters)"
proof -
  let ?n = "length inputs"
  have len: "length order = ?n" using mset_eq_length [OF assms(3)] by simp
  have "batch_loop H level (map ((!) inputs) order) (map ((!) iters) order)
      = map2 (scalar_wots_chain H) (map ((!) inputs) order) (map ((!) iters) order)"
    by (rule batch_loop_chains) (simp_all add: assms(1))
  then have "unshuffle order (batch_loop H level (map ((!) inputs) order) (map ((!) iters) order))
      = map (\<lambda>i. scalar_wots_chain H (inputs ! i) (iters ! i)) [0..<?n]"
    by (intro unshuffle_inverse assms(3)) (simp_all add: len)
  also have "\<dots> = map2 (scalar_wots_chain H) inputs iters"
    using assms(2) by (intro nth_equalityI) simp_all
  finally show ?thesis using assms(2) by (simp add: process_wots_batch_def)
qed

subsection \<open>Batches of proofs of work\<close>

datatype SimdLevel = Scalar | Wasm128_4 | Neon4 | Neon8 | Avx2_8

fun SimdLevel_lanes :: "SimdLevel \<Rightarrow> nat" where
  "SimdLevel_lanes Scalar = 4"
| "SimdLevel_lanes Wasm128_4 = 4"
| "SimdLevel_lanes Neon4 = 4"
| "SimdLevel_lanes Neon8 = 8"
| "SimdLevel_lanes Avx2_8 = 8"

definition pow_seed :: "hasher \<Rightarrow> h256 \<Rightarrow> nat \<Rightarrow> h256" where
  "pow_seed H mining nonce = H (be_bytes mining @ le_bytes 8 nonce)"

definition iterate_scalar :: "hasher \<Rightarrow> h256 \<Rightarrow> h256" where
  "iterate_scalar H seed = iterate EXTENSION_ITERATIONS (\<lambda>x. H (be_bytes x)) seed"

text \<open>Full registers through a kernel, then the rest one at a time.\<close>

function in_pieces :: "nat \<Rightarrow> ('a list \<Rightarrow> 'b list) \<Rightarrow> ('a \<Rightarrow> 'b) \<Rightarrow> 'a list \<Rightarrow> 'b list" where
  "in_pieces k kern one xs =
     (if 0 < k \<and> k \<le> length xs then kern (take k xs) @ in_pieces k kern one (drop k xs)
      else map one xs)"
  by pat_completeness auto
termination by (relation "measure (\<lambda>(k, kern, one, xs). length xs)") auto

declare in_pieces.simps [simp del]

fun verify_pow_batch :: "hasher \<Rightarrow> SimdLevel \<Rightarrow> h256 list \<Rightarrow> h256 list" where
  "verify_pow_batch H Avx2_8 seeds = in_pieces 8 iterate_seeds_8way_avx2 (iterate_scalar H) seeds"
| "verify_pow_batch H Neon4 seeds = in_pieces 4 iterate_seeds_4way_neon (iterate_scalar H) seeds"
| "verify_pow_batch H Neon8 seeds = in_pieces 4 iterate_seeds_4way_neon (iterate_scalar H) seeds"
| "verify_pow_batch H _ seeds = map (iterate_scalar H) seeds"

text \<open>The same function of \<^verbatim>\<open>wots_simd.rs\<close>, which goes back to its loop's test after every piece.\<close>

fun wots_pow_ways :: "WotsLevel \<Rightarrow> h256 list \<Rightarrow> h256 list" where
  "wots_pow_ways WotsScalar starts = []"
| "wots_pow_ways WotsWasm128_4 starts = verify_pow_4way_wasm starts"
| "wots_pow_ways WotsNeon4 starts = verify_pow_4way_neon starts"
| "wots_pow_ways WotsAvx2_8 starts = verify_pow_8way_avx2 starts"

function wots_verify_pow_batch :: "hasher \<Rightarrow> WotsLevel \<Rightarrow> h256 list \<Rightarrow> h256 list" where
  "wots_verify_pow_batch H level xs =
     (if xs = [] then []
      else if wots_lanes level \<le> length xs \<and> 1 < wots_lanes level
      then wots_pow_ways level (take (wots_lanes level) xs)
           @ wots_verify_pow_batch H level (drop (wots_lanes level) xs)
      else iterate EXTENSION_ITERATIONS (\<lambda>x. H (be_bytes x)) (hd xs) # wots_verify_pow_batch H level (tl xs))"
  by pat_completeness auto
termination by (relation "measure (\<lambda>(H, level, xs). length xs)") auto

declare wots_verify_pow_batch.simps [simp del]

lemma in_pieces_map:
  assumes "\<And>ys. length ys = k \<Longrightarrow> kern ys = map one ys"
  shows "in_pieces k kern one xs = map one xs"
  using assms
proof (induction k kern one xs rule: in_pieces.induct)
  case (1 k kern one xs)
  show ?case
  proof (cases "0 < k \<and> k \<le> length xs")
    case True
    have "in_pieces k kern one xs = kern (take k xs) @ in_pieces k kern one (drop k xs)"
      using in_pieces.simps [of k kern one xs] by (simp only: True simp_thms if_True)
    also have "\<dots> = map one (take k xs) @ map one (drop k xs)"
      using 1 True by simp
    finally show ?thesis by (simp only: map_append [symmetric] append_take_drop_id)
  next
    case False
    then show ?thesis using in_pieces.simps [of k kern one xs] by (simp only: if_False)
  qed
qed

lemma verify_pow_batch_map: "is_blake3 H \<Longrightarrow> verify_pow_batch H level seeds = map (iterate_scalar H) seeds"
proof -
  assume "is_blake3 H"
  then have one: "iterate_scalar H = iterate EXTENSION_ITERATIONS blake3_32"
    using blake3_step by (simp add: iterate_scalar_def fun_eq_iff)
  have "in_pieces 8 (iterate_ways avx2) (iterate_scalar H) seeds = map (iterate_scalar H) seeds"
    by (rule in_pieces_map) (simp add: one avx2.iterate_ways_chains)
  moreover have "in_pieces 4 (iterate_ways neon) (iterate_scalar H) seeds = map (iterate_scalar H) seeds"
    by (rule in_pieces_map) (simp add: one neon.iterate_ways_chains)
  ultimately show ?thesis by (cases level) simp_all
qed

lemma wots_verify_pow_batch_map:
  assumes "is_blake3 H"
  shows "wots_verify_pow_batch H level xs = map (iterate_scalar H) xs"
  using assms
proof (induction H level xs rule: wots_verify_pow_batch.induct)
  case (1 H level xs)
  let ?l = "wots_lanes level"
  note unf = wots_verify_pow_batch.simps [of H level xs]
  have one: "iterate_scalar H = iterate EXTENSION_ITERATIONS blake3_32"
    using blake3_step [OF 1(3)] by (simp add: iterate_scalar_def fun_eq_iff)
  show ?case
  proof (cases "xs = []")
    case False
    show ?thesis
    proof (cases "?l \<le> length xs \<and> 1 < ?l")
      case True
      have "wots_pow_ways level (take ?l xs) = map (iterate_scalar H) (take ?l xs)"
        unfolding one using True avx2.iterate_ways_chains [of "take 8 xs"] neon.iterate_ways_chains [of "take 4 xs"]
          wasm.iterate_ways_chains [of "take 4 xs"]
        by (cases level) simp_all
      then have "wots_verify_pow_batch H level xs
          = map (iterate_scalar H) (take ?l xs) @ map (iterate_scalar H) (drop ?l xs)"
        using unf 1(1) [OF False True 1(3)] by (simp only: False True simp_thms if_True if_False)
      then show ?thesis by (simp only: map_append [symmetric] append_take_drop_id)
    next
      case False': False
      have "wots_verify_pow_batch H level xs = iterate_scalar H (hd xs) # map (iterate_scalar H) (tl xs)"
        using unf 1(2) [OF False False' 1(3)]
        by (simp only: False False' simp_thms if_False iterate_scalar_def [of H "hd xs"])
      then show ?thesis using False by (cases xs) simp_all
    qed
  qed (use unf in simp)
qed

subsection \<open>Mining\<close>

text \<open>The NEON kernel that runs two streams of four lanes side by side.\<close>

definition g_x2 ::
    "simd_register list \<Rightarrow> simd_register list \<Rightarrow> nat \<Rightarrow> nat \<Rightarrow> nat \<Rightarrow> nat \<Rightarrow> simd_register \<Rightarrow> simd_register \<Rightarrow>
     simd_register \<Rightarrow> simd_register \<Rightarrow> simd_register list \<times> simd_register list" where
  "g_x2 va vb a b c d mxa mya mxb myb =
     (let va = va[a := lanes_add (lanes_add (va ! a) (va ! b)) mxa];
          vb = vb[a := lanes_add (lanes_add (vb ! a) (vb ! b)) mxb];
          va = va[d := neon_vrot16 (lanes_xor (va ! d) (va ! a))];
          vb = vb[d := neon_vrot16 (lanes_xor (vb ! d) (vb ! a))];
          va = va[c := lanes_add (va ! c) (va ! d)];
          vb = vb[c := lanes_add (vb ! c) (vb ! d)];
          va = va[b := neon_vrot12 (lanes_xor (va ! b) (va ! c))];
          vb = vb[b := neon_vrot12 (lanes_xor (vb ! b) (vb ! c))];
          va = va[a := lanes_add (lanes_add (va ! a) (va ! b)) mya];
          vb = vb[a := lanes_add (lanes_add (vb ! a) (vb ! b)) myb];
          va = va[d := neon_vrot8 (lanes_xor (va ! d) (va ! a))];
          vb = vb[d := neon_vrot8 (lanes_xor (vb ! d) (vb ! a))];
          va = va[c := lanes_add (va ! c) (va ! d)];
          vb = vb[c := lanes_add (vb ! c) (vb ! d)];
          va = va[b := neon_vrot7 (lanes_xor (va ! b) (va ! c))];
          vb = vb[b := neon_vrot7 (lanes_xor (vb ! b) (vb ! c))]
      in (va, vb))"

definition round_x2 ::
    "simd_register list \<Rightarrow> simd_register list \<Rightarrow> simd_register list \<Rightarrow> simd_register list \<Rightarrow> nat list \<Rightarrow>
     simd_register list \<times> simd_register list" where
  "round_x2 va vb ma mb s =
     (let (va, vb) = g_x2 va vb 0 4 8 12 (ma ! (s ! 0)) (ma ! (s ! 1)) (mb ! (s ! 0)) (mb ! (s ! 1));
          (va, vb) = g_x2 va vb 1 5 9 13 (ma ! (s ! 2)) (ma ! (s ! 3)) (mb ! (s ! 2)) (mb ! (s ! 3));
          (va, vb) = g_x2 va vb 2 6 10 14 (ma ! (s ! 4)) (ma ! (s ! 5)) (mb ! (s ! 4)) (mb ! (s ! 5));
          (va, vb) = g_x2 va vb 3 7 11 15 (ma ! (s ! 6)) (ma ! (s ! 7)) (mb ! (s ! 6)) (mb ! (s ! 7));
          (va, vb) = g_x2 va vb 0 5 10 15 (ma ! (s ! 8)) (ma ! (s ! 9)) (mb ! (s ! 8)) (mb ! (s ! 9));
          (va, vb) = g_x2 va vb 1 6 11 12 (ma ! (s ! 10)) (ma ! (s ! 11)) (mb ! (s ! 10)) (mb ! (s ! 11));
          (va, vb) = g_x2 va vb 2 7 8 13 (ma ! (s ! 12)) (ma ! (s ! 13)) (mb ! (s ! 12)) (mb ! (s ! 13))
      in g_x2 va vb 3 4 9 14 (ma ! (s ! 14)) (ma ! (s ! 15)) (mb ! (s ! 14)) (mb ! (s ! 15)))"

definition compress_4way_x2 ::
    "simd_register list \<Rightarrow> simd_register list \<Rightarrow> simd_register list \<Rightarrow> 32 word \<Rightarrow>
     simd_register list \<times> simd_register list" where
  "compress_4way_x2 cv msg_a msg_b block_len =
     (let zero = replicate 4 0;
          init = [cv ! 0, cv ! 1, cv ! 2, cv ! 3, cv ! 4, cv ! 5, cv ! 6, cv ! 7,
            replicate 4 (IV ! 0), replicate 4 (IV ! 1), replicate 4 (IV ! 2), replicate 4 (IV ! 3),
            zero, zero, replicate 4 block_len, replicate 4 HASH_FLAGS];
          (va, vb) = fold (\<lambda>r (va, vb). round_x2 va vb msg_a msg_b (MSG_SCHEDULE ! r)) [0..<7] (init, init)
      in (map (\<lambda>i. lanes_xor (va ! i) (va ! (i + 8))) [0..<8], map (\<lambda>i. lanes_xor (vb ! i) (vb ! (i + 8))) [0..<8]))"

definition create_extensions_8way_neon :: "h256 \<Rightarrow> nat list \<Rightarrow> (nat \<times> h256) list" where
  "create_extensions_8way_neon midstate nonces =
     (let cv = lane_cv neon;
          ms = map (replicate 4) (bytes_to_words midstate);
          halves = (\<lambda>ns. [map word_of_nat ns, map (\<lambda>n. word_of_nat (n div 2 ^ 32)) ns]);
          zeros = (\<lambda>n. replicate n (replicate 4 0));
          msg_a = ms @ halves (take 4 nonces) @ zeros 6;
          msg_b = ms @ halves (drop 4 nonces) @ zeros 6;
          (hw_a, hw_b) = iterate EXTENSION_ITERATIONS
             (\<lambda>(hw_a, hw_b). compress_4way_x2 cv (hw_a @ zeros 8) (hw_b @ zeros 8) 32)
             (compress_4way_x2 cv msg_a msg_b 40)
      in map (\<lambda>i. (nonces ! i, extract_hash neon hw_a i)) [0..<4]
         @ map (\<lambda>i. (nonces ! (4 + i), extract_hash neon hw_b i)) [0..<4])"

text \<open>Too few nonces for the machine's width panic; the scalar path takes what there is, up to four.\<close>

fun mine_batch :: "hasher \<Rightarrow> SimdLevel \<Rightarrow> h256 \<Rightarrow> nat list \<Rightarrow> (nat \<times> h256) list option" where
  "mine_batch H Avx2_8 midstate nonces =
     (if length nonces < 8 then None else Some (create_extensions_8way_avx2 midstate (take 8 nonces)))"
| "mine_batch H Neon8 midstate nonces =
     (if length nonces < 8 then None else Some (create_extensions_8way_neon midstate (take 8 nonces)))"
| "mine_batch H Neon4 midstate nonces =
     (if length nonces < 4 then None else Some (create_extensions_4way_neon midstate (take 4 nonces)))"
| "mine_batch H Wasm128_4 midstate nonces =
     (if length nonces < 4 then None else Some (create_extensions_4way_wasm midstate (take 4 nonces)))"
| "mine_batch H Scalar midstate nonces =
     Some (map (\<lambda>nonce. (nonce, ext_final_hash (create_extension H midstate nonce))) (take 4 nonces))"

text \<open>Four lanes whatever the machine: its own instruction set's kernel, or the scalar path on x86.\<close>

fun create_extensions_4way :: "hasher \<Rightarrow> SimdLevel \<Rightarrow> h256 \<Rightarrow> nat list \<Rightarrow> (nat \<times> h256) list" where
  "create_extensions_4way H Neon4 midstate nonces = create_extensions_4way_neon midstate nonces"
| "create_extensions_4way H Neon8 midstate nonces = create_extensions_4way_neon midstate nonces"
| "create_extensions_4way H Wasm128_4 midstate nonces = create_extensions_4way_wasm midstate nonces"
| "create_extensions_4way H _ midstate nonces =
     map (\<lambda>i. (nonces ! i, ext_final_hash (create_extension H midstate (nonces ! i)))) [0..<4]"

lemma neon_fields [simp]:
  "splat neon = replicate 4" "load neon = (\<lambda>ws. ws)" "lane_of neon = (!)"
  "vadd neon = lanes_add" "vxor neon = lanes_xor" "vrot16 neon = neon_vrot16"
  "vrot12 neon = neon_vrot12" "vrot8 neon = neon_vrot8" "vrot7 neon = neon_vrot7"
  by (simp_all add: neon_def)

lemma g_x2_pair: "g_x2 va vb a b c d mxa mya mxb myb = (lane_g neon va a b c d mxa mya, lane_g neon vb a b c d mxb myb)"
  unfolding g_x2_def lane_g_def neon_fields Let_def by (rule refl)

lemma round_x2_pair: "round_x2 va vb ma mb s = (lane_round neon va ma s, lane_round neon vb mb s)"
  unfolding round_x2_def lane_round_def g_x2_pair Let_def prod.case by (rule refl)

lemma compress_x2_pair:
  "compress_4way_x2 cv ma mb n = (lane_compress neon cv ma n, lane_compress neon cv mb n)"
proof -
  have "fold (\<lambda>r (va, vb). round_x2 va vb ma mb (MSG_SCHEDULE ! r)) rs (va, vb)
      = (fold (\<lambda>r v. lane_round neon v ma (MSG_SCHEDULE ! r)) rs va,
         fold (\<lambda>r v. lane_round neon v mb (MSG_SCHEDULE ! r)) rs vb)" for rs va vb
    by (induction rs arbitrary: va vb) (simp_all add: round_x2_pair)
  then show ?thesis by (simp add: compress_4way_x2_def lane_compress_def Let_def)
qed

lemma create_8way_neon_halves:
  assumes "length nonces = 8"
  shows "create_extensions_8way_neon midstate nonces
    = create_extensions_ways neon midstate (take 4 nonces) @ create_extensions_ways neon midstate (drop 4 nonces)"
proof -
  have it: "iterate n (\<lambda>(a, b). compress_4way_x2 (lane_cv neon) (a @ replicate 8 (replicate 4 0)) (b @ replicate 8 (replicate 4 0)) 32) (x, y)
      = (iterate n (lane_step neon) x, iterate n (lane_step neon) y)" for n x y
    by (induction n arbitrary: x y) (simp_all add: compress_x2_pair lane_step_def)
  have first: "map (\<lambda>i. (nonces ! i, f i)) [0..<4] = map (\<lambda>i. (take 4 nonces ! i, f i)) [0..<4]" for f :: "nat \<Rightarrow> h256"
    by simp
  have second: "map (\<lambda>i. (nonces ! (4 + i), f i)) [0..<4] = map (\<lambda>i. (drop 4 nonces ! i, f i)) [0..<4]" for f :: "nat \<Rightarrow> h256"
    using assms by simp
  show ?thesis
    unfolding create_extensions_8way_neon_def Let_def it compress_x2_pair [of _ "map (replicate 4) _ @ _"]
      prod.case first second create_extensions_ways_def neon_fields backend_widths
    by simp
qed

lemma create_extension_chain:
  assumes "is_blake3 H"
  shows "iterate EXTENSION_ITERATIONS blake3_32 (blake3_block (be_bytes midstate @ le_bytes 8 n))
    = ext_final_hash (create_extension H midstate n)"
  using assms blake3_step [OF assms] by (simp add: create_extension_def is_blake3_def Let_def)

lemma create_extensions_4way_extensions:
  assumes "is_blake3 H" and "length nonces = 4"
  shows "create_extensions_4way H level midstate nonces
    = map (\<lambda>n. (n, ext_final_hash (create_extension H midstate n))) nonces"
proof -
  have "map (\<lambda>i. (nonces ! i, f (nonces ! i))) [0..<4] = map (\<lambda>n. (n, f n)) nonces" for f :: "nat \<Rightarrow> h256"
    using assms(2) by (intro nth_equalityI) simp_all
  then show ?thesis
    using assms(2) neon.create_extensions_ways_chains [of nonces midstate]
      wasm.create_extensions_ways_chains [of nonces midstate] create_extension_chain [OF assms(1)]
    by (cases level) simp_all
qed

lemma mine_batch_extensions:
  assumes "is_blake3 H" and "SimdLevel_lanes level \<le> length nonces"
  shows "mine_batch H level midstate nonces
    = Some (map (\<lambda>n. (n, ext_final_hash (create_extension H midstate n))) (take (SimdLevel_lanes level) nonces))"
proof -
  note chain = create_extension_chain [OF assms(1)]
  have neon: "create_extensions_ways neon midstate ns
      = map (\<lambda>n. (n, ext_final_hash (create_extension H midstate n))) ns" if "length ns = 4" for ns
    using neon.create_extensions_ways_chains [of ns midstate] that by (simp add: chain)
  have "create_extensions_8way_neon midstate (take 8 nonces)
      = map (\<lambda>n. (n, ext_final_hash (create_extension H midstate n))) (take 8 nonces)" if "8 \<le> length nonces"
  proof -
    have "create_extensions_8way_neon midstate (take 8 nonces)
        = map (\<lambda>n. (n, ext_final_hash (create_extension H midstate n))) (take 4 (take 8 nonces) @ drop 4 (take 8 nonces))"
      using that by (simp add: create_8way_neon_halves neon)
    then show ?thesis by (simp only: append_take_drop_id)
  qed
  moreover have "create_extensions_ways avx2 midstate (take 8 nonces)
      = map (\<lambda>n. (n, ext_final_hash (create_extension H midstate n))) (take 8 nonces)" if "8 \<le> length nonces"
    using that avx2.create_extensions_ways_chains [of "take 8 nonces" midstate] by (simp add: chain)
  moreover have "create_extensions_ways wasm_simd midstate (take 4 nonces)
      = map (\<lambda>n. (n, ext_final_hash (create_extension H midstate n))) (take 4 nonces)" if "4 \<le> length nonces"
    using that wasm.create_extensions_ways_chains [of "take 4 nonces" midstate] by (simp add: chain)
  ultimately show ?thesis using assms(2) neon by (cases level) simp_all
qed

subsection \<open>Properties\<close>

text \<open>C34. Verifying or making one-time signatures in SIMD lanes gives the scalar chains: whatever the
  instruction set, and in whatever order the unstable sort leaves chains of equal length, every chain
  comes back at its own index, hashed exactly as often as asked; mismatched lengths panic.\<close>

theorem signature_chains_are_scalar:
  assumes "is_blake3 H" and "mset order = mset [0..<length inputs]"
  shows "process_wots_batch H level order inputs iters =
    (if length inputs = length iters then Some (map2 (scalar_wots_chain H) inputs iters) else None)"
proof (cases "length inputs = length iters")
  case True
  then show ?thesis using process_wots_batch_chains assms by simp
qed (simp add: process_wots_batch_def)

text \<open>C33. Mining and checking proofs of work in SIMD lanes gives the scalar extensions: every nonce of a full
  register is mined to the final hash \<open>create_extension\<close> gives it, on every instruction set, and both
  batch checkers return every seed's chain; fewer nonces than the register has lanes panic, except on the
  scalar path.\<close>

theorem simd_work_is_scalar:
  assumes "is_blake3 H"
  shows "mine_batch H level midstate nonces =
      (if SimdLevel_lanes level \<le> length nonces \<or> level = Scalar
       then Some (map (\<lambda>n. (n, ext_final_hash (create_extension H midstate n)))
         (take (SimdLevel_lanes level) nonces))
       else None) \<and>
    verify_pow_batch H level (map (pow_seed H midstate) nonces)
      = map (\<lambda>n. ext_final_hash (create_extension H midstate n)) nonces \<and>
    wots_verify_pow_batch H wlevel seeds = map (iterate_scalar H) seeds \<and>
    (length nonces = 4 \<longrightarrow> create_extensions_4way H level midstate nonces
      = map (\<lambda>n. (n, ext_final_hash (create_extension H midstate n))) nonces)"
proof (intro conjI impI)
  show "mine_batch H level midstate nonces =
      (if SimdLevel_lanes level \<le> length nonces \<or> level = Scalar
       then Some (map (\<lambda>n. (n, ext_final_hash (create_extension H midstate n)))
         (take (SimdLevel_lanes level) nonces))
       else None)"
  proof (cases "SimdLevel_lanes level \<le> length nonces")
    case True
    then show ?thesis using mine_batch_extensions [OF assms] by simp
  next
    case False
    then show ?thesis by (cases level) simp_all
  qed
  show "verify_pow_batch H level (map (pow_seed H midstate) nonces)
      = map (\<lambda>n. ext_final_hash (create_extension H midstate n)) nonces"
    by (simp add: verify_pow_batch_map [OF assms] pow_seed_def iterate_scalar_def create_extension_def Let_def)
  show "wots_verify_pow_batch H wlevel seeds = map (iterate_scalar H) seeds"
    by (rule wots_verify_pow_batch_map [OF assms])
qed (rule create_extensions_4way_extensions [OF assms])

text \<open>A hasher that is BLAKE3 on every input of one block.\<close>

definition one_block_blake3 :: hasher where
  "one_block_blake3 bs = (if length bs \<le> 64 then blake3_block bs else 0)"

lemma one_block_is_blake3: "is_blake3 one_block_blake3"
  by (simp add: is_blake3_def one_block_blake3_def)

theorem signature_chains_are_scalar_witness:
  "process_wots_batch one_block_blake3 WotsAvx2_8 [2, 0, 1] [5, 6, 7] [1, 0, 3]
   = Some [scalar_wots_chain one_block_blake3 5 1, 6, scalar_wots_chain one_block_blake3 7 3]"
  using signature_chains_are_scalar [OF one_block_is_blake3, of "[2, 0, 1]" "[5, 6, 7]" WotsAvx2_8 "[1, 0, 3]"]
  by (simp add: scalar_wots_chain_def upt_rec add_mset_commute)

theorem simd_work_is_scalar_witness:
  "mine_batch one_block_blake3 Neon8 9 [0, 1, 2, 3, 4, 5, 6, 7]
   = Some (map (\<lambda>n. (n, ext_final_hash (create_extension one_block_blake3 9 n))) [0, 1, 2, 3, 4, 5, 6, 7])"
  using conjunct1 [OF simd_work_is_scalar [OF one_block_is_blake3, of Neon8 9 "[0, 1, 2, 3, 4, 5, 6, 7]"]]
  by simp

end
