(* ===== verification/Wots.thy ===== *)
theory Wots
  imports Simd_Backends
begin

text \<open>
  Winternitz one-time signatures, \<^verbatim>\<open>src/src/core/wots.rs\<close>: eighteen hash chains of 65,535 steps, sixteen
  for the digits of a message and two for their checksum. Keys, signatures and verification run on
  the batched chains of \<^verbatim>\<open>Simd_Backends\<close>, whose sort and instruction set are parameters here. A panic
  of the batch is \<open>None\<close>.
\<close>

subsection \<open>Signatures\<close>

definition MSG_CHAINS :: nat where "MSG_CHAINS = 16"
definition CHECKSUM_CHAINS :: nat where "CHECKSUM_CHAINS = 2"
definition CHAINS :: nat where "CHAINS = MSG_CHAINS + CHECKSUM_CHAINS"
definition MAX_DIGIT :: nat where "MAX_DIGIT = 65535"
definition SIG_SIZE :: nat where "SIG_SIZE = CHAINS * 32"

lemmas wots_sizes = MSG_CHAINS_def CHECKSUM_CHAINS_def CHAINS_def MAX_DIGIT_def SIG_SIZE_def

record machine =
  hash_fn :: hasher
  simd_level :: WotsLevel
  sort_order :: "nat list \<Rightarrow> nat list"

definition run_batch :: "machine \<Rightarrow> h256 list \<Rightarrow> nat list \<Rightarrow> h256 list option" where
  "run_batch E inputs iters = process_wots_batch (hash_fn E) (simd_level E) (sort_order E iters) inputs iters"

definition chain_sk :: "hasher \<Rightarrow> h256 \<Rightarrow> nat \<Rightarrow> h256" where
  "chain_sk H seed i = H (be_bytes seed @ le_bytes 4 i)"

definition wots_compress :: "hasher \<Rightarrow> h256 list \<Rightarrow> h256" where
  "wots_compress H endpoints = H (concat (map be_bytes endpoints))"

definition message_digits :: "h256 \<Rightarrow> nat list" where
  "message_digits msg =
     map (\<lambda>i. unat (be_bytes msg ! (i * 2)) * 256 + unat (be_bytes msg ! (i * 2 + 1))) [0..<MSG_CHAINS]"

text \<open>The checksum is at most 16 * 65,535, well inside a \<^verbatim>\<open>u32\<close>.\<close>

definition checksum_digits :: "nat list \<Rightarrow> nat list" where
  "checksum_digits msg_digits =
     (let sum = sum_list (map (\<lambda>d. MAX_DIGIT - d) msg_digits)
      in [sum div 65536 mod 65536, sum mod 65536])"

definition all_digits :: "h256 \<Rightarrow> nat list" where
  "all_digits msg = (let md = message_digits msg in md @ checksum_digits md)"

definition keygen_seq :: "machine \<Rightarrow> h256 \<Rightarrow> h256 option" where
  "keygen_seq E seed =
     map_option (wots_compress (hash_fn E))
       (run_batch E (map (chain_sk (hash_fn E) seed) [0..<CHAINS]) (replicate CHAINS MAX_DIGIT))"

definition wots_keygen :: "machine \<Rightarrow> h256 \<Rightarrow> h256 option" where
  "wots_keygen E seed = keygen_seq E seed"

definition wots_sign :: "machine \<Rightarrow> h256 \<Rightarrow> h256 \<Rightarrow> h256 list option" where
  "wots_sign E seed msg =
     run_batch E (map (chain_sk (hash_fn E) seed) [0..<CHAINS]) (all_digits msg)"

definition wots_verify :: "machine \<Rightarrow> h256 list \<Rightarrow> h256 \<Rightarrow> h256 \<Rightarrow> bool option" where
  "wots_verify E sig msg coin_id =
     map_option (\<lambda>endpoints. wots_compress (hash_fn E) endpoints = coin_id)
       (run_batch E sig (map (\<lambda>d. MAX_DIGIT - d) (all_digits msg)))"

definition sig_to_bytes :: "h256 list \<Rightarrow> bytes" where
  "sig_to_bytes sig = concat (map be_bytes sig)"

definition sig_from_bytes :: "bytes \<Rightarrow> h256 list option" where
  "sig_from_bytes bs =
     (if length bs \<noteq> SIG_SIZE then None
      else Some (map (\<lambda>i. h256_of_be (take 32 (drop (32 * i) bs))) [0..<CHAINS]))"

subsection \<open>Digits\<close>

lemma length_message_digits [simp]: "length (message_digits msg) = MSG_CHAINS"
  by (simp add: message_digits_def)

lemma message_digit_le: "d \<in> set (message_digits msg) \<Longrightarrow> d \<le> MAX_DIGIT"
proof -
  have "unat (a :: byte) * 256 + unat (b :: byte) \<le> 65535" for a b
    using byte_less [of a] byte_less [of b] by simp
  then show "d \<in> set (message_digits msg) \<Longrightarrow> d \<le> MAX_DIGIT"
    by (auto simp: message_digits_def MAX_DIGIT_def)
qed

lemma message_digits_inject: "message_digits m = message_digits m' \<longleftrightarrow> m = m'"
proof
  assume eq: "message_digits m = message_digits m'"
  have "be_bytes m ! j = be_bytes m' ! j" if j: "j < 32" for j
  proof -
    have d: "unat (be_bytes m ! (i * 2)) * 256 + unat (be_bytes m ! (i * 2 + 1))
        = unat (be_bytes m' ! (i * 2)) * 256 + unat (be_bytes m' ! (i * 2 + 1))" if "i < 16" for i
      using arg_cong [OF eq, of "\<lambda>ds. ds ! i"] that by (simp add: message_digits_def MSG_CHAINS_def)
    have split: "a = c \<and> b = d" if "unat a * 256 + unat b = unat c * 256 + unat (d :: byte)"
      for a b c d :: byte
    proof -
      have "(unat a * 256 + unat b) div 256 = unat a" "(unat a * 256 + unat b) mod 256 = unat b"
        "(unat c * 256 + unat d) div 256 = unat c" "(unat c * 256 + unat d) mod 256 = unat d"
        using byte_less [of b] byte_less [of d] by simp_all
      then show ?thesis using that by (metis word_unat_eq_iff)
    qed
    have "j div 2 < 16" using j by simp
    from split [OF d [OF this]] show ?thesis
      by (metis Suc_eq_plus1 div_mult_mod_eq even_iff_mod_2_eq_zero not_mod_2_eq_1_eq_0 add_0_right odd_iff_mod_2_eq_one)
  qed
  then have "be_bytes m = be_bytes m'" by (intro nth_equalityI) simp_all
  then show "m = m'" by simp
qed simp

lemma checksum_bound: "sum_list (map (\<lambda>d. MAX_DIGIT - d) (message_digits msg)) < 65536 * 65536"
proof -
  have "sum_list (map (\<lambda>d. MAX_DIGIT - d) ds) \<le> length ds * MAX_DIGIT" for ds
    by (induction ds) auto
  from this [of "message_digits msg"] show ?thesis by (simp add: wots_sizes)
qed

lemma length_all_digits [simp]: "length (all_digits msg) = CHAINS"
  by (simp add: all_digits_def Let_def checksum_digits_def wots_sizes message_digits_def)

lemma all_digits_le: "d \<in> set (all_digits msg) \<Longrightarrow> d \<le> MAX_DIGIT"
proof -
  have "x mod 65536 \<le> 65535" for x :: nat by (rule Suc_le_mono [THEN iffD1]) (simp add: Suc_leI)
  then show "d \<in> set (all_digits msg) \<Longrightarrow> d \<le> MAX_DIGIT"
    using message_digit_le [of d msg]
    by (auto simp: all_digits_def Let_def checksum_digits_def MAX_DIGIT_def)
qed

text \<open>The checksum's two digits compare as the checksum does, so a message no digit of which is smaller
  has some smaller checksum digit.\<close>

lemma checksum_digit_smaller:
  assumes "x < y" and "y < 65536 * 65536"
  shows "x div 65536 mod 65536 < y div 65536 mod 65536 \<or>
    x mod 65536 < (y :: nat) mod 65536"
proof (rule ccontr)
  assume "\<not> ?thesis"
  moreover have "x div 65536 mod 65536 = x div 65536" "y div 65536 mod 65536 = y div 65536"
    using assms by simp_all
  ultimately have "y div 65536 \<le> x div 65536" "y mod 65536 \<le> x mod 65536" by simp_all
  then have "y div 65536 * 65536 + y mod 65536 \<le> x div 65536 * 65536 + x mod 65536"
    by (intro add_mono mult_le_mono1)
  then show False using assms(1) by simp
qed

lemma sum_list_less:
  "length xs = length ys \<Longrightarrow> \<forall>i<length xs. xs ! i \<le> ys ! i \<Longrightarrow> xs \<noteq> ys \<Longrightarrow> sum_list xs < sum_list (ys :: nat list)"
proof (induction xs ys rule: list_induct2)
  case (Cons x xs y ys)
  have le: "x \<le> y" "\<forall>i<length xs. xs ! i \<le> ys ! i" using Cons.prems(1) by force+
  have mono: "sum_list xs \<le> sum_list ys" using Cons.IH le(2) by (cases "xs = ys") auto
  show ?case
  proof (cases "xs = ys")
    case True
    then show ?thesis using Cons.prems(2) le(1) by simp
  next
    case False
    then show ?thesis using Cons.IH le by fastforce
  qed
qed simp

lemma no_digits_dominate:
  assumes "m \<noteq> m'"
  shows "\<exists>i<CHAINS. all_digits m' ! i < all_digits m ! i"
proof (cases "\<exists>i<MSG_CHAINS. message_digits m' ! i < message_digits m ! i")
  case True
  then obtain i where i: "i < MSG_CHAINS" "message_digits m' ! i < message_digits m ! i" by auto
  then have "all_digits m' ! i < all_digits m ! i" by (simp add: all_digits_def Let_def nth_append)
  moreover have "i < CHAINS" using i(1) by (simp add: wots_sizes)
  ultimately show ?thesis by blast
next
  case False
  let ?f = "\<lambda>m. map (\<lambda>d. MAX_DIGIT - d) (message_digits m)"
  have le: "message_digits m ! i \<le> message_digits m' ! i" if "i < MSG_CHAINS" for i
    using False that by (meson not_le)
  have "?f m \<noteq> ?f m'"
  proof
    assume eq: "?f m = ?f m'"
    have "message_digits m ! i = message_digits m' ! i" if "i < MSG_CHAINS" for i
    proof -
      have "MAX_DIGIT - message_digits m ! i = MAX_DIGIT - message_digits m' ! i"
        using arg_cong [OF eq, of "\<lambda>ds. ds ! i"] that by simp
      moreover have "message_digits m ! i \<le> MAX_DIGIT" for m :: h256
        using that by (intro message_digit_le [of _ m] nth_mem) simp
      ultimately show ?thesis by (metis diff_diff_cancel)
    qed
    then have "message_digits m = message_digits m'" by (intro nth_equalityI) simp_all
    then show False using assms by (simp add: message_digits_inject)
  qed
  then have "sum_list (?f m') < sum_list (?f m)"
    using le by (intro sum_list_less) (auto intro: diff_le_mono2)
  from checksum_digit_smaller [OF this checksum_bound]
  have "checksum_digits (message_digits m') ! 0 < checksum_digits (message_digits m) ! 0 \<or>
      checksum_digits (message_digits m') ! 1 < checksum_digits (message_digits m) ! 1"
    by (simp add: checksum_digits_def Let_def)
  then obtain j where j: "j < 2" "checksum_digits (message_digits m') ! j < checksum_digits (message_digits m) ! j"
  proof (elim disjE)
  qed (rule that; simp)+
  then have "all_digits m' ! (MSG_CHAINS + j) < all_digits m ! (MSG_CHAINS + j)"
    by (simp add: all_digits_def Let_def nth_append)
  then show ?thesis using j(1) by (intro exI [of _ "MSG_CHAINS + j"]) (simp add: wots_sizes)
qed

subsection \<open>Chains\<close>

text \<open>What the platform promises: BLAKE3, and a sort that permutes the indices.\<close>

definition machine_ok :: "machine \<Rightarrow> bool" where
  "machine_ok E \<longleftrightarrow> is_blake3 (hash_fn E) \<and> (\<forall>iters. mset (sort_order E iters) = mset [0..<length iters])"

abbreviation chain :: "machine \<Rightarrow> nat \<Rightarrow> h256 \<Rightarrow> h256" where
  "chain E n x \<equiv> iterate n (\<lambda>x. hash_fn E (be_bytes x)) x"

lemma run_batch_chains:
  assumes "machine_ok E" and "length inputs = length iters"
  shows "run_batch E inputs iters = Some (map2 (\<lambda>x n. chain E n x) inputs iters)"
proof -
  have "mset (sort_order E iters) = mset [0..<length inputs]" using assms by (simp add: machine_ok_def)
  then show ?thesis
    using process_wots_batch_chains [of "hash_fn E" inputs iters "sort_order E iters"] assms
    by (simp add: run_batch_def machine_ok_def scalar_wots_chain_def)
qed

definition secrets :: "machine \<Rightarrow> h256 \<Rightarrow> h256 list" where
  "secrets E seed = map (chain_sk (hash_fn E) seed) [0..<CHAINS]"

lemma length_secrets [simp]: "length (secrets E seed) = CHAINS"
  by (simp add: secrets_def)

lemma keygen_seq_chains:
  assumes "machine_ok E"
  shows "keygen_seq E seed = Some (wots_compress (hash_fn E) (map (chain E MAX_DIGIT) (secrets E seed)))"
proof -
  have "map2 (\<lambda>x n. chain E n x) xs (replicate (length xs) n) = map (chain E n) xs" for xs n
    by (induction xs) simp_all
  from this [of "secrets E seed" MAX_DIGIT] show ?thesis
    using run_batch_chains [OF assms, of "secrets E seed" "replicate CHAINS MAX_DIGIT"]
    by (simp add: keygen_seq_def secrets_def)
qed

lemma wots_sign_chains:
  "machine_ok E \<Longrightarrow>
   wots_sign E seed msg = Some (map2 (\<lambda>x n. chain E n x) (secrets E seed) (all_digits msg))"
  using run_batch_chains [of E "secrets E seed" "all_digits msg"] by (simp add: wots_sign_def secrets_def)

lemma wots_verify_chains:
  assumes "machine_ok E" and "length sig = CHAINS"
  shows "wots_verify E sig msg pk =
    Some (wots_compress (hash_fn E) (map2 (\<lambda>x d. chain E (MAX_DIGIT - d) x) sig (all_digits msg)) = pk)"
  using run_batch_chains [OF assms(1), of sig "map (\<lambda>d. MAX_DIGIT - d) (all_digits msg)"] assms(2)
  by (simp add: wots_verify_def zip_map2 comp_def split_def)

lemma sign_verify:
  assumes "machine_ok E"
  shows "\<exists>pk sig. wots_keygen E seed = Some pk \<and> wots_sign E seed msg = Some sig \<and> length sig = CHAINS \<and>
    wots_verify E sig msg pk = Some True"
proof -
  let ?sig = "map2 (\<lambda>x n. chain E n x) (secrets E seed) (all_digits msg)"
  have "map2 (\<lambda>x d. chain E (MAX_DIGIT - d) x) ?sig (all_digits msg) = map (chain E MAX_DIGIT) (secrets E seed)"
  proof (rule nth_equalityI)
    fix i
    assume "i < length (map2 (\<lambda>x d. chain E (MAX_DIGIT - d) x) ?sig (all_digits msg))"
    then have i: "i < CHAINS" by simp
    then have "all_digits msg ! i \<le> MAX_DIGIT" by (intro all_digits_le [of _ msg] nth_mem) simp
    then show "map2 (\<lambda>x d. chain E (MAX_DIGIT - d) x) ?sig (all_digits msg) ! i
        = map (chain E MAX_DIGIT) (secrets E seed) ! i"
      using i by (simp add: iterate_add [symmetric])
  qed simp
  then show ?thesis
    using wots_verify_chains [OF assms, of ?sig msg] keygen_seq_chains [OF assms] wots_sign_chains [OF assms]
    by (simp add: wots_keygen_def)
qed

subsection \<open>Forging\<close>

text \<open>Two chains that start apart and meet: their last different values hash alike.\<close>

definition chains_collide :: "machine \<Rightarrow> h256 \<Rightarrow> h256 \<Rightarrow> bool" where
  "chains_collide E a b \<longleftrightarrow>
     (\<exists>k<MAX_DIGIT. chain E k a \<noteq> chain E k b \<and>
        hash_fn E (be_bytes (chain E k a)) = hash_fn E (be_bytes (chain E k b)))"

lemma chains_meet:
  "n \<le> MAX_DIGIT \<Longrightarrow> chain E n a = chain E n b \<Longrightarrow> a \<noteq> b \<Longrightarrow> chains_collide E a b"
proof (induction n)
  case (Suc n)
  show ?case
  proof (cases "chain E n a = chain E n b")
    case True
    then show ?thesis using Suc by simp
  next
    case False
    then show ?thesis using Suc.prems(1,2) unfolding iterate_snoc chains_collide_def
      by (metis Suc_le_eq)
  qed
qed simp

lemma concat_be_bytes_inject:
  "length xs = length ys \<Longrightarrow> concat (map be_bytes xs) = concat (map be_bytes ys) \<Longrightarrow> xs = ys"
  by (induction xs ys rule: list_induct2) auto

lemma forgery:
  assumes "machine_ok E" and "length sig = CHAINS" and "length sig' = CHAINS" and "m \<noteq> m'"
    and "wots_verify E sig m pk = Some True" and "wots_verify E sig' m' pk = Some True"
  shows "(\<exists>ends ends'. ends \<noteq> ends' \<and>
      ends = map2 (\<lambda>x d. chain E (MAX_DIGIT - d) x) sig (all_digits m) \<and>
      ends' = map2 (\<lambda>x d. chain E (MAX_DIGIT - d) x) sig' (all_digits m') \<and>
      wots_compress (hash_fn E) ends = wots_compress (hash_fn E) ends') \<or>
    (\<exists>i<CHAINS. all_digits m' ! i < all_digits m ! i \<and>
      (chain E (all_digits m ! i - all_digits m' ! i) (sig' ! i) = sig ! i \<or>
       chains_collide E (chain E (all_digits m ! i - all_digits m' ! i) (sig' ! i)) (sig ! i)))"
proof -
  let ?ends = "map2 (\<lambda>x d. chain E (MAX_DIGIT - d) x) sig (all_digits m)"
  let ?ends' = "map2 (\<lambda>x d. chain E (MAX_DIGIT - d) x) sig' (all_digits m')"
  have pk: "wots_compress (hash_fn E) ?ends = wots_compress (hash_fn E) ?ends'"
    using assms(5,6) wots_verify_chains [OF assms(1)] assms(2,3) by simp
  show ?thesis
  proof (cases "?ends = ?ends'")
    case True
    obtain i where i: "i < CHAINS" "all_digits m' ! i < all_digits m ! i"
      using no_digits_dominate [OF assms(4)] by blast
    let ?d = "all_digits m ! i" let ?d' = "all_digits m' ! i"
    have le: "?d \<le> MAX_DIGIT" using i(1) by (intro all_digits_le [of _ m] nth_mem) simp
    have "chain E (MAX_DIGIT - ?d') (sig' ! i) = chain E (MAX_DIGIT - ?d) (sig ! i)"
      using arg_cong [OF True, of "\<lambda>es. es ! i"] i(1) assms(2,3) by simp
    moreover have "MAX_DIGIT - ?d' = (?d - ?d') + (MAX_DIGIT - ?d)" using i(2) le by simp
    ultimately have "chain E (MAX_DIGIT - ?d) (chain E (?d - ?d') (sig' ! i)) = chain E (MAX_DIGIT - ?d) (sig ! i)"
      by (simp add: iterate_add [symmetric])
    then have "chain E (?d - ?d') (sig' ! i) = sig ! i \<or> chains_collide E (chain E (?d - ?d') (sig' ! i)) (sig ! i)"
      using chains_meet [of "MAX_DIGIT - ?d"] by auto
    then show ?thesis using i by blast
  next
    case False
    then show ?thesis using pk by blast
  qed
qed

subsection \<open>Bytes\<close>

lemma length_sig_to_bytes: "length (sig_to_bytes sig) = 32 * length sig"
  by (induction sig) (simp_all add: sig_to_bytes_def)

lemma take_drop_32: "i < length sig \<Longrightarrow> take 32 (drop (32 * i) (sig_to_bytes sig)) = be_bytes (sig ! i)"
proof (induction sig arbitrary: i)
  case (Cons x sig)
  then show ?case by (cases i) (simp_all add: sig_to_bytes_def)
qed simp

lemma sig_from_to_bytes:
  assumes "length sig = CHAINS"
  shows "sig_from_bytes (sig_to_bytes sig) = Some sig"
proof -
  have "length (sig_to_bytes sig) = SIG_SIZE" using assms by (simp add: length_sig_to_bytes SIG_SIZE_def)
  moreover have "map (\<lambda>i. h256_of_be (take 32 (drop (32 * i) (sig_to_bytes sig)))) [0..<CHAINS] = sig"
    using assms by (intro nth_equalityI) (simp_all add: take_drop_32)
  ultimately show ?thesis by (simp add: sig_from_bytes_def)
qed

lemma pieces_32: "length bs = 32 * n \<Longrightarrow> concat (map (\<lambda>i. take 32 (drop (32 * i) bs)) [0..<n]) = bs"
proof (induction n arbitrary: bs)
  case (Suc n)
  have "concat (map (\<lambda>i. take 32 (drop (32 * i) bs)) [0..<Suc n])
      = take 32 bs @ concat (map (\<lambda>i. take 32 (drop (32 * i) (drop 32 bs))) [0..<n])"
    by (simp add: upt_conv_Cons map_Suc_upt [symmetric] comp_def add.commute [of 32] del: upt_Suc map_Suc_upt)
  then show ?case using Suc.IH [of "drop 32 bs"] Suc.prems by (simp del: drop_drop)
qed simp

lemma sig_from_bytes_iff:
  "sig_from_bytes bs = Some sig \<longleftrightarrow> length sig = CHAINS \<and> sig_to_bytes sig = bs"
proof
  assume some: "sig_from_bytes bs = Some sig"
  then have len: "length bs = 32 * CHAINS" and sig: "sig = map (\<lambda>i. h256_of_be (take 32 (drop (32 * i) bs))) [0..<CHAINS]"
    by (auto simp: sig_from_bytes_def SIG_SIZE_def split: if_splits)
  have "be_bytes (h256_of_be (take 32 (drop (32 * i) bs))) = take 32 (drop (32 * i) bs)" if "i < CHAINS" for i
    using that len by (intro be_bytes_h256_of_be) simp
  then have "map be_bytes sig = map (\<lambda>i. take 32 (drop (32 * i) bs)) [0..<CHAINS]"
    by (simp add: sig)
  then have "sig_to_bytes sig = bs"
    using pieces_32 [OF len] by (simp only: sig_to_bytes_def)
  then show "length sig = CHAINS \<and> sig_to_bytes sig = bs" by (simp add: sig)
next
  assume "length sig = CHAINS \<and> sig_to_bytes sig = bs"
  then show "sig_from_bytes bs = Some sig" using sig_from_to_bytes by blast
qed

subsection \<open>Properties\<close>

text \<open>A signature verifies under the key of the seed that made it, whatever the message, instruction set
  and sort; it is exactly 576 bytes, and only those bytes parse back to it.\<close>

theorem one_time_signatures_verify:
  assumes "machine_ok E"
  shows "\<exists>pk sig. wots_keygen E seed = Some pk \<and> wots_sign E seed msg = Some sig \<and>
    wots_verify E sig msg pk = Some True \<and> length (sig_to_bytes sig) = SIG_SIZE \<and>
    (\<forall>bs. sig_from_bytes bs = Some sig \<longleftrightarrow> bs = sig_to_bytes sig)"
proof -
  obtain pk sig where s: "wots_keygen E seed = Some pk" "wots_sign E seed msg = Some sig" "length sig = CHAINS"
      "wots_verify E sig msg pk = Some True"
    using sign_verify [OF assms] by blast
  have "length (sig_to_bytes sig) = SIG_SIZE" using s(3) by (simp add: length_sig_to_bytes SIG_SIZE_def)
  moreover have "sig_from_bytes bs = Some sig \<longleftrightarrow> bs = sig_to_bytes sig" for bs
    using s(3) by (auto simp: sig_from_bytes_iff)
  ultimately show ?thesis using s by blast
qed

text \<open>C35. One signature forges no other message: if signatures of two different messages verify under one
  key, then either their chain ends are two different inputs of one key hash, or for some digit that is
  smaller in the second message its chain value is an earlier point of the chain the first signature
  reveals, that is a preimage under one or more hash steps, or runs into that chain by a collision. The
  checksum is what rules out a message with no smaller digit.\<close>

theorem second_message_inverts_hash:
  assumes "machine_ok E" and "length sig = CHAINS" and "length sig' = CHAINS" and "m \<noteq> m'"
    and "wots_verify E sig m pk = Some True" and "wots_verify E sig' m' pk = Some True"
  shows "(\<exists>ends ends'. ends \<noteq> ends' \<and>
      ends = map2 (\<lambda>x d. chain E (MAX_DIGIT - d) x) sig (all_digits m) \<and>
      ends' = map2 (\<lambda>x d. chain E (MAX_DIGIT - d) x) sig' (all_digits m') \<and>
      wots_compress (hash_fn E) ends = wots_compress (hash_fn E) ends') \<or>
    (\<exists>i<CHAINS. all_digits m' ! i < all_digits m ! i \<and>
      (chain E (all_digits m ! i - all_digits m' ! i) (sig' ! i) = sig ! i \<or>
       chains_collide E (chain E (all_digits m ! i - all_digits m' ! i) (sig' ! i)) (sig ! i)))"
  using assms by (rule forgery)

text \<open>A machine with the one-block BLAKE3 and a stable sort; signatures of two messages by its seed 1.\<close>

definition sample_machine :: machine where
  "sample_machine = \<lparr>hash_fn = one_block_blake3, simd_level = WotsAvx2_8,
     sort_order = (\<lambda>iters. rev (sort_key (\<lambda>i. iters ! i) [0..<length iters]))\<rparr>"

lemma sample_machine_ok: "machine_ok sample_machine"
  by (simp add: machine_ok_def sample_machine_def one_block_is_blake3)

theorem one_time_signatures_verify_witness:
  "\<exists>pk sig. wots_keygen sample_machine 1 = Some pk \<and> wots_sign sample_machine 1 2 = Some sig \<and>
    wots_verify sample_machine sig 2 pk = Some True \<and> length (sig_to_bytes sig) = SIG_SIZE \<and>
    (\<forall>bs. sig_from_bytes bs = Some sig \<longleftrightarrow> bs = sig_to_bytes sig)"
  using one_time_signatures_verify [OF sample_machine_ok, of 1 2] .

definition sample_signature :: "h256 \<Rightarrow> h256 list" where
  "sample_signature m = the (wots_sign sample_machine 1 m)"

definition sample_coin :: h256 where
  "sample_coin = the (wots_keygen sample_machine 1)"

lemma sample_signature_verifies:
  "length (sample_signature m) = CHAINS \<and> wots_verify sample_machine (sample_signature m) m sample_coin = Some True"
  using sign_verify [OF sample_machine_ok, of 1 m] by (auto simp: sample_signature_def sample_coin_def)

theorem second_message_inverts_hash_witness:
  "let ends = map2 (\<lambda>x d. chain sample_machine (MAX_DIGIT - d) x) (sample_signature 2) (all_digits 2);
       ends' = map2 (\<lambda>x d. chain sample_machine (MAX_DIGIT - d) x) (sample_signature 3) (all_digits 3)
   in (2::h256) \<noteq> 3 \<and>
    (ends \<noteq> ends' \<and> wots_compress (hash_fn sample_machine) ends = wots_compress (hash_fn sample_machine) ends' \<or>
    (\<exists>i<CHAINS. all_digits 3 ! i < all_digits 2 ! i \<and>
      (chain sample_machine (all_digits 2 ! i - all_digits 3 ! i) (sample_signature 3 ! i) = sample_signature 2 ! i \<or>
       chains_collide sample_machine
         (chain sample_machine (all_digits 2 ! i - all_digits 3 ! i) (sample_signature 3 ! i)) (sample_signature 2 ! i))))"
proof -
  have ne: "(2::h256) \<noteq> 3" by simp
  have two: "length (sample_signature 2) = CHAINS" "wots_verify sample_machine (sample_signature 2) 2 sample_coin = Some True"
    and three: "length (sample_signature 3) = CHAINS" "wots_verify sample_machine (sample_signature 3) 3 sample_coin = Some True"
    using sample_signature_verifies by blast+
  show ?thesis
    unfolding Let_def
    using second_message_inverts_hash [OF sample_machine_ok two(1) three(1) ne two(2) three(2)] ne by blast
qed

end
