(* ===== verification/Mss.thy ===== *)
theory Mss
  imports Wots
begin

text \<open>
  The Merkle signature scheme over one-time signatures, \<^verbatim>\<open>src/src/core/mss.rs\<close>: the tree of leaf keys held
  in an array numbered by doubling, its generation with or without a checkpoint of earlier work, signing
  with the next leaf, verification by climbing the authentication path, and the wire format. A panic of
  the batched chains is an error value; reading and writing the checkpoint file is the caller's, here a
  parameter.
\<close>

subsection \<open>Keys\<close>

definition DEFAULT_HEIGHT :: nat where "DEFAULT_HEIGHT = 10"
definition MAX_HEIGHT :: nat where "MAX_HEIGHT = 20"

record MssKeypair =
  mk_height :: nat
  mk_master_seed :: h256
  mk_tree :: "h256 list"
  mk_next_leaf :: nat
  mk_master_pk :: h256

record MssSignature =
  ms_leaf_index :: nat
  ms_wots_pk :: h256
  ms_wots_sig :: "h256 list"
  ms_auth_path :: "h256 list"

datatype mss_error =
    BadHeight | BatchPanic | TreeExhausted | NotWholeTree
  | MssTooShort | BadWotsBytes | PathTooLong | PathLengthMismatch | PathTruncated

abbreviation concat32 :: "hasher \<Rightarrow> h256 \<Rightarrow> h256 \<Rightarrow> h256" where
  "concat32 H a b \<equiv> hash_concat H (be_bytes a) (be_bytes b)"

definition derive_wots_seed :: "hasher \<Rightarrow> h256 \<Rightarrow> nat \<Rightarrow> h256" where
  "derive_wots_seed H master_seed index = hash_concat H (be_bytes master_seed) (le_bytes 8 index)"

definition leaf_public_key :: "machine \<Rightarrow> h256 \<Rightarrow> nat \<Rightarrow> h256 option" where
  "leaf_public_key E master_seed index = keygen_seq E (derive_wots_seed (hash_fn E) master_seed index)"

definition build_nodes :: "hasher \<Rightarrow> nat \<Rightarrow> h256 list \<Rightarrow> h256 list" where
  "build_nodes H leaf_start tree =
     fold (\<lambda>i tree. tree[i := concat32 H (tree ! (2 * i)) (tree ! (2 * i + 1))]) (rev [1..<leaf_start]) tree"

text \<open>The leaves a saved checkpoint already has, and how many: its entries that are not zero.\<close>

definition resume_leaves :: "nat \<Rightarrow> h256 list option \<Rightarrow> h256 list \<times> nat" where
  "resume_leaves num_leaves checkpoint =
     (case checkpoint of
        Some saved \<Rightarrow>
          if length saved = num_leaves then (saved, length (filter (\<lambda>l. l \<noteq> 0) saved))
          else (replicate num_leaves 0, 0)
      | None \<Rightarrow> (replicate num_leaves 0, 0))"

definition fill_leaf :: "machine \<Rightarrow> h256 \<Rightarrow> nat \<Rightarrow> h256 list \<Rightarrow> mss_error + h256 list" where
  "fill_leaf E master_seed i leaves =
     (case leaf_public_key E master_seed i of None \<Rightarrow> Inl BatchPanic | Some pk \<Rightarrow> Inr (leaves[i := pk]))"

definition mss_keygen ::
    "machine \<Rightarrow> h256 list option \<Rightarrow> h256 \<Rightarrow> nat \<Rightarrow> mss_error + MssKeypair" where
  "mss_keygen E checkpoint master_seed height =
     (if height = 0 \<or> MAX_HEIGHT < height then Inl BadHeight
      else
        let num_leaves = 2 ^ height;
            (leaves, leaves_completed) = resume_leaves num_leaves checkpoint
        in and_then (fold_res (fill_leaf E master_seed) [leaves_completed..<num_leaves] leaves) (\<lambda>leaves.
           let tree = build_nodes (hash_fn E) num_leaves (replicate num_leaves 0 @ leaves)
           in Inr \<lparr>mk_height = height, mk_master_seed = master_seed, mk_tree = tree,
                mk_next_leaf = 0, mk_master_pk = tree ! 1\<rparr>))"

text \<open>The browser's generation: no checkpoint, and the calls it makes to report its progress.\<close>

definition keygen_with_progress ::
    "machine \<Rightarrow> h256 \<Rightarrow> nat \<Rightarrow> mss_error + MssKeypair \<times> (nat \<times> nat) list" where
  "keygen_with_progress E master_seed height =
     and_then (mss_keygen E None master_seed height) (\<lambda>kp.
     Inr (kp, map (\<lambda>i. (i + 1, 2 ^ height))
       (filter (\<lambda>i. i mod 2 = 0 \<or> i = 2 ^ height - 1) [0..<2 ^ height])))"

fun pair_up :: "hasher \<Rightarrow> h256 list \<Rightarrow> h256 list" where
  "pair_up H (a # b # xs) = concat32 H a b # pair_up H xs"
| "pair_up H _ = []"

lemma length_pair_up: "length (pair_up H xs) = length xs div 2"
  by (induction H xs rule: pair_up.induct) simp_all

function root_loop :: "hasher \<Rightarrow> h256 list \<Rightarrow> h256" where
  "root_loop H level = (if 1 < length level then root_loop H (pair_up H level) else hd level)"
  by pat_completeness auto
termination by (relation "measure (\<lambda>(H, level). length level)") (auto simp: length_pair_up)

declare root_loop.simps [simp del]

definition is_power_of_two :: "nat \<Rightarrow> bool" where
  "is_power_of_two n \<longleftrightarrow> n \<in> set (map (\<lambda>k. 2 ^ k) [0..<64])"

definition root_from_leaves :: "hasher \<Rightarrow> h256 list \<Rightarrow> mss_error + h256" where
  "root_from_leaves H leaves =
     (let n = length leaves in
      if n < 2 \<or> \<not> is_power_of_two n \<or> 2 ^ MAX_HEIGHT < n then Inl NotWholeTree
      else Inr (root_loop H leaves))"

subsection \<open>Signing\<close>

definition mss_remaining :: "MssKeypair \<Rightarrow> nat" where
  "mss_remaining kp = 2 ^ mk_height kp - mk_next_leaf kp"

fun auth_walk :: "h256 list \<Rightarrow> nat \<Rightarrow> nat \<Rightarrow> h256 list" where
  "auth_walk tree node 0 = []"
| "auth_walk tree node (Suc k) =
     (if node mod 2 = 0 then tree ! (node + 1) else tree ! (node - 1)) # auth_walk tree (node div 2) k"

definition auth_path :: "MssKeypair \<Rightarrow> nat \<Rightarrow> h256 list" where
  "auth_path kp leaf_idx = auth_walk (mk_tree kp) (2 ^ mk_height kp + leaf_idx) (mk_height kp)"

definition mss_sign :: "machine \<Rightarrow> h256 \<Rightarrow> MssKeypair \<Rightarrow> mss_error + MssSignature \<times> MssKeypair" where
  "mss_sign E message kp =
     (if 2 ^ mk_height kp \<le> mk_next_leaf kp then Inl TreeExhausted
      else
        let leaf_idx = mk_next_leaf kp;
            kp = kp\<lparr>mk_next_leaf := mk_next_leaf kp + 1\<rparr>;
            seed = derive_wots_seed (hash_fn E) (mk_master_seed kp) leaf_idx
        in and_then (ok_or BatchPanic (wots_keygen E seed)) (\<lambda>pk.
           and_then (ok_or BatchPanic (wots_sign E seed message)) (\<lambda>sig.
           Inr (\<lparr>ms_leaf_index = leaf_idx, ms_wots_pk = pk, ms_wots_sig = sig,
                 ms_auth_path = auth_path kp leaf_idx\<rparr>, kp))))"

definition set_next_leaf :: "nat \<Rightarrow> MssKeypair \<Rightarrow> MssKeypair" where
  "set_next_leaf idx kp = kp\<lparr>mk_next_leaf := idx\<rparr>"

subsection \<open>Verification\<close>

fun climb :: "hasher \<Rightarrow> h256 \<Rightarrow> nat \<Rightarrow> h256 list \<Rightarrow> h256" where
  "climb H current idx [] = current"
| "climb H current idx (node_hash # path) =
     climb H (if idx mod 2 = 0 then concat32 H current node_hash else concat32 H node_hash current)
       (idx div 2) path"

definition path_capacity :: "nat \<Rightarrow> nat" where
  "path_capacity len = (if len mod 2 ^ 32 < 64 then 2 ^ (len mod 2 ^ 32) else U64_MAX)"

definition mss_verify :: "machine \<Rightarrow> MssSignature \<Rightarrow> h256 \<Rightarrow> h256 \<Rightarrow> bool option" where
  "mss_verify E sig message master_pk =
     (if path_capacity (length (ms_auth_path sig)) \<le> ms_leaf_index sig then Some False
      else
        case wots_verify E (ms_wots_sig sig) message (ms_wots_pk sig) of
          None \<Rightarrow> None
        | Some False \<Rightarrow> Some False
        | Some True \<Rightarrow>
            Some (climb (hash_fn E) (ms_wots_pk sig) (ms_leaf_index sig) (ms_auth_path sig) = master_pk))"

definition recover_master_pk :: "hasher \<Rightarrow> MssSignature \<Rightarrow> h256" where
  "recover_master_pk H sig = climb H (ms_wots_pk sig) (ms_leaf_index sig) (ms_auth_path sig)"

subsection \<open>The wire format\<close>

definition mss_to_bytes :: "MssSignature \<Rightarrow> bytes" where
  "mss_to_bytes sig =
     le_bytes 8 (ms_leaf_index sig) @ be_bytes (ms_wots_pk sig) @ sig_to_bytes (ms_wots_sig sig)
     @ le_bytes 4 (length (ms_auth_path sig)) @ concat (map be_bytes (ms_auth_path sig))"

fun read_path :: "bytes \<Rightarrow> nat \<Rightarrow> nat \<Rightarrow> mss_error + h256 list" where
  "read_path bs off 0 = Inr []"
| "read_path bs off (Suc n) =
     (if length bs < off + 32 then Inl PathTruncated
      else and_then (read_path bs (off + 32) n) (\<lambda>path. Inr (h256_of_be (take 32 (drop off bs)) # path)))"

definition mss_from_bytes :: "bytes \<Rightarrow> mss_error + MssSignature" where
  "mss_from_bytes bs =
     (if length bs < 8 + 32 + SIG_SIZE + 4 then Inl MssTooShort
      else
        let leaf_index = of_le_bytes (take 8 bs);
            wots_pk = h256_of_be (take 32 (drop 8 bs))
        in and_then (ok_or BadWotsBytes (sig_from_bytes (take SIG_SIZE (drop 40 bs)))) (\<lambda>wots_sig.
           let ao = 40 + SIG_SIZE;
               auth_len = of_le_bytes (take 4 (drop ao bs));
               ps = ao + 4;
               remaining = length bs - ps
           in if MAX_HEIGHT < auth_len then Inl PathTooLong
              else if 0 < auth_len \<and> remaining \<noteq> auth_len * 32 then Inl PathLengthMismatch
              else and_then (read_path bs ps auth_len) (\<lambda>path.
                Inr \<lparr>ms_leaf_index = leaf_index, ms_wots_pk = wots_pk, ms_wots_sig = wots_sig,
                     ms_auth_path = path\<rparr>)))"

definition mss_size :: "MssSignature \<Rightarrow> nat" where
  "mss_size sig = 8 + 32 + SIG_SIZE + 4 + length (ms_auth_path sig) * 32"

definition mss_sigs_in_stack :: "bytes list \<Rightarrow> MssSignature list" where
  "mss_sigs_in_stack stack =
     concat (map (\<lambda>item.
       if length item = SIG_SIZE then []
       else case mss_from_bytes item of Inr sig \<Rightarrow> [sig] | Inl _ \<Rightarrow> []) stack)"

subsection \<open>The tree\<close>

text \<open>The array holds a Merkle tree: every inner entry is the hash of the two below it.\<close>

definition heap_tree :: "hasher \<Rightarrow> nat \<Rightarrow> h256 list \<Rightarrow> bool" where
  "heap_tree H n tree \<longleftrightarrow> length tree = 2 * n \<and>
     (\<forall>i. 0 < i \<and> i < n \<longrightarrow> tree ! i = concat32 H (tree ! (2 * i)) (tree ! (2 * i + 1)))"

lemma build_nodes_from:
  assumes "length t = 2 * n" and "0 < m"
  shows "let T = fold (\<lambda>i tree. tree[i := concat32 H (tree ! (2 * i)) (tree ! (2 * i + 1))]) (rev [m..<n]) t
    in length T = 2 * n \<and> (\<forall>j. j < m \<or> n \<le> j \<longrightarrow> T ! j = t ! j) \<and>
       (\<forall>j. m \<le> j \<and> j < n \<longrightarrow> T ! j = concat32 H (T ! (2 * j)) (T ! (2 * j + 1)))"
  using assms(2)
proof (induction "n - m" arbitrary: m)
  case 0
  then show ?case using assms(1) by (auto simp: Let_def)
next
  case (Suc d)
  let ?f = "\<lambda>i tree. tree[i := concat32 H (tree ! (2 * i)) (tree ! (2 * i + 1))]"
  let ?T' = "fold ?f (rev [Suc m..<n]) t"
  have mn: "m < n" using Suc.hyps(2) by simp
  have IH: "length ?T' = 2 * n" "\<forall>j. j < Suc m \<or> n \<le> j \<longrightarrow> ?T' ! j = t ! j"
      "\<forall>j. Suc m \<le> j \<and> j < n \<longrightarrow> ?T' ! j = concat32 H (?T' ! (2 * j)) (?T' ! (2 * j + 1))"
    using Suc.hyps(1) [of "Suc m"] Suc.hyps(2) Suc.prems by (simp_all add: Let_def)
  have T: "fold ?f (rev [m..<n]) t = ?f m ?T'" using mn by (simp add: upt_conv_Cons)
  have other: "(?f m ?T') ! j = ?T' ! j" if "j \<noteq> m" for j using that by simp
  have here: "(?f m ?T') ! m = concat32 H (?T' ! (2 * m)) (?T' ! (2 * m + 1))"
    using IH(1) mn by simp
  have "(?f m ?T') ! j = concat32 H ((?f m ?T') ! (2 * j)) ((?f m ?T') ! (2 * j + 1))"
    if "m \<le> j" "j < n" for j
  proof (cases "j = m")
    case True
    then show ?thesis using here other [of "2 * m"] other [of "2 * m + 1"] Suc.prems by simp
  next
    case False
    then show ?thesis
      using other [of j] other [of "2 * j"] other [of "2 * j + 1"] IH(3) that Suc.prems by simp
  qed
  then show ?case unfolding T using IH(1,2) mn other by (simp add: Let_def)
qed

lemma build_nodes_tree:
  assumes "length leaves = n" and "0 < n"
  shows "heap_tree H n (build_nodes H n (replicate n 0 @ leaves)) \<and>
    (\<forall>i<n. build_nodes H n (replicate n 0 @ leaves) ! (n + i) = leaves ! i)"
  using build_nodes_from [of "replicate n 0 @ leaves" n 1 H] assms
  by (simp add: heap_tree_def build_nodes_def Let_def nth_append Suc_le_eq)

lemma climb_to_root:
  assumes "heap_tree H n T" and "2 ^ k \<le> n" and "idx < 2 ^ k"
  shows "climb H (T ! (2 ^ k + idx)) idx (auth_walk T (2 ^ k + idx) k) = T ! 1"
  using assms(2,3)
proof (induction k arbitrary: idx)
  case (Suc k)
  let ?node = "2 ^ Suc k + idx" let ?p = "2 ^ k + idx div 2"
  have p: "0 < ?p" "?p < n" using Suc.prems by auto
  then have parent: "T ! ?p = concat32 H (T ! (2 * ?p)) (T ! (2 * ?p + 1))"
    using assms(1) by (simp only: heap_tree_def)
  have "climb H (T ! ?node) idx (auth_walk T ?node (Suc k))
      = climb H (T ! ?p) (idx div 2) (auth_walk T ?p k)"
  proof (cases "idx mod 2 = 0")
    case True
    then obtain q where "idx = 2 * q" by (metis mod_0_imp_dvd dvdE)
    then show ?thesis using parent by simp
  next
    case False
    then obtain q where "idx = 2 * q + 1" by (metis not_mod_2_eq_0_eq_1 odd_iff_mod_2_eq_one oddE)
    then show ?thesis using parent by simp
  qed
  also have "\<dots> = T ! 1" using Suc.prems by (intro Suc.IH) simp_all
  finally show ?case .
qed simp

lemma length_auth_walk [simp]: "length (auth_walk tree node k) = k"
  by (induction k arbitrary: node) simp_all

lemma pair_up_map:
  "pair_up H (map f [2 * a..<2 * b]) = map (\<lambda>i. concat32 H (f (2 * i)) (f (2 * i + 1))) [a..<b]"
proof (induction "b - a" arbitrary: a)
  case (Suc d)
  then have "[2 * a..<2 * b] = 2 * a # (2 * a + 1) # [2 * Suc a..<2 * b]" by (simp add: upt_conv_Cons)
  moreover have "[a..<b] = a # [Suc a..<b]" using Suc.hyps(2) by (simp add: upt_conv_Cons)
  ultimately show ?case using Suc.hyps(1) [of "Suc a"] Suc.hyps(2) by simp
qed simp

lemma root_loop_tree:
  assumes "heap_tree H n T" and "2 ^ k \<le> n"
  shows "root_loop H (map ((!) T) [2 ^ k..<2 * 2 ^ k]) = T ! 1"
  using assms(2)
proof (induction k)
  case 0
  then show ?case by (simp add: root_loop.simps upt_conv_Cons)
next
  case (Suc k)
  have "(1::nat) < 2 ^ Suc k" by (rule one_less_power) simp_all
  then have "root_loop H (map ((!) T) [2 ^ Suc k..<2 * 2 ^ Suc k])
      = root_loop H (pair_up H (map ((!) T) [2 * 2 ^ k..<2 * (2 * 2 ^ k)]))"
    by (subst root_loop.simps) simp
  also have "pair_up H (map ((!) T) [2 * 2 ^ k..<2 * (2 * 2 ^ k)]) = map ((!) T) [2 ^ k..<2 * 2 ^ k]"
    unfolding pair_up_map using assms(1) Suc.prems by (simp add: heap_tree_def)
  also have "root_loop H \<dots> = T ! 1" using Suc by simp
  finally show ?case .
qed

subsection \<open>Key generation\<close>

definition leaf :: "machine \<Rightarrow> h256 \<Rightarrow> nat \<Rightarrow> h256" where
  "leaf E master_seed i = the (leaf_public_key E master_seed i)"

lemma leaf_public_key_Some: "machine_ok E \<Longrightarrow> leaf_public_key E master_seed i = Some (leaf E master_seed i)"
  by (simp add: leaf_def leaf_public_key_def keygen_seq_chains)

lemma fill_leaves:
  assumes "machine_ok E" and "length leaves = n" and "k \<le> n"
  shows "fold_res (fill_leaf E seed) [k..<n] leaves = Inr (take k leaves @ map (leaf E seed) [k..<n])"
  using assms(2,3)
proof (induction "n - k" arbitrary: k leaves)
  case (Suc d)
  then have k: "k < n" by simp
  have "fold_res (fill_leaf E seed) [k..<n] leaves
      = fold_res (fill_leaf E seed) [Suc k..<n] (leaves[k := leaf E seed k])"
    using k by (simp add: upt_conv_Cons fill_leaf_def leaf_public_key_Some [OF assms(1)])
  also have "\<dots> = Inr (take (Suc k) (leaves[k := leaf E seed k]) @ map (leaf E seed) [Suc k..<n])"
    using Suc k by (intro Suc.hyps(1)) simp_all
  also have "take (Suc k) (leaves[k := leaf E seed k]) = take k leaves @ [leaf E seed k]"
    using k Suc.prems by (simp add: take_Suc_conv_app_nth)
  finally show ?case using k by (simp add: upt_conv_Cons)
qed simp

definition full_tree :: "machine \<Rightarrow> h256 \<Rightarrow> nat \<Rightarrow> h256 list" where
  "full_tree E seed n = build_nodes (hash_fn E) n (replicate n 0 @ map (leaf E seed) [0..<n])"

lemma full_tree_heap:
  assumes "0 < n"
  shows "heap_tree (hash_fn E) n (full_tree E seed n) \<and> (\<forall>i<n. full_tree E seed n ! (n + i) = leaf E seed i)"
  using build_nodes_tree [of "map (leaf E seed) [0..<n]" n "hash_fn E"] assms by (simp add: full_tree_def)

text \<open>A checkpoint of the same seed: some first leaves, then zeros.\<close>

definition checkpoint_of :: "machine \<Rightarrow> h256 \<Rightarrow> nat \<Rightarrow> h256 list option \<Rightarrow> bool" where
  "checkpoint_of E seed n cp \<longleftrightarrow>
     (case cp of None \<Rightarrow> True
      | Some saved \<Rightarrow> length saved = n \<longrightarrow>
          (\<exists>k\<le>n. saved = map (leaf E seed) [0..<k] @ replicate (n - k) 0 \<and> (\<forall>i<k. leaf E seed i \<noteq> 0)))"

lemma mss_keygen_tree:
  assumes "machine_ok E" and "checkpoint_of E seed (2 ^ h) cp" and "0 < h" and "h \<le> MAX_HEIGHT"
  shows "mss_keygen E cp seed h = Inr \<lparr>mk_height = h, mk_master_seed = seed,
    mk_tree = full_tree E seed (2 ^ h), mk_next_leaf = 0, mk_master_pk = full_tree E seed (2 ^ h) ! 1\<rparr>"
proof -
  let ?n = "2 ^ h :: nat"
  have fresh: "resume_leaves ?n cp = (replicate ?n 0, 0)" if "\<forall>saved. cp = Some saved \<longrightarrow> length saved \<noteq> ?n"
    using that by (auto simp: resume_leaves_def split: option.splits)
  have "\<exists>leaves k. resume_leaves ?n cp = (leaves, k) \<and> length leaves = ?n \<and> k \<le> ?n \<and>
      take k leaves = map (leaf E seed) [0..<k]"
  proof (cases "\<exists>saved. cp = Some saved \<and> length saved = ?n")
    case True
    then obtain saved k where s: "cp = Some saved" "length saved = ?n" "k \<le> ?n"
        "saved = map (leaf E seed) [0..<k] @ replicate (?n - k) 0" "\<forall>i<k. leaf E seed i \<noteq> 0"
      using assms(2) by (auto simp: checkpoint_of_def)
    have "filter (\<lambda>l. l \<noteq> 0) saved = map (leaf E seed) [0..<k]"
      using s(5) by (simp add: s(4) filter_map comp_def)
    then have "resume_leaves ?n cp = (saved, k)" using s(1,2) by (simp add: resume_leaves_def)
    then show ?thesis using s(2,3,4) by simp
  next
    case False
    then show ?thesis using fresh by simp
  qed
  then obtain leaves k where l: "resume_leaves ?n cp = (leaves, k)" "length leaves = ?n" "k \<le> ?n"
      "take k leaves = map (leaf E seed) [0..<k]" by blast
  have "fold_res (fill_leaf E seed) [k..<?n] leaves = Inr (take k leaves @ map (leaf E seed) [k..<?n])"
    using l(2,3) by (rule fill_leaves [OF assms(1)])
  also have "take k leaves @ map (leaf E seed) [k..<?n] = map (leaf E seed) [0..<?n]"
    unfolding l(4) using l(3) 
    using upt_add_eq_append [of 0 k "?n - k"] by (simp flip: map_append)
  finally show ?thesis
    using assms(3,4) l(1) by (simp add: mss_keygen_def full_tree_def Let_def)
qed

subsection \<open>Every signature of a key\<close>

definition key_at :: "machine \<Rightarrow> h256 \<Rightarrow> nat \<Rightarrow> nat \<Rightarrow> MssKeypair" where
  "key_at E seed h used = \<lparr>mk_height = h, mk_master_seed = seed, mk_tree = full_tree E seed (2 ^ h),
     mk_next_leaf = used, mk_master_pk = full_tree E seed (2 ^ h) ! 1\<rparr>"

lemma mss_sign_key:
  assumes "machine_ok E" and "h \<le> MAX_HEIGHT" and "n < 2 ^ h"
  shows "\<exists>sig. mss_sign E msg (key_at E seed h n) = Inr (sig, key_at E seed h (n + 1)) \<and>
    ms_leaf_index sig = n \<and> length (ms_auth_path sig) = h \<and> length (ms_wots_sig sig) = CHAINS \<and>
    mss_verify E sig msg (full_tree E seed (2 ^ h) ! 1) = Some True \<and>
    recover_master_pk (hash_fn E) sig = full_tree E seed (2 ^ h) ! 1"
proof -
  let ?T = "full_tree E seed (2 ^ h)" and ?seed = "derive_wots_seed (hash_fn E) seed n"
  obtain pk wsig where w: "wots_keygen E ?seed = Some pk" "wots_sign E ?seed msg = Some wsig"
      "length wsig = CHAINS" "wots_verify E wsig msg pk = Some True"
    using sign_verify [OF assms(1)] by blast
  have pk: "pk = leaf E seed n"
    using w(1) by (simp add: leaf_def leaf_public_key_def wots_keygen_def)
  let ?sig = "\<lparr>ms_leaf_index = n, ms_wots_pk = pk, ms_wots_sig = wsig,
      ms_auth_path = auth_walk ?T (2 ^ h + n) h\<rparr>"
  have sign: "mss_sign E msg (key_at E seed h n) = Inr (?sig, key_at E seed h (n + 1))"
    using assms(3) w(1,2) by (simp add: mss_sign_def key_at_def Let_def ok_or_def auth_path_def)
  have "climb (hash_fn E) (?T ! (2 ^ h + n)) n (auth_walk ?T (2 ^ h + n) h) = ?T ! 1"
    using full_tree_heap [of "2 ^ h" E seed] assms(3) by (intro climb_to_root) auto
  then have root: "climb (hash_fn E) pk n (auth_walk ?T (2 ^ h + n) h) = ?T ! 1"
    using full_tree_heap [of "2 ^ h" E seed] assms(3) by (simp add: pk)
  have "h mod 2 ^ 32 = h" and "h < 64" using assms(2) by (simp_all add: MAX_HEIGHT_def)
  then have "path_capacity h = 2 ^ h" by (simp add: path_capacity_def)
  then have "mss_verify E ?sig msg (?T ! 1) = Some True"
    using assms(3) w(4) root by (simp add: mss_verify_def)
  then show ?thesis using sign root w(3) by (auto simp: recover_master_pk_def)
qed

fun sign_all :: "machine \<Rightarrow> h256 list \<Rightarrow> MssKeypair \<Rightarrow> mss_error + MssSignature list \<times> MssKeypair" where
  "sign_all E [] kp = Inr ([], kp)"
| "sign_all E (msg # msgs) kp =
     and_then (mss_sign E msg kp) (\<lambda>(sig, kp).
     and_then (sign_all E msgs kp) (\<lambda>(sigs, kp). Inr (sig # sigs, kp)))"

lemma sign_all_key:
  assumes "machine_ok E" and "h \<le> MAX_HEIGHT"
  shows "n + length msgs \<le> 2 ^ h \<Longrightarrow>
      \<exists>sigs. sign_all E msgs (key_at E seed h n) = Inr (sigs, key_at E seed h (n + length msgs)) \<and>
        list_all2 (\<lambda>msg sig. mss_verify E sig msg (full_tree E seed (2 ^ h) ! 1) = Some True \<and>
          recover_master_pk (hash_fn E) sig = full_tree E seed (2 ^ h) ! 1) msgs sigs \<and>
        map ms_leaf_index sigs = [n..<n + length msgs]"
    and "n \<le> 2 ^ h \<Longrightarrow> 2 ^ h < n + length msgs \<Longrightarrow> sign_all E msgs (key_at E seed h n) = Inl TreeExhausted"
proof (induction msgs arbitrary: n)
  case (Cons msg msgs)
  {
    case 1
    then have "n < 2 ^ h" by simp
    from mss_sign_key [OF assms this] obtain sig where
      sig: "mss_sign E msg (key_at E seed h n) = Inr (sig, key_at E seed h (n + 1))" "ms_leaf_index sig = n"
        "mss_verify E sig msg (full_tree E seed (2 ^ h) ! 1) = Some True"
        "recover_master_pk (hash_fn E) sig = full_tree E seed (2 ^ h) ! 1" by blast
    obtain sigs where "sign_all E msgs (key_at E seed h (n + 1)) = Inr (sigs, key_at E seed h (n + 1 + length msgs))"
        "list_all2 (\<lambda>msg sig. mss_verify E sig msg (full_tree E seed (2 ^ h) ! 1) = Some True \<and>
          recover_master_pk (hash_fn E) sig = full_tree E seed (2 ^ h) ! 1) msgs sigs"
        "map ms_leaf_index sigs = [n + 1..<n + 1 + length msgs]"
      using Cons.IH(1) [of "n + 1"] 1 by auto
    moreover have "[n..<n + length (msg # msgs)] = n # [n + 1..<n + 1 + length msgs]"
      by (simp add: upt_conv_Cons del: upt_Suc)
    ultimately show ?case using sig by (intro exI [of _ "sig # sigs"]) (simp del: upt_Suc)
  next
    case 2
    show ?case
    proof (cases "n < 2 ^ h")
      case True
      from mss_sign_key [OF assms True] obtain sig where
        "mss_sign E msg (key_at E seed h n) = Inr (sig, key_at E seed h (n + 1))" by blast
      moreover have "sign_all E msgs (key_at E seed h (n + 1)) = Inl TreeExhausted"
        using Cons.IH(2) [of "n + 1"] True 2 by simp
      ultimately show ?thesis by simp
    next
      case False
      then show ?thesis by (simp add: mss_sign_def key_at_def)
    qed
  }
qed simp_all

subsection \<open>Bytes\<close>

definition mss_wf :: "MssSignature \<Rightarrow> bool" where
  "mss_wf sig \<longleftrightarrow> ms_leaf_index sig < 2 ^ 64 \<and> length (ms_wots_sig sig) = CHAINS \<and>
     length (ms_auth_path sig) \<le> MAX_HEIGHT"

lemma read_path_iff:
  "off \<le> length bs \<Longrightarrow> read_path bs off n = Inr path \<longleftrightarrow>
   length path = n \<and> (\<exists>junk. drop off bs = concat (map be_bytes path) @ junk)"
proof (induction n arbitrary: off path)
  case (Suc n)
  show ?case
  proof (cases "length bs < off + 32")
    case True
    have "\<not> (length path = Suc n \<and> (\<exists>junk. drop off bs = concat (map be_bytes path) @ junk))"
    proof
      assume "length path = Suc n \<and> (\<exists>junk. drop off bs = concat (map be_bytes path) @ junk)"
      then obtain p ps junk where "drop off bs = be_bytes p @ concat (map be_bytes ps) @ junk"
        by (cases path) auto
      then have "length (drop off bs) \<ge> 32" by simp
      then show False using True by simp
    qed
    then show ?thesis using True by simp
  next
    case False
    let ?x = "take 32 (drop off bs)"
    have split: "drop off bs = ?x @ drop (off + 32) bs"
      by (metis append_take_drop_id drop_drop add.commute)
    have x: "be_bytes (h256_of_be ?x) = ?x" using False by (intro be_bytes_h256_of_be) simp
    have "read_path bs off (Suc n) = Inr path \<longleftrightarrow>
        (\<exists>ps. read_path bs (off + 32) n = Inr ps \<and> path = h256_of_be ?x # ps)"
      using False by (auto simp: and_then_Inr)
    also have "\<dots> \<longleftrightarrow> (\<exists>ps. (length ps = n \<and> (\<exists>junk. drop (off + 32) bs = concat (map be_bytes ps) @ junk)) \<and>
        path = h256_of_be ?x # ps)"
      using Suc.IH [of "off + 32"] False by simp
    also have "\<dots> \<longleftrightarrow> length path = Suc n \<and> (\<exists>junk. drop off bs = concat (map be_bytes path) @ junk)"
    proof
      assume "\<exists>ps. (length ps = n \<and> (\<exists>junk. drop (off + 32) bs = concat (map be_bytes ps) @ junk)) \<and>
        path = h256_of_be ?x # ps"
      then show "length path = Suc n \<and> (\<exists>junk. drop off bs = concat (map be_bytes path) @ junk)"
        using split x by auto
    next
      assume r: "length path = Suc n \<and> (\<exists>junk. drop off bs = concat (map be_bytes path) @ junk)"
      then obtain p ps junk where p: "path = p # ps" "length ps = n" "drop off bs = be_bytes p @ concat (map be_bytes ps) @ junk"
        by (cases path) auto
      then have "?x = be_bytes p" "drop (off + 32) bs = concat (map be_bytes ps) @ junk"
        using split by (metis append_eq_append_conv length_be_bytes length_take min_def nat_le_linear append_eq_conv_conj)+
      then show "\<exists>ps. (length ps = n \<and> (\<exists>junk. drop (off + 32) bs = concat (map be_bytes ps) @ junk)) \<and>
        path = h256_of_be ?x # ps"
        using p(1,2) by auto
    qed
    finally show ?thesis .
  qed
qed (auto simp: exI)

lemma of_le_bytes_inverse: "n < 256 ^ k \<Longrightarrow> of_le_bytes (le_bytes k n) = n"
  by (simp add: of_le_bytes_le_bytes)

lemma mss_from_to_bytes:
  assumes "mss_wf sig" and "ms_auth_path sig \<noteq> [] \<Longrightarrow> junk = []"
  shows "mss_from_bytes (mss_to_bytes sig @ junk) = Inr sig"
proof -
  let ?path = "ms_auth_path sig" and ?w = "sig_to_bytes (ms_wots_sig sig)"
  let ?bs = "mss_to_bytes sig @ junk"
  have lens: "length (concat (map be_bytes xs)) = 32 * length xs" for xs :: "h256 list"
    by (induction xs) simp_all
  have w: "length ?w = SIG_SIZE" and ws: "sig_from_bytes ?w = Some (ms_wots_sig sig)"
    using assms(1) by (simp_all add: mss_wf_def length_sig_to_bytes SIG_SIZE_def sig_from_to_bytes)
  have S: "SIG_SIZE = 576" by (simp add: wots_sizes)
  have lp: "length ?path \<le> 20" using assms(1) by (simp add: mss_wf_def MAX_HEIGHT_def)
  have bs: "?bs = le_bytes 8 (ms_leaf_index sig) @ be_bytes (ms_wots_pk sig) @ ?w
      @ le_bytes 4 (length ?path) @ concat (map be_bytes ?path) @ junk"
    by (simp add: mss_to_bytes_def)
  have d40: "drop 40 ?bs = ?w @ le_bytes 4 (length ?path) @ concat (map be_bytes ?path) @ junk"
    unfolding bs by simp
  have dd: "drop 616 xs = drop 576 (drop 40 xs)" "drop 620 xs = drop 4 (drop 616 xs)" for xs :: bytes
    by simp_all
  have d616: "drop 616 ?bs = le_bytes 4 (length ?path) @ concat (map be_bytes ?path) @ junk"
    unfolding dd(1) d40 using w S by simp
  have d620: "drop 620 ?bs = concat (map be_bytes ?path) @ junk" unfolding dd(2) d616 by simp
  have len: "length ?bs = 620 + 32 * length ?path + length junk"
    unfolding bs using w S by (simp add: lens)
  have "read_path ?bs 620 (length ?path) = Inr ?path"
    using len d620 by (subst read_path_iff) auto
  moreover have "of_le_bytes (take 8 ?bs) = ms_leaf_index sig"
    using assms(1) unfolding bs by (simp add: of_le_bytes_inverse mss_wf_def)
  moreover have "h256_of_be (take 32 (drop 8 ?bs)) = ms_wots_pk sig" unfolding bs by simp
  moreover have "sig_from_bytes (take 576 (drop 40 ?bs)) = Some (ms_wots_sig sig)"
    unfolding d40 using w ws S by simp
  moreover have "of_le_bytes (take 4 (drop 616 ?bs)) = length ?path"
    unfolding d616 using lp by (simp add: of_le_bytes_inverse)
  moreover have "\<not> (0 < length ?path \<and> length ?bs - 620 \<noteq> length ?path * 32)"
    using len assms(2) by auto
  ultimately show ?thesis
    using len lp by (simp add: mss_from_bytes_def S Let_def ok_or_def MAX_HEIGHT_def)
qed

lemma mss_from_bytes_sound:
  assumes "mss_from_bytes bs = Inr sig"
  shows "mss_wf sig \<and> (\<exists>junk. bs = mss_to_bytes sig @ junk \<and> (ms_auth_path sig \<noteq> [] \<longrightarrow> junk = []))"
proof -
  have S: "SIG_SIZE = 576" by (simp add: wots_sizes)
  let ?n = "of_le_bytes (take 4 (drop 616 bs))"
  have len: "620 \<le> length bs"
    using assms by (simp add: mss_from_bytes_def S split: if_splits)
  obtain wsig path where p: "sig_from_bytes (take 576 (drop 40 bs)) = Some wsig" "?n \<le> MAX_HEIGHT"
      "0 < ?n \<Longrightarrow> length bs - 620 = ?n * 32" "read_path bs 620 ?n = Inr path"
      "sig = \<lparr>ms_leaf_index = of_le_bytes (take 8 bs), ms_wots_pk = h256_of_be (take 32 (drop 8 bs)),
        ms_wots_sig = wsig, ms_auth_path = path\<rparr>"
    using assms len
    by (auto simp: mss_from_bytes_def S Let_def and_then_Inr ok_or_Inr split: if_splits)
  obtain junk where path: "length path = ?n" "drop 620 bs = concat (map be_bytes path) @ junk"
    using p(4) len by (subst (asm) read_path_iff) auto
  have w: "length wsig = CHAINS" "sig_to_bytes wsig = take 576 (drop 40 bs)"
    using p(1) by (simp_all add: sig_from_bytes_iff)
  have idx: "of_le_bytes (take 8 bs) < 2 ^ 64"
    using of_le_bytes_bound [of "take 8 bs"] len by simp
  have "length (take 4 (drop 616 bs)) = 4" using len by simp
  then have n: "le_bytes 4 ?n = take 4 (drop 616 bs)" by (rule le_bytes_of_le_bytes)
  have "bs = take 8 bs @ take 32 (drop 8 bs) @ take 576 (drop 40 bs) @ take 4 (drop 616 bs) @ drop 620 bs"
    using append_take_drop_id [of 8 bs] append_take_drop_id [of 32 "drop 8 bs"]
      append_take_drop_id [of 576 "drop 40 bs"] append_take_drop_id [of 4 "drop 616 bs"]
    by simp
  also have "\<dots> = mss_to_bytes sig @ junk"
    using len by (simp add: p(5) mss_to_bytes_def le_bytes_of_le_bytes be_bytes_h256_of_be w(2) path n)
  finally have "bs = mss_to_bytes sig @ junk" .
  moreover have "junk = []" if "path \<noteq> []"
  proof -
    have lens: "length (concat (map be_bytes xs)) = 32 * length xs" for xs :: "h256 list"
      by (induction xs) simp_all
    have "length bs - 620 = length (concat (map be_bytes path)) + length junk"
      using path(2) by (metis length_append length_drop)
    then have "length bs - 620 = 32 * ?n + length junk" by (simp only: lens path(1))
    moreover have "0 < ?n" using path(1) that by (metis length_greater_0_conv)
    ultimately show ?thesis using p(3) by simp
  qed
  ultimately show ?thesis using p(2,5) w(1) idx path(1) by (auto simp: mss_wf_def)
qed

lemma recover_matches_verify:
  "mss_verify E sig msg pk = Some True \<Longrightarrow> recover_master_pk (hash_fn E) sig = pk"
  by (simp add: mss_verify_def recover_master_pk_def split: if_splits option.splits bool.splits)

subsection \<open>Properties\<close>

text \<open>A generated key signs as many messages as it has leaves and no more: each of the first 2^height
  signatures verifies under the public key, which it also gives back by itself, they use the leaves in
  order and each only once, and the next message is refused.\<close>

theorem mss_signatures_verify:
  assumes "machine_ok E" and "checkpoint_of E seed (2 ^ h) cp" and "mss_keygen E cp seed h = Inr kp"
  shows "(length msgs \<le> 2 ^ h \<longrightarrow>
      (\<exists>sigs kp'. sign_all E msgs kp = Inr (sigs, kp') \<and> mss_remaining kp' = 2 ^ h - length msgs \<and>
        list_all2 (\<lambda>msg sig. mss_verify E sig msg (mk_master_pk kp) = Some True \<and>
          recover_master_pk (hash_fn E) sig = mk_master_pk kp) msgs sigs \<and>
        map ms_leaf_index sigs = [0..<length msgs])) \<and>
    (2 ^ h < length msgs \<longrightarrow> sign_all E msgs kp = Inl TreeExhausted)"
proof -
  have h: "0 < h" "h \<le> MAX_HEIGHT"
    using assms(3) by (auto simp: mss_keygen_def split: if_splits)
  have kp: "kp = key_at E seed h 0"
    using mss_keygen_tree [OF assms(1,2) h] assms(3) by (simp add: key_at_def)
  then have pk: "mk_master_pk kp = full_tree E seed (2 ^ h) ! 1" by (simp add: key_at_def)
  show ?thesis
  proof (intro conjI impI)
    assume "length msgs \<le> 2 ^ h"
    then obtain sigs where "sign_all E msgs (key_at E seed h 0) = Inr (sigs, key_at E seed h (length msgs))"
      "list_all2 (\<lambda>msg sig. mss_verify E sig msg (full_tree E seed (2 ^ h) ! 1) = Some True \<and>
          recover_master_pk (hash_fn E) sig = full_tree E seed (2 ^ h) ! 1) msgs sigs"
      "map ms_leaf_index sigs = [0..<length msgs]"
      using sign_all_key(1) [OF assms(1) h(2), of 0 msgs seed] by auto
    moreover have "mss_remaining (key_at E seed h (length msgs)) = 2 ^ h - length msgs"
      by (simp add: mss_remaining_def key_at_def)
    ultimately show "\<exists>sigs kp'. sign_all E msgs kp = Inr (sigs, kp') \<and> mss_remaining kp' = 2 ^ h - length msgs \<and>
        list_all2 (\<lambda>msg sig. mss_verify E sig msg (mk_master_pk kp) = Some True \<and>
          recover_master_pk (hash_fn E) sig = mk_master_pk kp) msgs sigs \<and>
        map ms_leaf_index sigs = [0..<length msgs]"
      unfolding kp [symmetric] pk by blast
  next
    assume "2 ^ h < length msgs"
    then show "sign_all E msgs kp = Inl TreeExhausted"
      using sign_all_key(2) [OF assms(1) h(2), of 0 msgs seed] kp by simp
  qed
qed

text \<open>However a key is generated it is the same key: resuming from a checkpoint of the same seed, starting
  afresh, reporting progress in a browser, or hashing leaf keys generated elsewhere up to the root.\<close>

theorem mss_generation_agrees:
  assumes "machine_ok E" and "checkpoint_of E seed (2 ^ h) cp" and "0 < h" and "h \<le> MAX_HEIGHT"
  shows "\<exists>kp. mss_keygen E cp seed h = Inr kp \<and> mss_keygen E None seed h = Inr kp \<and>
    (\<exists>calls. keygen_with_progress E seed h = Inr (kp, calls) \<and> last calls = (2 ^ h, 2 ^ h)) \<and>
    root_from_leaves (hash_fn E) (map (\<lambda>i. the (leaf_public_key E seed i)) [0..<2 ^ h]) = Inr (mk_master_pk kp)"
proof -
  let ?T = "full_tree E seed (2 ^ h)"
  let ?kp = "key_at E seed h 0"
  have kp: "mss_keygen E cp seed h = Inr ?kp" "mss_keygen E None seed h = Inr ?kp"
    using mss_keygen_tree [OF assms] mss_keygen_tree [OF assms(1) _ assms(3,4), of seed None]
    by (simp_all add: key_at_def checkpoint_of_def)
  have pos: "(1::nat) < 2 ^ h" using assms(3) by (rule one_less_power [rotated]) simp
  then have snoc: "[0..<2 ^ h] = [0..<2 ^ h - 1] @ [2 ^ h - 1]"
    by (metis One_nat_def Suc_pred' le0 upt_Suc_append zero_less_numeral zero_less_power)
  let ?calls = "map (\<lambda>i. (i + 1, 2 ^ h)) (filter (\<lambda>i. i mod 2 = 0 \<or> i = 2 ^ h - 1) [0..<2 ^ h])"
  have "last ?calls = (2 ^ h, 2 ^ h)" using pos by (subst snoc) simp
  then have progress: "\<exists>calls. keygen_with_progress E seed h = Inr (?kp, calls) \<and> last calls = (2 ^ h, 2 ^ h)"
    using kp(2) by (simp add: keygen_with_progress_def)
  note tree = full_tree_heap [of "2 ^ h" E seed]
  have "map ((!) ?T) [2 ^ h..<2 * 2 ^ h] = map (leaf E seed) [0..<2 ^ h]"
    using tree by (intro nth_equalityI) simp_all
  then have "root_loop (hash_fn E) (map (leaf E seed) [0..<2 ^ h]) = ?T ! 1"
    using root_loop_tree [of "hash_fn E" "2 ^ h" ?T h] tree by simp
  moreover have "is_power_of_two (2 ^ h)" and "(2::nat) ^ h \<le> 2 ^ MAX_HEIGHT"
    using assms(4) power_increasing [of h MAX_HEIGHT "2::nat"] by (auto simp: is_power_of_two_def MAX_HEIGHT_def)
  ultimately have "root_from_leaves (hash_fn E) (map (leaf E seed) [0..<2 ^ h]) = Inr (?T ! 1)"
    using pos by (simp add: root_from_leaves_def Let_def)
  then have "root_from_leaves (hash_fn E) (map (\<lambda>i. the (leaf_public_key E seed i)) [0..<2 ^ h])
      = Inr (mk_master_pk ?kp)"
    by (simp add: leaf_def [abs_def] key_at_def)
  then show ?thesis using kp progress by blast
qed

text \<open>A signature's bytes parse back to it and nothing else does, as long as its path has a node: then the
  parser takes exactly the bytes it writes. With an empty path it ignores whatever follows, so such a
  signature has many encodings.\<close>

theorem mss_bytes_parse:
  "mss_from_bytes bs = Inr sig \<longleftrightarrow>
     mss_wf sig \<and> (\<exists>junk. bs = mss_to_bytes sig @ junk \<and> (ms_auth_path sig \<noteq> [] \<longrightarrow> junk = []))"
  using mss_from_bytes_sound mss_from_to_bytes by blast

theorem mss_signatures_verify_witness:
  "\<exists>kp. mss_keygen sample_machine None 1 1 = Inr kp \<and>
    (\<exists>sigs kp'. sign_all sample_machine [5, 6] kp = Inr (sigs, kp') \<and> mss_remaining kp' = 0 \<and>
      list_all2 (\<lambda>msg sig. mss_verify sample_machine sig msg (mk_master_pk kp) = Some True \<and>
        recover_master_pk (hash_fn sample_machine) sig = mk_master_pk kp) [5, 6] sigs \<and>
      map ms_leaf_index sigs = [0, 1]) \<and>
    sign_all sample_machine [5, 6, 7] kp = Inl TreeExhausted"
proof -
  have cp: "checkpoint_of sample_machine 1 (2 ^ 1) None" by (simp add: checkpoint_of_def)
  obtain kp where kp: "mss_keygen sample_machine None 1 1 = Inr kp"
    using mss_keygen_tree [OF sample_machine_ok cp] by (auto simp: MAX_HEIGHT_def)
  have "[0..<2] = [0, 1::nat]" by code_simp
  then show ?thesis
    using mss_signatures_verify [OF sample_machine_ok cp kp, of "[5, 6]"]
      mss_signatures_verify [OF sample_machine_ok cp kp, of "[5, 6, 7]"] kp
    by simp
qed

theorem mss_generation_agrees_witness:
  "\<exists>kp. mss_keygen sample_machine (Some [0, 0]) 1 1 = Inr kp \<and> mss_keygen sample_machine None 1 1 = Inr kp \<and>
    (\<exists>calls. keygen_with_progress sample_machine 1 1 = Inr (kp, calls) \<and> last calls = (2, 2)) \<and>
    root_from_leaves (hash_fn sample_machine) (map (\<lambda>i. the (leaf_public_key sample_machine 1 i)) [0..<2])
      = Inr (mk_master_pk kp)"
proof -
  have "checkpoint_of sample_machine 1 (2 ^ 1) (Some [0, 0])"
    by (auto simp: checkpoint_of_def numeral_2_eq_2 intro!: exI [of _ 0])
  from mss_generation_agrees [OF sample_machine_ok this] show ?thesis by (simp add: MAX_HEIGHT_def)
qed

definition sample_mss_signature :: MssSignature where
  "sample_mss_signature = \<lparr>ms_leaf_index = 0, ms_wots_pk = 7, ms_wots_sig = replicate CHAINS 3, ms_auth_path = []\<rparr>"

theorem mss_bytes_parse_witness:
  "mss_from_bytes (mss_to_bytes sample_mss_signature @ [1, 2, 3]) = Inr sample_mss_signature"
  using mss_bytes_parse [of "mss_to_bytes sample_mss_signature @ [1, 2, 3]" sample_mss_signature]
  by (simp add: mss_wf_def sample_mss_signature_def MAX_HEIGHT_def)

end
