(* ===== verification/Block_Filter.thy ===== *)
theory Block_Filter
  imports Chain_State
begin

text \<open>Compact block filters (\<^verbatim>\<open>src/src/core/filter.rs\<close>): the Golomb-Rice coded set of hashed
  items that a light wallet asks about a block. The bit writer and reader are records of a byte
  buffer and a position; the lemmas relate both to plain lists of bits, and the codec's
  correctness is proved there. A modulus that wraps to zero is the Rust panic on division by
  zero, here \<open>None\<close>.\<close>

subsection \<open>Bit buffers\<close>

definition FPR_INVERSE :: nat where "FPR_INVERSE = 1000000"

definition FILTER_P :: nat where "FILTER_P = 20"

record BitWriter =
  buffer :: bytes
  current_byte :: byte
  bits_in_byte :: nat

definition BitWriter_new :: BitWriter where
  "BitWriter_new = \<lparr>buffer = [], current_byte = 0, bits_in_byte = 0\<rparr>"

definition write_bit :: "BitWriter \<Rightarrow> bool \<Rightarrow> BitWriter" where
  "write_bit w b =
     (let cur = (if b then or (current_byte w) (push_bit (7 - bits_in_byte w) 1) else current_byte w);
          used = bits_in_byte w + 1
      in if used = 8 then \<lparr>buffer = buffer w @ [cur], current_byte = 0, bits_in_byte = 0\<rparr>
         else w\<lparr>current_byte := cur, bits_in_byte := used\<rparr>)"

definition write_bits :: "BitWriter \<Rightarrow> nat \<Rightarrow> nat \<Rightarrow> BitWriter" where
  "write_bits w value n = foldl (\<lambda>w i. write_bit w (odd (value div 2 ^ i))) w (rev [0..<n])"

definition into_bytes :: "BitWriter \<Rightarrow> bytes" where
  "into_bytes w = (if bits_in_byte w > 0 then buffer w @ [current_byte w] else buffer w)"

definition encode_golomb :: "BitWriter \<Rightarrow> nat \<Rightarrow> BitWriter" where
  "encode_golomb w value =
     (let quot = value div 2 ^ FILTER_P; remainder = value mod 2 ^ FILTER_P;
          w = ((\<lambda>w. write_bit w True) ^^ quot) w
      in write_bits (write_bit w False) remainder FILTER_P)"

record BitReader =
  rd_data :: bytes
  byte_index :: nat
  bit_index :: nat

definition BitReader_new :: "bytes \<Rightarrow> BitReader" where
  "BitReader_new data = \<lparr>rd_data = data, byte_index = 0, bit_index = 0\<rparr>"

definition read_bit :: "BitReader \<Rightarrow> (bool \<times> BitReader) option" where
  "read_bit r =
     (if byte_index r \<ge> length (rd_data r) then None
      else let b = odd (drop_bit (7 - bit_index r) (rd_data r ! byte_index r));
               used = bit_index r + 1
           in Some (b, if used = 8 then r\<lparr>bit_index := 0, byte_index := byte_index r + 1\<rparr>
                       else r\<lparr>bit_index := used\<rparr>))"

text \<open>The accumulator shifts as a u64 does; the bit or-ed in lands on a zero.\<close>

fun read_bits_from :: "nat \<Rightarrow> nat \<Rightarrow> BitReader \<Rightarrow> (nat \<times> BitReader) option" where
  "read_bits_from value 0 r = Some (value, r)"
| "read_bits_from value (Suc n) r =
     (case read_bit r of
        None \<Rightarrow> None
      | Some (b, r') \<Rightarrow> read_bits_from (2 * value mod 2 ^ 64 + of_bool b) n r')"

definition read_bits :: "BitReader \<Rightarrow> nat \<Rightarrow> (nat \<times> BitReader) option" where
  "read_bits r n = read_bits_from 0 n r"

text \<open>The unary quotient. Every round consumes a bit, so one round more than the buffer has bits
  always reaches a zero bit or the end (\<open>read_ones_enough\<close>).\<close>

fun read_ones :: "nat \<Rightarrow> nat \<Rightarrow> BitReader \<Rightarrow> (nat \<times> BitReader) option" where
  "read_ones 0 quot r = None"
| "read_ones (Suc fuel) quot r =
     (case read_bit r of
        Some (True, r') \<Rightarrow> read_ones fuel (quot + 1) r'
      | Some (False, r') \<Rightarrow> Some (quot, r')
      | None \<Rightarrow> None)"

definition decode_golomb :: "BitReader \<Rightarrow> (nat \<times> BitReader) option" where
  "decode_golomb r =
     (case read_ones (8 * length (rd_data r) + 1) 0 r of
        None \<Rightarrow> None
      | Some (quot, r') \<Rightarrow>
          (case read_bits r' FILTER_P of
             None \<Rightarrow> None
           | Some (remainder, r'') \<Rightarrow> Some (quot * 2 ^ FILTER_P mod 2 ^ 64 + remainder, r'')))"

subsection \<open>The filter of a block\<close>

text \<open>The hash set of the source, in the order its members are first inserted; the filter does not
  depend on the order (\<open>filter_of_items_mset\<close>).\<close>

definition items_in :: "hasher \<Rightarrow> Batch \<Rightarrow> h256 list" where
  "items_in H b = remdups
     (concat (map (\<lambda>i. [i_commitment i, i_owner_key i]) (inputs (tx_body (bt_body b))))
      @ concat (map (\<lambda>out. [o_commitment out, o_owner_key out]) (Transaction_outputs (bt_body b)))
      @ kernel_ids H (bt_body b)
      @ (case bt_coinbase b of
           Some cb \<Rightarrow> concat (map (\<lambda>out. [o_commitment out, o_owner_key out]) (group_outputs (cb_outputs cb)))
                      @ [Kernel_id H (cb_kernel cb)]
         | None \<Rightarrow> []))"

definition filter_modulus :: "nat \<Rightarrow> nat" where
  "filter_modulus n = n * FPR_INVERSE mod 2 ^ 64"

definition filter_hash :: "hasher \<Rightarrow> h256 \<Rightarrow> nat \<Rightarrow> h256 \<Rightarrow> nat" where
  "filter_hash H key modulus item =
     of_le_bytes (take 8 (be_bytes (hash_concat H (be_bytes key) (be_bytes item)))) mod modulus"

fun encode_hashes :: "BitWriter \<Rightarrow> nat \<Rightarrow> nat list \<Rightarrow> BitWriter" where
  "encode_hashes w prev [] = w"
| "encode_hashes w prev (h # hs) = encode_hashes (encode_golomb w (h - prev)) h hs"

definition filter_of_items :: "hasher \<Rightarrow> h256 \<Rightarrow> h256 list \<Rightarrow> bytes option" where
  "filter_of_items H key items =
     (let n = length items in
      if n = 0 then Some []
      else let modulus = filter_modulus n in
           if modulus = 0 then None
           else Some (into_bytes (encode_hashes BitWriter_new 0 (sort (map (filter_hash H key modulus) items)))))"

definition CompactFilter_build :: "hasher \<Rightarrow> Batch \<Rightarrow> bytes option" where
  "CompactFilter_build H b = filter_of_items H (ext_final_hash (bt_extension b)) (items_in H b)"

fun decode_deltas :: "nat \<Rightarrow> BitReader \<Rightarrow> nat \<Rightarrow> nat list" where
  "decode_deltas 0 r cumulative = []"
| "decode_deltas (Suc n) r cumulative =
     (case decode_golomb r of
        Some (delta, r') \<Rightarrow> add64 cumulative delta # decode_deltas n r' (add64 cumulative delta)
      | None \<Rightarrow> [])"

definition decode_filter :: "bytes \<Rightarrow> nat \<Rightarrow> nat list" where
  "decode_filter data n =
     (if data = [] \<or> n = 0 then [] else decode_deltas n (BitReader_new data) 0)"

text \<open>The query hashes from index \<open>qi\<close> on stand for the index.\<close>

fun match_loop :: "nat \<Rightarrow> BitReader \<Rightarrow> nat \<Rightarrow> nat list \<Rightarrow> bool" where
  "match_loop 0 r cumulative queries = False"
| "match_loop (Suc n) r cumulative queries =
     (if queries = [] then False
      else case decode_golomb r of
             None \<Rightarrow> False
           | Some (delta, r') \<Rightarrow>
               let cumulative = add64 cumulative delta;
                   queries = dropWhile (\<lambda>q. q < cumulative) queries
               in if queries \<noteq> [] \<and> hd queries = cumulative then True
                  else match_loop n r' cumulative queries)"

definition match_any :: "hasher \<Rightarrow> bytes \<Rightarrow> h256 \<Rightarrow> nat \<Rightarrow> h256 list \<Rightarrow> bool option" where
  "match_any H data key n items =
     (if data = [] \<or> n = 0 \<or> items = [] then Some False
      else let modulus = filter_modulus n in
           if modulus = 0 then None
           else Some (match_loop n (BitReader_new data) 0
                        (remdups_adj (sort (map (filter_hash H key modulus) items)))))"

subsection \<open>Buffers as lists of bits\<close>

definition byte_bits :: "byte \<Rightarrow> bool list" where
  "byte_bits b = map (\<lambda>i. bit b (7 - i)) [0..<8]"

definition all_bits :: "bytes \<Rightarrow> bool list" where
  "all_bits bs = concat (map byte_bits bs)"

definition writer_bits :: "BitWriter \<Rightarrow> bool list" where
  "writer_bits w = all_bits (buffer w) @ take (bits_in_byte w) (byte_bits (current_byte w))"

definition writer_ok :: "BitWriter \<Rightarrow> bool" where
  "writer_ok w \<longleftrightarrow> bits_in_byte w < 8 \<and> (\<forall>i < 8 - bits_in_byte w. \<not> bit (current_byte w) i)"

definition reader_ok :: "BitReader \<Rightarrow> bool" where
  "reader_ok r \<longleftrightarrow> bit_index r < 8 \<and> (byte_index r \<ge> length (rd_data r) \<longrightarrow> bit_index r = 0)"

definition reader_rest :: "BitReader \<Rightarrow> bool list" where
  "reader_rest r = drop (8 * byte_index r + bit_index r) (all_bits (rd_data r))"

lemma length_byte_bits [simp]: "length (byte_bits b) = 8"
  by (simp add: byte_bits_def)

lemma length_all_bits [simp]: "length (all_bits bs) = 8 * length bs"
  by (induction bs) (simp_all add: all_bits_def)

lemma all_bits_append: "all_bits (as @ bs) = all_bits as @ all_bits bs"
  by (simp add: all_bits_def)

lemma all_bits_single: "all_bits [b] = byte_bits b"
  by (simp add: all_bits_def)

lemma drop_all_bits: "drop (8 * k) (all_bits bs) = all_bits (drop k bs)"
proof (induction bs arbitrary: k)
  case (Cons b bs)
  show ?case
  proof (cases k)
    case (Suc j)
    have "drop (8 * Suc j) (byte_bits b @ all_bits bs) = drop (8 * j) (all_bits bs)"
      by (simp add: drop_append)
    then show ?thesis using Suc Cons.IH [of j] by (simp add: all_bits_def)
  qed simp
qed (simp add: all_bits_def)

lemma all_bits_nth:
  assumes "i < length bs" and "j < 8"
  shows "all_bits bs ! (8 * i + j) = bit (bs ! i) (7 - j)"
proof -
  have len: "8 * i + j < 8 * length bs" using assms by simp
  have "all_bits bs ! (8 * i + j) = drop (8 * i) (all_bits bs) ! j"
    using len by simp
  also have "\<dots> = all_bits (bs ! i # drop (Suc i) bs) ! j"
    using assms(1) by (simp only: drop_all_bits Cons_nth_drop_Suc)
  also have "\<dots> = byte_bits (bs ! i) ! j"
    using assms(2) by (simp add: all_bits_def nth_append)
  finally show ?thesis using assms(2) by (simp add: byte_bits_def)
qed

lemma read_bit_rest:
  assumes "reader_ok r"
  shows "(reader_rest r = [] \<and> read_bit r = None)
       \<or> (\<exists>r'. read_bit r = Some (hd (reader_rest r), r') \<and> reader_ok r'
              \<and> reader_rest r \<noteq> [] \<and> reader_rest r' = tl (reader_rest r) \<and> rd_data r' = rd_data r)"
proof (cases "byte_index r \<ge> length (rd_data r)")
  case True
  then show ?thesis by (simp add: read_bit_def reader_rest_def)
next
  case False
  let ?p = "8 * byte_index r + bit_index r"
  have j: "bit_index r < 8" using assms by (simp add: reader_ok_def)
  have len: "?p < 8 * length (rd_data r)" using False j by simp
  have hd: "hd (reader_rest r) = bit (rd_data r ! byte_index r) (7 - bit_index r)"
    using len False j by (simp add: reader_rest_def hd_drop_conv_nth all_bits_nth)
  have "odd (drop_bit (7 - bit_index r) (rd_data r ! byte_index r))
      = bit (rd_data r ! byte_index r) (7 - bit_index r)"
    by (simp add: bit_iff_odd_drop_bit)
  moreover have "tl (reader_rest r) = drop (Suc ?p) (all_bits (rd_data r))"
    by (simp add: reader_rest_def drop_Suc tl_drop)
  moreover have "reader_rest r \<noteq> []" using len by (simp add: reader_rest_def)
  ultimately show ?thesis
    using False j hd
    by (auto simp: read_bit_def Let_def reader_ok_def reader_rest_def)
qed


lemma write_bit_bits:
  assumes "writer_ok w"
  shows "writer_ok (write_bit w b)" and "writer_bits (write_bit w b) = writer_bits w @ [b]"
proof -
  let ?k = "bits_in_byte w" and ?c = "current_byte w"
  let ?cur = "if b then or ?c (push_bit (7 - ?k) 1) else ?c"
  have k: "?k < 8" and zero: "\<And>i. i < 8 - ?k \<Longrightarrow> \<not> bit ?c i"
    using assms by (simp_all add: writer_ok_def)
  have cur: "bit ?cur i \<longleftrightarrow> bit ?c i \<or> b \<and> i = 7 - ?k" if "i < 8" for i
    using that by (auto simp: bit_or_iff bit_exp_iff possible_bit_word)
  have "take (Suc ?k) (byte_bits ?cur) = take ?k (byte_bits ?cur) @ [byte_bits ?cur ! ?k]"
    using k by (simp add: take_Suc_conv_app_nth)
  also have "take ?k (byte_bits ?cur) = take ?k (byte_bits ?c)"
    by (rule nth_equalityI) (use k cur in \<open>auto simp: byte_bits_def\<close>)
  also have "byte_bits ?cur ! ?k = b"
    using k cur [of "7 - ?k"] zero [of "7 - ?k"] by (simp add: byte_bits_def)
  finally have ext: "take (Suc ?k) (byte_bits ?cur) = take ?k (byte_bits ?c) @ [b]" .
  show "writer_ok (write_bit w b)"
    using k zero cur by (auto simp: write_bit_def Let_def writer_ok_def)
  show "writer_bits (write_bit w b) = writer_bits w @ [b]"
  proof (cases "Suc ?k = 8")
    case True
    then have "byte_bits ?cur = take ?k (byte_bits ?c) @ [b]"
      using ext by simp
    then show ?thesis
      using True by (simp add: write_bit_def Let_def writer_bits_def all_bits_append all_bits_single)
  next
    case False
    then show ?thesis
      using ext by (simp add: write_bit_def Let_def writer_bits_def)
  qed
qed

lemma BitWriter_new_bits [simp]: "writer_ok BitWriter_new" "writer_bits BitWriter_new = []"
  by (simp_all add: BitWriter_new_def writer_ok_def writer_bits_def all_bits_def)

text \<open>The bits of a value, most significant first.\<close>

definition value_bits :: "nat \<Rightarrow> nat \<Rightarrow> bool list" where
  "value_bits v n = map (\<lambda>i. odd (v div 2 ^ i)) (rev [0..<n])"

lemma value_bits_Suc: "value_bits v (Suc n) = odd (v div 2 ^ n) # value_bits v n"
  by (simp add: value_bits_def)

lemma foldl_write_bit:
  assumes "writer_ok w"
  shows "writer_ok (foldl (\<lambda>w i. write_bit w (f i)) w xs)"
    and "writer_bits (foldl (\<lambda>w i. write_bit w (f i)) w xs) = writer_bits w @ map f xs"
  using assms by (induction xs arbitrary: w) (simp_all add: write_bit_bits)

lemma write_bits_bits:
  assumes "writer_ok w"
  shows "writer_ok (write_bits w v n)" and "writer_bits (write_bits w v n) = writer_bits w @ value_bits v n"
  using foldl_write_bit [OF assms] by (simp_all add: write_bits_def value_bits_def)

lemma write_ones_bits:
  assumes "writer_ok w"
  shows "writer_ok (((\<lambda>w. write_bit w True) ^^ q) w)"
    and "writer_bits (((\<lambda>w. write_bit w True) ^^ q) w) = writer_bits w @ replicate q True"
  using assms by (induction q) (simp_all add: write_bit_bits replicate_append_same)

lemma into_bytes_bits:
  assumes "writer_ok w"
  obtains pad where "all_bits (into_bytes w) = writer_bits w @ pad"
proof -
  have "all_bits (into_bytes w) = writer_bits w @ (if bits_in_byte w > 0 then drop (bits_in_byte w) (byte_bits (current_byte w)) else [])"
    by (simp add: into_bytes_def writer_bits_def all_bits_append all_bits_single)
  then show thesis using that by blast
qed

subsection \<open>The Golomb-Rice code\<close>

text \<open>The code word of a value, as the format defines it.\<close>

definition code_word :: "nat \<Rightarrow> bool list" where
  "code_word v = replicate (v div 2 ^ FILTER_P) True @ False # value_bits (v mod 2 ^ FILTER_P) FILTER_P"

lemma code_word_nonempty [simp]: "code_word v \<noteq> []"
  by (simp add: code_word_def)

lemma encode_golomb_bits:
  assumes "writer_ok w"
  shows "writer_ok (encode_golomb w v)" and "writer_bits (encode_golomb w v) = writer_bits w @ code_word v"
  by (simp_all add: encode_golomb_def Let_def code_word_def write_bits_bits write_bit_bits write_ones_bits assms)

lemma read_bit_Cons:
  assumes "reader_ok r" and "reader_rest r = b # bs"
  obtains r' where "read_bit r = Some (b, r')" and "reader_ok r'" and "reader_rest r' = bs"
    and "rd_data r' = rd_data r"
  using read_bit_rest [OF assms(1)] assms(2) by auto

lemma read_bits_from_value:
  assumes "reader_ok r" and "reader_rest r = value_bits v n @ bs" and "(a + 1) * 2 ^ n \<le> 2 ^ 64"
  shows "\<exists>r'. read_bits_from a n r = Some (a * 2 ^ n + v mod 2 ^ n, r') \<and> reader_ok r' \<and> reader_rest r' = bs
      \<and> rd_data r' = rd_data r"
  using assms
proof (induction n arbitrary: a r)
  case (Suc n)
  let ?b = "odd (v div 2 ^ n)"
  obtain r' where r': "read_bit r = Some (?b, r')" "reader_ok r'" "reader_rest r' = value_bits v n @ bs"
      "rd_data r' = rd_data r"
    using Suc.prems by (auto simp: value_bits_Suc elim: read_bit_Cons)
  let ?a = "2 * a + of_bool ?b"
  have le: "(2 * a + 2) * 2 ^ n \<le> 2 ^ 64" using Suc.prems(3) by (simp add: algebra_simps)
  have "(2 * a + 2) * 1 \<le> (2 * a + 2) * (2::nat) ^ n" by (intro mult_le_mono) auto
  then have "2 * a + 2 \<le> 2 ^ 64" using le by (simp only: mult_1_right)
  then have "2 * a < 2 ^ 64" by simp
  then have shift: "2 * a mod 2 ^ 64 + of_bool ?b = ?a" by simp
  have "(?a + 1) * 2 ^ n \<le> (2 * a + 2) * 2 ^ n" by (intro mult_le_mono1) simp
  then have "(?a + 1) * 2 ^ n \<le> 2 ^ 64" using le by linarith
  from Suc.IH [OF r'(2,3) this]
  obtain r'' where r'': "read_bits_from ?a n r' = Some (?a * 2 ^ n + v mod 2 ^ n, r'')" "reader_ok r''"
      "reader_rest r'' = bs" "rd_data r'' = rd_data r'"
    by blast
  have "v mod 2 ^ Suc n = of_bool ?b * 2 ^ n + v mod 2 ^ n"
    using mod_mult2_eq [of v "2 ^ n" 2] by (simp add: of_bool_odd_eq_mod_2 mult.commute)
  then have "?a * 2 ^ n + v mod 2 ^ n = a * 2 ^ Suc n + v mod 2 ^ Suc n"
    by (simp add: algebra_simps)
  moreover have "read_bits_from a (Suc n) r = read_bits_from ?a n r'"
    by (simp only: read_bits_from.simps r'(1) option.case prod.case shift)
  ultimately show ?case using r'(4) r'' by (metis (no_types, lifting))
qed (simp add: value_bits_def)

lemma read_ones_enough:
  assumes "reader_ok r" and "reader_rest r = replicate q True @ False # bs" and "q < fuel"
  shows "\<exists>r'. read_ones fuel a r = Some (a + q, r') \<and> reader_ok r' \<and> reader_rest r' = bs
      \<and> rd_data r' = rd_data r"
  using assms
proof (induction q arbitrary: a r fuel)
  case 0
  then obtain r' where "read_bit r = Some (False, r')" "reader_ok r'" "reader_rest r' = bs" "rd_data r' = rd_data r"
    by (auto elim: read_bit_Cons)
  then show ?case using 0 by (cases fuel) auto
next
  case (Suc q)
  then obtain r' where r': "read_bit r = Some (True, r')" "reader_ok r'"
      "reader_rest r' = replicate q True @ False # bs" "rd_data r' = rd_data r"
    by (auto elim: read_bit_Cons)
  obtain f where f: "fuel = Suc f" "q < f" using Suc.prems(3) by (cases fuel) auto
  from Suc.IH [OF r'(2,3) f(2), of "a + 1"] show ?case using r' f by (auto simp: ac_simps)
qed

lemma decode_golomb_code_word:
  assumes "reader_ok r" and "reader_rest r = code_word v @ bs" and "v < 2 ^ 64"
  shows "\<exists>r'. decode_golomb r = Some (v, r') \<and> reader_ok r' \<and> reader_rest r' = bs"
proof -
  let ?q = "v div 2 ^ FILTER_P"
  have "length (reader_rest r) \<le> 8 * length (rd_data r)" by (simp add: reader_rest_def)
  then have fuel: "?q < 8 * length (rd_data r) + 1" using assms(2) by (simp add: code_word_def)
  obtain r1 where r1: "read_ones (8 * length (rd_data r) + 1) 0 r = Some (?q, r1)" "reader_ok r1"
      "reader_rest r1 = value_bits (v mod 2 ^ FILTER_P) FILTER_P @ bs"
    using read_ones_enough [OF assms(1) _ fuel, of "value_bits (v mod 2 ^ FILTER_P) FILTER_P @ bs" 0] assms(2)
    by (auto simp: code_word_def)
  have "((0::nat) + 1) * 2 ^ FILTER_P \<le> 2 ^ 64" by (simp add: FILTER_P_def)
  from read_bits_from_value [OF r1(2,3) this]
  obtain r2 where r2: "read_bits r1 FILTER_P = Some (v mod 2 ^ FILTER_P, r2)" "reader_ok r2" "reader_rest r2 = bs"
    by (auto simp: read_bits_def)
  have "?q * 2 ^ FILTER_P \<le> v" by (simp add: div_times_less_eq_dividend)
  then have "?q * 2 ^ FILTER_P mod 2 ^ 64 = ?q * 2 ^ FILTER_P"
    by (intro mod_less le_less_trans [OF _ assms(3)])
  then have "?q * 2 ^ FILTER_P mod 2 ^ 64 + v mod 2 ^ FILTER_P = v"
    by (simp only: div_mult_mod_eq)
  then show ?thesis using r1(1) r2 by (simp add: decode_golomb_def)
qed


subsection \<open>Filters\<close>

fun deltas :: "nat \<Rightarrow> nat list \<Rightarrow> nat list" where
  "deltas prev [] = []"
| "deltas prev (h # hs) = (h - prev) # deltas h hs"

lemma encode_hashes_bits:
  assumes "writer_ok w"
  shows "writer_ok (encode_hashes w prev hs)"
    and "writer_bits (encode_hashes w prev hs) = writer_bits w @ concat (map code_word (deltas prev hs))"
  using assms by (induction hs arbitrary: w prev) (simp_all add: encode_golomb_bits)

text \<open>A reader whose rest is the code of a sorted list.\<close>

definition codes :: "BitReader \<Rightarrow> nat \<Rightarrow> nat list \<Rightarrow> bool" where
  "codes r prev hs \<longleftrightarrow>
     reader_ok r \<and> sorted (prev # hs) \<and> (\<forall>h \<in> set hs. h < 2 ^ 64) \<and>
     (\<exists>pad. reader_rest r = concat (map code_word (deltas prev hs)) @ pad)"

lemma codes_Cons:
  assumes "codes r prev (h # hs)"
  obtains r' where "decode_golomb r = Some (h - prev, r')" and "add64 prev (h - prev) = h" and "codes r' h hs"
proof -
  have le: "prev \<le> h" "h < 2 ^ 64" and ok: "reader_ok r" using assms by (auto simp: codes_def)
  obtain pad where pad: "reader_rest r = code_word (h - prev) @ concat (map code_word (deltas h hs)) @ pad"
    using assms by (auto simp: codes_def)
  have "h - prev < 2 ^ 64" using le by simp
  from decode_golomb_code_word [OF ok pad this]
  obtain r' where "decode_golomb r = Some (h - prev, r')" "reader_ok r'"
      "reader_rest r' = concat (map code_word (deltas h hs)) @ pad"
    by blast
  moreover have "add64 prev (h - prev) = h" using le by (simp add: add64_def)
  ultimately show thesis using that assms by (auto simp: codes_def)
qed

lemma decode_deltas_codes: "codes r prev hs \<Longrightarrow> decode_deltas (length hs) r prev = hs"
proof (induction hs arbitrary: r prev)
  case (Cons h hs)
  from codes_Cons [OF Cons.prems] Cons.IH show ?case by (metis (no_types, lifting) decode_deltas.simps(2) length_Cons option.simps(5) split_conv)
qed simp

text \<open>The merge walk finds a common element of two ascending lists exactly when there is one.\<close>

lemma dropWhile_less_set:
  assumes "sorted qs"
  shows "set (dropWhile (\<lambda>q. q < c) qs) = {q \<in> set qs. c \<le> (q :: nat)}"
  using assms by (induction qs) (auto simp: order.order_iff_strict)

lemma match_loop_codes:
  assumes "codes r prev hs" and "sorted qs"
  shows "match_loop (length hs) r prev qs \<longleftrightarrow> set qs \<inter> set hs \<noteq> {}"
  using assms
proof (induction hs arbitrary: r prev qs)
  case (Cons h hs)
  obtain r' where r': "decode_golomb r = Some (h - prev, r')" "add64 prev (h - prev) = h" "codes r' h hs"
    using codes_Cons [OF Cons.prems(1)] by blast
  let ?qs = "dropWhile (\<lambda>q. q < h) qs"
  have qs: "set ?qs = {q \<in> set qs. h \<le> q}" by (rule dropWhile_less_set [OF Cons.prems(2)])
  have sorted: "sorted ?qs" using Cons.prems(2) by (rule sorted_dropWhile)
  have hs: "\<forall>x \<in> set hs. h \<le> x" using Cons.prems(1) by (auto simp: codes_def)
  have rest: "set ?qs \<inter> set hs = set qs \<inter> set hs" using qs hs by auto
  have "h \<in> set qs \<longleftrightarrow> h \<in> set ?qs" using qs by simp
  also have "\<dots> \<longleftrightarrow> ?qs \<noteq> [] \<and> hd ?qs = h"
  proof (cases ?qs)
    case (Cons q qs')
    then have "h \<le> q" using qs by (metis (mono_tags, lifting) list.set_intros(1) mem_Collect_eq)
    then show ?thesis using Cons sorted by auto
  qed (simp only: list.set simp_thms empty_iff)
  finally have hd: "h \<in> set qs \<longleftrightarrow> ?qs \<noteq> [] \<and> hd ?qs = h" .
  show ?case
  proof (cases "qs = []")
    case False
    then show ?thesis
      using r' hd rest Cons.IH [OF r'(3) sorted] by (auto simp: Let_def)
  qed simp
qed simp

lemma deltas_Nil [simp]: "deltas p hs = [] \<longleftrightarrow> hs = []"
  by (cases hs) simp_all

lemma filter_hash_less: "0 < m \<Longrightarrow> m \<le> 2 ^ 64 \<Longrightarrow> filter_hash H key m x < 2 ^ 64"
  by (rule less_le_trans [of _ m]) (simp_all add: filter_hash_def)

lemma filter_modulus_le: "filter_modulus n \<le> 2 ^ 64"
  unfolding filter_modulus_def by (rule order.strict_implies_order) simp

lemma filter_of_items_codes:
  assumes "filter_of_items H key items = Some data" and "items \<noteq> []"
  shows "data \<noteq> []" and "filter_modulus (length items) \<noteq> 0"
    and "codes (BitReader_new data) 0 (sort (map (filter_hash H key (filter_modulus (length items))) items))"
proof -
  let ?m = "filter_modulus (length items)" and ?hs = "sort (map (filter_hash H key (filter_modulus (length items))) items)"
  show m: "?m \<noteq> 0" and data: "codes (BitReader_new data) 0 ?hs"
  proof -
    show m: "?m \<noteq> 0" using assms by (auto simp: filter_of_items_def Let_def split: if_splits)
    then have data: "data = into_bytes (encode_hashes BitWriter_new 0 ?hs)"
      using assms by (simp add: filter_of_items_def Let_def)
    obtain pad where "all_bits data = concat (map code_word (deltas 0 ?hs)) @ pad"
      using into_bytes_bits [OF encode_hashes_bits(1) [OF BitWriter_new_bits(1)], of 0 ?hs]
      by (auto simp: data encode_hashes_bits(2) [OF BitWriter_new_bits(1)])
    moreover have "\<forall>h \<in> set ?hs. h < 2 ^ 64"
      using filter_hash_less [of ?m] m filter_modulus_le [of "length items"] by auto
    moreover have "data \<noteq> [] \<Longrightarrow> reader_ok (BitReader_new data)" "data = [] \<Longrightarrow> reader_ok (BitReader_new data)"
      by (simp_all add: BitReader_new_def reader_ok_def)
    ultimately show "codes (BitReader_new data) 0 ?hs"
      by (auto simp: codes_def BitReader_new_def reader_rest_def)
  qed
  show "data \<noteq> []"
  proof
    assume "data = []"
    then have "concat (map code_word (deltas 0 ?hs)) = []"
      using data by (auto simp: codes_def reader_rest_def BitReader_new_def all_bits_def)
    then show False using assms(2) by (cases ?hs) (auto dest: arg_cong [where f = length])
  qed
qed

text \<open>The order in which the hash set is walked does not reach the filter.\<close>

lemma filter_of_items_mset: "mset items = mset items' \<Longrightarrow> filter_of_items H key items = filter_of_items H key items'"
proof -
  assume eq: "mset items = mset items'"
  then have "length items = length items'" by (rule mset_eq_length)
  moreover have "sort (map f items) = sort (map f items')" for f :: "h256 \<Rightarrow> nat"
    by (rule properties_for_sort) (simp_all add: eq)
  ultimately show ?thesis by (simp add: filter_of_items_def Let_def)
qed

lemma decode_built:
  assumes "filter_of_items H key items = Some data"
  shows "decode_filter data (length items)
       = sort (map (filter_hash H key (filter_modulus (length items))) items)"
proof (cases "items = []")
  case False
  with decode_deltas_codes [OF filter_of_items_codes(3) [OF assms False]] filter_of_items_codes(1) [OF assms False]
  show ?thesis by (simp add: decode_filter_def)
qed (simp add: decode_filter_def)

lemma match_built:
  assumes "filter_of_items H key items = Some data"
  shows "match_any H data key (length items) queries
       = Some (\<exists>q \<in> set queries. \<exists>i \<in> set items.
           filter_hash H key (filter_modulus (length items)) q = filter_hash H key (filter_modulus (length items)) i)"
proof (cases "items = [] \<or> queries = []")
  case False
  let ?f = "filter_hash H key (filter_modulus (length items))"
  have "items \<noteq> []" using False by simp
  note c = filter_of_items_codes [OF assms this]
  have "match_loop (length items) (BitReader_new data) 0 (remdups_adj (sort (map ?f queries)))
      \<longleftrightarrow> ?f ` set queries \<inter> ?f ` set items \<noteq> {}"
    using match_loop_codes [OF c(3), of "remdups_adj (sort (map ?f queries))"] by (simp add: sorted_remdups_adj)
  then show ?thesis using False c(1,2) by (simp add: match_any_def Let_def) blast
qed (auto simp: match_any_def)


lemma match_any_panic_iff:
  "match_any H data key n queries = None \<longleftrightarrow> data \<noteq> [] \<and> n \<noteq> 0 \<and> queries \<noteq> [] \<and> 2 ^ 58 dvd n"
proof -
  have "filter_modulus n = 0 \<longleftrightarrow> (2 ^ 58 * 2 ^ 6 :: nat) dvd (n * 15625) * 2 ^ 6"
    by (simp add: filter_modulus_def FPR_INVERSE_def mod_eq_0_iff_dvd mult.assoc)
  also have "\<dots> \<longleftrightarrow> (2 ^ 58 :: nat) dvd n * 15625"
    by (rule dvd_times_right_cancel_iff) simp
  also have "\<dots> \<longleftrightarrow> (2 ^ 58 :: nat) dvd n"
  proof (rule coprime_dvd_mult_left_iff)
    have "coprime (2 :: nat) 15625" by (simp add: coprime_left_2_iff_odd)
    then show "coprime (2 ^ 58 :: nat) 15625" by (rule coprime_power_left_iff [THEN iffD2, OF disjI1])
  qed
  finally show ?thesis by (auto simp: match_any_def Let_def)
qed

subsection \<open>Properties\<close>

text \<open>A filter decodes to the ascending list of the block's item hashes, and to nothing else.\<close>

theorem filter_decodes_to_hashes:
  assumes "CompactFilter_build H b = Some data"
  shows "decode_filter data (length (items_in H b))
       = sort (map (filter_hash H (ext_final_hash (bt_extension b)) (filter_modulus (length (items_in H b)))) (items_in H b))"
  using assms unfolding CompactFilter_build_def by (rule decode_built)

text \<open>C38. A light wallet's question is answered yes exactly when one of its items hashes to the same value
  as an item of the block: there is no false negative, and a false positive is a hash collision.\<close>

theorem filter_matches_exactly:
  assumes "CompactFilter_build H b = Some data"
  shows "match_any H data (ext_final_hash (bt_extension b)) (length (items_in H b)) queries
       = Some (\<exists>q \<in> set queries. \<exists>i \<in> set (items_in H b).
           filter_hash H (ext_final_hash (bt_extension b)) (filter_modulus (length (items_in H b))) q
           = filter_hash H (ext_final_hash (bt_extension b)) (filter_modulus (length (items_in H b))) i)"
  using assms unfolding CompactFilter_build_def by (rule match_built)

text \<open>The element count a light client passes on is multiplied by the false positive rate in 64 bits; the
  matcher divides by the product, so a count that is a multiple of 2^58 makes it panic. No other input
  does.\<close>

theorem filter_match_panics:
  "match_any H data key n queries = None \<longleftrightarrow> data \<noteq> [] \<and> n \<noteq> 0 \<and> queries \<noteq> [] \<and> 2 ^ 58 dvd n"
  by (rule match_any_panic_iff)

subsection \<open>Witnesses\<close>

text \<open>A hasher that returns the item, and a block with one input.\<close>

definition item_hasher :: hasher where
  "item_hasher bs = h256_of_be (drop 32 bs)"

definition marked :: "byte \<Rightarrow> h256" where
  "marked b = h256_of_be (b # replicate 31 0)"

definition sample_batch :: Batch where
  "sample_batch = \<lparr>prev_midstate = 0, prev_header_hash = 0,
     bt_body = \<lparr>tx_body = \<lparr>inputs = [\<lparr>i_commitment = marked 3, i_owner_key = marked 1,
                 i_signature = \<lparr>sig_e = 0, sig_s = 0\<rparr>\<rparr>], out_groups = [], tx_kernels = []\<rparr>,
               kernel_offset = 0, owner_offset = 0\<rparr>,
     bt_coinbase = None, bt_extension = \<lparr>ext_nonce = 0, ext_final_hash = 9\<rparr>, bt_timestamp = 0,
     bt_target = 0, bt_state_root = 0, bt_aux_pow = None, bt_registrations = [], bt_miner = None,
     bt_relay = None, bt_chain_weight = 0\<rparr>"

lemma item_hasher_concat: "hash_concat item_hasher (be_bytes k) (be_bytes v) = v"
  by (simp add: item_hasher_def hash_concat_def)

lemma take_marked: "take 8 (be_bytes (marked b)) = b # replicate 7 0"
proof -
  have "be_bytes (marked b) = b # replicate 31 0"
    unfolding marked_def by (rule be_bytes_h256_of_be) simp
  then show ?thesis by simp
qed

lemma filter_hash_marked:
  assumes "unat b < m"
  shows "filter_hash item_hasher key m (marked b) = unat b"
proof -
  have "of_le_bytes (take 8 (be_bytes (marked b))) = unat b"
    unfolding take_marked by (simp add: numeral_eq_Suc)
  then show ?thesis using assms by (simp add: filter_hash_def item_hasher_concat)
qed

lemma marked_inject: "marked a = marked b \<longleftrightarrow> a = b"
  using take_marked by (metis list.inject)

lemma sample_items: "items_in item_hasher sample_batch = [marked 3, marked 1]"
  by (simp add: items_in_def sample_batch_def Transaction_outputs_def kernel_ids_def marked_inject)

lemma sample_key: "ext_final_hash (bt_extension sample_batch) = 9"
  by (simp add: sample_batch_def)

lemma sample_modulus: "filter_modulus 2 = 2000000"
  by (simp add: filter_modulus_def FPR_INVERSE_def)

lemma sample_built: "\<exists>data. CompactFilter_build item_hasher sample_batch = Some data"
  using sample_modulus
  by (simp add: CompactFilter_build_def filter_of_items_def Let_def sample_items numeral_2_eq_2)

lemma sample_length: "length (items_in item_hasher sample_batch) = 2"
  by (simp add: sample_items)

theorem filter_decodes_to_hashes_witness:
  "\<exists>data. CompactFilter_build item_hasher sample_batch = Some data \<and> decode_filter data 2 = [1, 3]"
proof -
  obtain data where data: "CompactFilter_build item_hasher sample_batch = Some data"
    using sample_built by blast
  from filter_decodes_to_hashes [OF data, unfolded sample_key sample_length sample_modulus]
  show ?thesis using data by (simp add: sample_items filter_hash_marked)
qed

theorem filter_matches_exactly_witness:
  "\<exists>data. CompactFilter_build item_hasher sample_batch = Some data
     \<and> match_any item_hasher data 9 2 [marked 2, marked 3] = Some True
     \<and> match_any item_hasher data 9 2 [marked 2] = Some False"
proof -
  obtain data where data: "CompactFilter_build item_hasher sample_batch = Some data"
    using sample_built by blast
  note answer = filter_matches_exactly [OF data, unfolded sample_key sample_length sample_modulus]
  show ?thesis using data by (simp add: answer sample_items filter_hash_marked)
qed

end
