(* ===== verification/Mempool.thy ===== *)
theory Mempool
  imports Chain_Properties
begin

text \<open>The transaction pool (\<^verbatim>\<open>src/src/mempool.rs\<close>): admission, eviction by fee rate, the effect of a
  block, and the cache of mined transactions that a reorganisation offers back. A pool indexes its
  entries three ways; \<open>index_ok\<close> says an index maps a key to the one entry that has it, and the
  pool's invariant \<open>pool_ok\<close> is that for all three together with the weight ceiling. The order in
  which the entries' hash map is walked is unspecified: it is the parameter \<open>ord\<close>.\<close>

definition MAX_POOL_WEIGHT :: nat where "MAX_POOL_WEIGHT = 25 * MAX_BLOCK_WEIGHT"

definition REORG_CACHE_BLOCKS :: nat where "REORG_CACHE_BLOCKS = 128"

definition MIN_FEE_PER_WEIGHT :: nat where "MIN_FEE_PER_WEIGHT = 100"

datatype pool_error =
    AlreadyInPool | PoolTx tx_error | FeeTooLow nat nat nat | PoolTimeLocked nat
  | SpentInPool h256 | SpendsUnconfirmed h256 | CreatedInPool h256 | KernelInPool h256
  | PoolApply block_error | PoolFull

record Entry =
  en_tx :: Transaction
  en_fee :: nat
  en_weight :: nat

definition Entry_rate :: "Entry \<Rightarrow> nat" where
  "Entry_rate e = en_fee e * 2 ^ 16 div max (en_weight e) 1"

record Mempool =
  pool_entries :: "(h256, Entry) omap"
  spends :: "h256 \<rightharpoonup> h256"
  creates :: "h256 \<rightharpoonup> h256"
  pool_kernels :: "h256 \<rightharpoonup> h256"
  total_weight :: nat

type_synonym walk_order = "(h256, Entry) omap \<Rightarrow> (h256 \<times> Entry) list"

definition Mempool_new :: Mempool where
  "Mempool_new = \<lparr>pool_entries = [], spends = Map.empty, creates = Map.empty, pool_kernels = Map.empty,
     total_weight = 0\<rparr>"

abbreviation tx_id :: "('pt, 'sc) env \<Rightarrow> Transaction \<Rightarrow> h256" where
  "tx_id E tx \<equiv> Transaction_hash (env_hash E) (tx_bytes E) tx"

definition pool_contains :: "Mempool \<Rightarrow> h256 \<Rightarrow> bool" where
  "pool_contains p h \<longleftrightarrow> om_has (pool_entries p) h"

definition pool_transactions :: "walk_order \<Rightarrow> Mempool \<Rightarrow> Transaction list" where
  "pool_transactions ord p = map (\<lambda>(_, e). en_tx e) (ord (pool_entries p))"

definition pool_hashes :: "walk_order \<Rightarrow> Mempool \<Rightarrow> h256 list" where
  "pool_hashes ord p = sort (map fst (ord (pool_entries p)))"

definition pool_get :: "Mempool \<Rightarrow> h256 \<Rightarrow> Transaction option" where
  "pool_get p h = map_option en_tx (om_get (pool_entries p) h)"

subsection \<open>Admission\<close>

definition pool_check ::
    "('pt :: ab_group_add, 'sc :: comm_ring_1) env \<Rightarrow> Mempool \<Rightarrow> Transaction \<Rightarrow> State \<Rightarrow> bool \<Rightarrow> pool_error + unit" where
  "pool_check E p tx state already_validated =
     (let H = env_hash E; C = env_curve E in
      if pool_contains p (tx_id E tx) then Inl AlreadyInPool
      else
        and_then (map_err PoolTx
          (if already_validated
           then and_then (validate_structure H C Relayed tx) (\<lambda>_. verify_sums C tx)
           else Transaction_validate H C Relayed tx)) (\<lambda>_.
        and_then (map_err PoolTx (Transaction_fee tx)) (\<lambda>fee.
        let min_fee = sat_mul64 (Transaction_weight tx) MIN_FEE_PER_WEIGHT in
        if fee < min_fee then Inl (FeeTooLow fee min_fee (Transaction_weight tx))
        else if lock_height tx > st_height state then Inl (PoolTimeLocked (lock_height tx))
        else
          and_then (each_ok (\<lambda>c. if spends p c \<noteq> None then Inl (SpentInPool c)
                                else if creates p c \<noteq> None then Inl (SpendsUnconfirmed c) else Inr ())
            (input_commitments tx)) (\<lambda>_.
          and_then (each_ok (\<lambda>c. if creates p c \<noteq> None then Inl (CreatedInPool c) else Inr ())
            (output_commitments tx)) (\<lambda>_.
          and_then (each_ok (\<lambda>k. if pool_kernels p k \<noteq> None then Inl (KernelInPool k) else Inr ())
            (kernel_ids H tx)) (\<lambda>_.
          and_then (map_err PoolApply (apply_body E state tx None 0)) (\<lambda>_. Inr ())))))))"

definition map_all :: "('k \<rightharpoonup> 'v) \<Rightarrow> 'k list \<Rightarrow> 'v \<Rightarrow> ('k \<rightharpoonup> 'v)" where
  "map_all m ks v = foldl (\<lambda>m k. m(k \<mapsto> v)) m ks"

definition unmap_all :: "('k \<rightharpoonup> 'v) \<Rightarrow> 'k list \<Rightarrow> ('k \<rightharpoonup> 'v)" where
  "unmap_all m ks = foldl (\<lambda>m k. m(k := None)) m ks"

definition pool_insert :: "('pt, 'sc) env \<Rightarrow> Entry \<Rightarrow> Mempool \<Rightarrow> Mempool" where
  "pool_insert E entry p =
     (let tx = en_tx entry; h = tx_id E tx in
      \<lparr>pool_entries = om_insert h entry (pool_entries p),
       spends = map_all (spends p) (input_commitments tx) h,
       creates = map_all (creates p) (output_commitments tx) h,
       pool_kernels = map_all (pool_kernels p) (kernel_ids (env_hash E) tx) h,
       total_weight = total_weight p + en_weight entry\<rparr>)"

definition pool_remove :: "('pt, 'sc) env \<Rightarrow> h256 \<Rightarrow> Mempool \<Rightarrow> Mempool \<times> Transaction option" where
  "pool_remove E h p =
     (case om_get (pool_entries p) h of
        None \<Rightarrow> (p, None)
      | Some entry \<Rightarrow>
          let tx = en_tx entry in
          (\<lparr>pool_entries = om_remove h (pool_entries p),
            spends = unmap_all (spends p) (input_commitments tx),
            creates = unmap_all (creates p) (output_commitments tx),
            pool_kernels = unmap_all (pool_kernels p) (kernel_ids (env_hash E) tx),
            total_weight = total_weight p - en_weight entry\<rparr>, Some tx))"

text \<open>\<^verbatim>\<open>min_by_key\<close>: the first of the smallest.\<close>

fun first_worst :: "(h256 \<times> Entry) list \<Rightarrow> (h256 \<times> nat) option" where
  "first_worst [] = None"
| "first_worst ((h, e) # es) =
     (case first_worst es of
        None \<Rightarrow> Some (h, Entry_rate e)
      | Some (h', r) \<Rightarrow> if r < Entry_rate e then Some (h', r) else Some (h, Entry_rate e))"

text \<open>The eviction loop. Every round removes an entry, so as many rounds as the pool has entries reach
  the exit or an empty pool, and an empty pool refuses at the guard (\<open>make_room_spec\<close>). Evictions
  are not undone when the transaction is refused in the end.\<close>

fun make_room :: "('pt, 'sc) env \<Rightarrow> walk_order \<Rightarrow> nat \<Rightarrow> Entry \<Rightarrow> Mempool \<Rightarrow> Mempool \<times> (pool_error + unit)" where
  "make_room E ord 0 entry p =
     (p, if total_weight p + en_weight entry > MAX_POOL_WEIGHT then Inl PoolFull else Inr ())"
| "make_room E ord (Suc n) entry p =
     (if total_weight p + en_weight entry > MAX_POOL_WEIGHT then
        case first_worst (ord (pool_entries p)) of
          Some (h, rate) \<Rightarrow>
            if rate < Entry_rate entry then make_room E ord n entry (fst (pool_remove E h p)) else (p, Inl PoolFull)
        | None \<Rightarrow> (p, Inl PoolFull)
      else (p, Inr ()))"

definition pool_add ::
    "('pt :: ab_group_add, 'sc :: comm_ring_1) env \<Rightarrow> walk_order \<Rightarrow> Transaction \<Rightarrow> State \<Rightarrow> bool \<Rightarrow> Mempool
      \<Rightarrow> Mempool \<times> (pool_error + unit)" where
  "pool_add E ord tx state already_validated p =
     (case pool_check E p tx state already_validated of
        Inl e \<Rightarrow> (p, Inl e)
      | Inr _ \<Rightarrow>
          (case Transaction_fee tx of
             Inl e \<Rightarrow> (p, Inl (PoolTx e))
           | Inr fee \<Rightarrow>
               let entry = \<lparr>en_tx = tx, en_fee = fee, en_weight = Transaction_weight tx\<rparr> in
               (case make_room E ord (length (pool_entries p)) entry p of
                  (p', Inl e) \<Rightarrow> (p', Inl e)
                | (p', Inr _) \<Rightarrow> (pool_insert E entry p', Inr ()))))"

subsection \<open>Blocks\<close>

fun remove_all :: "('pt, 'sc) env \<Rightarrow> h256 list \<Rightarrow> Mempool \<Rightarrow> Mempool \<times> Transaction list" where
  "remove_all E [] p = (p, [])"
| "remove_all E (h # hs) p =
     (let (p, tx) = pool_remove E h p; (p, txs) = remove_all E hs p
      in (p, case tx of Some t \<Rightarrow> t # txs | None \<Rightarrow> txs))"

definition still_applies :: "('pt :: ab_group_add, 'sc :: comm_ring_1) env \<Rightarrow> State \<Rightarrow> Transaction \<Rightarrow> bool" where
  "still_applies E state tx \<longleftrightarrow> \<not> (lock_height tx > st_height state \<or> \<not> is_ok (apply_body E state tx None 0))"

definition revalidate ::
    "('pt :: ab_group_add, 'sc :: comm_ring_1) env \<Rightarrow> walk_order \<Rightarrow> State \<Rightarrow> Mempool \<Rightarrow> Mempool" where
  "revalidate E ord state p =
     fst (remove_all E (map fst (filter (\<lambda>(_, e). \<not> still_applies E state (en_tx e)) (ord (pool_entries p)))) p)"

definition entry_mined :: "('pt, 'sc) env \<Rightarrow> Batch \<Rightarrow> Entry \<Rightarrow> bool" where
  "entry_mined E batch e \<longleftrightarrow>
     (let ids = kernel_ids (env_hash E) (en_tx e); mined_kernels = set (kernel_ids (env_hash E) (bt_body batch))
      in ids \<noteq> [] \<and> list_all (\<lambda>k. k \<in> mined_kernels) ids)"

definition entry_conflicts :: "('pt, 'sc) env \<Rightarrow> Batch \<Rightarrow> Entry \<Rightarrow> bool" where
  "entry_conflicts E batch e \<longleftrightarrow>
     list_ex (\<lambda>k. k \<in> set (kernel_ids (env_hash E) (bt_body batch))) (kernel_ids (env_hash E) (en_tx e))
     \<or> list_ex (\<lambda>c. c \<in> set (input_commitments (bt_body batch))) (input_commitments (en_tx e))"

definition on_block ::
    "('pt :: ab_group_add, 'sc :: comm_ring_1) env \<Rightarrow> walk_order \<Rightarrow> Batch \<Rightarrow> State \<Rightarrow> Mempool
      \<Rightarrow> Mempool \<times> Transaction list" where
  "on_block E ord batch state p =
     (let es = ord (pool_entries p);
          mined = map fst (filter (\<lambda>(_, e). entry_mined E batch e) es);
          doomed = map fst (filter (\<lambda>(_, e). \<not> entry_mined E batch e \<and> entry_conflicts E batch e) es);
          (p, mined_txs) = remove_all E mined p;
          p = fst (remove_all E doomed p)
      in (revalidate E ord state p, mined_txs))"

definition candidates :: "walk_order \<Rightarrow> Mempool \<Rightarrow> Transaction list" where
  "candidates ord p = map en_tx (rev (sort_key Entry_rate (rev (map snd (ord (pool_entries p))))))"

subsection \<open>The reorganisation cache\<close>

type_synonym reorg_cache = "(nat \<times> Transaction list) list"

definition cache_record :: "nat \<Rightarrow> Transaction list \<Rightarrow> reorg_cache \<Rightarrow> reorg_cache" where
  "cache_record height txs cache =
     (if txs = [] then cache
      else let blocks = cache @ [(height, txs)] in drop (length blocks - REORG_CACHE_BLOCKS) blocks)"

definition cache_since :: "nat \<Rightarrow> reorg_cache \<Rightarrow> Transaction list" where
  "cache_since height cache = concat (map snd (filter (\<lambda>(h, _). height \<le> h) cache))"

text \<open>The back of the queue is the head of the reversed list.\<close>

definition cache_take_from :: "nat \<Rightarrow> reorg_cache \<Rightarrow> reorg_cache \<times> Transaction list" where
  "cache_take_from height cache =
     (rev (dropWhile (\<lambda>(h, _). height \<le> h) (rev cache)),
      concat (map snd (takeWhile (\<lambda>(h, _). height \<le> h) (rev cache))))"


subsection \<open>Indexes\<close>

lemma map_all_apply: "map_all m ks v k = (if k \<in> set ks then Some v else m k)"
  unfolding map_all_def by (induction ks arbitrary: m) auto

lemma unmap_all_apply: "unmap_all m ks k = (if k \<in> set ks then None else m k)"
  unfolding unmap_all_def by (induction ks arbitrary: m) auto

definition index_ok :: "(Entry \<Rightarrow> 'k list) \<Rightarrow> (h256 \<rightharpoonup> Entry) \<Rightarrow> ('k \<rightharpoonup> h256) \<Rightarrow> bool" where
  "index_ok keys es idx \<longleftrightarrow> (\<forall>k h. idx k = Some h \<longleftrightarrow> (\<exists>e. es h = Some e \<and> k \<in> set (keys e)))"

lemma index_ok_empty: "index_ok keys Map.empty Map.empty"
  by (simp add: index_ok_def)

lemma index_ok_insert:
  assumes "index_ok keys es idx" and "es h = None" and "\<forall>k \<in> set (keys e). idx k = None"
  shows "index_ok keys (es(h \<mapsto> e)) (map_all idx (keys e) h)"
  using assms unfolding index_ok_def map_all_apply by (auto split: if_splits) (metis option.distinct(1))+

lemma index_ok_remove:
  assumes "index_ok keys es idx" and "es h = Some e"
  shows "index_ok keys (es(h := None)) (unmap_all idx (keys e))"
proof -
  have other: "h' = h" if "es h' = Some e'" "k \<in> set (keys e')" "k \<in> set (keys e)" for h' e' k
    using assms that unfolding index_ok_def by (metis option.inject)
  have "(if k \<in> set (keys e) then None else idx k) = Some h'
      \<longleftrightarrow> (\<exists>e'. (es(h := None)) h' = Some e' \<and> k \<in> set (keys e'))" for k h'
  proof (cases "k \<in> set (keys e)")
    case True
    then show ?thesis using other [of h'] by auto
  next
    case False
    then show ?thesis using assms by (auto simp: index_ok_def)
  qed
  then show ?thesis unfolding index_ok_def unmap_all_apply by blast
qed

lemma index_ok_unique:
  assumes "index_ok keys es idx" and "es h = Some e" and "es h' = Some e'" and "h \<noteq> h'"
  shows "set (keys e) \<inter> set (keys e') = {}"
  using assms unfolding index_ok_def by (metis disjoint_iff option.inject)

subsection \<open>The pool invariant\<close>

definition entry_ok :: "('pt, 'sc) env \<Rightarrow> h256 \<Rightarrow> Entry \<Rightarrow> bool" where
  "entry_ok E h e \<longleftrightarrow>
     h = tx_id E (en_tx e) \<and> en_weight e = Transaction_weight (en_tx e) \<and> Transaction_fee (en_tx e) = Inr (en_fee e)"

definition weight_of :: "(h256, Entry) omap \<Rightarrow> nat" where
  "weight_of es = om.total (\<lambda>_ e. en_weight e) es"

definition pool_ok :: "('pt, 'sc) env \<Rightarrow> Mempool \<Rightarrow> bool" where
  "pool_ok E p \<longleftrightarrow>
     om_wf (pool_entries p) \<and>
     (\<forall>h e. om_get (pool_entries p) h = Some e \<longrightarrow> entry_ok E h e) \<and>
     index_ok (\<lambda>e. input_commitments (en_tx e)) (om_get (pool_entries p)) (spends p) \<and>
     index_ok (\<lambda>e. output_commitments (en_tx e)) (om_get (pool_entries p)) (creates p) \<and>
     index_ok (\<lambda>e. kernel_ids (env_hash E) (en_tx e)) (om_get (pool_entries p)) (pool_kernels p) \<and>
     total_weight p = weight_of (pool_entries p) \<and> total_weight p \<le> MAX_POOL_WEIGHT"

lemma weight_of_Nil [simp]: "weight_of [] = 0"
  by (simp add: weight_of_def om.total_mset)

lemma weight_of_sum: "weight_of es = sum_list (map (\<lambda>(_, e). en_weight e) es)"
  by (simp add: weight_of_def om.total_mset sum_mset_sum_list [symmetric] case_prod_unfold)

lemma weight_of_insert:
  "om_wf es \<Longrightarrow> om_get es h = None \<Longrightarrow> weight_of (om_insert h e es) = en_weight e + weight_of es"
  by (simp add: weight_of_def om.total_insert_fresh)

lemma weight_of_remove:
  "om_wf es \<Longrightarrow> om_get es h = Some e \<Longrightarrow> weight_of es = en_weight e + weight_of (om_remove h es)"
  by (simp add: weight_of_def om.total_remove_present [where v = e])

lemma Mempool_new_ok: "pool_ok E Mempool_new"
  by (simp add: pool_ok_def Mempool_new_def index_ok_def)

lemma pool_insert_ok:
  assumes "pool_ok E p" and "entry_ok E (tx_id E (en_tx entry)) entry"
    and "om_get (pool_entries p) (tx_id E (en_tx entry)) = None"
    and "\<forall>c \<in> set (input_commitments (en_tx entry)). spends p c = None"
    and "\<forall>c \<in> set (output_commitments (en_tx entry)). creates p c = None"
    and "\<forall>k \<in> set (kernel_ids (env_hash E) (en_tx entry)). pool_kernels p k = None"
    and "total_weight p + en_weight entry \<le> MAX_POOL_WEIGHT"
  shows "pool_ok E (pool_insert E entry p)"
  using assms(1-3) index_ok_insert [of "\<lambda>e. input_commitments (en_tx e)" _ "spends p" _ entry]
    index_ok_insert [of "\<lambda>e. output_commitments (en_tx e)" _ "creates p" _ entry]
    index_ok_insert [of "\<lambda>e. kernel_ids (env_hash E) (en_tx e)" _ "pool_kernels p" _ entry] assms(4-7)
  by (auto simp: pool_ok_def pool_insert_def Let_def weight_of_insert split: if_splits)

lemma pool_remove_entries:
  "pool_entries (fst (pool_remove E h p)) = om_remove h (pool_entries p)"
  by (simp add: pool_remove_def Let_def om_remove_absent split: option.split)

lemma pool_remove_tx: "snd (pool_remove E h p) = map_option en_tx (om_get (pool_entries p) h)"
  by (simp add: pool_remove_def Let_def split: option.split)

lemma pool_remove_ok:
  assumes "pool_ok E p"
  shows "pool_ok E (fst (pool_remove E h p))"
proof (cases "om_get (pool_entries p) h")
  case (Some e)
  have wf: "om_wf (pool_entries p)" using assms by (simp add: pool_ok_def)
  show ?thesis
    using assms Some weight_of_remove [OF wf Some] index_ok_remove [of _ "om_get (pool_entries p)" _ h e]
    by (auto simp: pool_ok_def pool_remove_def Let_def split: if_splits)
qed (simp add: pool_remove_def assms)

subsection \<open>Eviction\<close>

definition order_ok :: "walk_order \<Rightarrow> bool" where
  "order_ok ord \<longleftrightarrow> (\<forall>es. mset (ord es) = mset es)"

lemma order_ok_set: "order_ok ord \<Longrightarrow> set (ord es) = set es"
  by (metis order_ok_def set_mset_mset)

lemma first_worst_None: "first_worst es = None \<longleftrightarrow> es = []"
  by (cases es rule: first_worst.cases) (auto split: option.splits if_splits)

lemma first_worst_Some:
  "first_worst es = Some (h, r) \<Longrightarrow>
     (\<exists>e. (h, e) \<in> set es \<and> r = Entry_rate e) \<and> (\<forall>(h', e') \<in> set es. r \<le> Entry_rate e')"
proof (induction es arbitrary: h r rule: first_worst.induct)
  case (2 h' e' es)
  show ?case
  proof (cases "first_worst es")
    case None
    then show ?thesis using 2 by (auto simp: first_worst_None)
  next
    case (Some hr)
    then obtain h1 r1 where hr: "first_worst es = Some (h1, r1)" by (cases hr) auto
    from "2.IH" [OF this] "2.prems" hr show ?thesis
      by (auto split: if_splits)
  qed
qed simp

definition dearer :: "nat \<Rightarrow> (h256, Entry) omap \<Rightarrow> (h256, Entry) omap" where
  "dearer rate es = filter (\<lambda>(_, e). rate \<le> Entry_rate e) es"

lemma om_remove_length: "om_get es h = Some e \<Longrightarrow> length (om_remove h es) < length es"
  unfolding om_remove_def om_get_def by (rule length_filter_less [of "(h, e)"]) (auto dest: map_of_SomeD)

lemma dearer_remove:
  assumes "om_wf es" and "om_get es h = Some e" and "Entry_rate e < rate"
  shows "dearer rate (om_remove h es) = dearer rate es"
  unfolding dearer_def om_remove_def filter_filter
  by (rule filter_cong) (use assms in \<open>auto simp: om_get_iff\<close>)

text \<open>An entry that gives way rightly: worse than the new one, and no better than any that stays.\<close>

definition worst_of :: "Entry \<Rightarrow> (h256, Entry) omap \<Rightarrow> h256 \<times> Entry \<Rightarrow> bool" where
  "worst_of entry kept x \<longleftrightarrow>
     Entry_rate (snd x) < Entry_rate entry \<and> (\<forall>y \<in> set kept. Entry_rate (snd x) \<le> Entry_rate (snd y))"

text \<open>What the eviction loop leaves: the invariant, and either room, with only worse entries gone and the
  worst of them first, or a refusal with every worse entry gone.\<close>

lemma make_room_spec:
  assumes "pool_ok E p" and "order_ok ord" and "length (pool_entries p) \<le> n"
    and "make_room E ord n entry p = (p', r)"
  shows "pool_ok E p' \<and> set (pool_entries p') \<subseteq> set (pool_entries p) \<and>
    (case r of
       Inr _ \<Rightarrow> total_weight p' + en_weight entry \<le> MAX_POOL_WEIGHT \<and>
         (\<forall>x \<in> set (pool_entries p) - set (pool_entries p'). worst_of entry (pool_entries p') x)
     | Inl err \<Rightarrow> err = PoolFull \<and> pool_entries p' = dearer (Entry_rate entry) (pool_entries p) \<and>
         weight_of (pool_entries p') + en_weight entry > MAX_POOL_WEIGHT)"
  using assms
proof (induction n arbitrary: p)
  case 0
  then show ?case by (auto simp: pool_ok_def dearer_def split: if_splits)
next
  case (Suc n)
  have wf: "om_wf (pool_entries p)" and weight: "total_weight p = weight_of (pool_entries p)"
    using Suc.prems(1) by (simp_all add: pool_ok_def)
  show ?case
  proof (cases "total_weight p + en_weight entry > MAX_POOL_WEIGHT")
    case False
    then show ?thesis using Suc.prems by auto
  next
    case full: True
    show ?thesis
    proof (cases "first_worst (ord (pool_entries p))")
      case None
      then have "ord (pool_entries p) = []" by (simp add: first_worst_None)
      then have "pool_entries p = []" using Suc.prems(2) by (metis order_ok_def mset_zero_iff)
      then show ?thesis using Suc.prems full None weight by (auto simp: dearer_def)
    next
      case (Some hr)
      obtain h rate where hr: "first_worst (ord (pool_entries p)) = Some (h, rate)" using Some by (cases hr) auto
      obtain e where e: "(h, e) \<in> set (pool_entries p)" "rate = Entry_rate e"
        and least: "\<And>h' e'. (h', e') \<in> set (pool_entries p) \<Longrightarrow> rate \<le> Entry_rate e'"
        using first_worst_Some [OF hr] unfolding order_ok_set [OF Suc.prems(2)] by fastforce
      have get: "om_get (pool_entries p) h = Some e" using e(1) wf by (simp add: om_get_iff)
      show ?thesis
      proof (cases "rate < Entry_rate entry")
        case False
        then have "dearer (Entry_rate entry) (pool_entries p) = pool_entries p"
          using least unfolding dearer_def by (intro filter_True) fastforce
        then show ?thesis using Suc.prems full hr False weight by auto
      next
        case True
        let ?q = "fst (pool_remove E h p)"
        have q: "pool_entries ?q = om_remove h (pool_entries p)" by (rule pool_remove_entries)
        have "length (pool_entries ?q) \<le> n"
          using om_remove_length [OF get] Suc.prems(3) by (simp add: q)
        moreover have "make_room E ord n entry ?q = (p', r)"
          using Suc.prems(4) full hr True by simp
        ultimately have IH: "pool_ok E p' \<and> set (pool_entries p') \<subseteq> set (pool_entries ?q) \<and>
          (case r of
             Inr _ \<Rightarrow> total_weight p' + en_weight entry \<le> MAX_POOL_WEIGHT \<and>
               (\<forall>x \<in> set (pool_entries ?q) - set (pool_entries p'). worst_of entry (pool_entries p') x)
           | Inl err \<Rightarrow> err = PoolFull \<and> pool_entries p' = dearer (Entry_rate entry) (pool_entries ?q) \<and>
               weight_of (pool_entries p') + en_weight entry > MAX_POOL_WEIGHT)"
          by (rule Suc.IH [OF pool_remove_ok [OF Suc.prems(1)] Suc.prems(2)])
        have set_q: "set (pool_entries ?q) = set (pool_entries p) - {(h, e)}"
          using e(1) wf unfolding q om_remove_def by (auto simp: om_get_iff)
        have same: "dearer (Entry_rate entry) (pool_entries ?q) = dearer (Entry_rate entry) (pool_entries p)"
          using dearer_remove [OF wf get] True e(2) by (simp add: q)
        have sub: "set (pool_entries p') \<subseteq> set (pool_entries p) - {(h, e)}" using IH set_q by simp
        show ?thesis
        proof (cases r)
          case (Inl err)
          then show ?thesis using IH sub same by auto
        next
          case (Inr u)
          have "worst_of entry (pool_entries p') (h, e)"
            using True e(2) least sub by (auto simp: worst_of_def)
          then show ?thesis using IH Inr sub unfolding set_q by auto
        qed
      qed
    qed
  qed
qed


lemma index_shrinks:
  assumes "index_ok keys (om_get es) idx" and "index_ok keys (om_get es') idx'"
    and "om_wf es" and "om_wf es'" and "set es' \<subseteq> set es" and "idx k = None"
  shows "idx' k = None"
proof (rule ccontr)
  assume "idx' k \<noteq> None"
  then obtain h e where "om_get es' h = Some e" "k \<in> set (keys e)"
    using assms(2) unfolding index_ok_def by (meson not_Some_eq)
  then have "om_get es h = Some e" using assms(3-5) by (meson om_get_iff subsetD)
  then have "idx k = Some h" using assms(1) \<open>k \<in> set (keys e)\<close> unfolding index_ok_def by blast
  then show False using assms(6) by simp
qed

lemma om_get_shrinks:
  assumes "om_wf es" and "om_wf es'" and "set es' \<subseteq> set es" and "om_get es h = None"
  shows "om_get es' h = None"
proof (cases "om_get es' h")
  case (Some e)
  then have "(h, e) \<in> set es" using assms(2,3) by (auto simp: om_get_iff)
  then show ?thesis using assms(1,4) by (simp add: om_get_iff)
qed simp

lemma pool_check_Inr:
  assumes "pool_check E p tx state already = Inr u"
  shows "om_get (pool_entries p) (tx_id E tx) = None"
    and "\<exists>fee. Transaction_fee tx = Inr fee \<and> sat_mul64 (Transaction_weight tx) MIN_FEE_PER_WEIGHT \<le> fee"
    and "\<forall>c \<in> set (input_commitments tx). spends p c = None \<and> creates p c = None"
    and "\<forall>c \<in> set (output_commitments tx). creates p c = None"
    and "\<forall>k \<in> set (kernel_ids (env_hash E) tx). pool_kernels p k = None"
    and "still_applies E state tx"
proof -
  note c = assms [unfolded pool_check_def Let_def, simplified and_then_Inr map_err_Inr if_Inr each_ok_iff]
  show "om_get (pool_entries p) (tx_id E tx) = None"
    using c by (auto simp: pool_contains_def om_has_def result_simps)
  show "\<exists>fee. Transaction_fee tx = Inr fee \<and> sat_mul64 (Transaction_weight tx) MIN_FEE_PER_WEIGHT \<le> fee"
    using c by (auto simp: result_simps not_less split: if_splits)
  show "\<forall>c \<in> set (input_commitments tx). spends p c = None \<and> creates p c = None"
    using c by (auto simp: result_simps split: if_splits)
  show "\<forall>c \<in> set (output_commitments tx). creates p c = None"
    using c by (auto simp: result_simps split: if_splits)
  show "\<forall>k \<in> set (kernel_ids (env_hash E) tx). pool_kernels p k = None"
    using c by (auto simp: result_simps split: if_splits)
  show "still_applies E state tx"
    using c by (auto simp: still_applies_def result_simps split: if_splits)
qed

lemma pool_add_ok:
  assumes "pool_ok E p" and "order_ok ord"
  shows "pool_ok E (fst (pool_add E ord tx state already p))"
proof (cases "pool_check E p tx state already")
  case (Inr u)
  note check = pool_check_Inr [OF this]
  obtain fee where fee: "Transaction_fee tx = Inr fee" using check(2) by blast
  let ?entry = "\<lparr>en_tx = tx, en_fee = fee, en_weight = Transaction_weight tx\<rparr>"
  obtain p' r where room: "make_room E ord (length (pool_entries p)) ?entry p = (p', r)"
    by (cases "make_room E ord (length (pool_entries p)) ?entry p")
  note spec = make_room_spec [OF assms le_refl room]
  then have ok: "pool_ok E p'" and sub: "set (pool_entries p') \<subseteq> set (pool_entries p)" by blast+
  show ?thesis
  proof (cases r)
    case (Inl e)
    then show ?thesis using Inr fee room ok by (simp add: pool_add_def Let_def)
  next
    case r: (Inr u')
    have wf: "om_wf (pool_entries p)" "om_wf (pool_entries p')" using assms(1) ok by (simp_all add: pool_ok_def)
    have "pool_ok E (pool_insert E ?entry p')"
    proof (rule pool_insert_ok [OF ok])
      show "om_get (pool_entries p') (tx_id E (en_tx ?entry)) = None"
        using om_get_shrinks [OF wf sub check(1)] by simp
      show "\<forall>c \<in> set (input_commitments (en_tx ?entry)). spends p' c = None"
        using check(3) index_shrinks [OF _ _ wf sub] assms(1) ok by (force simp: pool_ok_def)
      show "\<forall>c \<in> set (output_commitments (en_tx ?entry)). creates p' c = None"
        using check(4) index_shrinks [OF _ _ wf sub] assms(1) ok by (force simp: pool_ok_def)
      show "\<forall>k \<in> set (kernel_ids (env_hash E) (en_tx ?entry)). pool_kernels p' k = None"
        using check(5) index_shrinks [OF _ _ wf sub] assms(1) ok by (force simp: pool_ok_def)
    qed (use spec r fee in \<open>auto simp: entry_ok_def\<close>)
    then show ?thesis using Inr fee room r by (simp add: pool_add_def Let_def)
  qed
qed (simp add: pool_add_def assms)

subsection \<open>Removal in bulk\<close>

lemma om_remove_filter: "om_remove h es = filter (\<lambda>x. fst x \<noteq> h) es"
  by (simp add: om_remove_def case_prod_unfold)

lemma remove_all_spec:
  assumes "pool_ok E p" and "distinct hs" and "remove_all E hs p = (p', txs)"
  shows "pool_ok E p' \<and> pool_entries p' = filter (\<lambda>x. fst x \<notin> set hs) (pool_entries p)
       \<and> txs = List.map_filter (\<lambda>h. map_option en_tx (om_get (pool_entries p) h)) hs"
  using assms
proof (induction hs arbitrary: p txs)
  case Nil
  then show ?case by (auto simp: map_filter_def)
next
  case (Cons h hs)
  let ?q = "fst (pool_remove E h p)"
  obtain rest where rest: "remove_all E hs ?q = (p', rest)"
    and txs: "txs = (case map_option en_tx (om_get (pool_entries p) h) of Some t \<Rightarrow> t # rest | None \<Rightarrow> rest)"
    using Cons.prems(3) pool_remove_tx [of E h p] by (auto split: prod.splits)
  have IH: "pool_ok E p' \<and> pool_entries p' = filter (\<lambda>x. fst x \<notin> set hs) (pool_entries ?q)
       \<and> rest = List.map_filter (\<lambda>h. map_option en_tx (om_get (pool_entries ?q) h)) hs"
    using Cons.prems(2) rest by (intro Cons.IH pool_remove_ok Cons.prems(1)) simp_all
  have "List.map_filter (\<lambda>h. map_option en_tx (om_get (pool_entries ?q) h)) hs
      = List.map_filter (\<lambda>h. map_option en_tx (om_get (pool_entries p) h)) hs"
    unfolding pool_remove_entries
    using Cons.prems(2) by (auto simp: map_filter_def intro!: map_cong filter_cong)
  then show ?case
    using IH txs
    by (auto simp: pool_remove_entries om_remove_filter map_filter_simps conj_commute split: option.splits
        intro!: filter_cong)
qed

lemma chosen_distinct:
  assumes "om_wf es" and "order_ok ord"
  shows "distinct (map fst (filter P (ord es)))"
proof -
  have "mset (map fst (ord es)) = mset (map fst es)" using assms(2) by (simp add: order_ok_def)
  then have "distinct (map fst (ord es))"
    using om_distinct_keys [OF assms(1)] mset_eq_imp_distinct_iff by blast
  then show ?thesis by (rule distinct_map_filter)
qed

lemma chosen_removed:
  assumes "om_wf es" and "order_ok ord" and "set es' \<subseteq> set es"
  shows "filter (\<lambda>x. fst x \<notin> set (map fst (filter P (ord es)))) es' = filter (\<lambda>x. \<not> P x) es'"
proof (rule filter_cong [OF refl])
  fix x assume "x \<in> set es'"
  then have "x \<in> set es" using assms(3) by blast
  moreover have "y = x" if "y \<in> set es" "fst y = fst x" for y
    using that calculation eq_key_imp_eq_value [OF om_distinct_keys [OF assms(1)], of "fst x" "snd x" "snd y"]
    by (cases x; cases y) auto
  ultimately show "(fst x \<notin> set (map fst (filter P (ord es)))) = (\<not> P x)"
    by (auto simp: order_ok_set [OF assms(2)])
qed

lemma chosen_txs:
  assumes "om_wf es" and "order_ok ord"
  shows "List.map_filter (\<lambda>h. map_option en_tx (om_get es h)) (map fst (filter P (ord es)))
       = map (en_tx \<circ> snd) (filter P (ord es))"
proof -
  have "\<forall>x \<in> set (filter P (ord es)). om_get es (fst x) = Some (snd x)"
    using assms by (auto simp: order_ok_set om_get_iff)
  then show ?thesis
    by (induction "filter P (ord es)" rule: list.induct) (auto simp: map_filter_def)
qed

lemma revalidate_spec:
  assumes "pool_ok E p" and "order_ok ord"
  shows "pool_ok E (revalidate E ord state p)"
    and "pool_entries (revalidate E ord state p)
       = filter (\<lambda>x. still_applies E state (en_tx (snd x))) (pool_entries p)"
proof -
  have wf: "om_wf (pool_entries p)" using assms(1) by (simp add: pool_ok_def)
  let ?hs = "map fst (filter (\<lambda>(_, e). \<not> still_applies E state (en_tx e)) (ord (pool_entries p)))"
  obtain q txs where q: "remove_all E ?hs p = (q, txs)" by (cases "remove_all E ?hs p")
  note spec = remove_all_spec [OF assms(1) chosen_distinct [OF wf assms(2)] q]
  show "pool_ok E (revalidate E ord state p)" using spec q by (simp add: revalidate_def)
  show "pool_entries (revalidate E ord state p) = filter (\<lambda>x. still_applies E state (en_tx (snd x))) (pool_entries p)"
    using spec q chosen_removed [OF wf assms(2) subset_refl]
    by (simp add: revalidate_def case_prod_unfold)
qed


lemma mined_conflicts: "entry_mined E b e \<Longrightarrow> entry_conflicts E b e"
  unfolding entry_mined_def entry_conflicts_def Let_def
  by (cases "kernel_ids (env_hash E) (en_tx e)") auto

lemma on_block_spec:
  assumes "pool_ok E p" and "order_ok ord" and "on_block E ord b state p = (p', txs)"
  shows "pool_ok E p'"
    and "pool_entries p' = filter (\<lambda>x. \<not> entry_conflicts E b (snd x) \<and> still_applies E state (en_tx (snd x))) (pool_entries p)"
    and "txs = map (en_tx \<circ> snd) (filter (\<lambda>x. entry_mined E b (snd x)) (ord (pool_entries p)))"
proof -
  have wf: "om_wf (pool_entries p)" using assms(1) by (simp add: pool_ok_def)
  let ?mined = "map fst (filter (\<lambda>x. entry_mined E b (snd x)) (ord (pool_entries p)))"
  let ?doomed = "map fst (filter (\<lambda>x. \<not> entry_mined E b (snd x) \<and> entry_conflicts E b (snd x)) (ord (pool_entries p)))"
  obtain p1 txs1 where p1: "remove_all E ?mined p = (p1, txs1)" by (cases "remove_all E ?mined p")
  obtain p2 txs2 where p2: "remove_all E ?doomed p1 = (p2, txs2)" by (cases "remove_all E ?doomed p1")
  have eq: "p' = revalidate E ord state p2" "txs = txs1"
    using assms(3) p1 p2 by (simp_all add: on_block_def Let_def case_prod_unfold)
  note s1 = remove_all_spec [OF assms(1) chosen_distinct [OF wf assms(2)] p1]
  have e1: "pool_entries p1 = filter (\<lambda>x. \<not> entry_mined E b (snd x)) (pool_entries p)"
    using s1 chosen_removed [OF wf assms(2) subset_refl] by simp
  have ok1: "pool_ok E p1" using s1 by blast
  note s2 = remove_all_spec [OF ok1 chosen_distinct [OF wf assms(2)] p2]
  have "pool_entries p2 = filter (\<lambda>x. \<not> (\<not> entry_mined E b (snd x) \<and> entry_conflicts E b (snd x))) (pool_entries p1)"
    using s2 chosen_removed [OF wf assms(2), of "pool_entries p1"] e1 by (auto cong: filter_cong)
  then have e2: "pool_entries p2 = filter (\<lambda>x. \<not> entry_conflicts E b (snd x)) (pool_entries p)"
    unfolding e1 filter_filter by (simp, intro filter_cong) (auto dest: mined_conflicts)
  have ok2: "pool_ok E p2" using s2 by blast
  show "pool_ok E p'" unfolding eq by (rule revalidate_spec(1) [OF ok2 assms(2)])
  show "pool_entries p' = filter (\<lambda>x. \<not> entry_conflicts E b (snd x) \<and> still_applies E state (en_tx (snd x))) (pool_entries p)"
    unfolding eq revalidate_spec(2) [OF ok2 assms(2)] e2 filter_filter by (rule refl)
  show "txs = map (en_tx \<circ> snd) (filter (\<lambda>x. entry_mined E b (snd x)) (ord (pool_entries p)))"
    using s1 chosen_txs [OF wf assms(2)] eq(2) by simp
qed

subsection \<open>The cache\<close>

lemma cache_take_from_eq:
  assumes "sorted (map fst cache)"
  shows "cache_take_from height cache
       = (filter (\<lambda>(h, _). h < height) cache, concat (map snd (rev (filter (\<lambda>(h, _). height \<le> h) cache))))"
  using assms
proof (induction cache rule: rev_induct)
  case (snoc x cache)
  obtain h txs where x: "x = (h, txs)" by (cases x)
  have below: "\<forall>y \<in> set cache. fst y \<le> h" using snoc.prems x by (auto simp: sorted_append)
  show ?case
  proof (cases "height \<le> h")
    case True
    then show ?thesis using snoc x by (auto simp: cache_take_from_def sorted_append)
  next
    case False
    then have all: "\<forall>y \<in> set cache. fst y < height" using below by auto
    then have "filter (\<lambda>(h, _). h < height) cache = cache" "filter (\<lambda>(h, _). height \<le> h) cache = []"
      by (auto intro!: filter_True filter_False)
    then show ?thesis using x False by (simp add: cache_take_from_def)
  qed
qed (simp add: cache_take_from_def)

definition cache_ok :: "reorg_cache \<Rightarrow> bool" where
  "cache_ok cache \<longleftrightarrow> sorted (map fst cache) \<and> length cache \<le> REORG_CACHE_BLOCKS"

lemma cache_record_ok:
  assumes "cache_ok cache" and "\<forall>b \<in> set cache. fst b \<le> height"
  shows "cache_ok (cache_record height txs cache)"
proof -
  have "sorted (map fst (cache @ [(height, txs)]))" using assms by (auto simp: cache_ok_def sorted_append)
  then have "sorted (map fst (drop n (cache @ [(height, txs)])))" for n
    unfolding drop_map [symmetric] by (rule sorted_wrt_drop)
  then show ?thesis using assms(1) by (auto simp: cache_record_def cache_ok_def Let_def simp del: drop_append)
qed

lemma cache_take_from_ok: "cache_ok cache \<Longrightarrow> cache_ok (fst (cache_take_from height cache))"
  by (auto simp: cache_take_from_eq cache_ok_def intro: sorted_filter le_trans [OF length_filter_le])

subsection \<open>Properties\<close>

text \<open>C36. Whatever is offered to the pool and whichever blocks arrive, its three indexes describe exactly the
  entries it holds, the entries are filed under their hashes with their own weight and fee, and their
  total weight stays within 25 blocks.\<close>

theorem pool_invariant_kept:
  assumes "pool_ok E p" and "order_ok ord"
  shows "pool_ok E (fst (pool_add E ord tx state already p)) \<and> pool_ok E (fst (on_block E ord b state p))
       \<and> pool_ok E (revalidate E ord state p)"
  using pool_add_ok [OF assms] on_block_spec(1) [OF assms] revalidate_spec(1) [OF assms] by (metis prod.collapse)

text \<open>No two transactions of a pool spend the same coin, create the same output or carry the same kernel.\<close>

theorem pool_is_conflict_free:
  assumes "pool_ok E p" and "om_get (pool_entries p) h = Some e" and "om_get (pool_entries p) h' = Some e'"
    and "h \<noteq> h'"
  shows "set (input_commitments (en_tx e)) \<inter> set (input_commitments (en_tx e')) = {}
       \<and> set (output_commitments (en_tx e)) \<inter> set (output_commitments (en_tx e')) = {}
       \<and> set (kernel_ids (env_hash E) (en_tx e)) \<inter> set (kernel_ids (env_hash E) (en_tx e')) = {}"
  using assms index_ok_unique [OF _ assms(2-4)] unfolding pool_ok_def by blast

text \<open>C37. The eviction loop makes room by removing entries of a lower fee rate only, worst first. When that is not
  enough the new transaction is refused, and every entry of a lower rate has been removed all the same.\<close>

theorem eviction_outcome:
  assumes "pool_ok E p" and "order_ok ord" and "make_room E ord (length (pool_entries p)) entry p = (p', r)"
  shows "case r of
       Inr _ \<Rightarrow> total_weight p' + en_weight entry \<le> MAX_POOL_WEIGHT
         \<and> (\<forall>x \<in> set (pool_entries p) - set (pool_entries p'). worst_of entry (pool_entries p') x)
     | Inl err \<Rightarrow> err = PoolFull \<and> pool_entries p' = dearer (Entry_rate entry) (pool_entries p)
         \<and> weight_of (pool_entries p') + en_weight entry > MAX_POOL_WEIGHT"
  using make_room_spec [OF assms(1,2) le_refl assms(3)] by blast

text \<open>A block leaves in the pool exactly the transactions that share no kernel and no input with it and that
  still apply to the state it produced; it hands back the ones it mined.\<close>

theorem block_clears_pool:
  assumes "pool_ok E p" and "order_ok ord" and "on_block E ord b state p = (p', txs)"
  shows "pool_entries p'
         = filter (\<lambda>x. \<not> entry_conflicts E b (snd x) \<and> still_applies E state (en_tx (snd x))) (pool_entries p)
       \<and> txs = map (en_tx \<circ> snd) (filter (\<lambda>x. entry_mined E b (snd x)) (ord (pool_entries p)))"
  using on_block_spec(2,3) [OF assms] by blast

text \<open>A reorganisation down to a height takes out of the cache what was mined at that height or above, newest
  block first, and leaves the rest.\<close>

theorem reorg_takes_suffix:
  assumes "cache_ok cache"
  shows "cache_take_from height cache
       = (filter (\<lambda>(h, _). h < height) cache, concat (map snd (rev (filter (\<lambda>(h, _). height \<le> h) cache))))
       \<and> mset (snd (cache_take_from height cache)) = mset (cache_since height cache)"
proof -
  have s: "sorted (map fst cache)" using assms by (simp add: cache_ok_def)
  have "mset (concat (rev xss)) = mset (concat xss)" for xss :: "Transaction list list"
    by (induction xss) (simp_all add: mset_concat)
  then show ?thesis using cache_take_from_eq [OF s, of height] by (simp add: cache_since_def flip: rev_map)
qed


subsection \<open>Witnesses\<close>

text \<open>Transactions of a million copies of one input, and of one other input, under a hasher that tells
  lengths apart.\<close>

definition pool_env :: "(256 word, 256 word) env" where
  "pool_env = sample_env\<lparr>env_hash := \<lambda>bs. word_of_nat (length bs),
     tx_bytes := \<lambda>tx. if inputs (tx_body tx) = [] then [] else be_bytes (i_commitment (hd (inputs (tx_body tx))))
                        @ replicate (unat (i_commitment (hd (inputs (tx_body tx))))) 0\<rparr>"

definition spending :: "nat \<Rightarrow> h256 \<Rightarrow> Transaction" where
  "spending n c = \<lparr>tx_body = \<lparr>inputs = replicate n \<lparr>i_commitment = c, i_owner_key = 0,
       i_signature = \<lparr>sig_e = 0, sig_s = 0\<rparr>\<rparr>, out_groups = [], tx_kernels = []\<rparr>, kernel_offset = 0, owner_offset = 0\<rparr>"

definition heavy_entry :: Entry where
  "heavy_entry = \<lparr>en_tx = spending 999999 1, en_fee = 0, en_weight = 999999\<rparr>"

definition light_entry :: Entry where
  "light_entry = \<lparr>en_tx = spending 1 2, en_fee = 0, en_weight = 1\<rparr>"

definition sample_pool :: Mempool where
  "sample_pool = pool_insert pool_env light_entry (pool_insert pool_env heavy_entry Mempool_new)"

lemma spending_keys:
  "0 < n \<Longrightarrow> set (input_commitments (spending n c)) = {c}" "output_commitments (spending n c) = []"
  "kernel_ids H (spending n c) = []" "Transaction_weight (spending n c) = n" "Transaction_fee (spending n c) = Inr 0"
  by (simp_all add: spending_def input_commitments_def output_commitments_def Transaction_outputs_def kernel_ids_def
      Transaction_weight_def output_count_def Transaction_fee_def INPUT_WEIGHT_def)

lemma spending_id: "0 < n \<Longrightarrow> tx_id pool_env (spending n c) = word_of_nat (63 + unat c)"
  by (cases n) (simp_all add: pool_env_def Transaction_hash_def hash_domain_def domain_preimage_def len_prefixed_def
      ascii_def spending_def)


lemma sample_ids: "tx_id pool_env (en_tx heavy_entry) = 64" "tx_id pool_env (en_tx light_entry) = 65"
  using spending_id [of 999999 1] spending_id [of 1 2] by (simp_all add: heavy_entry_def light_entry_def)

lemma heavy_pool_ok: "pool_ok pool_env (pool_insert pool_env heavy_entry Mempool_new)"
proof (rule pool_insert_ok [OF Mempool_new_ok])
  show "entry_ok pool_env (tx_id pool_env (en_tx heavy_entry)) heavy_entry"
    by (simp add: entry_ok_def heavy_entry_def spending_keys)
qed (simp_all add: Mempool_new_def heavy_entry_def MAX_POOL_WEIGHT_def MAX_BLOCK_WEIGHT_def)

lemma sample_pool_entries: "pool_entries sample_pool = [(64, heavy_entry), (65, light_entry)]"
  by (simp add: sample_pool_def pool_insert_def Let_def sample_ids Mempool_new_def)

lemma sample_pool_ok: "pool_ok pool_env sample_pool"
  unfolding sample_pool_def
proof (rule pool_insert_ok [OF heavy_pool_ok])
  show "entry_ok pool_env (tx_id pool_env (en_tx light_entry)) light_entry"
    by (simp add: entry_ok_def light_entry_def spending_keys)
  show "om_get (pool_entries (pool_insert pool_env heavy_entry Mempool_new)) (tx_id pool_env (en_tx light_entry)) = None"
    by (simp add: pool_insert_def Let_def sample_ids Mempool_new_def om_get_Cons)
qed (simp_all add: Mempool_new_def heavy_entry_def light_entry_def MAX_POOL_WEIGHT_def MAX_BLOCK_WEIGHT_def
      pool_insert_def Let_def map_all_apply spending_keys)

lemma hash_order_ok: "order_ok (\<lambda>es. es)"
  by (simp add: order_ok_def)

lemma sample_gets:
  "om_get (pool_entries sample_pool) 64 = Some heavy_entry" "om_get (pool_entries sample_pool) 65 = Some light_entry"
  by (simp_all add: sample_pool_entries om_get_Cons)

theorem pool_invariant_kept_witness:
  "pool_ok pool_env (fst (on_block pool_env (\<lambda>es. es) (Batch_genesis pool_env) (State_genesis (env_hash pool_env)) sample_pool))"
  using pool_invariant_kept [OF sample_pool_ok hash_order_ok] by blast

theorem pool_is_conflict_free_witness:
  "set (input_commitments (en_tx heavy_entry)) \<inter> set (input_commitments (en_tx light_entry)) = {}"
  using pool_is_conflict_free [OF sample_pool_ok sample_gets] by simp

text \<open>A transaction too heavy for what the better entries leave is refused after both entries are gone.\<close>

theorem eviction_outcome_witness:
  "\<exists>p'. make_room pool_env (\<lambda>es. es) (length (pool_entries sample_pool))
          \<lparr>en_tx = Transaction_empty, en_fee = 100000000, en_weight = 1000001\<rparr> sample_pool = (p', Inl PoolFull)
      \<and> pool_entries p' = []"
proof -
  let ?entry = "\<lparr>en_tx = Transaction_empty, en_fee = 100000000, en_weight = 1000001\<rparr>"
  obtain p' r where room: "make_room pool_env (\<lambda>es. es) (length (pool_entries sample_pool)) ?entry sample_pool = (p', r)"
    by (cases "make_room pool_env (\<lambda>es. es) (length (pool_entries sample_pool)) ?entry sample_pool")
  note out = eviction_outcome [OF sample_pool_ok hash_order_ok room]
  have "dearer (Entry_rate ?entry) (pool_entries sample_pool) = []"
    by (simp add: sample_pool_entries dearer_def Entry_rate_def heavy_entry_def light_entry_def)
  then show ?thesis
    using out room by (cases r) (auto simp: MAX_POOL_WEIGHT_def MAX_BLOCK_WEIGHT_def)
qed

lemma spending_lost: "0 < n \<Longrightarrow> \<not> still_applies pool_env (State_genesis (env_hash pool_env)) (spending n c)"
  by (cases n) (simp_all add: still_applies_def apply_body_def Let_def spending_def spend_input_def State_genesis_def
      ok_or_def is_ok_def)

theorem block_clears_pool_witness:
  "pool_entries (fst (on_block pool_env (\<lambda>es. es) (Batch_genesis pool_env) (State_genesis (env_hash pool_env)) sample_pool)) = []"
proof -
  obtain p' txs where "on_block pool_env (\<lambda>es. es) (Batch_genesis pool_env) (State_genesis (env_hash pool_env)) sample_pool
      = (p', txs)" by (cases "on_block pool_env (\<lambda>es. es) (Batch_genesis pool_env) (State_genesis (env_hash pool_env)) sample_pool")
  from block_clears_pool [OF sample_pool_ok hash_order_ok this] this show ?thesis
    by (simp add: sample_pool_entries heavy_entry_def light_entry_def spending_lost)
qed

theorem reorg_takes_suffix_witness:
  "cache_take_from 5 [(4, [Transaction_empty]), (5, [spending 1 1]), (6, [spending 1 2])]
     = ([(4, [Transaction_empty])], [spending 1 2, spending 1 1])"
proof -
  have "cache_ok [(4, [Transaction_empty]), (5, [spending 1 1]), (6, [spending 1 2])]"
    by (simp add: cache_ok_def REORG_CACHE_BLOCKS_def)
  from reorg_takes_suffix [OF this, of 5] show ?thesis by simp
qed

end
