(* ===== verification/Walk.thy ===== *)
theory Walk
  imports Pow
begin

text \<open>Midstate Walk, the proof of work over a 256 KiB scratchpad (\<^verbatim>\<open>src/src/core/walk.rs\<close>). BLAKE3's
  keyed derivation with extendable output is the parameter \<open>X\<close> (context, message, length); its
  finalisation is the first 32 bytes of that output. The AES round is an interface with three
  providers, the table of the source and the two instruction sets, each given by its documented
  effect on 16 bytes; the locale \<open>aes_unit\<close> states what the walk asks of one.\<close>

unbundle bit_operations_syntax

subsection \<open>Parameters and encodings\<close>

type_synonym w64 = "64 word"
type_synonym xof = "bytes \<Rightarrow> bytes \<Rightarrow> nat \<Rightarrow> bytes"

definition WALK_LINES :: nat where "WALK_LINES = 4096"
definition WALK_STEPS :: nat where "WALK_STEPS = 2 ^ 18"
definition WALK_REMIX :: nat where "WALK_REMIX = 2 ^ 12"
definition CTX_INIT :: bytes where "CTX_INIT = ascii ''midstate walk v1 init''"
definition CTX_REMIX :: bytes where "CTX_REMIX = ascii ''midstate walk v1 remix''"
definition CTX_FINAL :: bytes where "CTX_FINAL = ascii ''midstate walk v1 final''"

type_synonym line = "w64 list"
type_synonym pad = "line list"

definition new_pad :: pad where
  "new_pad = replicate WALK_LINES (replicate 8 0)"

definition le64 :: "bytes \<Rightarrow> w64" where
  "le64 b = word_of_nat (of_le_bytes (take 8 b))"

definition bytes64 :: "w64 \<Rightarrow> bytes" where
  "bytes64 w = le_bytes 8 (unat w)"

definition regs_bytes :: "w64 list \<Rightarrow> bytes" where
  "regs_bytes r = concat (map bytes64 r)"

subsection \<open>Programs\<close>

definition swap_at :: "'a list \<Rightarrow> nat \<Rightarrow> nat \<Rightarrow> 'a list" where
  "swap_at p i j = p[i := p ! j, j := p ! i]"

fun program_loop :: "nat \<Rightarrow> w64 \<Rightarrow> nat list \<Rightarrow> nat list" where
  "program_loop 0 z p = p"
| "program_loop (Suc i) z p =
     (let n = word_of_nat (Suc i + 1) in program_loop i (z div n) (swap_at p (Suc i) (unat (z mod n))))"

definition program :: "w64 \<Rightarrow> nat list" where
  "program z = program_loop 7 z [0, 1, 2, 3, 4, 5, 6, 7]"

definition remix :: "xof \<Rightarrow> w64 list \<Rightarrow> w64 list \<times> nat list" where
  "remix X r =
     (let out = X CTX_REMIX (regs_bytes r) 72
      in (map (\<lambda>k. le64 (drop (8 * k) out)) [0..<8], program (le64 (drop 64 out))))"

definition mulhi :: "w64 \<Rightarrow> w64 \<Rightarrow> w64" where
  "mulhi a b = word_of_nat (unat a * unat b div 2 ^ 64)"

subsection \<open>One step\<close>

record walk_state =
  wk_regs :: "w64 list"
  wk_carry :: w64
  wk_pad :: pad

definition peek :: "pad \<Rightarrow> nat \<Rightarrow> nat \<Rightarrow> w64" where
  "peek pad n j = pad ! n ! j"

definition poke :: "nat \<Rightarrow> nat \<Rightarrow> w64 \<Rightarrow> pad \<Rightarrow> pad" where
  "poke n j v pad = pad[n := (pad ! n)[j := v]]"

definition line_field :: "nat \<Rightarrow> w64 \<Rightarrow> nat" where
  "line_field k x = unat (drop_bit k x AND (word_of_nat WALK_LINES - 1))"

definition word_field :: "w64 \<Rightarrow> nat" where
  "word_field x = unat (drop_bit 14 x AND 7)"

definition partner :: "nat \<Rightarrow> w64 \<Rightarrow> nat" where
  "partner s x = (s + 1 + unat (drop_bit 12 x AND 3)) AND 7"

text \<open>The operation's result, and what it adds to the partner register.\<close>

definition operate :: "(w64 \<Rightarrow> w64 \<Rightarrow> w64 \<times> w64) \<Rightarrow> nat \<Rightarrow> w64 \<Rightarrow> w64 \<Rightarrow> w64 \<times> w64" where
  "operate pair op v k =
     (if op = 0 then (v * (k OR 1), 0)
      else if op = 1 then (v XOR mulhi v k, 0)
      else if op = 2 then (v + k div (take_bit 32 v OR 0x80000001), 0)
      else if op = 3 then pair v k
      else if op = 4 then (word_rotr (unat (k AND 63)) v, 0)
      else if op = 5 then (v + k, 0)
      else if op = 6 then (v - k, 0)
      else (v XOR k, 0))"

definition walk_step :: "(w64 \<Rightarrow> w64 \<Rightarrow> w64 \<times> w64) \<Rightarrow> nat \<Rightarrow> nat \<Rightarrow> walk_state \<Rightarrow> walk_state" where
  "walk_step pair s op st =
     (let r = wk_regs st; pad = wk_pad st;
          x = r ! s XOR wk_carry st;
          a = line_field 0 x; t = partner s x; j = word_field x;
          e = line_field 17 x; b = line_field 32 x; f = line_field 44 x;
          m0 = peek pad a j; m1 = peek pad b (j XOR 4); m2 = peek pad e (j XOR 2); m3 = peek pad f (j XOR 6);
          k = r ! t; v = x XOR m0 XOR m2;
          (y, hi) = operate pair op v k;
          out = y XOR m1 XOR m3;
          r = r[s := out]; r = r[t := r ! t XOR hi]
      in \<lparr>wk_regs = r, wk_carry = out,
          wk_pad = poke f (j XOR 6) (m3 XOR x) (poke e (j XOR 2) (m2 + y) (poke b (j XOR 4) (m1 + x)
            (poke a j (m0 XOR y) pad)))\<rparr>)"

subsection \<open>The walk\<close>

record aes =
  aes_round :: "bytes \<Rightarrow> bytes \<Rightarrow> bytes"
  aes_pair :: "w64 \<Rightarrow> w64 \<Rightarrow> w64 \<times> w64"

definition fill_line :: "bytes list \<Rightarrow> line \<Rightarrow> line" where
  "fill_line lanes l =
     foldl (\<lambda>l q. l[2 * q := le64 (take 8 (lanes ! q)), 2 * q + 1 := le64 (drop 8 (lanes ! q))]) l [0..<4]"

fun fill_pad :: "aes \<Rightarrow> bytes list \<Rightarrow> bytes list \<Rightarrow> pad \<Rightarrow> pad" where
  "fill_pad A keys lanes [] = []"
| "fill_pad A keys lanes (l # ls) =
     (let lanes = map (\<lambda>q. aes_round A (lanes ! q) (keys ! q)) [0..<4]
      in fill_line lanes l # fill_pad A keys lanes ls)"

definition walk_seed :: "xof \<Rightarrow> h256 \<Rightarrow> nat \<Rightarrow> bytes" where
  "walk_seed X m nonce = X CTX_INIT (be_bytes m @ le_bytes 8 nonce) 200"

definition walk_start :: "aes \<Rightarrow> bytes \<Rightarrow> pad \<Rightarrow> walk_state" where
  "walk_start A seed pad =
     \<lparr>wk_regs = map (\<lambda>k. le64 (drop (8 * k) seed)) [0..<8], wk_carry = 0,
      wk_pad = fill_pad A (map (\<lambda>q. take 16 (drop (128 + 16 * q) seed)) [0..<4])
                 (map (\<lambda>q. take 16 (drop (64 + 16 * q) seed)) [0..<4]) pad\<rparr>"

definition walk_round :: "xof \<Rightarrow> aes \<Rightarrow> walk_state \<times> nat list \<Rightarrow> nat \<Rightarrow> walk_state \<times> nat list" where
  "walk_round X A acc n = (case acc of (st, prog) \<Rightarrow>
     let st = foldl (\<lambda>st s. walk_step (aes_pair A) s (prog ! s) st) st [0..<8]
     in if (n + 1) mod (WALK_REMIX div 8) = 0
        then let (r, prog) = remix X (wk_regs st) in (st\<lparr>wk_regs := r\<rparr>, prog)
        else (st, prog))"

definition walk_generic :: "xof \<Rightarrow> aes \<Rightarrow> h256 \<Rightarrow> nat \<Rightarrow> pad \<Rightarrow> h256 \<times> pad" where
  "walk_generic X A m nonce pad =
     (let seed = walk_seed X m nonce;
          (st, prog) = foldl (walk_round X A) (walk_start A seed pad, program (le64 (drop 192 seed)))
                         [0..<WALK_STEPS div 8]
      in (h256_of_be (X CTX_FINAL (be_bytes m @ le_bytes 8 nonce @ regs_bytes (wk_regs st)) 32), wk_pad st))"

subsection \<open>The AES round in software\<close>

definition SBOX :: "byte list" where
  "SBOX = [
    0x63, 0x7c, 0x77, 0x7b, 0xf2, 0x6b, 0x6f, 0xc5, 0x30, 0x01, 0x67, 0x2b, 0xfe, 0xd7, 0xab, 0x76,
    0xca, 0x82, 0xc9, 0x7d, 0xfa, 0x59, 0x47, 0xf0, 0xad, 0xd4, 0xa2, 0xaf, 0x9c, 0xa4, 0x72, 0xc0,
    0xb7, 0xfd, 0x93, 0x26, 0x36, 0x3f, 0xf7, 0xcc, 0x34, 0xa5, 0xe5, 0xf1, 0x71, 0xd8, 0x31, 0x15,
    0x04, 0xc7, 0x23, 0xc3, 0x18, 0x96, 0x05, 0x9a, 0x07, 0x12, 0x80, 0xe2, 0xeb, 0x27, 0xb2, 0x75,
    0x09, 0x83, 0x2c, 0x1a, 0x1b, 0x6e, 0x5a, 0xa0, 0x52, 0x3b, 0xd6, 0xb3, 0x29, 0xe3, 0x2f, 0x84,
    0x53, 0xd1, 0x00, 0xed, 0x20, 0xfc, 0xb1, 0x5b, 0x6a, 0xcb, 0xbe, 0x39, 0x4a, 0x4c, 0x58, 0xcf,
    0xd0, 0xef, 0xaa, 0xfb, 0x43, 0x4d, 0x33, 0x85, 0x45, 0xf9, 0x02, 0x7f, 0x50, 0x3c, 0x9f, 0xa8,
    0x51, 0xa3, 0x40, 0x8f, 0x92, 0x9d, 0x38, 0xf5, 0xbc, 0xb6, 0xda, 0x21, 0x10, 0xff, 0xf3, 0xd2,
    0xcd, 0x0c, 0x13, 0xec, 0x5f, 0x97, 0x44, 0x17, 0xc4, 0xa7, 0x7e, 0x3d, 0x64, 0x5d, 0x19, 0x73,
    0x60, 0x81, 0x4f, 0xdc, 0x22, 0x2a, 0x90, 0x88, 0x46, 0xee, 0xb8, 0x14, 0xde, 0x5e, 0x0b, 0xdb,
    0xe0, 0x32, 0x3a, 0x0a, 0x49, 0x06, 0x24, 0x5c, 0xc2, 0xd3, 0xac, 0x62, 0x91, 0x95, 0xe4, 0x79,
    0xe7, 0xc8, 0x37, 0x6d, 0x8d, 0xd5, 0x4e, 0xa9, 0x6c, 0x56, 0xf4, 0xea, 0x65, 0x7a, 0xae, 0x08,
    0xba, 0x78, 0x25, 0x2e, 0x1c, 0xa6, 0xb4, 0xc6, 0xe8, 0xdd, 0x74, 0x1f, 0x4b, 0xbd, 0x8b, 0x8a,
    0x70, 0x3e, 0xb5, 0x66, 0x48, 0x03, 0xf6, 0x0e, 0x61, 0x35, 0x57, 0xb9, 0x86, 0xc1, 0x1d, 0x9e,
    0xe1, 0xf8, 0x98, 0x11, 0x69, 0xd9, 0x8e, 0x94, 0x9b, 0x1e, 0x87, 0xe9, 0xce, 0x55, 0x28, 0xdf,
    0x8c, 0xa1, 0x89, 0x0d, 0xbf, 0xe6, 0x42, 0x68, 0x41, 0x99, 0x2d, 0x0f, 0xb0, 0x54, 0xbb, 0x16]"

text \<open>An entry of the table \<^verbatim>\<open>TE\<close>.\<close>

definition TE :: "byte \<Rightarrow> 32 word" where
  "TE x =
     (let s = ucast (SBOX ! unat x) :: 32 word;
          s2 = (push_bit 1 s XOR (if s AND 0x80 \<noteq> 0 then 0x11b else 0)) AND 0xff;
          s3 = s2 XOR s
      in s2 OR push_bit 8 s OR push_bit 16 s OR push_bit 24 s3)"

definition le32 :: "byte \<Rightarrow> byte \<Rightarrow> byte \<Rightarrow> byte \<Rightarrow> 32 word" where
  "le32 a b c d = ucast a OR push_bit 8 (ucast b) OR push_bit 16 (ucast c) OR push_bit 24 (ucast d)"

definition bytes32 :: "32 word \<Rightarrow> bytes" where
  "bytes32 w = map (\<lambda>i. ucast (drop_bit (8 * i) w)) [0..<4]"

definition SoftAes_column :: "bytes \<Rightarrow> bytes \<Rightarrow> nat \<Rightarrow> 32 word" where
  "SoftAes_column st key c =
     TE (st ! (4 * c))
     XOR word_rotl 8 (TE (st ! (4 * ((c + 1) AND 3) + 1)))
     XOR word_rotl 16 (TE (st ! (4 * ((c + 2) AND 3) + 2)))
     XOR word_rotl 24 (TE (st ! (4 * ((c + 3) AND 3) + 3)))
     XOR le32 (key ! (4 * c)) (key ! (4 * c + 1)) (key ! (4 * c + 2)) (key ! (4 * c + 3))"

definition SoftAes_round :: "bytes \<Rightarrow> bytes \<Rightarrow> bytes" where
  "SoftAes_round st key = concat (map (\<lambda>c. bytes32 (SoftAes_column st key c)) [0..<4])"

text \<open>The default of the trait.\<close>

definition round_pair :: "(bytes \<Rightarrow> bytes \<Rightarrow> bytes) \<Rightarrow> w64 \<Rightarrow> w64 \<Rightarrow> w64 \<times> w64" where
  "round_pair rnd lo hi =
     (let out = rnd (bytes64 lo @ bytes64 hi) (replicate 16 0) in (le64 (take 8 out), le64 (drop 8 out)))"

definition SoftAes :: aes where
  "SoftAes = \<lparr>aes_round = SoftAes_round, aes_pair = round_pair SoftAes_round\<rparr>"

subsection \<open>The AES round in hardware\<close>

text \<open>The steps of FIPS-197, on a state of 16 bytes in column order.\<close>

definition SubBytes :: "bytes \<Rightarrow> bytes" where
  "SubBytes st = map (\<lambda>b. SBOX ! unat b) st"

definition ShiftRows :: "bytes \<Rightarrow> bytes" where
  "ShiftRows st = map (\<lambda>i. st ! (4 * ((i div 4 + i mod 4) mod 4) + i mod 4)) [0..<16]"

definition xtime :: "byte \<Rightarrow> byte" where
  "xtime b = push_bit 1 b XOR (if bit b 7 then 0x1b else 0)"

definition mix_column :: "byte \<Rightarrow> byte \<Rightarrow> byte \<Rightarrow> byte \<Rightarrow> bytes" where
  "mix_column a b c d =
     [xtime a XOR xtime b XOR b XOR c XOR d, a XOR xtime b XOR xtime c XOR c XOR d,
      a XOR b XOR xtime c XOR xtime d XOR d, xtime a XOR a XOR b XOR c XOR xtime d]"

definition MixColumns :: "bytes \<Rightarrow> bytes" where
  "MixColumns st = concat (map (\<lambda>c. mix_column (st ! (4 * c)) (st ! (4 * c + 1)) (st ! (4 * c + 2)) (st ! (4 * c + 3))) [0..<4])"

definition AddRoundKey :: "bytes \<Rightarrow> bytes \<Rightarrow> bytes" where
  "AddRoundKey st key = map2 (XOR) st key"

definition AESENC :: "bytes \<Rightarrow> bytes \<Rightarrow> bytes" where
  "AESENC st key = AddRoundKey (MixColumns (ShiftRows (SubBytes st))) key"

text \<open>The instructions, on registers of 16 bytes.\<close>

definition mm_aesenc_si128 :: "bytes \<Rightarrow> bytes \<Rightarrow> bytes" where
  "mm_aesenc_si128 s k = AESENC s k"

definition mm_set_epi64x :: "w64 \<Rightarrow> w64 \<Rightarrow> bytes" where
  "mm_set_epi64x hi lo = bytes64 lo @ bytes64 hi"

definition mm_cvtsi128_si64 :: "bytes \<Rightarrow> w64" where
  "mm_cvtsi128_si64 v = le64 v"

definition mm_unpackhi_epi64 :: "bytes \<Rightarrow> bytes \<Rightarrow> bytes" where
  "mm_unpackhi_epi64 v w = drop 8 v @ drop 8 w"

definition AesNi :: aes where
  "AesNi = \<lparr>aes_round = mm_aesenc_si128,
     aes_pair = (\<lambda>lo hi. let out = mm_aesenc_si128 (mm_set_epi64x hi lo) (replicate 16 0)
                        in (mm_cvtsi128_si64 out, mm_cvtsi128_si64 (mm_unpackhi_epi64 out out)))\<rparr>"

definition vaeseq_u8 :: "bytes \<Rightarrow> bytes \<Rightarrow> bytes" where
  "vaeseq_u8 s k = SubBytes (ShiftRows (AddRoundKey s k))"

definition vaesmcq_u8 :: "bytes \<Rightarrow> bytes" where
  "vaesmcq_u8 s = MixColumns s"

definition veorq_u8 :: "bytes \<Rightarrow> bytes \<Rightarrow> bytes" where
  "veorq_u8 s k = map2 (XOR) s k"

definition Armv8 :: aes where
  "Armv8 = \<lparr>aes_round = (\<lambda>s k. veorq_u8 (vaesmcq_u8 (vaeseq_u8 s (replicate 16 0))) k),
     aes_pair = (\<lambda>lo hi. let out = vaesmcq_u8 (vaeseq_u8 (bytes64 lo @ bytes64 hi) (replicate 16 0))
                        in (le64 (take 8 out), le64 (drop 8 out)))\<rparr>"

datatype Backend = Portable | AesNiBackend | Armv8Backend

definition walk_with_pad :: "xof \<Rightarrow> Backend \<Rightarrow> h256 \<Rightarrow> nat \<Rightarrow> pad \<Rightarrow> h256 \<times> pad" where
  "walk_with_pad X backend m nonce pad =
     walk_generic X (case backend of Portable \<Rightarrow> SoftAes | AesNiBackend \<Rightarrow> AesNi | Armv8Backend \<Rightarrow> Armv8) m nonce pad"

text \<open>The thread's scratchpad, or a fresh one when it is borrowed (\<open>None\<close>); and the reference path.\<close>

definition walk_hash :: "xof \<Rightarrow> Backend \<Rightarrow> pad option \<Rightarrow> h256 \<Rightarrow> nat \<Rightarrow> h256" where
  "walk_hash X backend thread_pad m nonce =
     fst (walk_with_pad X backend m nonce (case thread_pad of Some pad \<Rightarrow> pad | None \<Rightarrow> new_pad))"

definition walk_hash_portable :: "xof \<Rightarrow> h256 \<Rightarrow> nat \<Rightarrow> h256" where
  "walk_hash_portable X m nonce = fst (walk_generic X SoftAes m nonce new_pad)"


subsection \<open>The table computes the round\<close>

lemma bit_le32: "bit (le32 a b c d) n \<longleftrightarrow> n < 32 \<and> (if n < 8 then bit a n else if n < 16 then bit b (n - 8) else if n < 24 then bit c (n - 16) else bit d (n - 24))"
  by (auto simp: le32_def bit_simps dest: bit_imp_le_length)
lemma TE_double: "(push_bit 1 (ucast s) XOR (if (ucast s :: 32 word) AND 0x80 \<noteq> 0 then 0x11b else 0)) AND 0xff = (ucast (xtime s) :: 32 word)"
proof -
  have high: "ucast s AND 0x80 \<noteq> (0 :: 32 word) \<longleftrightarrow> bit s 7"
    using and_exp_eq_0_iff_not_bit [of "ucast s :: 32 word" 7] by (simp add: bit_simps)
  have low: "ucast (push_bit 1 s) = (push_bit 1 (ucast s) AND 0xff :: 32 word)"
  proof -
    have "(0xff :: 32 word) = mask 8" by (simp add: mask_eq_exp_minus_1)
    then show ?thesis
      unfolding unsigned_push_bit_eq take_bit_eq_mask by (simp add: mask_eq_exp_minus_1)
  qed
  have "ucast (xtime s) = (push_bit 1 (ucast s) AND 0xff) XOR (if bit s 7 then 0x1b else (0 :: 32 word))"
    unfolding xtime_def unsigned_xor_eq low by simp
  then show ?thesis unfolding high by (simp add: word_bw_comms bit.conj_xor_distrib)
qed
lemma TE_le32: "TE x = (let s = SBOX ! unat x in le32 (xtime s) s s (xtime s XOR s))"
  unfolding TE_def Let_def TE_double le32_def by (simp add: unsigned_xor_eq)

lemma rotl_le32:
  "word_rotl 8 (le32 a b c d) = le32 d a b c" "word_rotl 16 (le32 a b c d) = le32 c d a b"
  "word_rotl 24 (le32 a b c d) = le32 b c d a"
  by (rule bit_word_eqI, auto simp: bit_word_rotl_iff bit_le32 mod_if)+

lemma xor_le32: "le32 a b c d XOR le32 a' b' c' d' = le32 (a XOR a') (b XOR b') (c XOR c') (d XOR d')"
  by (rule bit_word_eqI) (auto simp: bit_xor_iff bit_le32)

lemma walk_upts:
  "[0..<4] = [0, 1, 2, 3]" "[0..<8] = [0, 1, 2, 3, 4, 5, 6, 7]"
  "[0..<16] = [0, 1, 2, 3, 4, 5, 6, 7, 8, 9, 10, 11, 12, 13, 14, 15]"
  by code_simp+

lemma bytes32_le32: "bytes32 (le32 a b c d) = [a, b, c, d]"
  by (simp add: bytes32_def walk_upts del: upt_Suc)
    (intro conjI; rule bit_word_eqI; auto simp: bit_simps bit_le32)

lemma SoftAes_column_le32:
  "SoftAes_column st key c =
     (let s = (\<lambda>r. SBOX ! unat (st ! (4 * ((c + r) AND 3) + r)));
          m = mix_column (SBOX ! unat (st ! (4 * c))) (s 1) (s 2) (s 3)
      in le32 (m ! 0 XOR key ! (4 * c)) (m ! 1 XOR key ! (4 * c + 1)) (m ! 2 XOR key ! (4 * c + 2))
           (m ! 3 XOR key ! (4 * c + 3)))"
  unfolding SoftAes_column_def TE_le32 Let_def rotl_le32 xor_le32 mix_column_def
  by (simp add: xor.assoc xor.left_commute xor.commute numeral_2_eq_2 [symmetric] del: One_nat_def)

lemma SubBytes_nth: "i < length st \<Longrightarrow> SubBytes st ! i = SBOX ! unat (st ! i)"
  by (simp add: SubBytes_def)

lemma length_SubBytes [simp]: "length (SubBytes st) = length st"
  by (simp add: SubBytes_def)

lemma length_ShiftRows [simp]: "length (ShiftRows st) = 16"
  by (simp add: ShiftRows_def)

lemma ShiftRows_16:
  "ShiftRows st = [st ! 0, st ! 5, st ! 10, st ! 15, st ! 4, st ! 9, st ! 14, st ! 3,
     st ! 8, st ! 13, st ! 2, st ! 7, st ! 12, st ! 1, st ! 6, st ! 11]"
  by (simp add: ShiftRows_def walk_upts numeral_2_eq_2 [symmetric] del: upt_Suc)

lemma list16:
  assumes "length xs = 16"
  shows "xs = map ((!) xs) [0, 1, 2, 3, 4, 5, 6, 7, 8, 9, 10, 11, 12, 13, 14, 15]"
  using map_nth [of xs] unfolding assms walk_upts by simp

lemma SoftAes_round_AESENC:
  assumes "length st = 16" and "length key = 16"
  shows "SoftAes_round st key = AESENC st key"
proof -
  have and3: "((1 :: nat) AND 3) = 1" "((2 :: nat) AND 3) = 2" "((3 :: nat) AND 3) = 3" "((4 :: nat) AND 3) = 0"
    "((5 :: nat) AND 3) = 1" "((6 :: nat) AND 3) = 2"
    by simp_all
  show ?thesis
    unfolding AESENC_def AddRoundKey_def MixColumns_def ShiftRows_16
    by (subst (2) list16 [OF assms(2)])
      (simp add: SoftAes_round_def SoftAes_column_le32 bytes32_le32 walk_upts SubBytes_nth assms mix_column_def
        Let_def and3 numeral_2_eq_2 [symmetric] del: upt_Suc One_nat_def)
qed


subsection \<open>What the walk asks of an AES unit\<close>

definition xof_ok :: "xof \<Rightarrow> bool" where
  "xof_ok X \<longleftrightarrow> (\<forall>ctx msg n. length (X ctx msg n) = n)"

definition fips_unit :: aes where
  "fips_unit = \<lparr>aes_round = AESENC, aes_pair = round_pair AESENC\<rparr>"

locale aes_unit =
  fixes A :: aes
  assumes round_is_aesenc: "length st = 16 \<Longrightarrow> length key = 16 \<Longrightarrow> aes_round A st key = AESENC st key"
    and pair_is_aesenc: "aes_pair A lo hi = round_pair AESENC lo hi"
begin

lemma fill_pad_fips:
  assumes "length lanes = 4" and "\<forall>x \<in> set lanes. length x = 16" and "length keys = 4" and "\<forall>x \<in> set keys. length x = 16"
  shows "fill_pad A keys lanes pad = fill_pad fips_unit keys lanes pad"
  using assms(1,2)
proof (induction pad arbitrary: lanes)
  case (Cons l ls)
  let ?lanes = "map (\<lambda>q. aes_round A (lanes ! q) (keys ! q)) [0..<4]"
  have eq: "?lanes = map (\<lambda>q. aes_round fips_unit (lanes ! q) (keys ! q)) [0..<4]"
    by (rule map_cong) (use Cons.prems assms(3,4) in \<open>auto simp: fips_unit_def round_is_aesenc\<close>)
  have "length (AESENC x k) = 16" if "length k = 16" for x k
    using that by (simp add: AESENC_def AddRoundKey_def MixColumns_def mix_column_def walk_upts del: upt_Suc)
  then have "\<forall>x \<in> set ?lanes. length x = 16"
    unfolding eq using assms(3,4) by (auto simp: fips_unit_def)
  then show ?case
    using Cons.IH [of ?lanes] by (simp add: Let_def eq)
qed simp

lemma walk_fips:
  assumes "xof_ok X"
  shows "walk_generic X A m nonce pad = walk_generic X fips_unit m nonce pad"
proof -
  have "length (walk_seed X m nonce) = 200" using assms by (simp add: walk_seed_def xof_ok_def)
  then have start: "walk_start A (walk_seed X m nonce) pad = walk_start fips_unit (walk_seed X m nonce) pad"
    unfolding walk_start_def by (subst fill_pad_fips) auto
  have "aes_pair A = aes_pair fips_unit"
    by (rule ext, rule ext) (simp add: pair_is_aesenc fips_unit_def)
  then have "walk_round X A = walk_round X fips_unit"
    by (intro ext) (simp add: walk_round_def)
  then show ?thesis by (simp add: walk_generic_def start)
qed

end

lemma length_bytes64 [simp]: "length (bytes64 w) = 8"
  by (simp add: bytes64_def)

lemma length_AESENC: "length k = 16 \<Longrightarrow> length (AESENC s k) = 16"
  by (simp add: AESENC_def AddRoundKey_def MixColumns_def mix_column_def walk_upts del: upt_Suc)

interpretation soft_aes: aes_unit SoftAes
  by unfold_locales (simp_all add: SoftAes_def SoftAes_round_AESENC round_pair_def)

lemma take_8_16: "length v = 16 \<Longrightarrow> le64 (drop 8 v @ w) = le64 (drop 8 v)"
  by (simp add: le64_def)

lemma le64_take: "le64 (take 8 v) = le64 v"
  by (simp add: le64_def)

interpretation aes_ni: aes_unit AesNi
  by unfold_locales
    (simp_all add: AesNi_def mm_aesenc_si128_def mm_set_epi64x_def mm_cvtsi128_si64_def mm_unpackhi_epi64_def
      round_pair_def Let_def le64_take take_8_16 length_AESENC)

text \<open>ARM's first instruction adds the key before the substitution; under a zero key the order is the same.\<close>

lemma SubBytes_ShiftRows: "length st = 16 \<Longrightarrow> SubBytes (ShiftRows st) = ShiftRows (SubBytes st)"
  unfolding ShiftRows_16 by (simp add: SubBytes_nth) (simp add: SubBytes_def)

lemma AddRoundKey_zero: "length st \<le> n \<Longrightarrow> AddRoundKey st (replicate n 0) = st"
  unfolding AddRoundKey_def by (rule nth_equalityI) auto

lemma AESENC_zero_key: "AESENC st (replicate 16 0) = MixColumns (ShiftRows (SubBytes st))"
proof -
  have "length (MixColumns x) = 16" for x
    by (simp add: MixColumns_def mix_column_def walk_upts del: upt_Suc)
  then show ?thesis by (simp add: AESENC_def AddRoundKey_zero)
qed

interpretation armv8: aes_unit Armv8
proof unfold_locales
  fix st key :: bytes
  assume "length st = 16" and "length key = 16"
  then show "aes_round Armv8 st key = AESENC st key"
    by (simp add: Armv8_def veorq_u8_def vaesmcq_u8_def vaeseq_u8_def AddRoundKey_zero SubBytes_ShiftRows
        AESENC_def) (simp add: AddRoundKey_def)
next
  fix lo hi :: w64
  show "aes_pair Armv8 lo hi = round_pair AESENC lo hi"
    by (simp add: Armv8_def vaesmcq_u8_def vaeseq_u8_def AddRoundKey_zero SubBytes_ShiftRows
        round_pair_def AESENC_zero_key Let_def)
qed

subsection \<open>Programs are permutations\<close>

lemma mset_swap_at: "i < length p \<Longrightarrow> j < length p \<Longrightarrow> mset (swap_at p i j) = mset p"
  unfolding swap_at_def by (metis mset_swap)

lemma length_swap_at [simp]: "length (swap_at p i j) = length p"
  by (simp add: swap_at_def)

lemma program_loop_mset: "i < length p \<Longrightarrow> length p \<le> 2 ^ 64 \<Longrightarrow> mset (program_loop i z p) = mset p"
proof (induction i arbitrary: z p)
  case (Suc i)
  let ?n = "word_of_nat (Suc i + 1) :: w64"
  have "unat ?n = (Suc i + 1) mod 2 ^ 64" by (simp only: unat_of_nat) simp
  then have n: "unat ?n = Suc i + 1 \<or> Suc i + 1 = 2 ^ 64" using Suc.prems by (cases "Suc i + 1 = 2 ^ 64") auto
  have "unat (z mod ?n) < length p"
  proof (cases "Suc i + 1 = 2 ^ 64")
    case True
    then have "2 ^ 64 \<le> length p" using Suc.prems by simp
    then show ?thesis using unsigned_less [of "z mod ?n", where ?'a = nat] by simp
  next
    case False
    then have "unat (z mod ?n) = unat z mod (Suc i + 1)" using n by (simp add: unat_mod_distrib)
    moreover have "unat z mod (Suc i + 1) < Suc i + 1" by (rule mod_less_divisor) simp
    ultimately show ?thesis using Suc.prems(1) by linarith
  qed
  then have "mset (swap_at p (Suc i) (unat (z mod ?n))) = mset p"
    using Suc.prems(1) by (intro mset_swap_at)
  moreover have "mset (program_loop i (z div ?n) (swap_at p (Suc i) (unat (z mod ?n)))) =
      mset (swap_at p (Suc i) (unat (z mod ?n)))"
    using Suc.prems by (intro Suc.IH) simp_all
  ultimately show ?case by (simp only: program_loop.simps Let_def)
qed simp

lemma mset_program: "mset (program z) = mset [0..<8]"
  unfolding program_def walk_upts by (rule program_loop_mset) simp_all


subsection \<open>Steps\<close>

definition pad_ok :: "pad \<Rightarrow> bool" where
  "pad_ok pad \<longleftrightarrow> length pad = WALK_LINES \<and> (\<forall>l \<in> set pad. length l = 8)"

definition walk_ok :: "walk_state \<Rightarrow> bool" where
  "walk_ok st \<longleftrightarrow> length (wk_regs st) = 8 \<and> pad_ok (wk_pad st)"

lemma new_pad_ok: "pad_ok new_pad"
  by (simp add: pad_ok_def new_pad_def)

lemma unat_and_mask: "unat (x AND (mask n :: w64)) < 2 ^ n"
  unfolding take_bit_eq_mask [symmetric] unsigned_take_bit_eq by (rule take_bit_nat_less_exp)

lemma line_field_less: "line_field k x < WALK_LINES"
proof -
  have "word_of_nat WALK_LINES - 1 = (mask 12 :: w64)"
    by (simp add: WALK_LINES_def mask_eq_exp_minus_1)
  then show ?thesis
    using unat_and_mask [of "drop_bit k x" 12] by (simp add: line_field_def WALK_LINES_def)
qed

lemma word_field_less: "word_field x < 8"
  using unat_and_mask [of "drop_bit 14 x" 3] by (simp add: word_field_def mask_eq_exp_minus_1)

lemma and_7: "(n :: nat) AND 7 = n mod 8"
proof -
  have "n AND mask 3 = n mod 8" unfolding take_bit_eq_mask [symmetric] by (simp add: take_bit_eq_mod)
  then show ?thesis by (simp add: mask_eq_exp_minus_1)
qed

lemma partner_less: "partner s x < 8"
  by (simp add: partner_def and_7)

lemma partner_other:
  assumes "s < 8"
  shows "partner s x \<noteq> s"
proof -
  have "unat (drop_bit 12 x AND 3) < 4"
    using unat_and_mask [of "drop_bit 12 x" 2] by (simp add: mask_eq_exp_minus_1)
  then have "unat (drop_bit 12 x AND 3) \<in> {0, 1, 2, 3}" by auto
  moreover have "s \<in> {0, 1, 2, 3, 4, 5, 6, 7}" using assms by auto
  ultimately show ?thesis unfolding partner_def and_7 by (elim insertE emptyE; simp)
qed

lemma xor_words:
  assumes "(j :: nat) < 8"
  shows "j XOR 4 < 8" and "j XOR 2 < 8" and "j XOR 6 < 8" and "distinct [j, j XOR 4, j XOR 2, j XOR 6]"
proof -
  have "j \<in> {0, 1, 2, 3, 4, 5, 6, 7}" using assms by auto
  then show "j XOR 4 < 8" and "j XOR 2 < 8" and "j XOR 6 < 8" and "distinct [j, j XOR 4, j XOR 2, j XOR 6]"
    by (elim insertE emptyE; simp)+
qed

lemma poke_ok: "pad_ok pad \<Longrightarrow> pad_ok (poke n j v pad)"
  by (cases "n < length pad")
    (auto simp: pad_ok_def poke_def list_update_beyond not_less dest: set_update_subset_insert [THEN subsetD])

lemma peek_poke:
  assumes "pad_ok pad" and "n < WALK_LINES" and "j < 8"
  shows "peek (poke n j v pad) n' j' = (if n' = n \<and> j' = j then v else peek pad n' j')"
proof -
  have "n < length pad" and "length (pad ! n) = 8" using assms by (simp_all add: pad_ok_def)
  then show ?thesis using assms(3) by (auto simp: peek_def poke_def nth_list_update)
qed

text \<open>Where a step reads and writes, and what it computes.\<close>

definition step_input :: "nat \<Rightarrow> walk_state \<Rightarrow> w64" where
  "step_input s st = wk_regs st ! s XOR wk_carry st"

definition step_places :: "w64 \<Rightarrow> (nat \<times> nat) list" where
  "step_places x = [(line_field 0 x, word_field x), (line_field 32 x, word_field x XOR 4),
     (line_field 17 x, word_field x XOR 2), (line_field 44 x, word_field x XOR 6)]"

definition step_values :: "(w64 \<Rightarrow> w64 \<Rightarrow> w64 \<times> w64) \<Rightarrow> nat \<Rightarrow> nat \<Rightarrow> walk_state \<Rightarrow> w64 list" where
  "step_values pair s op st =
     (let x = step_input s st; m = map (\<lambda>(n, j). peek (wk_pad st) n j) (step_places x);
          y = fst (operate pair op (x XOR m ! 0 XOR m ! 2) (wk_regs st ! partner s x))
      in [m ! 0 XOR y, m ! 1 + x, m ! 2 + y, m ! 3 XOR x])"

lemma step_places_distinct: "distinct (step_places x)"
  using xor_words(4) [OF word_field_less [of x]] by (auto simp: step_places_def)

lemma walk_step_pad:
  "wk_pad (walk_step pair s op st) =
     (let v = step_values pair s op st; p = step_places (step_input s st)
      in foldl (\<lambda>pad i. poke (fst (p ! i)) (snd (p ! i)) (v ! i) pad) (wk_pad st) [0..<4])"
  by (simp add: walk_step_def step_values_def step_places_def step_input_def Let_def walk_upts case_prod_unfold
      numeral_2_eq_2 numeral_3_eq_3 del: upt_Suc)

lemma walk_step_ok:
  assumes "walk_ok st"
  shows "walk_ok (walk_step pair s op st)"
  using assms by (simp add: walk_ok_def walk_step_def Let_def poke_ok case_prod_unfold)

text \<open>Each of the four places ends with its own value, whichever was written last.\<close>

lemma walk_step_words:
  assumes "walk_ok st" and "i < 4"
  shows "peek (wk_pad (walk_step pair s op st)) (fst (step_places (step_input s st) ! i)) (snd (step_places (step_input s st) ! i))
       = step_values pair s op st ! i"
proof -
  let ?x = "step_input s st"
  have "i \<in> {0, 1, 2, 3}" using assms(2) by auto
  moreover note xor_words [OF word_field_less [of ?x]]
  ultimately show ?thesis
    using assms(1) line_field_less word_field_less
    unfolding walk_step_pad Let_def walk_upts walk_ok_def
    by (elim insertE emptyE) (auto simp: step_places_def peek_poke poke_ok numeral_2_eq_2 numeral_3_eq_3)
qed

lemma walk_step_frame:
  assumes "walk_ok st" and "(n, j) \<notin> set (step_places (step_input s st))"
  shows "peek (wk_pad (walk_step pair s op st)) n j = peek (wk_pad st) n j"
proof -
  let ?x = "step_input s st"
  note xor_words [OF word_field_less [of ?x]]
  then show ?thesis
    using assms line_field_less word_field_less
    unfolding walk_step_pad Let_def walk_upts walk_ok_def
    by (auto simp: step_places_def peek_poke poke_ok numeral_2_eq_2 numeral_3_eq_3)
qed


lemma pad_ext:
  assumes "pad_ok p" and "pad_ok q" and "\<And>n j. n < WALK_LINES \<Longrightarrow> j < 8 \<Longrightarrow> peek p n j = peek q n j"
  shows "p = q"
proof (rule nth_equalityI)
  show "length p = length q" using assms(1,2) by (simp add: pad_ok_def)
  fix n assume "n < length p"
  then have n: "n < WALK_LINES" "length (p ! n) = 8" "length (q ! n) = 8" using assms(1,2) by (simp_all add: pad_ok_def)
  then show "p ! n = q ! n" using assms(3) [OF n(1)] by (intro nth_equalityI) (simp_all add: peek_def)
qed

text \<open>Writes to distinct places, in any order.\<close>

lemma peek_pokes:
  assumes "pad_ok pad" and "\<forall>(n, j) \<in> set ps. n < WALK_LINES \<and> j < 8" and "distinct ps"
    and "distinct is" and "\<forall>i \<in> set is. i < length ps"
  shows "pad_ok (foldl (\<lambda>pad i. poke (fst (ps ! i)) (snd (ps ! i)) (v ! i) pad) pad is)"
    and "i < length ps \<Longrightarrow> ps ! i = (n, j) \<Longrightarrow>
      peek (foldl (\<lambda>pad i. poke (fst (ps ! i)) (snd (ps ! i)) (v ! i) pad) pad is) n j
      = (if i \<in> set is then v ! i else peek pad n j)"
    and "(n, j) \<notin> set ps \<Longrightarrow>
      peek (foldl (\<lambda>pad i. poke (fst (ps ! i)) (snd (ps ! i)) (v ! i) pad) pad is) n j = peek pad n j"
proof -
  let ?run = "foldl (\<lambda>pad i. poke (fst (ps ! i)) (snd (ps ! i)) (v ! i) pad) pad"
  have range: "fst (ps ! i) < WALK_LINES" "snd (ps ! i) < 8" if "i < length ps" for i
    using assms(2) that by (metis case_prod_unfold nth_mem)+
  show ok: "pad_ok (?run is)"
    by (induction "is" rule: rev_induct) (simp_all add: assms(1) poke_ok)
  have ok': "pad_ok (?run xs)" for xs
    by (induction xs rule: rev_induct) (simp_all add: assms(1) poke_ok)
  show "peek (?run is) n j = (if i \<in> set is then v ! i else peek pad n j)"
    if "i < length ps" and "ps ! i = (n, j)"
    using assms(4,5)
  proof (induction "is" rule: rev_induct)
    case (snoc x xs)
    have "x < length ps" using snoc.prems by simp
    then have "(fst (ps ! x) = n \<and> snd (ps ! x) = j) \<longleftrightarrow> x = i"
      using that assms(3) by (metis fst_conv nth_eq_iff_index_eq prod.collapse snd_conv)
    then show ?case
      using snoc range [OF \<open>x < length ps\<close>] by (auto simp: peek_poke ok')
  qed simp
  show "peek (?run is) n j = peek pad n j" if "(n, j) \<notin> set ps"
    using assms(5)
  proof (induction "is" rule: rev_induct)
    case (snoc x xs)
    then have x: "x < length ps" by simp
    have "\<not> (n = fst (ps ! x) \<and> j = snd (ps ! x))" using that nth_mem [OF x] by (metis prod.collapse)
    then show ?case using snoc range [OF x] by (auto simp: peek_poke ok')
  qed simp
qed

lemma step_places_range: "\<forall>(n, j) \<in> set (step_places x). n < WALK_LINES \<and> j < 8"
  using xor_words [OF word_field_less [of x]] by (simp add: step_places_def line_field_less word_field_less)

lemma walk_step_commutes:
  assumes "walk_ok st" and "mset is = mset [0..<4]"
  shows "foldl (\<lambda>pad i. poke (fst (step_places (step_input s st) ! i)) (snd (step_places (step_input s st) ! i))
           (step_values pair s op st ! i) pad) (wk_pad st) is = wk_pad (walk_step pair s op st)"
proof (rule pad_ext)
  let ?ps = "step_places (step_input s st)"
  have dist: "distinct is" "set is = {0..<4}"
    using assms(2) mset_eq_imp_distinct_iff [OF assms(2)] mset_eq_setD [OF assms(2)] by auto
  have len: "length ?ps = 4" by (simp add: step_places_def)
  have pad: "pad_ok (wk_pad st)" using assms(1) by (simp add: walk_ok_def)
  note runs = peek_pokes [OF pad step_places_range step_places_distinct, of _ "step_input s st"]
  have "\<forall>i \<in> set is. i < length ?ps" "\<forall>i \<in> set [0..<4]. i < length ?ps" using dist len by auto
  note a = runs [OF dist(1) this(1)] and b = runs [OF distinct_upt this(2)]
  show "pad_ok (foldl (\<lambda>pad i. poke (fst (?ps ! i)) (snd (?ps ! i)) (step_values pair s op st ! i) pad) (wk_pad st) is)"
    by (rule a(1))
  show "pad_ok (wk_pad (walk_step pair s op st))" using walk_step_ok [OF assms(1)] by (simp add: walk_ok_def)
  fix n j
  show "peek (foldl (\<lambda>pad i. poke (fst (?ps ! i)) (snd (?ps ! i)) (step_values pair s op st ! i) pad) (wk_pad st) is) n j
      = peek (wk_pad (walk_step pair s op st)) n j"
  proof (cases "(n, j) \<in> set ?ps")
    case True
    then obtain i where i: "i < length ?ps" "?ps ! i = (n, j)" by (meson in_set_conv_nth)
    then show ?thesis using a(2) [OF i] b(2) [OF i] dist len by (simp add: walk_step_pad Let_def)
  next
    case False
    then show ?thesis using a(3) b(3) by (simp add: walk_step_pad Let_def)
  qed
qed

text \<open>What a step does to the whole state, read off at its places.\<close>

lemma walk_step_places:
  assumes "walk_ok st"
  shows "map (\<lambda>(n, j). peek (wk_pad (walk_step pair s op st)) n j) (step_places (step_input s st)) = step_values pair s op st"
proof (rule nth_equalityI)
  show "length (map (\<lambda>(n, j). peek (wk_pad (walk_step pair s op st)) n j) (step_places (step_input s st)))
      = length (step_values pair s op st)"
    by (simp add: step_places_def step_values_def Let_def)
  fix i assume "i < length (map (\<lambda>(n, j). peek (wk_pad (walk_step pair s op st)) n j) (step_places (step_input s st)))"
  then have i: "i < 4" "i < length (step_places (step_input s st))" by (simp_all add: step_places_def)
  show "map (\<lambda>(n, j). peek (wk_pad (walk_step pair s op st)) n j) (step_places (step_input s st)) ! i
      = step_values pair s op st ! i"
    using walk_step_words [OF assms i(1)] i(2) by (simp add: case_prod_unfold)
qed

lemma walk_step_regs:
  assumes "walk_ok st" and "s < 8"
  shows "(\<forall>i. i \<noteq> s \<longrightarrow> i \<noteq> partner s (step_input s st) \<longrightarrow> wk_regs (walk_step pair s op st) ! i = wk_regs st ! i)
    \<and> wk_regs (walk_step pair s op st) ! s = wk_carry (walk_step pair s op st)"
  using assms partner_other [OF assms(2), of "step_input s st"]
  by (simp add: walk_step_def Let_def case_prod_unfold step_input_def walk_ok_def)

lemma walk_step_reads:
  assumes "walk_ok st" and "pad_ok pad \<and> (\<forall>(n, j) \<in> set (step_places (step_input s st)). peek pad n j = peek (wk_pad st) n j)"
  shows "wk_regs (walk_step pair s op (st\<lparr>wk_pad := pad\<rparr>)) = wk_regs (walk_step pair s op st)
    \<and> wk_carry (walk_step pair s op (st\<lparr>wk_pad := pad\<rparr>)) = wk_carry (walk_step pair s op st)
    \<and> (\<forall>(n, j) \<in> set (step_places (step_input s st)).
         peek (wk_pad (walk_step pair s op (st\<lparr>wk_pad := pad\<rparr>))) n j = peek (wk_pad (walk_step pair s op st)) n j)"
proof -
  let ?st = "st\<lparr>wk_pad := pad\<rparr>"
  have ok: "walk_ok ?st" using assms by (simp add: walk_ok_def)
  have x: "step_input s ?st = step_input s st" by (simp add: step_input_def)
  have same: "step_values pair s op ?st = step_values pair s op st"
    using assms(2) unfolding step_values_def x by (simp add: step_places_def Let_def)
  have "map (\<lambda>(n, j). peek (wk_pad (walk_step pair s op ?st)) n j) (step_places (step_input s st))
      = map (\<lambda>(n, j). peek (wk_pad (walk_step pair s op st)) n j) (step_places (step_input s st))"
    using walk_step_places [OF ok, of pair s op] walk_step_places [OF assms(1), of pair s op] by (simp only: x same)
  then have "\<forall>(n, j) \<in> set (step_places (step_input s st)).
      peek (wk_pad (walk_step pair s op ?st)) n j = peek (wk_pad (walk_step pair s op st)) n j"
    by (simp only: map_eq_conv case_prod_unfold)
  moreover have "wk_regs (walk_step pair s op ?st) = wk_regs (walk_step pair s op st)"
    "wk_carry (walk_step pair s op ?st) = wk_carry (walk_step pair s op st)"
    using assms(2) by (simp_all add: walk_step_def Let_def step_places_def step_input_def case_prod_unfold)
  ultimately show ?thesis by blast
qed

subsection \<open>The scratchpad does not leak\<close>

lemma fill_line_overwrites:
  assumes "length l = 8" and "length l' = 8"
  shows "fill_line lanes l = fill_line lanes l' \<and> length (fill_line lanes l) = 8"
proof -
  obtain a b c d e f g h where "l = [a, b, c, d, e, f, g, h]"
    using assms(1) by (auto simp: length_Suc_conv numeral_eq_Suc)
  moreover obtain a b c d e f g h where "l' = [a, b, c, d, e, f, g, h]"
    using assms(2) by (auto simp: length_Suc_conv numeral_eq_Suc)
  ultimately show ?thesis by (simp add: fill_line_def walk_upts del: upt_Suc)
qed

lemma fill_pad_overwrites:
  assumes "length pad = length pad'" and "\<forall>l \<in> set pad. length l = 8" and "\<forall>l \<in> set pad'. length l = 8"
  shows "fill_pad A keys lanes pad = fill_pad A keys lanes pad'"
  using assms
  by (induction pad pad' arbitrary: lanes rule: list_induct2)
    (auto simp: Let_def intro!: fill_line_overwrites [THEN conjunct1])

lemma fill_pad_shape:
  "\<forall>l \<in> set pad. length l = 8 \<Longrightarrow>
     length (fill_pad A keys lanes pad) = length pad \<and> (\<forall>l \<in> set (fill_pad A keys lanes pad). length l = 8)"
proof (induction pad arbitrary: lanes)
  case (Cons l ls)
  then show ?case using fill_line_overwrites [of l l] by (simp add: Let_def)
qed simp

lemma walk_start_ok: "pad_ok pad \<Longrightarrow> walk_ok (walk_start A seed pad)"
  using fill_pad_shape [of pad] by (simp add: walk_ok_def walk_start_def pad_ok_def)

lemma walk_steps_ok: "walk_ok st \<Longrightarrow> walk_ok (foldl (\<lambda>st s. walk_step pair s (prog ! s) st) st xs)"
  by (induction xs arbitrary: st) (simp_all add: walk_step_ok)

lemma walk_round_ok: "walk_ok st \<Longrightarrow> walk_ok (fst (walk_round X A (st, prog) n))"
  using walk_steps_ok [of st "aes_pair A" prog "[0..<8]"]
  by (auto simp: walk_round_def Let_def remix_def walk_ok_def)

lemma walk_rounds_ok: "walk_ok st \<Longrightarrow> walk_ok (fst (foldl (walk_round X A) (st, prog) ns))"
proof (induction ns arbitrary: st prog)
  case (Cons n ns)
  then show ?case using walk_round_ok [of st X A prog n] by (cases "walk_round X A (st, prog) n") simp
qed simp

lemma walk_generic_pad:
  assumes "pad_ok pad"
  shows "walk_generic X A m nonce pad = walk_generic X A m nonce new_pad"
    and "pad_ok (snd (walk_generic X A m nonce pad))"
proof -
  have "fill_pad A keys lanes pad = fill_pad A keys lanes new_pad" for keys lanes
    using assms new_pad_ok by (intro fill_pad_overwrites) (simp_all add: pad_ok_def)
  then show "walk_generic X A m nonce pad = walk_generic X A m nonce new_pad"
    by (simp add: walk_generic_def walk_start_def)
  show "pad_ok (snd (walk_generic X A m nonce pad))"
    using walk_rounds_ok [OF walk_start_ok [OF assms]]
    by (simp add: walk_generic_def Let_def case_prod_unfold walk_ok_def)
qed

lemma walk_with_pad_fips:
  assumes "xof_ok X"
  shows "walk_with_pad X backend m nonce pad = walk_generic X fips_unit m nonce pad"
  unfolding walk_with_pad_def
  using soft_aes.walk_fips [OF assms] aes_ni.walk_fips [OF assms] armv8.walk_fips [OF assms]
  by (cases backend) simp_all

subsection \<open>Properties\<close>

text \<open>C39. The proof-of-work hash is one function of the header and the nonce: the AES-NI, ARMv8 and table paths give
  the same, whatever an earlier attempt left in the thread's scratchpad, and leave it usable again.\<close>

theorem walk_is_one_function:
  assumes "xof_ok X" and "\<forall>pad. thread_pad = Some pad \<longrightarrow> pad_ok pad"
  shows "walk_hash X backend thread_pad m nonce = walk_hash_portable X m nonce
       \<and> pad_ok (snd (walk_with_pad X backend m nonce (case thread_pad of Some pad \<Rightarrow> pad | None \<Rightarrow> new_pad)))"
proof -
  have ok: "pad_ok (case thread_pad of Some pad \<Rightarrow> pad | None \<Rightarrow> new_pad)"
    using assms(2) by (auto simp: new_pad_ok split: option.split)
  then show ?thesis
    unfolding walk_hash_def walk_hash_portable_def walk_with_pad_fips [OF assms(1)] soft_aes.walk_fips [OF assms(1)]
    using walk_generic_pad(1) [OF ok] walk_generic_pad(2) [OF ok] by metis
qed

text \<open>C40. A step touches four distinct words inside the pad and two different registers. It leaves the words at the
  places its input names with the values computed from the words read there, and every other word as it was;
  of the registers it changes only its own, which ends with the step's output, and its partner. And it
  reads no other word: on any other pad that agrees at the four places it computes the same.\<close>

theorem walk_step_in_bounds:
  fixes pair :: "w64 \<Rightarrow> w64 \<Rightarrow> w64 \<times> w64" and s op :: nat and st :: walk_state
  assumes "walk_ok st" and "s < 8"
  defines "x \<equiv> wk_regs st ! s XOR wk_carry st" and "st' \<equiv> walk_step pair s op st"
  shows "walk_ok st'
    \<and> length (step_places x) = 4 \<and> distinct (step_places x) \<and> (\<forall>(n, j) \<in> set (step_places x). n < WALK_LINES \<and> j < 8)
    \<and> partner s x < 8 \<and> partner s x \<noteq> s
    \<and> map (\<lambda>(n, j). peek (wk_pad st') n j) (step_places x) = step_values pair s op st
    \<and> (\<forall>n j. (n, j) \<notin> set (step_places x) \<longrightarrow> peek (wk_pad st') n j = peek (wk_pad st) n j)
    \<and> (\<forall>i. i \<noteq> s \<longrightarrow> i \<noteq> partner s x \<longrightarrow> wk_regs st' ! i = wk_regs st ! i) \<and> wk_regs st' ! s = wk_carry st'
    \<and> (\<forall>pad. pad_ok pad \<and> (\<forall>(n, j) \<in> set (step_places x). peek pad n j = peek (wk_pad st) n j) \<longrightarrow>
          wk_regs (walk_step pair s op (st\<lparr>wk_pad := pad\<rparr>)) = wk_regs st'
          \<and> wk_carry (walk_step pair s op (st\<lparr>wk_pad := pad\<rparr>)) = wk_carry st'
          \<and> (\<forall>(n, j) \<in> set (step_places x). peek (wk_pad (walk_step pair s op (st\<lparr>wk_pad := pad\<rparr>))) n j = peek (wk_pad st') n j))"
proof -
  have x: "step_input s st = x" by (simp add: step_input_def x_def)
  note words = walk_step_places [OF assms(1), of pair s op, unfolded x, folded st'_def]
  note regs = walk_step_regs [OF assms(1,2), of pair op, unfolded x, folded st'_def]
  note frame = walk_step_frame [OF assms(1), of _ _ s pair op, unfolded x, folded st'_def]
  note reads = walk_step_reads [OF assms(1), of _ s pair op, unfolded x, folded st'_def]
  have "walk_ok st'" unfolding st'_def by (rule walk_step_ok [OF assms(1)])
  moreover have "length (step_places x) = 4" by (simp add: step_places_def)
  ultimately show ?thesis
    using step_places_distinct [of x] step_places_range [of x] partner_less [of s x] partner_other [OF assms(2), of x] words regs frame reads
    by blast
qed

text \<open>The four writes of a step commute: done in any order they leave the same scratchpad.\<close>

theorem walk_writes_commute:
  assumes "walk_ok st" and "mset is = mset [0..<4]"
  shows "foldl (\<lambda>pad i. poke (fst (step_places (step_input s st) ! i)) (snd (step_places (step_input s st) ! i))
           (step_values pair s op st ! i) pad) (wk_pad st) is = wk_pad (walk_step pair s op st)"
  using assms by (rule walk_step_commutes)

text \<open>Every program runs each of the eight operations once per eight steps.\<close>

theorem programs_are_permutations: "mset (program z) = mset [0..<8]"
  by (rule mset_program)

subsection \<open>Witnesses\<close>

theorem walk_is_one_function_witness:
  "walk_hash (\<lambda>_ _ n. replicate n 5) AesNiBackend (Some (replicate WALK_LINES (replicate 8 77))) 1 2
   = walk_hash_portable (\<lambda>_ _ n. replicate n 5) 1 2"
  using walk_is_one_function [of "\<lambda>_ _ n. replicate n 5" "Some (replicate WALK_LINES (replicate 8 77))" AesNiBackend 1 2]
  by (simp add: xof_ok_def pad_ok_def)

definition sample_walk :: walk_state where
  "sample_walk = \<lparr>wk_regs = [1, 2, 3, 4, 5, 6, 7, 8], wk_carry = 9, wk_pad = new_pad\<rparr>"

lemma sample_walk_ok: "walk_ok sample_walk"
  by (simp add: walk_ok_def sample_walk_def new_pad_ok)

theorem walk_step_in_bounds_witness:
  "partner 3 (wk_regs sample_walk ! 3 XOR wk_carry sample_walk) \<noteq> 3
   \<and> walk_ok (walk_step (aes_pair SoftAes) 3 2 sample_walk)
   \<and> wk_regs (walk_step (aes_pair SoftAes) 3 2 sample_walk) ! 3 = wk_carry (walk_step (aes_pair SoftAes) 3 2 sample_walk)"
proof -
  have "(3 :: nat) < 8" by simp
  from walk_step_in_bounds [OF sample_walk_ok this] show ?thesis by blast
qed

theorem walk_writes_commute_witness:
  "foldl (\<lambda>pad i. poke (fst (step_places (step_input 3 sample_walk) ! i)) (snd (step_places (step_input 3 sample_walk) ! i))
     (step_values (aes_pair SoftAes) 3 2 sample_walk ! i) pad) (wk_pad sample_walk) [3, 1, 0, 2]
   = wk_pad (walk_step (aes_pair SoftAes) 3 2 sample_walk)"
proof -
  have "mset [3, 1, 0, 2] = mset [0..<4]" unfolding walk_upts by simp
  from walk_writes_commute [OF sample_walk_ok this] show ?thesis .
qed

end
