(* ===== verification/Stealth.thy ===== *)
theory Stealth
  imports Transaction
begin

text \<open>Stealth payments (\<^verbatim>\<open>src/src/core/mw/stealth.rs\<close>, with the recovery commitment of
  \<^verbatim>\<open>src/src/core/recovery.rs\<close>): addresses, wallet and view keys, the output a sender makes, what its
  recipient finds by scanning, and the receipts that let a third party audit a payment. The
  authenticated cipher and the bech32m coder are libraries, given by their documented laws
  (\<open>aead_ok\<close>, \<open>bech_ok\<close>); every random draw is an argument.\<close>

subsection \<open>Libraries\<close>

record aead =
  aead_seal :: "h256 \<Rightarrow> bytes \<Rightarrow> bytes \<Rightarrow> bytes"
  aead_open :: "h256 \<Rightarrow> bytes \<Rightarrow> bytes \<Rightarrow> bytes option"

definition NONCE_LEN :: nat where "NONCE_LEN = 24"
definition PLAINTEXT_LEN :: nat where "PLAINTEXT_LEN = 8 + 32"
definition TAG_LEN :: nat where "TAG_LEN = 16"

text \<open>What was sealed opens again, and a sealed text is longer by the tag.\<close>

definition aead_ok :: "aead \<Rightarrow> bool" where
  "aead_ok A \<longleftrightarrow>
     (\<forall>k n p. aead_open A k n (aead_seal A k n p) = Some p \<and> length (aead_seal A k n p) = length p + TAG_LEN)"

record bech32 =
  bech_encode :: "string \<Rightarrow> bytes \<Rightarrow> string"
  bech_decode :: "string \<Rightarrow> (string \<times> bytes) option"

definition is_space :: "char \<Rightarrow> bool" where
  "is_space c \<longleftrightarrow> (of_char c :: nat) \<in> {9, 10, 11, 12, 13, 32}"

definition trim :: "string \<Rightarrow> string" where
  "trim s = rev (dropWhile is_space (rev (dropWhile is_space s)))"

definition bech_ok :: "bech32 \<Rightarrow> bool" where
  "bech_ok B \<longleftrightarrow>
     (\<forall>h d. bech_decode B (bech_encode B h d) = Some (h, d) \<and> (\<forall>c \<in> set (bech_encode B h d). \<not> is_space c))"

subsection \<open>Addresses\<close>

record StealthAddress =
  sa_scan :: h256
  sa_spend :: h256
  sa_recovery :: h256

datatype address_error =
    NotBech32 | WrongPrefix | WrongVersionOrLength | InvalidScanKey | InvalidSpendKey | IdentityKey
  | NonCanonicalSecret

definition ADDRESS_HRP :: string where "ADDRESS_HRP = ''mw''"
definition ADDRESS_VERSION :: byte where "ADDRESS_VERSION = 1"
definition ADDRESS_LEN :: nat where "ADDRESS_LEN = 1 + 32 + 32 + 32"

definition address_points ::
    "('pt :: ab_group_add, 'sc) curve \<Rightarrow> StealthAddress \<Rightarrow> address_error + 'pt \<times> 'pt" where
  "address_points C a =
     and_then (ok_or InvalidScanKey (decompress C (sa_scan a))) (\<lambda>scan.
     and_then (ok_or InvalidSpendKey (decompress C (sa_spend a))) (\<lambda>spend.
     if scan = 0 \<or> spend = 0 then Inl IdentityKey else Inr (scan, spend)))"

definition address_encode :: "bech32 \<Rightarrow> StealthAddress \<Rightarrow> string" where
  "address_encode B a =
     bech_encode B ADDRESS_HRP
       ([ADDRESS_VERSION] @ be_bytes (sa_scan a) @ be_bytes (sa_spend a) @ be_bytes (sa_recovery a))"

definition address_decode ::
    "('pt :: ab_group_add, 'sc) curve \<Rightarrow> bech32 \<Rightarrow> string \<Rightarrow> address_error + StealthAddress" where
  "address_decode C B s =
     and_then (ok_or NotBech32 (bech_decode B s)) (\<lambda>(hrp, data).
     if hrp \<noteq> ADDRESS_HRP then Inl WrongPrefix
     else if length data \<noteq> ADDRESS_LEN \<or> data ! 0 \<noteq> ADDRESS_VERSION then Inl WrongVersionOrLength
     else
       let addr = \<lparr>sa_scan = h256_of_be (take 32 (drop 1 data)), sa_spend = h256_of_be (take 32 (drop 33 data)),
                   sa_recovery = h256_of_be (take 32 (drop 65 data))\<rparr>
       in and_then (address_points C addr) (\<lambda>_. Inr addr))"

subsection \<open>Keys\<close>

record 'sc WalletKeys =
  scan_secret :: 'sc
  spend_secret :: 'sc
  recovery_key :: h256

definition WalletKeys_from_seed :: "('pt, 'sc) curve \<Rightarrow> bytes \<Rightarrow> h256 \<Rightarrow> 'sc WalletKeys" where
  "WalletKeys_from_seed C seed recovery =
     \<lparr>scan_secret = hash_to_scalar C (ascii ''midwimble.wallet.scan.v1'') [seed],
      spend_secret = hash_to_scalar C (ascii ''midwimble.wallet.spend.v1'') [seed], recovery_key = recovery\<rparr>"

definition WalletKeys_address :: "('pt, 'sc) curve \<Rightarrow> 'sc WalletKeys \<Rightarrow> StealthAddress" where
  "WalletKeys_address C k =
     \<lparr>sa_scan = compress C (mul_base C (scan_secret k)), sa_spend = compress C (mul_base C (spend_secret k)),
      sa_recovery = recovery_key k\<rparr>"

definition WalletKeys_to_bytes :: "('pt, 'sc) curve \<Rightarrow> 'sc WalletKeys \<Rightarrow> h256 \<times> h256 \<times> h256" where
  "WalletKeys_to_bytes C k = (scalar_to_bytes C (scan_secret k), scalar_to_bytes C (spend_secret k), recovery_key k)"

definition WalletKeys_from_bytes :: "('pt, 'sc) curve \<Rightarrow> h256 \<times> h256 \<times> h256 \<Rightarrow> 'sc WalletKeys option" where
  "WalletKeys_from_bytes C b = (case b of (x, y, z) \<Rightarrow>
     case (scalar_from_bytes C x, scalar_from_bytes C y) of
       (Some s, Some t) \<Rightarrow> Some \<lparr>scan_secret = s, spend_secret = t, recovery_key = z\<rparr>
     | _ \<Rightarrow> None)"

record 'sc ViewKey =
  vk_scan_secret :: 'sc
  vk_address :: StealthAddress

definition view_only :: "('pt, 'sc) curve \<Rightarrow> 'sc WalletKeys \<Rightarrow> 'sc ViewKey" where
  "view_only C k = \<lparr>vk_scan_secret = scan_secret k, vk_address = WalletKeys_address C k\<rparr>"

definition VIEW_KEY_HRP :: string where "VIEW_KEY_HRP = ''mwview''"
definition VIEW_KEY_VERSION :: byte where "VIEW_KEY_VERSION = 1"
definition VIEW_KEY_LEN :: nat where "VIEW_KEY_LEN = 1 + 32 + 32 + 32"

definition ViewKey_encode :: "('pt, 'sc) curve \<Rightarrow> bech32 \<Rightarrow> 'sc ViewKey \<Rightarrow> string" where
  "ViewKey_encode C B v =
     bech_encode B VIEW_KEY_HRP
       ([VIEW_KEY_VERSION] @ be_bytes (scalar_to_bytes C (vk_scan_secret v)) @ be_bytes (sa_spend (vk_address v))
        @ be_bytes (sa_recovery (vk_address v)))"

definition ViewKey_decode ::
    "('pt :: ab_group_add, 'sc) curve \<Rightarrow> bech32 \<Rightarrow> string \<Rightarrow> address_error + 'sc ViewKey" where
  "ViewKey_decode C B s =
     and_then (ok_or NotBech32 (bech_decode B (trim s))) (\<lambda>(hrp, data).
     if hrp \<noteq> VIEW_KEY_HRP then Inl WrongPrefix
     else if length data \<noteq> VIEW_KEY_LEN \<or> data ! 0 \<noteq> VIEW_KEY_VERSION then Inl WrongVersionOrLength
     else
       and_then (ok_or NonCanonicalSecret (scalar_from_bytes C (h256_of_be (take 32 (drop 1 data))))) (\<lambda>secret.
       let addr = \<lparr>sa_scan = compress C (mul_base C secret), sa_spend = h256_of_be (take 32 (drop 33 data)),
                   sa_recovery = h256_of_be (take 32 (drop 65 data))\<rparr>
       in and_then (address_points C addr) (\<lambda>_. Inr \<lparr>vk_scan_secret = secret, vk_address = addr\<rparr>)))"

subsection \<open>Derivations\<close>

definition shared_secret :: "hasher \<Rightarrow> ('pt, 'sc) curve \<Rightarrow> 'pt \<Rightarrow> h256" where
  "shared_secret H C p = hash_domain H (ascii ''midwimble.stealth.shared.v1'') [be_bytes (compress C p)]"

definition owner_tweak :: "('pt, 'sc) curve \<Rightarrow> h256 \<Rightarrow> 'sc" where
  "owner_tweak C t = hash_to_scalar C (ascii ''midwimble.stealth.owner.v1'') [be_bytes t]"

definition view_tag :: "hasher \<Rightarrow> h256 \<Rightarrow> byte" where
  "view_tag H t = be_bytes (hash_domain H (ascii ''midwimble.stealth.view-tag.v1'') [be_bytes t]) ! 0"

definition payload_key :: "hasher \<Rightarrow> h256 \<Rightarrow> h256" where
  "payload_key H t = hash_domain H (ascii ''midwimble.stealth.payload-key.v1'') [be_bytes t]"

definition recovery_salt :: "hasher \<Rightarrow> h256 \<Rightarrow> h256" where
  "recovery_salt H t = hash_domain H (ascii ''midwimble.recovery.salt.v1'') [be_bytes t]"

definition recovery_commitment :: "hasher \<Rightarrow> h256 \<Rightarrow> nat \<Rightarrow> h256 \<Rightarrow> h256 \<Rightarrow> h256" where
  "recovery_commitment H key value blinding salt =
     hash_domain H (ascii ''midwimble.recovery.v1'')
       [NETWORK_MAGIC, be_bytes key, le_bytes 8 value, be_bytes blinding, be_bytes salt]"

definition commit :: "('pt :: ab_group_add, 'sc :: comm_ring_1) curve \<Rightarrow> nat \<Rightarrow> 'sc \<Rightarrow> 'pt" where
  "commit C value blinding = smul C (of_nat value) (gen_g C) + smul C blinding (gen_h C)"

definition seal_payload :: "hasher \<Rightarrow> ('pt, 'sc) curve \<Rightarrow> aead \<Rightarrow> h256 \<Rightarrow> nat \<Rightarrow> 'sc \<Rightarrow> bytes \<Rightarrow> bytes" where
  "seal_payload H C A t value blinding nonce =
     nonce @ aead_seal A (payload_key H t) nonce
       (rev (le_bytes 8 value) @ be_bytes (scalar_to_bytes C blinding))"

definition open_payload :: "hasher \<Rightarrow> ('pt, 'sc) curve \<Rightarrow> aead \<Rightarrow> h256 \<Rightarrow> bytes \<Rightarrow> (nat \<times> 'sc) option" where
  "open_payload H C A t payload =
     (if length payload \<noteq> PAYLOAD_LEN then None
      else
        case aead_open A (payload_key H t) (take NONCE_LEN payload) (drop NONCE_LEN payload) of
          None \<Rightarrow> None
        | Some plain \<Rightarrow>
            if length plain \<noteq> PLAINTEXT_LEN then None
            else map_option (\<lambda>b. (of_le_bytes (rev (take 8 plain)), b))
                   (scalar_from_bytes C (h256_of_be (drop 8 plain))))"

subsection \<open>Outputs\<close>

record 'sc NewOutput =
  no_output :: Output
  no_value :: nat
  no_blinding :: 'sc
  ephemeral_secret :: 'sc

definition new_output ::
    "hasher \<Rightarrow> ('pt :: ab_group_add, 'sc :: comm_ring_1) curve \<Rightarrow> aead \<Rightarrow> StealthAddress \<Rightarrow> nat \<Rightarrow> 'sc \<Rightarrow> 'sc \<Rightarrow> bytes
      \<Rightarrow> address_error + 'sc NewOutput" where
  "new_output H C A to value r blinding nonce =
     and_then (address_points C to) (\<lambda>(scan, spend).
     let t = shared_secret H C (smul C r scan);
         owner = mul_base C (owner_tweak C t) + spend
     in Inr \<lparr>no_output =
               \<lparr>o_commitment = compress C (commit C value blinding), o_owner_key = compress C owner,
                o_ephemeral_key = compress C (mul_base C r), o_view_tag = view_tag H t,
                o_payload = seal_payload H C A t value blinding nonce,
                o_recovery = recovery_commitment H (sa_recovery to) value (scalar_to_bytes C blinding) (recovery_salt H t)\<rparr>,
             no_value = value, no_blinding = blinding, ephemeral_secret = r\<rparr>)"

record PayoutReceipt =
  output_index :: nat
  pr_value :: nat
  pr_blinding :: h256
  pr_ephemeral :: h256

definition PayoutReceipt_verify ::
    "hasher \<Rightarrow> ('pt :: ab_group_add, 'sc :: comm_ring_1) curve \<Rightarrow> PayoutReceipt \<Rightarrow> StealthAddress \<Rightarrow> Output \<Rightarrow> bool" where
  "PayoutReceipt_verify H C p to out =
     (case (address_points C to, scalar_from_bytes C (pr_ephemeral p), scalar_from_bytes C (pr_blinding p)) of
        (Inr (scan, spend), Some r, Some blinding) \<Rightarrow>
          if compress C (mul_base C r) \<noteq> o_ephemeral_key out then False
          else
            let t = shared_secret H C (smul C r scan);
                owner = mul_base C (owner_tweak C t) + spend
            in compress C owner = o_owner_key out
               \<and> compress C (commit C (pr_value p) blinding) = o_commitment out
               \<and> view_tag H t = o_view_tag out
               \<and> o_recovery out = recovery_commitment H (sa_recovery to) (pr_value p) (pr_blinding p) (recovery_salt H t)
      | _ \<Rightarrow> False)"

subsection \<open>Scanning\<close>

definition detect ::
    "hasher \<Rightarrow> ('pt :: ab_group_add, 'sc :: comm_ring_1) curve \<Rightarrow> aead \<Rightarrow> 'sc \<Rightarrow> h256 \<Rightarrow> Output
      \<Rightarrow> (nat \<times> 'sc \<times> 'sc \<times> h256) option" where
  "detect H C A secret spend_public out =
     Option.bind (decompress C (o_ephemeral_key out)) (\<lambda>ephemeral.
     let t = shared_secret H C (smul C secret ephemeral) in
     if view_tag H t \<noteq> o_view_tag out then None
     else
       Option.bind (open_payload H C A t (o_payload out)) (\<lambda>(value, blinding).
       if compress C (commit C value blinding) \<noteq> o_commitment out then None
       else
         Option.bind (decompress C spend_public) (\<lambda>spend.
         if compress C (mul_base C (owner_tweak C t) + spend) \<noteq> o_owner_key out then None
         else Some (value, blinding, owner_tweak C t, recovery_salt H t))))"

record 'sc OwnedOutput =
  ow_value :: nat
  ow_blinding :: 'sc
  owner_secret :: 'sc
  ow_salt :: h256
  recovery_ok :: bool

definition scan_output ::
    "hasher \<Rightarrow> ('pt :: ab_group_add, 'sc :: comm_ring_1) curve \<Rightarrow> aead \<Rightarrow> 'sc WalletKeys \<Rightarrow> Output \<Rightarrow> 'sc OwnedOutput option" where
  "scan_output H C A keys out =
     (let address = WalletKeys_address C keys in
      Option.bind (detect H C A (scan_secret keys) (sa_spend address) out) (\<lambda>(value, blinding, tweak, salt).
      let secret = tweak + spend_secret keys in
      if compress C (mul_base C secret) \<noteq> o_owner_key out then None
      else Some \<lparr>ow_value = value, ow_blinding = blinding, owner_secret = secret, ow_salt = salt,
             recovery_ok = (o_recovery out
               = recovery_commitment H (sa_recovery address) value (scalar_to_bytes C blinding) salt)\<rparr>))"

definition scan_output_view_only ::
    "hasher \<Rightarrow> ('pt :: ab_group_add, 'sc :: comm_ring_1) curve \<Rightarrow> aead \<Rightarrow> 'sc ViewKey \<Rightarrow> Output \<Rightarrow> nat option" where
  "scan_output_view_only H C A view out =
     map_option fst (detect H C A (vk_scan_secret view) (sa_spend (vk_address view)) out)"

definition ViewKey_scan ::
    "hasher \<Rightarrow> ('pt :: ab_group_add, 'sc :: comm_ring_1) curve \<Rightarrow> aead \<Rightarrow> 'sc ViewKey \<Rightarrow> Output \<Rightarrow> (nat \<times> bool) option" where
  "ViewKey_scan H C A view out =
     map_option (\<lambda>(value, blinding, _, salt). (value, o_recovery out
         = recovery_commitment H (sa_recovery (vk_address view)) value (scalar_to_bytes C blinding) salt))
       (detect H C A (vk_scan_secret view) (sa_spend (vk_address view)) out)"

definition may_own :: "hasher \<Rightarrow> ('pt, 'sc) curve \<Rightarrow> 'sc ViewKey \<Rightarrow> h256 \<Rightarrow> byte \<Rightarrow> bool" where
  "may_own H C view ephemeral_key tag =
     (case decompress C ephemeral_key of
        None \<Rightarrow> False
      | Some r \<Rightarrow> view_tag H (shared_secret H C (smul C (vk_scan_secret view) r)) = tag)"


subsection \<open>Lemmas\<close>

lemma mul_base_add: "curve_ok C \<Longrightarrow> mul_base C (x + y) = mul_base C x + mul_base C y"
  by (simp add: mul_base_def curve_laws(7))

text \<open>Both ends of the key exchange reach the same point.\<close>

lemma shared_point: "curve_ok C \<Longrightarrow> smul C a (mul_base C r) = smul C r (mul_base C a)"
  unfolding mul_base_def by (metis curve_laws(9) mult.commute)

lemma open_seal_payload:
  assumes "curve_ok C" and "aead_ok A" and "value < 2 ^ 64" and "length nonce = NONCE_LEN"
  shows "open_payload H C A t (seal_payload H C A t value blinding nonce) = Some (value, blinding)"
proof -
  let ?plain = "rev (le_bytes 8 value) @ be_bytes (scalar_to_bytes C blinding)"
  have "length (seal_payload H C A t value blinding nonce) = PAYLOAD_LEN"
    using assms(2,4) by (simp add: seal_payload_def aead_ok_def NONCE_LEN_def TAG_LEN_def PAYLOAD_LEN_def)
  moreover have "length ?plain = PLAINTEXT_LEN" by (simp add: PLAINTEXT_LEN_def)
  moreover have "of_le_bytes (rev (take 8 ?plain)) = value"
    using assms(3) by (simp add: of_le_bytes_le_bytes)
  ultimately show ?thesis
    using assms(1,2,4) by (simp add: open_payload_def seal_payload_def aead_ok_def curve_laws(2))
qed

lemma new_output_Inr:
  assumes "new_output H C A to value r blinding nonce = Inr n"
  obtains scan spend where "address_points C to = Inr (scan, spend)"
    and "n = \<lparr>no_output =
               \<lparr>o_commitment = compress C (commit C value blinding),
                o_owner_key = compress C (mul_base C (owner_tweak C (shared_secret H C (smul C r scan))) + spend),
                o_ephemeral_key = compress C (mul_base C r), o_view_tag = view_tag H (shared_secret H C (smul C r scan)),
                o_payload = seal_payload H C A (shared_secret H C (smul C r scan)) value blinding nonce,
                o_recovery = recovery_commitment H (sa_recovery to) value (scalar_to_bytes C blinding)
                  (recovery_salt H (shared_secret H C (smul C r scan)))\<rparr>,
             no_value = value, no_blinding = blinding, ephemeral_secret = r\<rparr>"
  using assms by (auto simp: new_output_def and_then_Inr Let_def)

lemma address_points_Inr:
  "address_points C a = Inr (p, q) \<longleftrightarrow>
     decompress C (sa_scan a) = Some p \<and> decompress C (sa_spend a) = Some q \<and> p \<noteq> 0 \<and> q \<noteq> 0"
  by (auto simp: address_points_def and_then_Inr ok_or_Inr split: if_splits)

lemma address_points_of_keys:
  assumes "curve_ok C" and "address_points C (WalletKeys_address C keys) = Inr (scan, spend)"
  shows "scan = mul_base C (scan_secret keys)" and "spend = mul_base C (spend_secret keys)"
  using assms by (auto simp: address_points_Inr WalletKeys_address_def curve_laws(1))

lemma detect_new_output:
  assumes "curve_ok C" and "aead_ok A" and "value < 2 ^ 64" and "length nonce = NONCE_LEN"
    and "new_output H C A (WalletKeys_address C keys) value r blinding nonce = Inr n"
  defines "t \<equiv> shared_secret H C (smul C r (mul_base C (scan_secret keys)))"
  shows "detect H C A (scan_secret keys) (sa_spend (WalletKeys_address C keys)) (no_output n)
       = Some (value, blinding, owner_tweak C t, recovery_salt H t)"
    and "o_owner_key (no_output n) = compress C (mul_base C (owner_tweak C t + spend_secret keys))"
    and "o_recovery (no_output n) = recovery_commitment H (recovery_key keys) value (scalar_to_bytes C blinding) (recovery_salt H t)"
proof -
  obtain scan spend where points: "address_points C (WalletKeys_address C keys) = Inr (scan, spend)"
    and n: "n = \<lparr>no_output =
               \<lparr>o_commitment = compress C (commit C value blinding),
                o_owner_key = compress C (mul_base C (owner_tweak C (shared_secret H C (smul C r scan))) + spend),
                o_ephemeral_key = compress C (mul_base C r), o_view_tag = view_tag H (shared_secret H C (smul C r scan)),
                o_payload = seal_payload H C A (shared_secret H C (smul C r scan)) value blinding nonce,
                o_recovery = recovery_commitment H (sa_recovery (WalletKeys_address C keys)) value (scalar_to_bytes C blinding)
                  (recovery_salt H (shared_secret H C (smul C r scan)))\<rparr>,
             no_value = value, no_blinding = blinding, ephemeral_secret = r\<rparr>"
    using assms(5) by (rule new_output_Inr)
  note keys = address_points_of_keys [OF assms(1) points]
  show "detect H C A (scan_secret keys) (sa_spend (WalletKeys_address C keys)) (no_output n)
       = Some (value, blinding, owner_tweak C t, recovery_salt H t)"
    by (simp add: detect_def n keys curve_laws(1) [OF assms(1)] shared_point [OF assms(1), of "scan_secret keys"]
        open_seal_payload [OF assms(1-4)] Let_def t_def WalletKeys_address_def)
  show "o_owner_key (no_output n) = compress C (mul_base C (owner_tweak C t + spend_secret keys))"
    by (simp add: n keys t_def mul_base_add [OF assms(1)])
  show "o_recovery (no_output n) = recovery_commitment H (recovery_key keys) value (scalar_to_bytes C blinding) (recovery_salt H t)"
    by (simp add: n keys t_def WalletKeys_address_def)
qed

lemma detect_Some:
  assumes "detect H C A secret spend_public out = Some (value, blinding, tweak, salt)"
  obtains ephemeral spend where "decompress C (o_ephemeral_key out) = Some ephemeral"
    and "decompress C spend_public = Some spend"
    and "view_tag H (shared_secret H C (smul C secret ephemeral)) = o_view_tag out"
    and "compress C (commit C value blinding) = o_commitment out"
    and "compress C (mul_base C tweak + spend) = o_owner_key out"
  using assms by (auto simp: detect_def Let_def bind_eq_Some_conv split: if_splits)

lemma scan_output_Some:
  assumes "curve_ok C" and "scan_output H C A keys out = Some ow"
  shows "compress C (commit C (ow_value ow) (ow_blinding ow)) = o_commitment out"
    and "compress C (mul_base C (owner_secret ow)) = o_owner_key out"
  using assms by (auto simp: scan_output_def Let_def bind_eq_Some_conv elim!: detect_Some split: if_splits)

text \<open>The spending half of the keys is not needed to see a payment.\<close>

lemma scan_output_map:
  assumes "curve_ok C"
  shows "scan_output H C A keys out =
     map_option (\<lambda>(value, blinding, tweak, salt).
         \<lparr>ow_value = value, ow_blinding = blinding, owner_secret = tweak + spend_secret keys, ow_salt = salt,
          recovery_ok = (o_recovery out = recovery_commitment H (recovery_key keys) value (scalar_to_bytes C blinding) salt)\<rparr>)
       (detect H C A (scan_secret keys) (sa_spend (WalletKeys_address C keys)) out)"
proof (cases "detect H C A (scan_secret keys) (sa_spend (WalletKeys_address C keys)) out")
  case (Some d)
  obtain v blinding tweak salt where d: "d = (v, blinding, tweak, salt)" by (cases d) auto
  obtain spend where "decompress C (sa_spend (WalletKeys_address C keys)) = Some spend"
    and owner: "compress C (mul_base C tweak + spend) = o_owner_key out"
    using Some unfolding d by (rule detect_Some)
  then have "spend = mul_base C (spend_secret keys)"
    by (simp add: WalletKeys_address_def curve_laws(1) [OF assms])
  then have "compress C (mul_base C (tweak + spend_secret keys)) = o_owner_key out"
    using owner by (simp add: mul_base_add [OF assms])
  then show ?thesis using Some by (simp add: scan_output_def d Let_def WalletKeys_address_def)
qed (simp add: scan_output_def Let_def)


lemma may_own_detect:
  assumes "detect H C A (vk_scan_secret view) pub out = Some d"
  shows "may_own H C view (o_ephemeral_key out) (o_view_tag out)"
  using assms by (auto simp: may_own_def detect_def Let_def bind_eq_Some_conv split: if_splits)

lemma split_be_parts:
  assumes "length tail = 32"
  shows "take 32 (drop 1 ([v] @ be_bytes a @ be_bytes b @ tail)) = be_bytes a"
    and "take 32 (drop 33 ([v] @ be_bytes a @ be_bytes b @ tail)) = be_bytes b"
    and "take 32 (drop 65 ([v] @ be_bytes a @ be_bytes b @ tail)) = tail"
  using assms by simp_all

lemma trim_unspaced:
  assumes "\<forall>c \<in> set s. \<not> is_space c"
  shows "trim s = s"
proof -
  have "dropWhile is_space xs = xs" if "set xs = set s" for xs
    using assms that by (cases xs) auto
  then show ?thesis by (simp add: trim_def)
qed

subsection \<open>Building outputs into groups\<close>

text \<open>The prover of the range-proof library, and the law that its proofs verify.\<close>

type_synonym 'sc prover = "nat \<Rightarrow> h256 \<Rightarrow> nat list \<Rightarrow> 'sc list \<Rightarrow> bytes option"

definition prover_ok :: "('pt :: ab_group_add, 'sc :: comm_ring_1) curve \<Rightarrow> 'sc prover \<Rightarrow> bool" where
  "prover_ok C P \<longleftrightarrow>
     (\<forall>n binding vs bs pr. P n binding vs bs = Some pr \<longrightarrow> length vs = length bs \<longrightarrow>
        length pr = (9 + 2 * trailing_zeros (RANGE_BITS * length vs)) * 32 \<and>
        bulletproof_ok C pr n binding (map2 (\<lambda>v b. compress C (commit C v b)) vs bs))"

datatype build_error =
    BuildAddress address_error | ValueCount nat nat | RangeCount nat | BlindingCount nat nat | ProofFailed
  | NoInputs | NoPayments | ZeroPayment | InputOverflow | OutputOverflow | InsufficientFunds nat nat
  | NoPayouts | ZeroPayout | BuildInvalid tx_error | OutOfDraws

definition prove_range ::
    "'sc prover \<Rightarrow> nat list \<Rightarrow> ('sc :: comm_ring_1) list \<Rightarrow> h256 \<Rightarrow> build_error + bytes" where
  "prove_range P values blindings binding =
     (let n = length values in
      if n = 0 \<or> MAX_GROUP_OUTPUTS < n then Inl (RangeCount n)
      else if length blindings \<noteq> n then Inl (BlindingCount n (length blindings))
      else
        let m = next_power_of_two n
        in ok_or ProofFailed (P n binding (values @ replicate (m - n) 0) (blindings @ replicate (m - n) 0)))"

definition OutputGroup_prove ::
    "hasher \<Rightarrow> 'sc prover \<Rightarrow> Output list \<Rightarrow> nat list \<Rightarrow> ('sc :: comm_ring_1) list \<Rightarrow> build_error + OutputGroup" where
  "OutputGroup_prove H P outs values blindings =
     (if length outs \<noteq> length values then Inl (ValueCount (length outs) (length values))
      else
        and_then (prove_range P values blindings (binding_for H outs)) (\<lambda>pr.
        Inr \<lparr>group_outputs = outs, range_proof = pr\<rparr>))"

lemma commit_zero: "curve_ok C \<Longrightarrow> compress C (commit C 0 0) = 0"
  using curve_laws(3) [of C 0 0] curve_laws(5) [of C]
  by (simp add: commit_def smul_zero)

text \<open>A proved group verifies when its outputs carry the commitments it was proved for.\<close>

lemma OutputGroup_prove_verifies:
  assumes "curve_ok C" and "prover_ok C P" and "OutputGroup_prove H P outs vs bs = Inr g"
    and "map o_commitment outs = map2 (\<lambda>v b. compress C (commit C v b)) vs bs"
  shows "group_outputs g = outs" and "verify_range_proof H C g"
proof -
  let ?n = "length vs" and ?m = "next_power_of_two (length vs)"
  obtain pr where n: "?n \<noteq> 0" "?n \<le> MAX_GROUP_OUTPUTS" and len: "length bs = ?n" "length outs = ?n"
    and pr: "P ?n (binding_for H outs) (vs @ replicate (?m - ?n) 0) (bs @ replicate (?m - ?n) 0) = Some pr"
    and g: "g = \<lparr>group_outputs = outs, range_proof = pr\<rparr>"
    using assms(3)
    by (auto simp: OutputGroup_prove_def prove_range_def Let_def and_then_Inr ok_or_Inr split: if_splits)
  have m: "?n \<le> ?m" using next_power_of_two_spec [of ?n] n(1) by auto
  have lens: "length (vs @ replicate (?m - ?n) 0) = ?m" "length (bs @ replicate (?m - ?n) 0) = ?m"
    using m len by simp_all
  have "map2 (\<lambda>v b. compress C (commit C v b)) (vs @ replicate (?m - ?n) 0) (bs @ replicate (?m - ?n) 0)
      = map o_commitment outs @ replicate (?m - ?n) IDENTITY"
    using len commit_zero [OF assms(1)] by (simp add: assms(4) zip_replicate IDENTITY_def)
  then have ok: "length pr = (9 + 2 * trailing_zeros (RANGE_BITS * ?m)) * 32"
      "bulletproof_ok C pr ?n (binding_for H outs) (map o_commitment outs @ replicate (?m - ?n) IDENTITY)"
    using assms(2) pr lens unfolding prover_ok_def by metis+
  show "group_outputs g = outs" by (simp add: g)
  have "max ?n 1 = ?n" using n(1) by linarith
  then have "range_proof_len ?n = (9 + 2 * trailing_zeros (RANGE_BITS * ?m)) * 32"
    by (simp only: range_proof_len_def Let_def)
  then show "verify_range_proof H C g"
    using ok n len by (simp add: g verify_range_proof_def verify_range_def OutputGroup_commitments_def
        Let_def)
qed


subsection \<open>Properties of payments\<close>

text \<open>C11. What a sender makes the recipient finds: scanning with the wallet's keys returns the value and the
  blinding factor, an owner secret whose public key is the output's, and a correct recovery commitment.\<close>

theorem payments_are_found:
  assumes "curve_ok C" and "aead_ok A" and "value < 2 ^ 64" and "length nonce = NONCE_LEN"
    and "new_output H C A (WalletKeys_address C keys) value r blinding nonce = Inr n"
  shows "\<exists>ow. scan_output H C A keys (no_output n) = Some ow \<and> ow_value ow = value \<and> ow_blinding ow = blinding
       \<and> compress C (mul_base C (owner_secret ow)) = o_owner_key (no_output n) \<and> recovery_ok ow"
  using detect_new_output [OF assms] by (simp add: scan_output_map [OF assms(1)])

text \<open>Whatever a scan accepts is worth what it says and can be spent: the opening is the commitment's and the
  owner secret's public key is the output's.\<close>

theorem scanned_outputs_spendable:
  assumes "curve_ok C" and "scan_output H C A keys out = Some ow"
  shows "compress C (commit C (ow_value ow) (ow_blinding ow)) = o_commitment out
       \<and> compress C (mul_base C (owner_secret ow)) = o_owner_key out"
  using scan_output_Some [OF assms] by blast

text \<open>A view key sees exactly the payments the wallet sees, at the same value, and its quick test on the
  ephemeral key and the view tag passes for every one of them.\<close>

theorem view_key_sees_wallet:
  assumes "curve_ok C"
  shows "scan_output_view_only H C A (view_only C keys) out = map_option ow_value (scan_output H C A keys out)
       \<and> ViewKey_scan H C A (view_only C keys) out
           = map_option (\<lambda>ow. (ow_value ow, recovery_ok ow)) (scan_output H C A keys out)
       \<and> (scan_output H C A keys out = None
          \<or> may_own H C (view_only C keys) (o_ephemeral_key out) (o_view_tag out))"
proof -
  have "vk_address (view_only C keys) = WalletKeys_address C keys" "vk_scan_secret (view_only C keys) = scan_secret keys"
    by (simp_all add: view_only_def)
  moreover have "sa_recovery (WalletKeys_address C keys) = recovery_key keys" by (simp add: WalletKeys_address_def)
  ultimately show ?thesis
    using may_own_detect [of H C A "view_only C keys" "sa_spend (WalletKeys_address C keys)" out]
    by (cases "detect H C A (scan_secret keys) (sa_spend (WalletKeys_address C keys)) out")
      (auto simp: scan_output_map [OF assms] scan_output_view_only_def ViewKey_scan_def)
qed

text \<open>An audited receipt binds: it opens the commitment, and the holder of the address's keys can sign for the
  output.\<close>

theorem receipts_bind:
  assumes "curve_ok C" and "PayoutReceipt_verify H C p (WalletKeys_address C keys) out"
  shows "\<exists>blinding ephemeral. scalar_from_bytes C (pr_blinding p) = Some blinding
       \<and> decompress C (o_ephemeral_key out) = Some ephemeral
       \<and> o_commitment out = compress C (commit C (pr_value p) blinding)
       \<and> o_owner_key out = compress C (mul_base C
            (owner_tweak C (shared_secret H C (smul C (scan_secret keys) ephemeral)) + spend_secret keys))"
proof -
  obtain scan spend r blinding where v: "address_points C (WalletKeys_address C keys) = Inr (scan, spend)"
      "scalar_from_bytes C (pr_blinding p) = Some blinding" "compress C (mul_base C r) = o_ephemeral_key out"
      "compress C (mul_base C (owner_tweak C (shared_secret H C (smul C r scan))) + spend) = o_owner_key out"
      "compress C (commit C (pr_value p) blinding) = o_commitment out"
  proof -
    obtain scan spend where 1: "address_points C (WalletKeys_address C keys) = Inr (scan, spend)"
      using assms(2) by (cases "address_points C (WalletKeys_address C keys)") (auto simp: PayoutReceipt_verify_def)
    obtain r where 2: "scalar_from_bytes C (pr_ephemeral p) = Some r"
      using assms(2) 1 by (cases "scalar_from_bytes C (pr_ephemeral p)") (auto simp: PayoutReceipt_verify_def)
    obtain blinding where 3: "scalar_from_bytes C (pr_blinding p) = Some blinding"
      using assms(2) 1 2 by (cases "scalar_from_bytes C (pr_blinding p)") (auto simp: PayoutReceipt_verify_def)
    show thesis
      using that [OF 1 3, of r] assms(2) 1 2 3 by (simp add: PayoutReceipt_verify_def Let_def split: if_splits)
  qed
  note keys = address_points_of_keys [OF assms(1) v(1)]
  have "decompress C (o_ephemeral_key out) = Some (mul_base C r)"
    using v(3) curve_laws(1) [OF assms(1), of "mul_base C r"] by simp
  moreover have "smul C (scan_secret keys) (mul_base C r) = smul C r scan"
    by (simp add: keys shared_point [OF assms(1), of "scan_secret keys"])
  ultimately show ?thesis using v keys by (simp add: mul_base_add [OF assms(1)])
qed

text \<open>Addresses, view keys and stored key triples read back as what was written.\<close>

theorem keys_read_back:
  assumes "curve_ok C" and "bech_ok B" and "address_points C a = Inr pq"
    and "address_points C (WalletKeys_address C keys) = Inr pq'"
  shows "address_decode C B (address_encode B a) = Inr a
       \<and> ViewKey_decode C B (ViewKey_encode C B (view_only C keys)) = Inr (view_only C keys)
       \<and> WalletKeys_from_bytes C (WalletKeys_to_bytes C keys) = Some keys"
proof (intro conjI)
  have dec: "bech_decode B (bech_encode B h d) = Some (h, d)" "trim (bech_encode B h d) = bech_encode B h d" for h d
    using assms(2) by (simp_all add: bech_ok_def trim_unspaced)
  obtain x y z where a: "a = \<lparr>sa_scan = x, sa_spend = y, sa_recovery = z\<rparr>" by (cases a)
  show "address_decode C B (address_encode B a) = Inr a"
    unfolding a using assms(3) [unfolded a] split_be_parts [of "be_bytes z" ADDRESS_VERSION x y]
    by (simp add: address_decode_def address_encode_def dec ok_or_def ADDRESS_LEN_def Let_def)
  show "ViewKey_decode C B (ViewKey_encode C B (view_only C keys)) = Inr (view_only C keys)"
    using assms(4) curve_laws(2) [OF assms(1), of "scan_secret keys"]
      split_be_parts [of "be_bytes (recovery_key keys)" VIEW_KEY_VERSION "scalar_to_bytes C (scan_secret keys)"
        "compress C (mul_base C (spend_secret keys))"]
    by (simp add: ViewKey_decode_def ViewKey_encode_def view_only_def WalletKeys_address_def dec ok_or_def
        VIEW_KEY_LEN_def Let_def)
  show "WalletKeys_from_bytes C (WalletKeys_to_bytes C keys) = Some keys"
    by (simp add: WalletKeys_from_bytes_def WalletKeys_to_bytes_def curve_laws(2) [OF assms(1)])
qed


subsection \<open>A concrete payment\<close>

definition sample_aead :: aead where
  "sample_aead = \<lparr>aead_seal = (\<lambda>k n p. p @ replicate 16 0), aead_open = (\<lambda>k n c. Some (take (length c - 16) c))\<rparr>"

lemma sample_aead_ok: "aead_ok sample_aead"
  by (simp add: aead_ok_def sample_aead_def TAG_LEN_def)

definition sample_keys :: "h256 WalletKeys" where
  "sample_keys = \<lparr>scan_secret = 2, spend_secret = 6, recovery_key = 0\<rparr>"

theorem payments_are_found_witness:
  "\<exists>n ow. new_output (\<lambda>_. 4) word_curve sample_aead (WalletKeys_address word_curve sample_keys) 8 1 2 (replicate 24 0) = Inr n
     \<and> scan_output (\<lambda>_. 4) word_curve sample_aead sample_keys (no_output n) = Some ow \<and> ow_value ow = 8"
proof -
  obtain n where n: "new_output (\<lambda>_. 4) word_curve sample_aead (WalletKeys_address word_curve sample_keys) 8 1 2 (replicate 24 0) = Inr n"
    by (simp add: new_output_def address_points_def WalletKeys_address_def word_curve_def sample_keys_def
        mul_base_def ok_or_def Let_def)
  then show ?thesis
    using payments_are_found [OF word_curve_ok sample_aead_ok _ _ n] by (fastforce simp: NONCE_LEN_def)
qed

end
