(* ===== verification/Builder.thy ===== *)
theory Builder
  imports Stealth
begin

text \<open>Building transactions and coinbases (\<^verbatim>\<open>src/src/core/mw/builder.rs\<close>). Each random draw is an
  argument: \<open>draw i\<close> gives the ephemeral secret, the blinding factor and the payload nonce of the
  \<open>i\<close>-th output, \<open>shuffle\<close> the order of the outputs, \<open>offsets\<close> the successive draws of the two
  offsets (a run that uses them all up has not ended), \<open>aux\<close> the randomness of each signature.\<close>

type_synonym 'sc draws = "nat \<Rightarrow> 'sc \<times> 'sc \<times> bytes"

record 'sc Spendable =
  sp_commitment :: h256
  sp_value :: nat
  sp_blinding :: 'sc
  sp_owner_secret :: 'sc

record Payment =
  pay_to :: StealthAddress
  pay_value :: nat

record BuiltTransaction =
  built_tx :: Transaction
  built_change :: "(h256 \<times> nat) option"

fun new_outputs ::
    "hasher \<Rightarrow> ('pt :: ab_group_add, 'sc :: comm_ring_1) curve \<Rightarrow> aead \<Rightarrow> 'sc draws \<Rightarrow> nat \<Rightarrow> (StealthAddress \<times> nat) list
      \<Rightarrow> build_error + 'sc NewOutput list" where
  "new_outputs H C A draw i [] = Inr []"
| "new_outputs H C A draw i ((to, v) # ps) =
     (case draw i of (r, blinding, nonce) \<Rightarrow>
        and_then (map_err BuildAddress (new_output H C A to v r blinding nonce)) (\<lambda>n.
        and_then (new_outputs H C A draw (i + 1) ps) (\<lambda>ns. Inr (n # ns))))"

definition sum_values :: "build_error \<Rightarrow> nat \<Rightarrow> nat list \<Rightarrow> build_error + nat" where
  "sum_values err start vs = fold_res (\<lambda>v acc. ok_or err (chk_add64 acc v)) vs start"

fun draw_offsets :: "('sc :: comm_ring_1 \<times> 'sc) list \<Rightarrow> 'sc \<Rightarrow> 'sc \<Rightarrow> build_error + ('sc \<times> 'sc \<times> 'sc \<times> 'sc)" where
  "draw_offsets [] sum_blinding sum_owner = Inl OutOfDraws"
| "draw_offsets ((offset, x) # ds) sum_blinding sum_owner =
     (let e = sum_blinding - offset; e_owner = sum_owner - x
      in if e \<noteq> 0 \<and> e_owner \<noteq> 0 then Inr (offset, x, e, e_owner)
         else draw_offsets ds sum_blinding sum_owner)"

text \<open>Everything before the self-check.\<close>

definition assemble_transaction ::
    "hasher \<Rightarrow> ('pt :: ab_group_add, 'sc :: comm_ring_1) curve \<Rightarrow> aead \<Rightarrow> 'sc prover \<Rightarrow> 'sc draws
      \<Rightarrow> ('sc NewOutput list \<Rightarrow> 'sc NewOutput list) \<Rightarrow> ('sc \<times> 'sc) list \<Rightarrow> (nat \<Rightarrow> h256)
      \<Rightarrow> 'sc Spendable list \<Rightarrow> Payment list \<Rightarrow> StealthAddress \<Rightarrow> nat \<Rightarrow> nat \<Rightarrow> build_error + BuiltTransaction" where
  "assemble_transaction H C A P draw shuffle offsets aux spend payments change_to fee min_height =
     (if spend = [] then Inl NoInputs
      else if payments = [] then Inl NoPayments
      else if \<exists>p \<in> set payments. pay_value p = 0 then Inl ZeroPayment
      else
        and_then (sum_values InputOverflow 0 (map sp_value spend)) (\<lambda>total_in.
        and_then (sum_values OutputOverflow fee (map pay_value payments)) (\<lambda>total_out.
        if total_in < total_out then Inl (InsufficientFunds total_in total_out)
        else
          let change = total_in - total_out;
              pays = map (\<lambda>p. (pay_to p, pay_value p)) payments
                     @ (if change > 0 then [(change_to, change)] else []) in
          and_then (new_outputs H C A draw 0 pays) (\<lambda>created.
          let change_commitment = (if change > 0 then Some (o_commitment (no_output (last created)), change) else None);
              created = shuffle created;
              sum_out = sum_list (map no_blinding created);
              sum_in = sum_list (map sp_blinding spend);
              sum_owner = sum_list (map sp_owner_secret spend) in
          and_then (OutputGroup_prove H P (map no_output created) (map no_value created) (map no_blinding created)) (\<lambda>group.
          let ins = sort_key i_commitment
                (map (\<lambda>(i, s). Input_sign H C (sp_commitment s) (sp_owner_secret s) (aux i)) (enumerate 1 spend)) in
          and_then (draw_offsets offsets (sum_out - sum_in) sum_owner) (\<lambda>(offset, x, e, e_owner).
          Inr \<lparr>built_tx =
                 \<lparr>tx_body = \<lparr>inputs = ins, out_groups = [group],
                    tx_kernels = [Kernel_new H C Plain fee min_height e e_owner (aux 0)]\<rparr>,
                  kernel_offset = scalar_to_bytes C offset, owner_offset = scalar_to_bytes C x\<rparr>,
               built_change = change_commitment\<rparr>))))))"

definition build_transaction ::
    "hasher \<Rightarrow> ('pt :: ab_group_add, 'sc :: comm_ring_1) curve \<Rightarrow> aead \<Rightarrow> 'sc prover \<Rightarrow> 'sc draws
      \<Rightarrow> ('sc NewOutput list \<Rightarrow> 'sc NewOutput list) \<Rightarrow> ('sc \<times> 'sc) list \<Rightarrow> (nat \<Rightarrow> h256)
      \<Rightarrow> 'sc Spendable list \<Rightarrow> Payment list \<Rightarrow> StealthAddress \<Rightarrow> nat \<Rightarrow> nat \<Rightarrow> build_error + BuiltTransaction" where
  "build_transaction H C A P draw shuffle offsets aux spend payments change_to fee min_height =
     and_then (assemble_transaction H C A P draw shuffle offsets aux spend payments change_to fee min_height) (\<lambda>b.
     and_then (map_err BuildInvalid (Transaction_validate H C Relayed (built_tx b))) (\<lambda>_. Inr b))"

subsection \<open>Coinbases\<close>

definition receipt_of :: "('pt, 'sc) curve \<Rightarrow> nat \<times> 'sc NewOutput \<Rightarrow> PayoutReceipt" where
  "receipt_of C x = (case x of (i, c) \<Rightarrow>
     \<lparr>output_index = i, pr_value = no_value c, pr_blinding = scalar_to_bytes C (no_blinding c),
      pr_ephemeral = scalar_to_bytes C (ephemeral_secret c)\<rparr>)"

text \<open>The source checks each payout just before it makes its output; both refusals leave nothing behind.\<close>

fun payout_outputs ::
    "hasher \<Rightarrow> ('pt :: ab_group_add, 'sc :: comm_ring_1) curve \<Rightarrow> aead \<Rightarrow> 'sc draws \<Rightarrow> nat \<Rightarrow> (StealthAddress \<times> nat) list
      \<Rightarrow> build_error + 'sc NewOutput list" where
  "payout_outputs H C A draw i [] = Inr []"
| "payout_outputs H C A draw i ((to, v) # ps) =
     (if v = 0 then Inl ZeroPayout
      else case draw i of (r, blinding, nonce) \<Rightarrow>
        and_then (map_err BuildAddress (new_output H C A to v r blinding nonce)) (\<lambda>n.
        and_then (payout_outputs H C A draw (i + 1) ps) (\<lambda>ns. Inr (n # ns))))"

definition build_coinbase_with ::
    "hasher \<Rightarrow> ('pt :: ab_group_add, 'sc :: comm_ring_1) curve \<Rightarrow> aead \<Rightarrow> 'sc prover \<Rightarrow> 'sc draws \<Rightarrow> h256
      \<Rightarrow> (StealthAddress \<times> nat) list \<Rightarrow> h256 \<Rightarrow> build_error + Coinbase \<times> PayoutReceipt list" where
  "build_coinbase_with H C A P draw aux payouts extra =
     (if payouts = [] then Inl NoPayouts
      else
        and_then (payout_outputs H C A draw 0 payouts) (\<lambda>created.
        let values = map no_value created; blindings = map no_blinding created;
            excess_secret = sum_list blindings;
            receipts = map (receipt_of C) (enumerate 0 created) in
        and_then (OutputGroup_prove H P (map no_output created) values blindings) (\<lambda>group.
        let cb = \<lparr>cb_outputs = group, cb_kernel = Kernel_new H C CoinbaseFeature 0 0 excess_secret 0 aux,
                  cb_extra = extra\<rparr> in
        and_then (map_err BuildInvalid (Coinbase_validate_structure C cb)) (\<lambda>_. Inr (cb, receipts)))))"

definition build_coinbase ::
    "hasher \<Rightarrow> ('pt :: ab_group_add, 'sc :: comm_ring_1) curve \<Rightarrow> aead \<Rightarrow> 'sc prover \<Rightarrow> 'sc draws \<Rightarrow> h256
      \<Rightarrow> (StealthAddress \<times> nat) list \<Rightarrow> build_error + Coinbase" where
  "build_coinbase H C A P draw aux payouts =
     and_then (build_coinbase_with H C A P draw aux payouts 0) (\<lambda>(cb, _). Inr cb)"

definition owner_key_of :: "('pt, 'sc) curve \<Rightarrow> 'sc \<Rightarrow> h256" where
  "owner_key_of C secret = compress C (mul_base C secret)"

subsection \<open>Sums of openings\<close>

lemma smul_sum_list: "curve_ok C \<Longrightarrow> smul C (sum_list xs) p = sum_list (map (\<lambda>x. smul C x p) xs)"
  by (induction xs) (simp_all add: smul_zero curve_laws(7))

lemma commits_sum:
  assumes "curve_ok C"
  shows "sum_list (map (\<lambda>x. commit C (f x) (g x)) xs)
       = smul C (of_nat (sum_list (map f xs))) (gen_g C) + smul C (sum_list (map g xs)) (gen_h C)"
  by (induction xs)
    (simp_all add: smul_zero [OF assms] commit_def curve_laws(7) [OF assms] algebra_simps)

lemma keys_sum: "curve_ok C \<Longrightarrow> sum_list (map (\<lambda>x. mul_base C (g x)) xs) = mul_base C (sum_list (map g xs))"
  by (induction xs) (simp_all add: mul_base_def smul_zero curve_laws(7))

lemma sum_points_compressed:
  assumes "curve_ok C"
  shows "sum_points C (map (\<lambda>x. compress C (f x)) xs) = Inr (sum_list (map f xs))"
  by (auto simp: sum_points_Inr point_of_def curve_laws(1) [OF assms] comp_def)

lemma sum_values_Inr:
  "sum_values err start vs = Inr w \<longleftrightarrow> w = start + sum_list vs \<and> (vs = [] \<or> w \<le> U64_MAX)"
  unfolding sum_values_def
proof (induction vs arbitrary: start)
  case (Cons v vs)
  show ?case by (cases "vs = []") (auto simp: and_then_Inr ok_or_Inr chk_add64_Some Cons.IH)
qed auto

text \<open>What an output builder hands on: the opening it chose.\<close>

definition opens :: "hasher \<Rightarrow> ('pt :: ab_group_add, 'sc :: comm_ring_1) curve \<Rightarrow> 'sc NewOutput \<Rightarrow> bool" where
  "opens H C n \<longleftrightarrow> o_commitment (no_output n) = compress C (commit C (no_value n) (no_blinding n))"

lemma new_output_opens: "new_output H C A to v r blinding nonce = Inr n \<Longrightarrow> opens H C n \<and> no_value n = v"
  by (auto simp: opens_def elim: new_output_Inr)

lemma new_output_receipt:
  assumes "curve_ok C" and "new_output H C A to v r blinding nonce = Inr n"
  shows "PayoutReceipt_verify H C (receipt_of C (i, n)) to (no_output n)"
  using assms(2)
  by (auto simp: PayoutReceipt_verify_def receipt_of_def curve_laws(2) [OF assms(1)] Let_def elim: new_output_Inr)

lemma new_outputs_Inr:
  "new_outputs H C A draw i ps = Inr ns \<Longrightarrow> (\<forall>n \<in> set ns. opens H C n) \<and> map no_value ns = map snd ps"
proof (induction ps arbitrary: i ns)
  case (Cons p ps)
  obtain to v where p: "p = (to, v)" by (cases p)
  obtain r blinding nonce where d: "draw i = (r, blinding, nonce)" by (cases "draw i")
  obtain n rest where n: "new_output H C A to v r blinding nonce = Inr n"
    and rest: "new_outputs H C A draw (i + 1) ps = Inr rest" and ns: "ns = n # rest"
    using Cons.prems by (auto simp: p d and_then_Inr map_err_Inr)
  show ?case using Cons.IH [OF rest] new_output_opens [OF n] by (simp add: ns p)
qed simp

lemma payout_outputs_Inr:
  assumes "curve_ok C"
  shows "payout_outputs H C A draw i ps = Inr ns \<Longrightarrow>
     (\<forall>n \<in> set ns. opens H C n) \<and> map no_value ns = map snd ps \<and> length ns = length ps \<and>
     (\<forall>j < length ps. PayoutReceipt_verify H C (receipt_of C (k j, ns ! j)) (fst (ps ! j)) (no_output (ns ! j)))"
proof (induction ps arbitrary: i ns k)
  case (Cons p ps)
  obtain to v where p: "p = (to, v)" by (cases p)
  obtain r blinding nonce where d: "draw i = (r, blinding, nonce)" by (cases "draw i")
  obtain n rest where n: "new_output H C A to v r blinding nonce = Inr n"
    and rest: "payout_outputs H C A draw (i + 1) ps = Inr rest" and ns: "ns = n # rest"
    using Cons.prems by (auto simp: p d and_then_Inr map_err_Inr split: if_splits)
  have "PayoutReceipt_verify H C (receipt_of C (k j, ns ! j)) (fst ((p # ps) ! j)) (no_output (ns ! j))"
    if "j < length (p # ps)" for j
    using that new_output_receipt [OF assms n] Cons.IH [OF rest, of "\<lambda>j. k (Suc j)"]
    by (cases j) (simp_all add: ns p)
  then show ?case using Cons.IH [OF rest] new_output_opens [OF n] ns p by simp
qed simp


lemma opens_commitments:
  assumes "\<forall>n \<in> set ns. opens H C n"
  shows "map o_commitment (map no_output ns) = map2 (\<lambda>v b. compress C (commit C v b)) (map no_value ns) (map no_blinding ns)"
    and "map (\<lambda>n. o_commitment (no_output n)) ns = map (\<lambda>n. compress C (commit C (no_value n) (no_blinding n))) ns"
  using assms by (induction ns) (simp_all add: opens_def)

lemma kernel_new_excess:
  "k_excess (Kernel_new H C f fee mh e eo aux) = compress C (smul C e (gen_h C))"
  "k_owner_excess (Kernel_new H C f fee mh e eo aux) = compress C (mul_base C eo)"
  "k_fee (Kernel_new H C f fee mh e eo aux) = fee"
  by (simp_all add: Kernel_new_def Let_def)

lemma kernel_new_verifies: "curve_ok C \<Longrightarrow> Kernel_verify_signature H C (Kernel_new H C f fee mh e eo aux)"
  by (simp add: Kernel_verify_signature_def Kernel_new_def Let_def kernel_complete)

lemma Input_sign_verifies:
  "curve_ok C \<Longrightarrow> mul_base C secret \<noteq> 0 \<Longrightarrow> Input_verify_signature H C (Input_sign H C c secret aux)"
  by (simp add: Input_verify_signature_def Input_sign_def Let_def schnorr_complete)

subsection \<open>Built coinbases\<close>

lemma coinbase_built:
  assumes "curve_ok C" and "prover_ok C P"
    and "build_coinbase_with H C A P draw aux payouts extra = Inr (cb, receipts)"
  shows "Coinbase_validate_structure C cb = Inr ()"
    and "Coinbase_verify_sum C cb (sum_list (map snd payouts)) = Inr ()"
    and "Coinbase_verify_crypto H C cb = Inr ()"
    and "length receipts = length payouts" and "length (group_outputs (cb_outputs cb)) = length payouts"
    and "\<And>j. j < length payouts \<Longrightarrow>
           PayoutReceipt_verify H C (receipts ! j) (fst (payouts ! j)) (group_outputs (cb_outputs cb) ! j)
           \<and> pr_value (receipts ! j) = snd (payouts ! j) \<and> output_index (receipts ! j) = j"
proof -
  obtain created g where created: "payout_outputs H C A draw 0 payouts = Inr created"
    and g: "OutputGroup_prove H P (map no_output created) (map no_value created) (map no_blinding created) = Inr g"
    and cb: "cb = \<lparr>cb_outputs = g, cb_kernel = Kernel_new H C CoinbaseFeature 0 0 (sum_list (map no_blinding created)) 0 aux,
                  cb_extra = extra\<rparr>"
    and receipts: "receipts = map (receipt_of C) (enumerate 0 created)"
    and shape: "Coinbase_validate_structure C cb = Inr ()"
    using assms(3) by (auto simp: build_coinbase_with_def Let_def and_then_Inr map_err_Inr split: if_splits)
  have outs: "\<forall>n \<in> set created. opens H C n" "map no_value created = map snd payouts" "length created = length payouts"
    and rec: "\<And>j. j < length payouts \<Longrightarrow>
       PayoutReceipt_verify H C (receipt_of C (j, created ! j)) (fst (payouts ! j)) (no_output (created ! j))"
    using payout_outputs_Inr [OF assms(1) created, of "\<lambda>j. j"] by blast+
  note grp = OutputGroup_prove_verifies [OF assms(1,2) g opens_commitments(1) [OF outs(1)]]
  show "Coinbase_validate_structure C cb = Inr ()" by (rule shape)
  show "Coinbase_verify_crypto H C cb = Inr ()"
    using grp by (simp add: Coinbase_verify_crypto_def cb kernel_new_verifies [OF assms(1)])
  have "map o_commitment (group_outputs g) = map (\<lambda>n. compress C (commit C (no_value n) (no_blinding n))) created"
    using opens_commitments(2) [OF outs(1)] by (simp only: grp(1) map_map comp_def)
  then have "sum_points C (map o_commitment (group_outputs g))
      = Inr (smul C (of_nat (sum_list (map snd payouts))) (gen_g C) + smul C (sum_list (map no_blinding created)) (gen_h C))"
    using commits_sum [OF assms(1), of no_value no_blinding created] outs(2)
    by (simp add: sum_points_compressed [OF assms(1)])
  then show "Coinbase_verify_sum C cb (sum_list (map snd payouts)) = Inr ()"
    by (simp add: Coinbase_verify_sum_def cb kernel_new_excess curve_laws(1) [OF assms(1)] ok_or_def)
  show "length receipts = length payouts" by (simp add: receipts outs(3))
  show "length (group_outputs (cb_outputs cb)) = length payouts" by (simp add: cb grp(1) outs(3))
  fix j assume j: "j < length payouts"
  have "snd (payouts ! j) = no_value (created ! j)" using j outs(2,3) by (metis nth_map)
  then show "PayoutReceipt_verify H C (receipts ! j) (fst (payouts ! j)) (group_outputs (cb_outputs cb) ! j)
           \<and> pr_value (receipts ! j) = snd (payouts ! j) \<and> output_index (receipts ! j) = j"
    using j rec [OF j] outs(3) by (simp add: receipts cb grp(1) nth_enumerate_eq) (simp add: receipt_of_def)
qed

subsection \<open>Built transactions\<close>

text \<open>Spends that name real coins: the opening is the commitment's and the owner key is not the identity.\<close>

definition genuine :: "('pt :: ab_group_add, 'sc :: comm_ring_1) curve \<Rightarrow> 'sc Spendable \<Rightarrow> bool" where
  "genuine C s \<longleftrightarrow>
     sp_commitment s = compress C (commit C (sp_value s) (sp_blinding s)) \<and> mul_base C (sp_owner_secret s) \<noteq> 0"

lemma draw_offsets_Inr:
  "draw_offsets ds a b = Inr (offset, x, e, eo) \<Longrightarrow> e = a - offset \<and> eo = b - x"
  by (induction ds a b rule: draw_offsets.induct) (auto simp: Let_def split: if_splits)

lemma sum_list_mset: "mset xs = mset ys \<Longrightarrow> sum_list (map f xs) = sum_list (map f (ys :: 'a list) :: 'b :: comm_monoid_add list)"
  by (metis mset_map sum_mset_sum_list)

lemma assembled_balances:
  assumes C: "curve_ok C" and P: "prover_ok C P" and perm: "\<And>xs. mset (shuffle xs) = mset xs"
    and spends: "\<forall>s \<in> set spend. genuine C s"
    and built: "assemble_transaction H C A P draw shuffle offsets aux spend payments change_to fee min_height = Inr b"
  shows "verify_sums C (built_tx b) = Inr () \<and> verify_crypto H C (built_tx b) = Inr ()"
proof -
  define tin where "tin = sum_list (map sp_value spend)"
  define tout where "tout = fee + sum_list (map pay_value payments)"
  define pays where "pays = map (\<lambda>p. (pay_to p, pay_value p)) payments @ (if tin - tout > 0 then [(change_to, tin - tout)] else [])"
  obtain created g offset x e eo where total: "tout \<le> tin" "tout \<le> U64_MAX"
    and created: "new_outputs H C A draw 0 pays = Inr created"
    and g: "OutputGroup_prove H P (map no_output (shuffle created)) (map no_value (shuffle created))
              (map no_blinding (shuffle created)) = Inr g"
    and off: "draw_offsets offsets (sum_list (map no_blinding (shuffle created)) - sum_list (map sp_blinding spend))
              (sum_list (map sp_owner_secret spend)) = Inr (offset, x, e, eo)"
    and tx: "built_tx b = \<lparr>tx_body = \<lparr>inputs = sort_key i_commitment
                (map (\<lambda>(i, s). Input_sign H C (sp_commitment s) (sp_owner_secret s) (aux i)) (enumerate 1 spend)),
                 out_groups = [g], tx_kernels = [Kernel_new H C Plain fee min_height e eo (aux 0)]\<rparr>,
                 kernel_offset = scalar_to_bytes C offset, owner_offset = scalar_to_bytes C x\<rparr>"
    using built unfolding assemble_transaction_def Let_def
    by (auto simp: and_then_Inr sum_values_Inr tin_def tout_def pays_def if_Inr split: if_splits)
  let ?m = "shuffle created"
  have set_m: "set ?m = set created" using perm [of created] by (metis set_mset_mset)
  have outs: "\<forall>n \<in> set ?m. opens H C n" using new_outputs_Inr [OF created] set_m by blast
  note grp = OutputGroup_prove_verifies [OF C P g opens_commitments(1) [OF outs]]
  have "sum_list (map no_value ?m) = sum_list (map no_value created)" by (rule sum_list_mset [OF perm])
  also have "\<dots> = sum_list (map snd pays)" using new_outputs_Inr [OF created] by simp
  also have "\<dots> = sum_list (map pay_value payments) + (tin - tout)" by (simp add: pays_def comp_def)
  finally have paid: "sum_list (map no_value ?m) + fee = tin" using total(1) by (simp add: tout_def)
  note draws = draw_offsets_Inr [OF off]
  let ?ins = "map (\<lambda>(i, s). Input_sign H C (sp_commitment s) (sp_owner_secret s) (aux i)) (enumerate 1 spend)"
  have by_spend: "map (\<lambda>z. f (snd z)) (enumerate k spend) = map f spend" for f :: "'b Spendable \<Rightarrow> 'c" and k
    by (simp add: enumerate_eq_zip flip: map_map [unfolded comp_def, of _ snd])
  have ins: "map i_commitment ?ins = map (\<lambda>s. compress C (commit C (sp_value s) (sp_blinding s))) spend"
      "map i_owner_key ?ins = map (\<lambda>s. compress C (mul_base C (sp_owner_secret s))) spend"
    using spends by_spend [of "\<lambda>s. compress C (mul_base C (sp_owner_secret s))" 1] by_spend [of sp_commitment 1]
    by (simp_all add: Input_sign_def Let_def case_prod_unfold comp_def genuine_def cong: map_cong)
  have outs_eq: "map o_commitment (group_outputs g) = map (\<lambda>n. compress C (commit C (no_value n) (no_blinding n))) ?m"
    using opens_commitments(2) [OF outs] by (simp add: grp(1) comp_def)
  let ?k = "Kernel_new H C Plain fee min_height e eo (aux 0)"
  have pts_all: "all_points C (map (\<lambda>z. compress C (f z)) zs)" for f :: "'d \<Rightarrow> 'a" and zs
    by (simp add: all_points_def curve_laws(1) [OF C])
  have pts_sum: "points_sum C (map (\<lambda>z. compress C (f z)) zs) = sum_list (map f zs)" for f :: "'d \<Rightarrow> 'a" and zs
    by (simp add: points_sum_def point_of_def curve_laws(1) [OF C] comp_def)
  have single: "all_points C [compress C q]" "points_sum C [compress C q] = q" for q
    by (simp_all add: all_points_def points_sum_def point_of_def curve_laws(1) [OF C])
  have e: "e = sum_list (map no_blinding ?m) - sum_list (map sp_blinding spend) - offset"
      "eo = sum_list (map sp_owner_secret spend) - x" using draws by simp_all
  have worth: "(of_nat tin :: 'b) = of_nat (sum_list (map no_value ?m)) + of_nat fee"
    by (simp flip: paid)
  have sums: "points_sum C (map (\<lambda>n. compress C (commit C (no_value n) (no_blinding n))) ?m)
      = smul C (of_nat (sum_list (map no_value ?m))) (gen_g C) + smul C (sum_list (map no_blinding ?m)) (gen_h C)"
    "points_sum C (map (\<lambda>s. compress C (commit C (sp_value s) (sp_blinding s))) spend)
      = smul C (of_nat (sum_list (map no_value ?m)) + of_nat fee) (gen_g C) + smul C (sum_list (map sp_blinding spend)) (gen_h C)"
    "points_sum C (map (\<lambda>s. compress C (mul_base C (sp_owner_secret s))) spend) = mul_base C (sum_list (map sp_owner_secret spend))"
    unfolding pts_sum commits_sum [OF C] keys_sum [OF C] using worth by (simp_all add: tin_def)
  have "balanced C ?ins (group_outputs g) [?k] offset x"
    unfolding balanced_def ins outs_eq list.map kernel_new_excess sums single e
    by (simp add: pts_all single mul_base_def curve_laws(7) [OF C] smul_minus [OF C])
  then have "balanced C (sort_key i_commitment ?ins) (group_outputs g) [?k] offset x"
    by (rule balanced_mset) simp_all
  then have "verify_sums C (built_tx b) = Inr ()"
    using total(2) by (auto simp: verify_sums_Inr tx curve_laws(2) [OF C] kernel_new_excess tout_def Transaction_outputs_def)
  moreover have "verify_crypto H C (built_tx b) = Inr ()"
    using spends grp(2) by (auto simp: verify_crypto_Inr tx kernel_new_verifies [OF C] genuine_def enumerate_eq_zip
        intro!: Input_sign_verifies [OF C] dest: set_zip_rightD)
  ultimately show ?thesis by blast
qed


text \<open>C12. Building fails only where the wallet can see why: once a transaction is assembled from genuine coins, the
  final self-check asks nothing but the structural rules, and an accepted one is valid for relay.\<close>

theorem built_transactions_balance:
  assumes "curve_ok C" and "prover_ok C P" and "\<And>xs. mset (shuffle xs) = mset xs"
    and "\<forall>s \<in> set spend. genuine C s"
    and "assemble_transaction H C A P draw shuffle offsets aux spend payments change_to fee min_height = Inr b"
  shows "build_transaction H C A P draw shuffle offsets aux spend payments change_to fee min_height
       = (case validate_structure H C Relayed (built_tx b) of Inr _ \<Rightarrow> Inr b | Inl err \<Rightarrow> Inl (BuildInvalid err))
       \<and> (validate_structure H C Relayed (built_tx b) = Inr () \<longrightarrow> Transaction_validate H C Relayed (built_tx b) = Inr ())"
  using assembled_balances [OF assms]
  by (cases "validate_structure H C Relayed (built_tx b)") (simp_all add: build_transaction_def assms(5) Transaction_validate_def)

text \<open>C13. A coinbase the builder returns is worth exactly its payouts, passes every check on a coinbase but the
  amount the chain allows, and comes with one receipt per payout, each of which an auditor holding only
  the address accepts for the output in its place.\<close>

theorem coinbase_is_auditable:
  assumes "curve_ok C" and "prover_ok C P"
    and "build_coinbase_with H C A P draw aux payouts extra = Inr (cb, receipts)"
  shows "Coinbase_validate_structure C cb = Inr () \<and> Coinbase_verify_crypto H C cb = Inr ()
       \<and> Coinbase_verify_sum C cb (sum_list (map snd payouts)) = Inr ()
       \<and> length receipts = length payouts
       \<and> (\<forall>j < length payouts. PayoutReceipt_verify H C (receipts ! j) (fst (payouts ! j)) (group_outputs (cb_outputs cb) ! j)
            \<and> pr_value (receipts ! j) = snd (payouts ! j) \<and> output_index (receipts ! j) = j)"
  using coinbase_built [OF assms] by blast

subsection \<open>A concrete payment\<close>

definition sample_prover :: "h256 prover" where
  "sample_prover n binding vs bs = Some (replicate ((9 + 2 * trailing_zeros (RANGE_BITS * length vs)) * 32) 0)"

lemma sample_prover_ok: "prover_ok word_curve sample_prover"
  by (simp add: prover_ok_def sample_prover_def) (simp add: word_curve_def)

definition sample_draw :: "h256 draws" where
  "sample_draw i = (1 + of_nat i, 2 + of_nat i, replicate 24 0)"

definition sample_address :: StealthAddress where
  "sample_address = \<lparr>sa_scan = 2, sa_spend = 6, sa_recovery = 0\<rparr>"

definition sample_spend :: "h256 Spendable" where
  "sample_spend = \<lparr>sp_commitment = 13, sp_value = 10, sp_blinding = 1, sp_owner_secret = 5\<rparr>"

definition sample_assembled :: "build_error + BuiltTransaction" where
  "sample_assembled = assemble_transaction (\<lambda>_. 4) word_curve sample_aead sample_prover sample_draw (\<lambda>xs. xs) [(0, 1)] (\<lambda>_. 0)
     [sample_spend] [\<lparr>pay_to = sample_address, pay_value = 8\<rparr>] sample_address 2 0"


lemma sample_assembled_Inr: "\<exists>b. sample_assembled = Inr b"
  by (simp add: sample_assembled_def assemble_transaction_def sample_spend_def sum_values_def chk_add64_def
      sample_draw_def sample_address_def new_output_def address_points_def word_curve_def mul_base_def ok_or_def
      OutputGroup_prove_def prove_range_def MAX_GROUP_OUTPUTS_def sample_prover_def Let_def)

theorem built_transactions_balance_witness:
  "\<exists>b. sample_assembled = Inr b \<and>
     build_transaction (\<lambda>_. 4) word_curve sample_aead sample_prover sample_draw (\<lambda>xs. xs) [(0, 1)] (\<lambda>_. 0)
       [sample_spend] [\<lparr>pay_to = sample_address, pay_value = 8\<rparr>] sample_address 2 0
     = (case validate_structure (\<lambda>_. 4) word_curve Relayed (built_tx b) of Inr _ \<Rightarrow> Inr b | Inl err \<Rightarrow> Inl (BuildInvalid err))"
proof -
  obtain b where b: "sample_assembled = Inr b" using sample_assembled_Inr by blast
  have "\<forall>s \<in> set [sample_spend]. genuine word_curve s"
    by (simp add: genuine_def sample_spend_def commit_def word_curve_def mul_base_def)
  then show ?thesis
    using built_transactions_balance [OF word_curve_ok sample_prover_ok refl _ b [unfolded sample_assembled_def]] b by blast
qed

lemma sample_coinbase_Inr:
  "\<exists>x. build_coinbase_with (\<lambda>_. 4) word_curve sample_aead sample_prover sample_draw 0 [(sample_address, 8)] 0 = Inr x"
  by (simp add: build_coinbase_with_def sample_draw_def sample_address_def new_output_def address_points_def
      ok_or_def OutputGroup_prove_def prove_range_def MAX_GROUP_OUTPUTS_def sample_prover_def seal_payload_def sample_aead_def
      Coinbase_validate_structure_def check_structure_def range_proof_len_1 check_encoding_def valid_nonidentity_def
      PAYLOAD_LEN_def Kernel_new_def check_rules_def IDENTITY_def mul_base_def commit_def word_curve_def
      owner_tweak_def hash_to_scalar_def domain_preimage_def len_prefixed_def ascii_def RANGE_BITS_def next_power_of_two.simps trailing_zeros.simps Let_def)

theorem coinbase_is_auditable_witness:
  "\<exists>cb receipts. build_coinbase_with (\<lambda>_. 4) word_curve sample_aead sample_prover sample_draw 0 [(sample_address, 8)] 0
       = Inr (cb, receipts) \<and> Coinbase_verify_sum word_curve cb 8 = Inr ()"
proof -
  obtain cb receipts where "build_coinbase_with (\<lambda>_. 4) word_curve sample_aead sample_prover sample_draw 0 [(sample_address, 8)] 0
       = Inr (cb, receipts)" using sample_coinbase_Inr by fastforce
  then show ?thesis using coinbase_is_auditable [OF word_curve_ok sample_prover_ok, of "\<lambda>_. 4"] by fastforce
qed

end
