(* ===== verification/Relay_Feed.thy ===== *)
theory Relay_Feed
  imports Bonds Emission Transaction "HOL-Library.Sublist"
begin

text \<open>What a block producer brings: the midstate headers it has to relay (\<^verbatim>\<open>RelayFeed\<close> of
  \<^verbatim>\<open>src/src/core/relay.rs\<close>), its bonds (\<^verbatim>\<open>MinerBond\<close>, \<^verbatim>\<open>CoBond\<close> of \<^verbatim>\<open>src/src/core/bond.rs\<close>), the
  transactions it picks and the split of the reward (\<^verbatim>\<open>src/src/core/template.rs\<close>). None of it is
  consensus: what a feed proposes is checked like any other block's headers.\<close>

subsection \<open>Headers to relay\<close>

type_synonym feed = "(nat, h256 \<times> HeaderLink) omap"

definition FEED_AHEAD :: nat where "FEED_AHEAD = 2 * MAX_RELAY_HEADERS_PER_BLOCK"

fun feed_add_from :: "bool \<Rightarrow> nat \<Rightarrow> h256 \<Rightarrow> HeaderLink list \<Rightarrow> feed \<Rightarrow> feed" where
  "feed_add_from replace height prev [] f = f"
| "feed_add_from replace height prev (link # links) f =
     feed_add_from replace (add64 height 1) (final_hash link) links
       (if replace \<or> \<not> om_has f height then om_insert height (prev, link) f else f)"

definition feed_add :: "MidstateHeaders \<Rightarrow> bool \<Rightarrow> feed \<Rightarrow> feed" where
  "feed_add run replace f = feed_add_from replace (mh_start run) (mh_prev run) (mh_headers run) f"

definition feed_len :: "feed \<Rightarrow> nat" where "feed_len f = length f"

definition feed_is_empty :: "feed \<Rightarrow> bool" where "feed_is_empty f \<longleftrightarrow> f = []"

definition feed_tip_height :: "feed \<Rightarrow> nat option" where
  "feed_tip_height f = (if f = [] then None else Some (fst (last f)))"

text \<open>Both bounds of \<^verbatim>\<open>split_off\<close>: the entries from the key on are split off the map.\<close>

definition feed_prune :: "Relay \<Rightarrow> feed \<Rightarrow> feed" where
  "feed_prune relay f =
     (let lower = re_height (Relay_base relay);
          over = sat_add64 (re_height (Relay_tip relay)) FEED_AHEAD
      in filter (\<lambda>(h, _). h < add64 over 1) (filter (\<lambda>(h, _). lower \<le> h) f))"

definition branches_at :: "feed \<Rightarrow> Relay \<Rightarrow> nat \<Rightarrow> bool" where
  "branches_at f relay h =
     (case (om_get f h, Relay_get relay (h - 1), Relay_get relay h) of
        (Some (prev, link), Some lower, Some ours) \<Rightarrow> prev = re_hash lower \<and> final_hash link \<noteq> re_hash ours
      | _ \<Rightarrow> False)"

definition feed_start :: "feed \<Rightarrow> Relay \<Rightarrow> nat option" where
  "feed_start f relay =
     (let tip = Relay_tip relay;
          branch = List.find (branches_at f relay) (rev [re_height (Relay_base relay) + 1..<re_height tip + 1])
      in case om_get f (re_height tip + 1) of
           Some (prev, _) \<Rightarrow> if prev = re_hash tip then Some (re_height tip + 1) else branch
         | None \<Rightarrow> branch)"

fun linked_run :: "nat \<Rightarrow> h256 \<Rightarrow> (nat \<times> h256 \<times> HeaderLink) list \<Rightarrow> HeaderLink list" where
  "linked_run n expect [] = []"
| "linked_run n expect ((_, lower, link) # es) =
     (if lower \<noteq> expect \<or> n = MAX_RELAY_HEADERS_PER_BLOCK then []
      else link # linked_run (n + 1) (final_hash link) es)"

definition next_for :: "feed \<Rightarrow> Relay \<Rightarrow> RelayHeaders option" where
  "next_for f relay =
     Option.bind (feed_start f relay) (\<lambda>start.
     Option.bind (om_get f start) (\<lambda>(prev, _).
     let headers = linked_run 0 prev (filter (\<lambda>(h, _). start \<le> h) f)
     in if headers = [] then None else Some \<lparr>rh_prev = prev, rh_headers = headers\<rparr>))"

subsection \<open>A producer's bonds\<close>

record CoBond =
  cb_bond_id :: h256
  cb_registration :: "BondRegistration option"
  cb_midstate :: "MidstateHeaders option"

record 'sc MinerBond =
  mb_secret :: 'sc
  mb_bond_id :: h256
  mb_registration :: "BondRegistration option"
  mb_midstate :: "MidstateHeaders option"
  mb_co_bonds :: "CoBond list"

definition MinerBond_mining_key :: "('pt, 'sc) curve \<Rightarrow> 'sc MinerBond \<Rightarrow> h256" where
  "MinerBond_mining_key C b = compress C (mul_base C (mb_secret b))"

definition MinerBond_signer_for ::
    "('pt, 'sc) curve \<Rightarrow> 'sc MinerBond \<Rightarrow> BondSet \<Rightarrow> (h256, nat) omap \<Rightarrow> nat \<Rightarrow> h256 option" where
  "MinerBond_signer_for C b bonds counts block_timestamp =
     signer_for (MinerBond_mining_key C b) (mb_bond_id b) (map cb_bond_id (mb_co_bonds b)) bonds counts block_timestamp"

definition MinerBond_sign ::
    "('pt :: ab_group_add, 'sc :: comm_ring_1) curve \<Rightarrow> 'sc MinerBond \<Rightarrow> h256 \<Rightarrow> h256 \<Rightarrow> SchnorrSig" where
  "MinerBond_sign C b message aux = schnorr_sign C (mb_secret b) message aux"

text \<open>The producer's own bond and then its co-bonds, with what each carries.\<close>

definition carried_headers :: "'sc MinerBond \<Rightarrow> (h256 \<times> MidstateHeaders option) list" where
  "carried_headers b = (mb_bond_id b, mb_midstate b) # map (\<lambda>c. (cb_bond_id c, cb_midstate c)) (mb_co_bonds b)"

definition carried_registrations :: "'sc MinerBond \<Rightarrow> (h256 \<times> BondRegistration option) list" where
  "carried_registrations b =
     (mb_bond_id b, mb_registration b) # map (\<lambda>c. (cb_bond_id c, cb_registration c)) (mb_co_bonds b)"

definition unregistered :: "BondSet \<Rightarrow> (h256 \<times> 'a option) list \<Rightarrow> 'a list" where
  "unregistered bonds xs = List.map_filter snd (filter (\<lambda>(bid, _). BondSet_get bonds bid = None) xs)"

subsection \<open>Picking transactions\<close>

text \<open>Rust's stable \<^verbatim>\<open>sort_by\<close>.\<close>

fun insert_by :: "('a \<Rightarrow> 'a \<Rightarrow> bool) \<Rightarrow> 'a \<Rightarrow> 'a list \<Rightarrow> 'a list" where
  "insert_by le x [] = [x]"
| "insert_by le x (y # ys) = (if le x y then x # y # ys else y # insert_by le x ys)"

definition stable_sort :: "('a \<Rightarrow> 'a \<Rightarrow> bool) \<Rightarrow> 'a list \<Rightarrow> 'a list" where
  "stable_sort le xs = foldr (insert_by le) xs []"

definition fee_or_zero :: "Transaction \<Rightarrow> nat" where
  "fee_or_zero tx = (case Transaction_fee tx of Inr f \<Rightarrow> f | Inl _ \<Rightarrow> 0)"

definition pays_at_least :: "Transaction \<Rightarrow> Transaction \<Rightarrow> bool" where
  "pays_at_least a b \<longleftrightarrow>
     fee_or_zero b * max (Transaction_weight a) 1 \<le> fee_or_zero a * max (Transaction_weight b) 1"

record selection =
  chosen :: "Transaction list"
  used :: nat
  sel_spent :: "h256 set"
  sel_created :: "h256 set"
  sel_kernels :: "h256 set"

definition tx_conflicts :: "hasher \<Rightarrow> selection \<Rightarrow> Transaction \<Rightarrow> bool" where
  "tx_conflicts H s tx \<longleftrightarrow>
     list_ex (\<lambda>c. c \<in> sel_spent s \<or> c \<in> sel_created s) (input_commitments tx)
     \<or> list_ex (\<lambda>c. c \<in> sel_created s \<or> c \<in> sel_spent s) (output_commitments tx)
     \<or> list_ex (\<lambda>k. k \<in> sel_kernels s) (kernel_ids H tx)"

definition select_step :: "hasher \<Rightarrow> nat \<Rightarrow> nat \<Rightarrow> Transaction \<Rightarrow> selection \<Rightarrow> selection" where
  "select_step H height weight_budget tx s =
     (if height < lock_height tx \<or> weight_budget < add64 (used s) (Transaction_weight tx) then s
      else if tx_conflicts H s tx then s
      else s\<lparr>chosen := chosen s @ [tx], used := add64 (used s) (Transaction_weight tx),
             sel_spent := sel_spent s \<union> set (input_commitments tx),
             sel_created := sel_created s \<union> set (output_commitments tx),
             sel_kernels := sel_kernels s \<union> set (kernel_ids H tx)\<rparr>)"

definition no_selection :: selection where
  "no_selection = \<lparr>chosen = [], used = 0, sel_spent = {}, sel_created = {}, sel_kernels = {}\<rparr>"

definition select_transactions :: "hasher \<Rightarrow> Transaction list \<Rightarrow> nat \<Rightarrow> nat \<Rightarrow> Transaction list" where
  "select_transactions H candidates height weight_budget =
     chosen (fold (select_step H height weight_budget) (stable_sort pays_at_least candidates) no_selection)"

subsection \<open>Splitting the reward\<close>

text \<open>The indices by falling remainder, ties in input order.\<close>

definition split_order :: "nat list \<Rightarrow> nat list" where
  "split_order remainders = sort_key (\<lambda>i. - int (remainders ! i)) [0..<length remainders]"

definition bump :: "nat \<Rightarrow> ('k \<times> nat) list \<Rightarrow> ('k \<times> nat) list" where
  "bump i out = out[i := (fst (out ! i), snd (out ! i) + 1)]"

definition split_by_weight :: "nat \<Rightarrow> ('k \<times> nat) list \<Rightarrow> ('k \<times> nat) list option" where
  "split_by_weight amount weights =
     (let wsum = sum_list (map snd weights) in
      if wsum = 0 then None
      else
        let out = map (\<lambda>(k, w). (k, amount * w div wsum)) weights;
            remainders = map (\<lambda>(_, w). amount * w mod wsum) weights;
            paid = sum_list (map snd out);
            out = fold bump (take (amount - paid) (split_order remainders)) out
        in Some (filter (\<lambda>(_, v). 0 < v) out))"

subsection \<open>The split pays out everything\<close>

lemma bump_props:
  "length (bump i out) = length out"
  "i < length out \<Longrightarrow> sum_list (map snd (bump i out)) = sum_list (map snd out) + 1"
  "i < length out \<Longrightarrow> map fst (bump i out) = map fst out"
proof -
  show "length (bump i out) = length out" by (simp add: bump_def)
  show "sum_list (map snd (bump i out)) = sum_list (map snd out) + 1" if "i < length out"
    using that member_le_sum_list [of "snd (out ! i)" "map snd out"]
    by (simp add: bump_def map_update sum_list_update)
  show "map fst (bump i out) = map fst out" if "i < length out"
    using that by (simp add: bump_def map_update) (metis list_update_id nth_map)
qed

lemma fold_bump:
  assumes "\<forall>i \<in> set is'. i < length out"
  shows "length (fold bump is' out) = length out \<and> map fst (fold bump is' out) = map fst out
     \<and> sum_list (map snd (fold bump is' out)) = sum_list (map snd out) + length is'"
  using assms by (induction is' arbitrary: out) (simp_all add: bump_props)

lemma sum_positive: "sum_list (map snd (filter (\<lambda>(_, v). 0 < v) xs)) = sum_list (map snd (xs :: ('k \<times> nat) list))"
  by (induction xs) auto

lemma floors_and_remainders:
  "wsum * sum_list (map (\<lambda>(_, w). amount * w div wsum) weights) + sum_list (map (\<lambda>(_, w). amount * w mod wsum) weights)
     = amount * sum_list (map (snd :: 'k \<times> nat \<Rightarrow> nat) weights)"
  by (induction weights) (auto simp: algebra_simps)

lemma sum_list_below_length:
  "xs \<noteq> [] \<Longrightarrow> \<forall>x \<in> set xs. x < (c :: nat) \<Longrightarrow> sum_list xs < length xs * c"
proof (induction xs)
  case (Cons x xs)
  then show ?case by (cases xs) (auto simp: add_less_mono)
qed simp

lemma split_leftover:
  fixes weights :: "('k \<times> nat) list" and amount :: nat
  defines "wsum \<equiv> sum_list (map snd weights)"
  defines "paid \<equiv> sum_list (map (\<lambda>(_, w). amount * w div wsum) weights)"
  assumes "wsum \<noteq> 0"
  shows "paid \<le> amount" and "amount - paid < length weights"
proof -
  let ?rem = "sum_list (map (\<lambda>(_, w). amount * w mod wsum) weights)"
  have eq: "wsum * paid + ?rem = amount * wsum"
    using floors_and_remainders [of wsum amount weights] by (simp add: wsum_def paid_def)
  then have "wsum * paid \<le> wsum * amount" by (metis le_add1 mult.commute)
  then show le: "paid \<le> amount" using assms(3) by simp
  have "weights \<noteq> []" using assms(3) by (auto simp: wsum_def)
  then have "?rem < length weights * wsum"
    using sum_list_below_length [of "map (\<lambda>(_, w). amount * w mod wsum) weights" wsum] assms(3) by fastforce
  moreover have "?rem = wsum * (amount - paid)" using eq by (simp add: diff_mult_distrib2 mult.commute)
  ultimately show "amount - paid < length weights" by (simp add: mult.commute)
qed

text \<open>A split pays out the whole amount, to the payees in their order, and nothing to nobody.\<close>

lemma split_total:
  assumes "split_by_weight amount weights = Some out"
  shows "sum_list (map snd out) = amount" and "\<forall>(k, v) \<in> set out. 0 < v \<and> k \<in> fst ` set weights"
proof -
  let ?wsum = "sum_list (map snd weights)"
  let ?floors = "map (\<lambda>(k, w). (k, amount * w div ?wsum)) weights"
  let ?rems = "map (\<lambda>(_, w). amount * w mod ?wsum) weights"
  let ?paid = "sum_list (map snd ?floors)"
  let ?full = "fold bump (take (amount - ?paid) (split_order ?rems)) ?floors"
  have nz: "?wsum \<noteq> 0" and out: "out = filter (\<lambda>(_, v). 0 < v) ?full"
    using assms by (auto simp: split_by_weight_def Let_def split: if_splits)
  have paid: "?paid = sum_list (map (\<lambda>(_, w). amount * w div ?wsum) weights)"
    by (simp add: comp_def case_prod_unfold)
  have order: "length (split_order ?rems) = length weights" "set (split_order ?rems) = {..<length weights}"
    by (auto simp: split_order_def)
  have "\<forall>i \<in> set (take (amount - ?paid) (split_order ?rems)). i < length ?floors"
    using order(2) by (auto dest: in_set_takeD)
  note full = fold_bump [OF this]
  note left = split_leftover [OF nz, of amount]
  have "sum_list (map snd ?full) = ?paid + (amount - ?paid)"
    using full left(2) order(1) unfolding paid by simp
  also have "\<dots> = amount" using left(1) unfolding paid by simp
  finally show "sum_list (map snd out) = amount" by (simp only: out sum_positive)
  have "map fst ?full = map fst weights" using full by (simp add: comp_def case_prod_unfold)
  then have "fst ` set ?full = fst ` set weights" by (metis list.set_map)
  then show "\<forall>(k, v) \<in> set out. 0 < v \<and> k \<in> fst ` set weights" by (force simp: out)
qed


subsection \<open>What is picked\<close>

definition apart :: "hasher \<Rightarrow> Transaction \<Rightarrow> Transaction \<Rightarrow> bool" where
  "apart H a b \<longleftrightarrow>
     (set (input_commitments a) \<union> set (output_commitments a)) \<inter> (set (input_commitments b) \<union> set (output_commitments b)) = {}
     \<and> set (kernel_ids H a) \<inter> set (kernel_ids H b) = {}"

definition total_weight :: "Transaction list \<Rightarrow> nat" where
  "total_weight txs = sum_list (map Transaction_weight txs)"

definition refused :: "hasher \<Rightarrow> nat \<Rightarrow> nat \<Rightarrow> Transaction list \<Rightarrow> Transaction \<Rightarrow> bool" where
  "refused H height weight_budget sel tx \<longleftrightarrow>
     height < lock_height tx \<or> weight_budget < total_weight sel + Transaction_weight tx \<or> (\<exists>c \<in> set sel. \<not> apart H c tx)"

definition picked :: "hasher \<Rightarrow> nat \<Rightarrow> nat \<Rightarrow> Transaction list \<Rightarrow> selection \<Rightarrow> bool" where
  "picked H height weight_budget seen s \<longleftrightarrow>
     used s = total_weight (chosen s) \<and> used s \<le> weight_budget \<and> subseq (chosen s) seen
     \<and> sel_spent s = (\<Union>tx \<in> set (chosen s). set (input_commitments tx))
     \<and> sel_created s = (\<Union>tx \<in> set (chosen s). set (output_commitments tx))
     \<and> sel_kernels s = (\<Union>tx \<in> set (chosen s). set (kernel_ids H tx))
     \<and> (\<forall>tx \<in> set (chosen s). lock_height tx \<le> height) \<and> sorted_wrt (apart H) (chosen s)
     \<and> (\<forall>tx \<in> set seen. tx \<in> set (chosen s) \<or> refused H height weight_budget (chosen s) tx)"

lemma insert_by_mset: "mset (insert_by le x xs) = add_mset x (mset xs)"
  by (induction xs) auto

lemma stable_sort_mset: "mset (stable_sort le xs) = mset xs"
  by (induction xs) (simp_all add: stable_sort_def insert_by_mset)

lemma stable_sort_set: "set (stable_sort le xs) = set xs"
  by (metis stable_sort_mset set_mset_mset)

lemma stable_sort_sorted:
  assumes "\<And>x y. le x y \<or> le y x" and "\<And>x y z. le x y \<Longrightarrow> le y z \<Longrightarrow> le x z"
  shows "sorted_wrt le (stable_sort le xs)"
proof -
  have set_ins: "set (insert_by le x ys) = insert x (set ys)" for x ys by (induction ys) auto
  have "sorted_wrt le ys \<Longrightarrow> sorted_wrt le (insert_by le x ys)" for x ys
    by (induction ys) (auto simp: set_ins dest: assms(2) intro: assms(2) [of x] assms(1) [THEN disjE])
  then show ?thesis by (induction xs) (simp_all add: stable_sort_def)
qed

lemma pays_trans: "pays_at_least x y \<Longrightarrow> pays_at_least y z \<Longrightarrow> pays_at_least x z"
proof -
  define wx wy wz where "wx = max (Transaction_weight x) 1" and "wy = max (Transaction_weight y) 1" and "wz = max (Transaction_weight z) 1"
  assume "pays_at_least x y" and "pays_at_least y z"
  then have "fee_or_zero y * wx \<le> fee_or_zero x * wy" "fee_or_zero z * wy \<le> fee_or_zero y * wz"
    by (simp_all add: pays_at_least_def wx_def wy_def wz_def)
  then have step: "fee_or_zero y * wx * wz \<le> fee_or_zero x * wy * wz" "fee_or_zero z * wy * wx \<le> fee_or_zero y * wz * wx"
    using mult_le_mono1 by blast+
  have "(fee_or_zero z * wx) * wy = fee_or_zero z * wy * wx" by (simp only: ac_simps)
  also have "\<dots> \<le> fee_or_zero y * wz * wx" by (rule step(2))
  also have "\<dots> = fee_or_zero y * wx * wz" by (simp only: ac_simps)
  also have "\<dots> \<le> fee_or_zero x * wy * wz" by (rule step(1))
  also have "\<dots> = (fee_or_zero x * wz) * wy" by (simp only: ac_simps)
  finally have "fee_or_zero z * wx \<le> fee_or_zero x * wz" by (rule mult_right_le_imp_le) (simp add: wy_def)
  then show "pays_at_least x z" by (simp add: pays_at_least_def wx_def wz_def)
qed

lemma subseq_mset: "subseq xs ys \<Longrightarrow> mset xs \<subseteq># mset ys"
  by (induction rule: list_emb.induct) (auto intro: subset_mset.order_trans)

lemma subseq_sorted_wrt: "subseq xs ys \<Longrightarrow> sorted_wrt P ys \<Longrightarrow> sorted_wrt P xs"
  by (induction rule: list_emb.induct) (auto dest: list_emb_set)

lemma tx_conflicts_iff:
  assumes "picked H height weight_budget seen s"
  shows "tx_conflicts H s tx \<longleftrightarrow> (\<exists>c \<in> set (chosen s). \<not> apart H c tx)"
proof -
  have sets: "sel_spent s = (\<Union>tx \<in> set (chosen s). set (input_commitments tx))"
      "sel_created s = (\<Union>tx \<in> set (chosen s). set (output_commitments tx))"
      "sel_kernels s = (\<Union>tx \<in> set (chosen s). set (kernel_ids H tx))"
    using assms by (simp_all add: picked_def)
  show ?thesis unfolding tx_conflicts_def list_ex_iff sets apart_def by blast
qed

lemma refused_mono: "refused H height weight_budget sel tx \<Longrightarrow> refused H height weight_budget (sel @ rest) tx"
  by (auto simp: refused_def total_weight_def)

lemma select_step_picked:
  assumes "picked H height weight_budget seen s" and "weight_budget + Transaction_weight tx \<le> U64_MAX"
  shows "picked H height weight_budget (seen @ [tx]) (select_step H height weight_budget tx s)"
proof -
  have "used s \<le> weight_budget" using assms(1) by (simp add: picked_def)
  then have add: "add64 (used s) (Transaction_weight tx) = used s + Transaction_weight tx"
    using assms(2) by (simp add: add64_def)
  have sum: "used s = total_weight (chosen s)" using assms(1) by (simp add: picked_def)
  show ?thesis
  proof (cases "refused H height weight_budget (chosen s) tx")
    case True
    then have "select_step H height weight_budget tx s = s"
      by (auto simp: select_step_def add [unfolded sum] sum refused_def tx_conflicts_iff [OF assms(1)])
    then show ?thesis using assms(1) True by (auto simp: picked_def intro: subseq_rev_drop_many)
  next
    case False
    then have fresh: "\<not> tx_conflicts H s tx" "\<not> height < lock_height tx" "used s + Transaction_weight tx \<le> weight_budget"
      by (auto simp: refused_def tx_conflicts_iff [OF assms(1)] sum)
    then have step: "select_step H height weight_budget tx s = s\<lparr>chosen := chosen s @ [tx], used := used s + Transaction_weight tx,
             sel_spent := sel_spent s \<union> set (input_commitments tx),
             sel_created := sel_created s \<union> set (output_commitments tx),
             sel_kernels := sel_kernels s \<union> set (kernel_ids H tx)\<rparr>"
      by (simp add: select_step_def add)
    show ?thesis
      unfolding step using assms(1) fresh refused_mono [of H height weight_budget "chosen s" _ "[tx]"]
      by (auto simp: picked_def total_weight_def sorted_wrt_append tx_conflicts_iff [OF assms(1)]
          intro: list_emb_append_mono)
  qed
qed

lemma select_fold_picked:
  assumes "picked H height weight_budget seen s" and "\<forall>tx \<in> set txs. weight_budget + Transaction_weight tx \<le> U64_MAX"
  shows "picked H height weight_budget (seen @ txs) (fold (select_step H height weight_budget) txs s)"
  using assms
proof (induction txs arbitrary: seen s)
  case (Cons tx txs)
  then show ?case using select_step_picked [OF Cons.prems(1), of tx] Cons.IH [of "seen @ [tx]"] by simp
qed simp

text \<open>The transactions of a template conflict with one another nowhere, fit the block, are all final at its
  height and stand dearest first; and the choice is greedy: whatever was left out is locked, does not fit
  beside them, or conflicts with one of them.\<close>

theorem selection_is_greedy:
  assumes "\<forall>tx \<in> set candidates. weight_budget + Transaction_weight tx \<le> U64_MAX"
  shows "let sel = select_transactions H candidates height weight_budget in
     sorted_wrt (apart H) sel \<and> total_weight sel \<le> weight_budget \<and> (\<forall>tx \<in> set sel. lock_height tx \<le> height)
     \<and> mset sel \<subseteq># mset candidates \<and> sorted_wrt pays_at_least sel
     \<and> (\<forall>tx \<in> set candidates. tx \<in> set sel \<or> refused H height weight_budget sel tx)"
proof -
  define sel where "sel = select_transactions H candidates height weight_budget"
  let ?sorted = "stable_sort pays_at_least candidates"
  have "picked H height weight_budget [] no_selection"
    by (simp add: picked_def no_selection_def total_weight_def)
  from select_fold_picked [OF this, of ?sorted]
  have p: "picked H height weight_budget ?sorted (fold (select_step H height weight_budget) ?sorted no_selection)"
    using assms(1) by (simp add: stable_sort_set)
  then have sub: "subseq sel ?sorted" by (simp add: picked_def sel_def select_transactions_def)
  have "pays_at_least a b \<or> pays_at_least b a" for a b by (auto simp: pays_at_least_def)
  then have "sorted_wrt pays_at_least ?sorted" using stable_sort_sorted pays_trans by blast
  then have "sorted_wrt pays_at_least sel" using sub by (metis subseq_sorted_wrt)
  moreover have "mset sel \<subseteq># mset candidates"
    using subseq_mset [OF sub] by (simp add: stable_sort_mset)
  ultimately show ?thesis
    using p by (auto simp: picked_def sel_def select_transactions_def stable_sort_set Let_def)
qed


theorem selection_is_greedy_witness:
  "total_weight (select_transactions (\<lambda>_. 4) [sample_tx (\<lambda>_. 4), sample_tx (\<lambda>_. 4)] 0 40) \<le> 40"
proof -
  have "\<forall>tx \<in> set [sample_tx (\<lambda>_. 4), sample_tx (\<lambda>_. 4)]. 40 + Transaction_weight tx \<le> U64_MAX"
    by (simp add: sample_tx_def Transaction_weight_def output_count_def INPUT_WEIGHT_def OUTPUT_WEIGHT_def KERNEL_WEIGHT_def)
  from selection_is_greedy [OF this, of "\<lambda>_. 4" 0] show ?thesis unfolding Let_def by blast
qed

subsection \<open>What a feed proposes\<close>

lemma linked_run_length: "n \<le> MAX_RELAY_HEADERS_PER_BLOCK \<Longrightarrow> n + length (linked_run n e es) \<le> MAX_RELAY_HEADERS_PER_BLOCK"
proof (induction n e es rule: linked_run.induct)
  case (2 n expect h lower link es)
  then show ?case by (cases "lower \<noteq> expect \<or> n = MAX_RELAY_HEADERS_PER_BLOCK") force+
qed simp

lemma om_filter_from:
  assumes "om_wf f" and "om_get f start = Some v"
  shows "\<exists>es. filter (\<lambda>(h, _). (start :: nat) \<le> h) f = (start, v) # es"
proof -
  obtain xs ys where f: "f = xs @ (start, v) # ys"
    using assms by (metis om.entries_get split_list)
  have sorted: "sorted_wrt (<) (map fst f)" using assms(1) by (simp add: om_wf_def)
  have "\<forall>p \<in> set xs. fst p < start" using sorted by (simp add: f sorted_wrt_append)
  then have "filter (\<lambda>(h, _). start \<le> h) xs = []" by (force simp: filter_empty_conv)
  then show ?thesis by (simp add: f)
qed

lemma find_Some_member: "List.find P xs = Some x \<Longrightarrow> P x \<and> x \<in> set xs"
  by (metis find_Some_iff nth_mem)

text \<open>A feed proposes a non-empty run within the limit of a block that builds on an entry of the relay: on its
  tip, or on an entry whose successor it does not repeat.\<close>

theorem feed_builds_on_relay:
  assumes "om_wf f" and "next_for f relay = Some run"
  shows "rh_headers run \<noteq> [] \<and> length (rh_headers run) \<le> MAX_RELAY_HEADERS_PER_BLOCK
     \<and> (rh_prev run = re_hash (Relay_tip relay)
        \<or> (\<exists>h lower ours. re_height (Relay_base relay) < h \<and> h \<le> re_height (Relay_tip relay)
             \<and> Relay_get relay (h - 1) = Some lower \<and> rh_prev run = re_hash lower
             \<and> Relay_get relay h = Some ours \<and> final_hash (hd (rh_headers run)) \<noteq> re_hash ours))"
proof -
  obtain start prev link where start: "feed_start f relay = Some start" and at: "om_get f start = Some (prev, link)"
    and run: "run = \<lparr>rh_prev = prev, rh_headers = linked_run 0 prev (filter (\<lambda>(h, _). start \<le> h) f)\<rparr>"
    and some: "rh_headers run \<noteq> []"
    using assms(2) by (auto simp: next_for_def bind_eq_Some_conv Let_def split: if_splits)
  obtain es where "filter (\<lambda>(h, _). start \<le> h) f = (start, (prev, link)) # es"
    using om_filter_from [OF assms(1) at] by blast
  then have hd: "hd (rh_headers run) = link" using some by (simp add: run split: if_splits)
  have "length (rh_headers run) \<le> MAX_RELAY_HEADERS_PER_BLOCK"
    using linked_run_length [of 0] by (simp add: run)
  moreover have "prev = re_hash (Relay_tip relay) \<or> (branches_at f relay start
       \<and> start \<in> {re_height (Relay_base relay) + 1..<re_height (Relay_tip relay) + 1})"
    using start at by (auto simp: feed_start_def Let_def split: option.splits if_splits dest!: find_Some_member)
  moreover have "\<exists>h lower ours. re_height (Relay_base relay) < h \<and> h \<le> re_height (Relay_tip relay)
      \<and> Relay_get relay (h - 1) = Some lower \<and> rh_prev run = re_hash lower
      \<and> Relay_get relay h = Some ours \<and> final_hash (hd (rh_headers run)) \<noteq> re_hash ours"
    if b: "branches_at f relay start" "start \<in> {re_height (Relay_base relay) + 1..<re_height (Relay_tip relay) + 1}"
  proof -
    obtain lower ours where "Relay_get relay (start - 1) = Some lower" "Relay_get relay start = Some ours"
        "prev = re_hash lower" "final_hash link \<noteq> re_hash ours"
      using b(1) at by (auto simp: branches_at_def split: option.splits)
    then show ?thesis using b(2) hd by (intro exI [of _ start] exI [of _ lower] exI [of _ ours]) (simp add: run)
  qed
  ultimately show ?thesis using some by (auto simp: run)
qed


text \<open>Dividing a smaller amount can pay more payees: the largest remainders are not monotone in the amount.
  (A template pays a tapered coinbase after it has chosen how many headers fit beside the full one.)\<close>

lemma smaller_split_pays_more:
  "split_by_weight 4 [(0 :: nat, 3), (1, 3), (2, 1)] = Some [(0, 2), (1, 2)]"
  "split_by_weight 3 [(0 :: nat, 3), (1, 3), (2, 1)] = Some [(0, 1), (1, 1), (2, 1)]"
  by code_simp+

end
