(* ===== verification/Template.thy ===== *)
theory Template
  imports Relay_Feed Builder Chain_Properties
begin

text \<open>Block templates (\<^verbatim>\<open>src/src/core/template.rs\<close>): aggregate the chosen transactions, relay midstate headers,
  register and sign under the producer's bonds, pay the coinbase, commit to the state the block leaves
  and hand out a header hash to grind. What the producer draws at random is in the record \<open>maker\<close>:
  the draws of the first and, where the subsidy was tapered, of the second coinbase, and the randomness
  of the signatures.\<close>

subsection \<open>Data\<close>

record 'sc maker =
  mk_aead :: aead
  mk_prover :: "'sc prover"
  mk_draws :: "nat \<Rightarrow> 'sc draws"
  mk_aux :: "nat \<Rightarrow> h256"
  mk_sign_aux :: h256

record BlockTemplate =
  tp_batch :: Batch
  tp_mining_hash :: h256
  tp_height :: nat
  tp_fees :: nat
  tp_subsidy :: nat

datatype not_ready =
    CannotRegister registration_error | ProofGoneStale | NotVerifiedYet registration_error | NoRegistration

datatype tpl_error =
    GenesisNotMined | PayoutCount | TplBody tx_error | TplOverflow | NoWeights | TplCoinbase build_error
  | ChosenRunRefused | TplRegistration registration_error | NotReady not_ready | BondRetired | BondsCannotSign
  | BondRequired | TplBlock block_error | NoMiningBond

type_synonym receipts = "(StealthAddress \<times> PayoutReceipt) list"

subsection \<open>Sealing\<close>

definition seal :: "BlockTemplate \<Rightarrow> Extension \<Rightarrow> Batch" where
  "seal t ext = (tp_batch t)\<lparr>bt_extension := ext\<rparr>"

definition seal_aux :: "hasher \<Rightarrow> BlockTemplate \<Rightarrow> AuxPow \<Rightarrow> Batch" where
  "seal_aux H t aux =
     (tp_batch t)\<lparr>bt_extension := \<lparr>ext_nonce = 0, ext_final_hash = AuxPow_block_id H aux (tp_mining_hash t)\<rparr>,
                  bt_aux_pow := Some aux\<rparr>"

definition create_extension_at :: "hasher \<Rightarrow> walker \<Rightarrow> nat \<Rightarrow> h256 \<Rightarrow> nat \<Rightarrow> Extension" where
  "create_extension_at H walk height midstate nonce = create_extension_with H walk (pow_algo_at height) midstate nonce"

text \<open>The grind may never end: then it is \<open>None\<close>.\<close>

partial_function (option) mine_from :: "hasher \<Rightarrow> walker \<Rightarrow> BlockTemplate \<Rightarrow> nat \<Rightarrow> Batch option" where
  "mine_from H walk t nonce =
     (let ext = create_extension_at H walk (tp_height t) (tp_mining_hash t) nonce
      in if ext_final_hash ext < bt_target (tp_batch t) then Some (seal t ext)
         else mine_from H walk t (add64 nonce 1))"

definition mine_blocking :: "hasher \<Rightarrow> walker \<Rightarrow> BlockTemplate \<Rightarrow> Batch option" where
  "mine_blocking H walk t = mine_from H walk t 0"

definition mining_hash_of :: "('pt, 'sc) env \<Rightarrow> Batch \<Rightarrow> nat \<Rightarrow> h256" where
  "mining_hash_of E b height = compute_header_hash (env_hash E) ((Batch_header E b)\<lparr>hd_height := height\<rparr>)"

definition rebind ::
    "('pt :: ab_group_add, 'sc :: comm_ring_1) env \<Rightarrow> BlockTemplate \<Rightarrow> h256 \<Rightarrow> 'sc MinerBond option \<Rightarrow> h256
      \<Rightarrow> tpl_error + BlockTemplate" where
  "rebind E t extra bond aux =
     (case bt_coinbase (tp_batch t) of
        None \<Rightarrow> Inr t
      | Some cb \<Rightarrow>
          let batch = (tp_batch t)\<lparr>bt_coinbase := Some (cb\<lparr>cb_extra := extra\<rparr>)\<rparr> in
          and_then
            (case bt_miner (tp_batch t) of
               None \<Rightarrow> Inr batch
             | Some auth \<Rightarrow>
                 and_then (ok_or NoMiningBond bond) (\<lambda>b.
                 Inr (batch\<lparr>bt_miner := Some \<lparr>auth_bond_id = auth_bond_id auth,
                        auth_signature = MinerBond_sign (env_curve E) b
                          (authorization_message E (prev_midstate batch) batch) aux\<rparr>\<rparr>)))
            (\<lambda>batch. Inr (t\<lparr>tp_batch := batch, tp_mining_hash := mining_hash_of E batch (tp_height t)\<rparr>)))"

subsection \<open>What to relay\<close>

definition REGISTRATION_ROOM :: nat where "REGISTRATION_ROOM = 256"

definition registration_not_ready :: "hasher \<Rightarrow> BondRegistration \<Rightarrow> Relay \<Rightarrow> registration_error \<Rightarrow> not_ready" where
  "registration_not_ready H reg relay e =
     (if proof_is_stale H reg relay then ProofGoneStale else NotVerifiedYet e)"

definition trimmed :: "nat \<Rightarrow> nat \<Rightarrow> RelayHeaders \<Rightarrow> RelayHeaders option" where
  "trimmed room latest run =
     (let fits = length (takeWhile (\<lambda>h. hl_timestamp h \<le> latest) (take room (rh_headers run)));
          run = run\<lparr>rh_headers := take fits (rh_headers run)\<rparr>
      in if rh_headers run \<noteq> [] then Some run else None)"

fun first_accepted :: "(RelayHeaders \<Rightarrow> bool) \<Rightarrow> RelayHeaders option list \<Rightarrow> RelayHeaders option" where
  "first_accepted accepts [] = None"
| "first_accepted accepts (None # rs) = first_accepted accepts rs"
| "first_accepted accepts (Some r # rs) = (if accepts r then Some r else first_accepted accepts rs)"

definition choose_relay ::
    "hasher \<Rightarrow> State \<Rightarrow> feed option \<Rightarrow> 'sc MinerBond option \<Rightarrow> nat \<Rightarrow> nat \<Rightarrow> RelayHeaders option" where
  "choose_relay H state feed bond room timestamp =
     (let accepts = (\<lambda>run. is_ok (Relay_extend H (st_relay state) run timestamp));
          latest = sat_add64 timestamp RELAY_MAX_FUTURE;
          from_feed = Option.bind (Option.bind feed (\<lambda>f. next_for f (st_relay state))) (trimmed room latest);
          carried = (case bond of None \<Rightarrow> [] | Some b \<Rightarrow> unregistered (st_bonds state) (carried_headers b));
          own = map (\<lambda>hs. Option.bind (next_for (feed_add hs True []) (st_relay state)) (trimmed room latest)) carried
      in first_accepted accepts (from_feed # own))"

definition transaction_budget :: "State \<Rightarrow> nat \<Rightarrow> 'sc MinerBond option \<Rightarrow> feed option \<Rightarrow> nat" where
  "transaction_budget state payouts bond feed =
     (let registration = (case bond of None \<Rightarrow> 0 | Some b \<Rightarrow>
            (case unregistered (st_bonds state) (carried_registrations b) of r # _ \<Rightarrow> registration_weight r | [] \<Rightarrow> 0));
          relay = (case Option.bind feed (\<lambda>f. next_for f (st_relay state)) of Some r \<Rightarrow> RelayHeaders_weight r | None \<Rightarrow> 0)
      in MAX_BLOCK_WEIGHT - sat_mul64 payouts OUTPUT_WEIGHT - KERNEL_WEIGHT - registration - relay)"

subsection \<open>Building\<close>

definition pay_coinbase ::
    "('pt :: ab_group_add, 'sc :: comm_ring_1) env \<Rightarrow> 'sc maker \<Rightarrow> nat \<Rightarrow> nat \<Rightarrow> (StealthAddress \<times> nat) list \<Rightarrow> h256
      \<Rightarrow> tpl_error + Coinbase option \<times> receipts" where
  "pay_coinbase E L turn amount payouts extra =
     (if amount = 0 then Inr (None, [])
      else
        and_then (ok_or NoWeights (split_by_weight amount payouts)) (\<lambda>split.
        and_then (map_err TplCoinbase
          (build_coinbase_with (env_hash E) (env_curve E) (mk_aead L) (mk_prover L) (mk_draws L turn) (mk_aux L turn) split extra))
          (\<lambda>(cb, receipts). Inr (Some cb, zip (map fst split) receipts))))"

text \<open>The relay and the bonds as the block's headers leave them. The source expects the relay to accept the
  run; that it does is \<open>chosen_run_accepted\<close>.\<close>

definition relay_run :: "hasher \<Rightarrow> State \<Rightarrow> RelayHeaders option \<Rightarrow> nat \<Rightarrow> tpl_error + State" where
  "relay_run H state relay timestamp =
     (case relay of
        None \<Rightarrow> Inr state
      | Some r \<Rightarrow>
          and_then (map_err (\<lambda>_. ChosenRunRefused) (Relay_extend H (st_relay state) r timestamp)) (\<lambda>(relay, change).
          Inr (state\<lparr>st_relay := relay,
                 st_bonds := (case fork_from change of Some fork \<Rightarrow> fst (revoke_above H fork (st_bonds state))
                              | None \<Rightarrow> st_bonds state)\<rparr>)))"

definition registrable :: "hasher \<Rightarrow> State \<Rightarrow> nat \<Rightarrow> BondRegistration \<Rightarrow> bool" where
  "registrable H after timestamp reg \<longleftrightarrow>
     is_ok (precheck_registrations H (st_bonds after) [reg] (st_target after) timestamp)
     \<and> is_ok (BondRegistration_verify H reg (st_relay after) (st_target after))"

text \<open>The producer's own registration, why it is not ready if it is not, and whether its bond can never
  sign again.\<close>

definition own_registration ::
    "hasher \<Rightarrow> State \<Rightarrow> nat \<Rightarrow> 'sc MinerBond \<Rightarrow> BondRegistration list \<times> not_ready option \<times> bool" where
  "own_registration H after timestamp b =
     (if BondSet_get (st_bonds after) (mb_bond_id b) \<noteq> None then ([], None, False)
      else
        case mb_registration b of
          None \<Rightarrow> ([], Some NoRegistration, False)
        | Some reg \<Rightarrow>
            if \<not> registration_eligible_at reg timestamp then ([], None, True)
            else
              case precheck_registrations H (st_bonds after) [reg] (st_target after) timestamp of
                Inl e \<Rightarrow> ([], Some (CannotRegister e), False)
              | Inr _ \<Rightarrow>
                  (case BondRegistration_verify H reg (st_relay after) (st_target after) of
                     Inl e \<Rightarrow> ([], Some (registration_not_ready H reg (st_relay after) e), False)
                   | Inr _ \<Rightarrow> ([reg], None, False)))"

definition co_registration :: "hasher \<Rightarrow> State \<Rightarrow> nat \<Rightarrow> 'sc MinerBond \<Rightarrow> BondRegistration list" where
  "co_registration H after timestamp b =
     (case List.find (registrable H after timestamp)
         (unregistered (st_bonds after) (map (\<lambda>c. (cb_bond_id c, cb_registration c)) (mb_co_bonds b))) of
        None \<Rightarrow> [] | Some r \<Rightarrow> [r])"

definition ready_registrations ::
    "hasher \<Rightarrow> State \<Rightarrow> nat \<Rightarrow> 'sc MinerBond option \<Rightarrow> BondRegistration list \<times> not_ready option \<times> bool" where
  "ready_registrations H after timestamp bond =
     (case bond of
        None \<Rightarrow> ([], None, False)
      | Some b \<Rightarrow>
          (case own_registration H after timestamp b of (regs, why, retired) \<Rightarrow>
             if regs = [] \<and> why = None then (co_registration H after timestamp b, why, retired)
             else (regs, why, retired)))"

definition unsigned_error :: "'sc MinerBond option \<Rightarrow> not_ready option \<Rightarrow> bool \<Rightarrow> tpl_error" where
  "unsigned_error bond why retired =
     (case why of
        Some w \<Rightarrow> NotReady w
      | None \<Rightarrow> (case bond of Some _ \<Rightarrow> if retired then BondRetired else BondsCannotSign | None \<Rightarrow> BondRequired))"

definition apply_registrations :: "hasher \<Rightarrow> (h256 \<times> BondEntry) list \<Rightarrow> State \<Rightarrow> block_error + State" where
  "apply_registrations H registered next =
     fold_res (\<lambda>(bid, e) s.
        if BondSet_get (st_bonds s) bid \<noteq> None then Inl (BondRegisteredTwice bid)
        else Inr (s\<lparr>st_bonds := fst (BondSet_insert H bid e (st_bonds s))\<rparr>)) registered next"

definition sign_batch ::
    "('pt :: ab_group_add, 'sc :: comm_ring_1) env \<Rightarrow> 'sc maker \<Rightarrow> State \<Rightarrow> BondSet \<Rightarrow> 'sc MinerBond option \<Rightarrow> h256 option
      \<Rightarrow> Batch \<Rightarrow> tpl_error + Batch" where
  "sign_batch E L state bonds bond signer batch =
     (case (bond, signer) of
        (Some b, Some bid) \<Rightarrow>
          let signed = batch\<lparr>bt_miner := Some \<lparr>auth_bond_id = bid,
                auth_signature = MinerBond_sign (env_curve E) b
                  (authorization_message E (mw_midstate state) batch) (mk_sign_aux L)\<rparr>\<rparr> in
          and_then (map_err (\<lambda>e. TplBlock (BadAuthorisation e))
            (check_miner_authorization E bonds (mw_midstate state) signed)) (\<lambda>_. Inr signed)
      | _ \<Rightarrow> Inr batch)"

text \<open>From the chain weight on: the pruned state, the state the headers leave, what the block carries so far.\<close>

definition finish_template ::
    "('pt :: ab_group_add, 'sc :: comm_ring_1) env \<Rightarrow> 'sc maker \<Rightarrow> State \<Rightarrow> State \<Rightarrow> Transaction \<Rightarrow> nat
      \<Rightarrow> Coinbase option \<times> receipts \<Rightarrow> RelayHeaders option \<Rightarrow> BondRegistration list \<Rightarrow> (h256 \<times> BondEntry) list
      \<Rightarrow> BondSet \<Rightarrow> h256 option \<Rightarrow> (StealthAddress \<times> nat) list \<Rightarrow> h256 \<Rightarrow> nat \<Rightarrow> 'sc MinerBond option
      \<Rightarrow> tpl_error + BlockTemplate \<times> receipts" where
  "finish_template E L state after body fees paid relay registrations registered bonds_after signer payouts extra timestamp bond =
     (let H = env_hash E; height = st_height state; work = calculate_work (st_target state);
          (creditable, floor) = cap_work (work_floor state) height work;
          (recent, counts, credited) = credit_in_window (recent_signers state) (st_counts state) bonds_after height
             signer creditable timestamp;
          subsidy = subsidy_for signer counts bonds_after height timestamp in
      and_then
        (if subsidy = block_reward height then Inr paid
         else
           and_then (ok_or TplOverflow (chk_add64 subsidy fees)) (\<lambda>amount.
           pay_coinbase E L 1 amount payouts extra)) (\<lambda>(coinbase, receipts).
      and_then (map_err TplBlock (apply_body E after body coinbase subsidy)) (\<lambda>next.
      and_then (map_err TplBlock (apply_registrations H registered next)) (\<lambda>next.
      let batch = \<lparr>prev_midstate = mw_midstate state, prev_header_hash = header_hash state, bt_body = body,
            bt_coinbase = coinbase, bt_extension = \<lparr>ext_nonce = 0, ext_final_hash = 0\<rparr>, bt_timestamp = timestamp,
            bt_target = st_target state, bt_state_root = state_root H next, bt_aux_pow = None,
            bt_registrations = registrations, bt_miner = None, bt_relay = relay,
            bt_chain_weight = sat_add128 (State_weight state) credited\<rparr> in
      and_then (map_err TplBlock
        (validate_block_contents E batch height True subsidy (relay_start state batch))) (\<lambda>_.
      and_then (sign_batch E L state (st_bonds next) bond signer batch) (\<lambda>batch.
      Inr (\<lparr>tp_batch = batch, tp_mining_hash = mining_hash_of E batch height, tp_height = height, tp_fees = fees,
            tp_subsidy = subsidy\<rparr>, receipts)))))))"

definition build_template_relayed ::
    "('pt :: ab_group_add, 'sc :: comm_ring_1) env \<Rightarrow> 'sc maker \<Rightarrow> nat \<Rightarrow> State \<Rightarrow> nat list \<Rightarrow> Transaction list
      \<Rightarrow> (StealthAddress \<times> nat) list \<Rightarrow> h256 \<Rightarrow> nat option \<Rightarrow> 'sc MinerBond option \<Rightarrow> feed option
      \<Rightarrow> tpl_error + BlockTemplate \<times> receipts" where
  "build_template_relayed E L now state previous_timestamps txs payouts extra timestamp bond feed =
     (let H = env_hash E; C = env_curve E; height = st_height state in
      if height = 0 then Inl GenesisNotMined
      else if payouts = [] \<or> MAX_GROUP_OUTPUTS < length payouts then Inl PayoutCount
      else
        let timestamp = (case timestamp of Some t \<Rightarrow> t | None \<Rightarrow> max now (min_next_timestamp previous_timestamps));
            state = state\<lparr>st_bonds := fst (prune_expired H (min_next_timestamp previous_timestamps) (st_bonds state))\<rparr> in
        and_then (map_err TplBody (aggregate H C txs)) (\<lambda>body.
        and_then (map_err TplBody (Transaction_fee body)) (\<lambda>fees.
        and_then (ok_or TplOverflow (chk_add64 (block_reward height) fees)) (\<lambda>amount.
        and_then (pay_coinbase E L 0 amount payouts extra) (\<lambda>paid.
        let used = Transaction_weight body + (case fst paid of Some cb \<Rightarrow> Coinbase_weight cb | None \<Rightarrow> 0) + REGISTRATION_ROOM;
            room = (MAX_BLOCK_WEIGHT - used) div RELAY_WEIGHT_PER_HEADER;
            relay = choose_relay H state feed bond room timestamp in
        and_then (relay_run H state relay timestamp) (\<lambda>after.
        case ready_registrations H after timestamp bond of (registrations, why, retired) \<Rightarrow>
        and_then (map_err TplRegistration (map_res (\<lambda>r.
            and_then (BondRegistration_verify H r (st_relay after) (st_target state)) (\<lambda>e. Inr (registration_bond_id H r, e)))
          registrations)) (\<lambda>registered.
        let bonds_after = fold (\<lambda>(bid, e) bs. fst (BondSet_insert H bid e bs)) registered (st_bonds after);
            signer = Option.bind bond (\<lambda>b. MinerBond_signer_for C b bonds_after (st_counts state) timestamp) in
        if signer = None \<and> (bond \<noteq> None \<or> BONDED_MINING_FROM \<le> height) \<and> any_can_sign bonds_after timestamp
        then Inl (unsigned_error bond why retired)
        else finish_template E L state after body fees paid relay registrations registered bonds_after signer payouts extra
               timestamp bond)))))))"

definition build_template_bonded ::
    "('pt :: ab_group_add, 'sc :: comm_ring_1) env \<Rightarrow> 'sc maker \<Rightarrow> nat \<Rightarrow> State \<Rightarrow> nat list \<Rightarrow> Transaction list
      \<Rightarrow> (StealthAddress \<times> nat) list \<Rightarrow> h256 \<Rightarrow> nat option \<Rightarrow> 'sc MinerBond option \<Rightarrow> tpl_error + BlockTemplate \<times> receipts" where
  "build_template_bonded E L now state previous_timestamps txs payouts extra timestamp bond =
     build_template_relayed E L now state previous_timestamps txs payouts extra timestamp bond None"

definition build_template_with ::
    "('pt :: ab_group_add, 'sc :: comm_ring_1) env \<Rightarrow> 'sc maker \<Rightarrow> nat \<Rightarrow> State \<Rightarrow> nat list \<Rightarrow> Transaction list
      \<Rightarrow> (StealthAddress \<times> nat) list \<Rightarrow> h256 \<Rightarrow> nat option \<Rightarrow> tpl_error + BlockTemplate \<times> receipts" where
  "build_template_with E L now state previous_timestamps txs payouts extra timestamp =
     build_template_bonded E L now state previous_timestamps txs payouts extra timestamp None"

definition build_template ::
    "('pt :: ab_group_add, 'sc :: comm_ring_1) env \<Rightarrow> 'sc maker \<Rightarrow> nat \<Rightarrow> State \<Rightarrow> nat list \<Rightarrow> Transaction list
      \<Rightarrow> StealthAddress \<Rightarrow> nat option \<Rightarrow> tpl_error + BlockTemplate" where
  "build_template E L now state previous_timestamps txs payout timestamp =
     and_then (build_template_with E L now state previous_timestamps txs [(payout, 1)] 0 timestamp) (\<lambda>(t, _). Inr t)"

end
