(* ===== verification/Template_Accepted.thy ===== *)
theory Template_Accepted
  imports Template
begin

text \<open>Why a template's block is accepted: the producer's steps (\<^verbatim>\<open>src/src/core/template.rs\<close>) against block
  application's (\<^verbatim>\<open>src/src/core/state.rs\<close>), one group of lemmas for each step.\<close>

subsection \<open>What the extension does not touch\<close>

lemma header_hash_of:
  "compute_header_hash H h = compute_header_hash H (h\<lparr>hd_height := x, hd_extension := y, hd_aux_pow := z, hd_prev_midstate := w\<rparr>)"
  by (simp add: compute_header_hash_def header_bytes_def)

lemma fold_unsigned_signed [simp]:
  "fold_unsigned E p (b\<lparr>bt_miner := m\<rparr>) = fold_unsigned E p b"
  "fold_unsigned E p (b\<lparr>bt_extension := ext, bt_aux_pow := aux\<rparr>) = fold_unsigned E p b"
  by (simp_all add: fold_unsigned_def Let_def cong: if_cong option.case_cong)

lemma fold_block_sealed [simp]:
  "fold_block E p (b\<lparr>bt_extension := ext, bt_aux_pow := aux\<rparr>) = fold_block E p b"
  by (simp add: fold_block_def cong: option.case_cong)

lemma authorization_message_sealed [simp]:
  "authorization_message E p (b\<lparr>bt_extension := ext, bt_aux_pow := aux\<rparr>) = authorization_message E p b"
  by (simp add: authorization_message_def compute_header_hash_def header_bytes_def Let_def)

lemma check_authorization_sealed [simp]:
  "check_miner_authorization E bonds p (b\<lparr>bt_extension := ext, bt_aux_pow := aux\<rparr>) = check_miner_authorization E bonds p b"
  by (simp add: check_miner_authorization_def cong: if_cong)

lemma Batch_weight_sealed [simp]:
  "Batch_weight (b\<lparr>bt_miner := m\<rparr>) = Batch_weight b"
  "Batch_weight (b\<lparr>bt_extension := ext, bt_aux_pow := aux\<rparr>) = Batch_weight b"
  by (simp_all add: Batch_weight_def)

lemma contents_sealed [simp]:
  "validate_block_contents E (b\<lparr>bt_miner := m\<rparr>) height skip subsidy rf = validate_block_contents E b height skip subsidy rf"
  "validate_block_contents E (b\<lparr>bt_extension := ext, bt_aux_pow := aux\<rparr>) height skip subsidy rf
     = validate_block_contents E b height skip subsidy rf"
  by (simp_all add: validate_block_contents_def Let_def cong: if_cong option.case_cong)

lemma relay_start_sealed [simp]:
  "relay_start s (b\<lparr>bt_miner := m\<rparr>) = relay_start s b"
  "relay_start s (b\<lparr>bt_extension := ext, bt_aux_pow := aux\<rparr>) = relay_start s b"
  "relay_start (s\<lparr>st_bonds := bs\<rparr>) b = relay_start s b"
  by (simp_all add: relay_start_def)

subsection \<open>The relay\<close>

lemma first_accepted_Some: "first_accepted accepts rs = Some r \<Longrightarrow> accepts r"
  by (induction accepts rs rule: first_accepted.induct) (auto split: if_splits)

text \<open>The run the producer chooses is one its relay accepts: the source's \<^verbatim>\<open>expect\<close> never fails.\<close>

lemma chosen_run_accepted:
  "relay_run H state (choose_relay H state feed bond room timestamp) timestamp \<noteq> Inl ChosenRunRefused"
proof (cases "choose_relay H state feed bond room timestamp")
  case (Some r)
  then have "is_ok (Relay_extend H (st_relay state) r timestamp)"
    by (auto simp: choose_relay_def Let_def dest: first_accepted_Some)
  then show ?thesis using Some by (auto simp: relay_run_def is_ok_iff)
qed (simp add: relay_run_def)

lemma relay_run_extend:
  assumes "relay_run H (s\<lparr>st_bonds := fst (prune_expired H (min_next_timestamp ts) (st_bonds s))\<rparr>) relay t = Inr after"
    and "bt_relay b = relay" and "bt_timestamp b = t"
  shows "(\<exists>gone change. extend_relay H s b ts = Inr (st_bonds after, st_relay after, gone, change))
     \<and> after = s\<lparr>st_bonds := st_bonds after, st_relay := st_relay after\<rparr>
     \<and> (\<forall>r. relay = Some r \<longrightarrow> relay_start s b \<noteq> None)"
proof (cases relay)
  case None
  then show ?thesis using assms by (auto simp: relay_run_def extend_relay_def split: prod.splits)
next
  case (Some r)
  then obtain rl change where ext: "Relay_extend H (st_relay s) r t = Inr (rl, change)"
    using assms(1) by (auto simp: relay_run_def and_then_Inr map_err_Inr)
  have "Relay_by_hash (st_relay s) (rh_prev r) \<noteq> None"
    using ext by (auto simp: Relay_extend_def Let_def and_then_Inr ok_or_Inr split: if_splits)
  then have "relay_start s b \<noteq> None" using assms(2) Some by (auto simp: relay_start_def)
  moreover have "\<exists>gone change. extend_relay H s b ts = Inr (st_bonds after, st_relay after, gone, change)"
      "after = s\<lparr>st_bonds := st_bonds after, st_relay := st_relay after\<rparr>"
    using assms Some ext by (auto simp: relay_run_def extend_relay_def split: prod.splits option.splits)
  ultimately show ?thesis by blast
qed

subsection \<open>Registrations\<close>

lemma ready_cases:
  assumes "ready_registrations H after t bond = (regs, why, retired)"
  shows "regs = [] \<or> (\<exists>r. regs = [r] \<and> precheck_registrations H (st_bonds after) [r] (st_target after) t = Inr ())"
  using assms
  by (auto simp: ready_registrations_def own_registration_def co_registration_def registrable_def is_ok_iff
      split: option.splits if_splits sum.splits prod.splits dest!: find_Some_member)

lemma registrations_agree:
  assumes "ready_registrations H after t bond = (regs, why, retired)"
    and "map_res (\<lambda>r. and_then (BondRegistration_verify H r (st_relay after) (st_target after))
           (\<lambda>e. Inr (registration_bond_id H r, e))) regs = Inr registered"
    and "bt_registrations b = regs" and "bt_target b = st_target after" and "bt_timestamp b = t"
    and "st_bonds nxt = st_bonds after"
  defines "bonds \<equiv> fold (\<lambda>(bid, e) bs. fst (BondSet_insert H bid e bs)) registered (st_bonds after)"
  shows "register_bonds H (st_bonds after) (st_relay after) b = Inr (registered, bonds)"
    and "apply_registrations H registered nxt = Inr (nxt\<lparr>st_bonds := bonds\<rparr>)"
proof -
  have both: "register_bonds H (st_bonds after) (st_relay after) b = Inr (registered, bonds)
      \<and> apply_registrations H registered nxt = Inr (nxt\<lparr>st_bonds := bonds\<rparr>)"
  proof (cases regs)
    case Nil
    then have "registered = []" using assms(2) by simp
    then show ?thesis using assms(3,6) Nil
      by (simp add: register_bonds_def precheck_registrations_def Let_def apply_registrations_def bonds_def)
  next
    case (Cons r rs)
    then have one: "regs = [r]" and pre: "precheck_registrations H (st_bonds after) [r] (st_target after) t = Inr ()"
      using ready_cases [OF assms(1)] by auto
    then obtain e where e: "BondRegistration_verify H r (st_relay after) (st_target after) = Inr e"
        "registered = [(registration_bond_id H r, e)]"
      using assms(2) by (auto simp: and_then_Inr)
    have fresh: "BondSet_get (st_bonds after) (registration_bond_id H r) = None"
      using pre by (auto simp: precheck_registrations_def precheck_registration_def Let_def and_then_Inr split: if_splits)
    then have "snd (BondSet_insert H (registration_bond_id H r) e (st_bonds after)) = None"
      by (simp add: BondSet_insert_def BondSet_get_def Let_def)
    then show ?thesis
      using fresh pre e assms(3-6)
      by (auto simp: register_bonds_def one apply_registrations_def bonds_def register_bond_def split: prod.splits)
  qed
  then show "register_bonds H (st_bonds after) (st_relay after) b = Inr (registered, bonds)"
    and "apply_registrations H registered nxt = Inr (nxt\<lparr>st_bonds := bonds\<rparr>)" by blast+
qed

subsection \<open>The signature\<close>

lemma sign_batch_Inr:
  assumes "sign_batch E L state bonds bond signer batch = Inr b" and "bt_miner batch = None" and "bond = None \<Longrightarrow> signer = None"
  shows "b = batch\<lparr>bt_miner := bt_miner b\<rparr> \<and> map_option auth_bond_id (bt_miner b) = signer
     \<and> (bt_miner b \<noteq> None \<longrightarrow> check_miner_authorization E bonds (mw_midstate state) b = Inr ())"
  using assms by (auto simp: sign_batch_def Let_def and_then_Inr map_err_Inr split: option.splits)

subsection \<open>The contents\<close>

lemma apply_body_bonds:
  assumes "apply_body E s body cb subsidy = Inr s'"
  shows "st_bonds s' = st_bonds s"
proof -
  let ?P = "\<lambda>t. st_bonds t = st_bonds s"
  obtain s1 s2 s3 s4 e e' where
    1: "fold_res (spend_input (env_hash E) (st_height s)) (inputs (tx_body body)) s = Inr s1"
    and 2: "fold_res (add_output (env_hash E) (st_height s) False) (Transaction_outputs body) s1 = Inr s2"
    and 3: "fold_res (add_output (env_hash E) (st_height s) True) (coinbase_outputs cb) s2 = Inr s3"
    and 4: "fold_res (add_kernel (env_hash E) (env_curve E)) (block_kernels body cb) (s3, e) = Inr (s4, e')"
    and 5: "st_bonds s' = st_bonds s4"
    using apply_body_exec [OF assms] by fastforce
  have "?P s1" using 1 by (rule fold_res_inv) (auto simp: spend_input_def Let_def and_then_Inr split: if_splits)
  with 2 have "?P s2" by (rule fold_res_inv) (auto simp: add_output_def Let_def split: if_splits)
  with 3 have "?P s3" by (rule fold_res_inv) (auto simp: add_output_def Let_def split: if_splits)
  then have "?P (fst (s3, e))" by simp
  with 4 have "?P (fst (s4, e'))"
    by (rule fold_res_inv) (auto simp: add_kernel_def Let_def and_then_Inr split: if_splits prod.splits)
  then show ?thesis using 5 by simp
qed

text \<open>With its proofs checked the contents pass as they pass without.\<close>

lemma contents_with_proofs:
  assumes "validate_block_contents E b height True subsidy rf = Inr ()"
    and "verify_crypto (env_hash E) (env_curve E) (bt_body b) = Inr ()"
    and "\<And>cb. bt_coinbase b = Some cb \<Longrightarrow> Coinbase_verify_crypto (env_hash E) (env_curve E) cb = Inr ()"
    and "\<And>r. bt_relay b = Some r \<Longrightarrow> \<exists>from. rf = Some from \<and>
           RelayHeaders_verify_pow (env_hash E) (env_walk E) (pow_piece E) r from = Inr ()"
  shows "validate_block_contents E b height False subsidy rf = Inr ()"
proof -
  have relay: "check_relay_pow E False (bt_relay b) rf = Inr ()" if "check_relay_pow E True (bt_relay b) rf = Inr ()"
    using that assms(4) by (cases "bt_relay b") (auto simp: check_relay_pow_def ok_or_def split: if_splits)
  show ?thesis
    using assms(1,2,3) relay unfolding validate_block_contents_def Let_def and_then_Inr
    by (cases "bt_coinbase b"; cases "height = 0") (auto simp: and_then_Inr map_err_Inr split: if_splits)
qed

lemma merged_crypto:
  assumes "aggregate H C txs = Inr body" and "\<forall>tx \<in> set txs. verify_crypto H C tx = Inr ()"
  shows "verify_crypto H C body = Inr ()"
  using assms by (auto simp: aggregate_Inr merged_def verify_crypto_Inr)

lemma pay_coinbase_Inr:
  assumes "curve_ok (env_curve E)" and "prover_ok (env_curve E) (mk_prover L)"
    and "pay_coinbase E L turn amount payouts extra = Inr (coinbase, receipts)"
  shows "case coinbase of
      None \<Rightarrow> amount = 0 \<and> receipts = []
    | Some cb \<Rightarrow> Coinbase_verify_crypto (env_hash E) (env_curve E) cb = Inr ()
        \<and> sum_list (map (pr_value \<circ> snd) receipts) = amount
        \<and> length (group_outputs (cb_outputs cb)) = length receipts
        \<and> (\<forall>j < length receipts. PayoutReceipt_verify (env_hash E) (env_curve E) (snd (receipts ! j)) (fst (receipts ! j))
             (group_outputs (cb_outputs cb) ! j) \<and> fst (receipts ! j) \<in> fst ` set payouts)"
proof (cases "amount = 0")
  case True
  then show ?thesis using assms(3) by (simp add: pay_coinbase_def)
next
  case False
  then obtain split cb rs where split: "split_by_weight amount payouts = Some split"
    and built: "build_coinbase_with (env_hash E) (env_curve E) (mk_aead L) (mk_prover L) (mk_draws L turn) (mk_aux L turn) split extra
      = Inr (cb, rs)" and res: "coinbase = Some cb" "receipts = zip (map fst split) rs"
    using assms(3) by (auto simp: pay_coinbase_def and_then_Inr ok_or_Inr map_err_Inr)
  note cb = coinbase_built [OF assms(1,2) built]
  have len: "length receipts = length split" by (simp add: res cb(4))
  have at: "receipts ! j = (fst (split ! j), rs ! j)" if "j < length split" for j
    using that cb(4) by (simp add: res)
  have "map (pr_value \<circ> snd) receipts = map snd split"
    by (rule nth_equalityI) (use len at cb(6) in auto)
  then have "sum_list (map (pr_value \<circ> snd) receipts) = amount" using split_total(1) [OF split] by simp
  moreover have "fst (split ! j) \<in> fst ` set payouts" if "j < length split" for j
    using split_total(2) [OF split] nth_mem [OF that] by (cases "split ! j") auto
  ultimately show ?thesis using len at cb by (simp add: res)
qed


subsection \<open>A built template, taken apart\<close>

lemma built_parts:
  assumes "build_template_relayed E L now state ts txs payouts extra when bond feed = Inr (t, receipts)"
  obtains timestamp body fees amount paid relay after regs why retired registered signer where
    "st_height state \<noteq> 0" "aggregate (env_hash E) (env_curve E) txs = Inr body" "Transaction_fee body = Inr fees"
    "chk_add64 (block_reward (st_height state)) fees = Some amount"
    "pay_coinbase E L 0 amount payouts extra = Inr paid"
    "relay_run (env_hash E)
        (state\<lparr>st_bonds := fst (prune_expired (env_hash E) (min_next_timestamp ts) (st_bonds state))\<rparr>) relay timestamp = Inr after"
    "ready_registrations (env_hash E) after timestamp bond = (regs, why, retired)"
    "map_res (\<lambda>r. and_then (BondRegistration_verify (env_hash E) r (st_relay after) (st_target state))
        (\<lambda>e. Inr (registration_bond_id (env_hash E) r, e))) regs = Inr registered"
    "signer = Option.bind bond (\<lambda>b. MinerBond_signer_for (env_curve E) b
        (fold (\<lambda>(bid, e) bs. fst (BondSet_insert (env_hash E) bid e bs)) registered (st_bonds after)) (st_counts state) timestamp)"
    "\<not> (signer = None \<and> BONDED_MINING_FROM \<le> st_height state
        \<and> any_can_sign (fold (\<lambda>(bid, e) bs. fst (BondSet_insert (env_hash E) bid e bs)) registered (st_bonds after)) timestamp)"
    "finish_template E L (state\<lparr>st_bonds := fst (prune_expired (env_hash E) (min_next_timestamp ts) (st_bonds state))\<rparr>)
        after body fees paid relay regs registered
        (fold (\<lambda>(bid, e) bs. fst (BondSet_insert (env_hash E) bid e bs)) registered (st_bonds after)) signer payouts extra timestamp bond
      = Inr (t, receipts)"
proof -
  let ?ts = "case when of Some x \<Rightarrow> x | None \<Rightarrow> max now (min_next_timestamp ts)"
  let ?S = "state\<lparr>st_bonds := fst (prune_expired (env_hash E) (min_next_timestamp ts) (st_bonds state))\<rparr>"
  have h: "st_height state \<noteq> 0" and pc: "\<not> (payouts = [] \<or> MAX_GROUP_OUTPUTS < length payouts)"
    using assms by (auto simp: build_template_relayed_def Let_def split: if_splits)
  obtain body where agg: "aggregate (env_hash E) (env_curve E) txs = Inr body"
    using assms h pc unfolding build_template_relayed_def Let_def by (auto simp: and_then_Inr map_err_Inr)
  obtain fees where fees: "Transaction_fee body = Inr fees"
    using assms h pc unfolding build_template_relayed_def Let_def by (auto simp: and_then_Inr map_err_Inr agg)
  obtain amount where amount: "chk_add64 (block_reward (st_height state)) fees = Some amount"
    using assms h pc unfolding build_template_relayed_def Let_def by (auto simp: and_then_Inr map_err_Inr agg fees ok_or_Inr)
  obtain paid where paid: "pay_coinbase E L 0 amount payouts extra = Inr paid"
    using assms h pc unfolding build_template_relayed_def Let_def by (auto simp: and_then_Inr map_err_Inr agg fees amount ok_or_Inr)
  let ?used = "Transaction_weight body + (case fst paid of Some cb \<Rightarrow> Coinbase_weight cb | None \<Rightarrow> 0) + REGISTRATION_ROOM"
  let ?relay = "choose_relay (env_hash E) ?S feed bond ((MAX_BLOCK_WEIGHT - ?used) div RELAY_WEIGHT_PER_HEADER) ?ts"
  have ok: "ok_or TplOverflow (Some x) = Inr x" for x :: nat by (simp add: ok_or_def)
  obtain after where after: "relay_run (env_hash E) ?S ?relay ?ts = Inr after"
    using assms h pc unfolding build_template_relayed_def Let_def
    by (cases "relay_run (env_hash E) ?S ?relay ?ts") (auto simp: agg fees amount paid ok)
  obtain regs why retired where regs: "ready_registrations (env_hash E) after ?ts bond = (regs, why, retired)"
    by (cases "ready_registrations (env_hash E) after ?ts bond")
  let ?reg = "map_res (\<lambda>r. and_then (BondRegistration_verify (env_hash E) r (st_relay after) (st_target state))
        (\<lambda>e. Inr (registration_bond_id (env_hash E) r, e))) regs"
  obtain registered where registered: "?reg = Inr registered"
    using assms h pc unfolding build_template_relayed_def Let_def
    by (cases ?reg) (auto simp: agg fees amount paid ok after regs)
  show thesis
    by (rule that [OF h agg fees amount paid after regs registered refl])
      (use assms h pc in \<open>auto simp: build_template_relayed_def Let_def agg fees amount paid ok after regs registered split: if_splits\<close>)
qed


lemma finished_parts:
  assumes "finish_template E L S after body fees paid relay regs registered bonds signer payouts extra timestamp bond
      = Inr (t, receipts)"
    and "bond = None \<Longrightarrow> signer = None" and "st_bonds after = bonds0"
    and "\<And>nxt. st_bonds nxt = bonds0 \<Longrightarrow> apply_registrations (env_hash E) registered nxt = Inr (nxt\<lparr>st_bonds := bonds\<rparr>)"
  obtains creditable floor recent counts credited subsidy coinbase nxt batch where
    "cap_work (work_floor S) (st_height S) (calculate_work (st_target S)) = (creditable, floor)"
    "credit_in_window (recent_signers S) (st_counts S) bonds (st_height S) signer creditable timestamp = (recent, counts, credited)"
    "subsidy = subsidy_for signer counts bonds (st_height S) timestamp"
    "(coinbase, receipts) = paid \<and> subsidy = block_reward (st_height S)
      \<or> (\<exists>amount. chk_add64 subsidy fees = Some amount \<and> pay_coinbase E L 1 amount payouts extra = Inr (coinbase, receipts))"
    "apply_body E after body coinbase subsidy = Inr nxt"
    "bt_state_root batch = state_root (env_hash E) (nxt\<lparr>st_bonds := bonds\<rparr>)"
    "bt_chain_weight batch = sat_add128 (State_weight S) credited"
    "prev_midstate batch = mw_midstate S" "prev_header_hash batch = header_hash S" "bt_body batch = body"
    "bt_coinbase batch = coinbase" "bt_timestamp batch = timestamp" "bt_target batch = st_target S"
    "bt_aux_pow batch = None" "bt_registrations batch = regs" "bt_relay batch = relay"
    "map_option auth_bond_id (bt_miner batch) = signer"
    "bt_miner batch \<noteq> None \<longrightarrow> check_miner_authorization E bonds (mw_midstate S) batch = Inr ()"
    "validate_block_contents E batch (st_height S) True subsidy (relay_start S batch) = Inr ()"
    "t = \<lparr>tp_batch = batch, tp_mining_hash = mining_hash_of E batch (st_height S), tp_height = st_height S, tp_fees = fees,
            tp_subsidy = subsidy\<rparr>"
proof -
  obtain creditable floor where cap: "cap_work (work_floor S) (st_height S) (calculate_work (st_target S)) = (creditable, floor)"
    by (cases "cap_work (work_floor S) (st_height S) (calculate_work (st_target S))")
  obtain recent counts credited where cr: "credit_in_window (recent_signers S) (st_counts S) bonds (st_height S) signer creditable timestamp
      = (recent, counts, credited)"
    by (cases "credit_in_window (recent_signers S) (st_counts S) bonds (st_height S) signer creditable timestamp")
  let ?subsidy = "subsidy_for signer counts bonds (st_height S) timestamp"
  let ?pay = "if ?subsidy = block_reward (st_height S) then Inr paid
         else and_then (ok_or TplOverflow (chk_add64 ?subsidy fees)) (\<lambda>amount. pay_coinbase E L 1 amount payouts extra)"
  obtain coinbase rs where pay: "?pay = Inr (coinbase, rs)"
    using assms(1) unfolding finish_template_def Let_def cap cr prod.case by (auto elim!: and_then_InrE)
  obtain nxt where nxt: "apply_body E after body coinbase ?subsidy = Inr nxt"
    using assms(1) unfolding finish_template_def Let_def cap cr prod.case pay and_then.simps
    by (auto elim!: and_then_InrE simp: map_err_Inr)
  have regs: "apply_registrations (env_hash E) registered nxt = Inr (nxt\<lparr>st_bonds := bonds\<rparr>)"
    using assms(3,4) apply_body_bonds [OF nxt] by simp
  let ?batch = "\<lparr>prev_midstate = mw_midstate S, prev_header_hash = header_hash S, bt_body = body,
            bt_coinbase = coinbase, bt_extension = \<lparr>ext_nonce = 0, ext_final_hash = 0\<rparr>, bt_timestamp = timestamp,
            bt_target = st_target S, bt_state_root = state_root (env_hash E) (nxt\<lparr>st_bonds := bonds\<rparr>), bt_aux_pow = None,
            bt_registrations = regs, bt_miner = None, bt_relay = relay,
            bt_chain_weight = sat_add128 (State_weight S) credited\<rparr>"
  have valid: "validate_block_contents E ?batch (st_height S) True ?subsidy (relay_start S ?batch) = Inr ()"
    and "\<exists>batch. sign_batch E L S bonds bond signer ?batch = Inr batch \<and> receipts = rs \<and>
      t = \<lparr>tp_batch = batch, tp_mining_hash = mining_hash_of E batch (st_height S), tp_height = st_height S, tp_fees = fees,
            tp_subsidy = ?subsidy\<rparr>"
    using assms(1) unfolding finish_template_def Let_def cap cr prod.case pay and_then.simps nxt map_err.simps regs
    by (auto elim!: and_then_InrE simp: map_err_Inr)
  then obtain batch where sign: "sign_batch E L S bonds bond signer ?batch = Inr batch" and "receipts = rs"
    and t: "t = \<lparr>tp_batch = batch, tp_mining_hash = mining_hash_of E batch (st_height S), tp_height = st_height S, tp_fees = fees,
            tp_subsidy = ?subsidy\<rparr>" by blast
  have b: "batch = ?batch\<lparr>bt_miner := bt_miner batch\<rparr>" "map_option auth_bond_id (bt_miner batch) = signer"
      "bt_miner batch \<noteq> None \<longrightarrow> check_miner_authorization E bonds (mw_midstate S) batch = Inr ()"
    using sign_batch_Inr [OF sign _ assms(2)] by simp_all
  have f: "bt_state_root batch = state_root (env_hash E) (nxt\<lparr>st_bonds := bonds\<rparr>)"
    "bt_chain_weight batch = sat_add128 (State_weight S) credited"
    "prev_midstate batch = mw_midstate S" "prev_header_hash batch = header_hash S" "bt_body batch = body"
    "bt_coinbase batch = coinbase" "bt_timestamp batch = timestamp" "bt_target batch = st_target S"
    "bt_aux_pow batch = None" "bt_registrations batch = regs" "bt_relay batch = relay"
    by (subst b(1), simp)+
  have v: "validate_block_contents E batch (st_height S) True ?subsidy (relay_start S batch) = Inr ()"
  proof -
    have "validate_block_contents E (?batch\<lparr>bt_miner := bt_miner batch\<rparr>) (st_height S) True ?subsidy
        (relay_start S (?batch\<lparr>bt_miner := bt_miner batch\<rparr>)) = Inr ()"
      by (simp only: contents_sealed(1) relay_start_sealed(1) valid)
    then show ?thesis by (simp only: b(1) [symmetric])
  qed
  have p: "(coinbase, receipts) = paid \<and> ?subsidy = block_reward (st_height S)
      \<or> (\<exists>amount. chk_add64 ?subsidy fees = Some amount \<and> pay_coinbase E L 1 amount payouts extra = Inr (coinbase, receipts))"
    using pay \<open>receipts = rs\<close> by (auto simp: and_then_Inr ok_or_Inr split: if_splits)
  show thesis by (rule that [OF cap cr refl p nxt f b(2,3) v t])
qed


text \<open>The whole template over the caller's state: \<open>after\<close> is the state the relayed headers leave, \<open>bonds\<close> the bonds
  the block leaves.\<close>

definition tpl_bonds :: "hasher \<Rightarrow> State \<Rightarrow> (h256 \<times> BondEntry) list \<Rightarrow> BondSet" where
  "tpl_bonds H after registered = fold (\<lambda>(bid, e) bs. fst (BondSet_insert H bid e bs)) registered (st_bonds after)"

lemma template_parts:
  assumes built: "build_template_relayed E L now state ts txs payouts extra when bond feed = Inr (t, receipts)"
  obtains body after registered signer creditable floor recent counts credited nxt where
    "st_height state \<noteq> 0" "aggregate (env_hash E) (env_curve E) txs = Inr body" "Transaction_fee body = Inr (tp_fees t)"
    "\<forall>b. bt_relay b = bt_relay (tp_batch t) \<and> bt_timestamp b = bt_timestamp (tp_batch t) \<longrightarrow>
       (\<exists>gone change. extend_relay (env_hash E) state b ts = Inr (st_bonds after, st_relay after, gone, change))"
    "after = state\<lparr>st_bonds := st_bonds after, st_relay := st_relay after\<rparr>"
    "bt_relay (tp_batch t) = None \<or> relay_start state (tp_batch t) \<noteq> None"
    "\<forall>b. bt_registrations b = bt_registrations (tp_batch t) \<and> bt_target b = st_target state
       \<and> bt_timestamp b = bt_timestamp (tp_batch t) \<longrightarrow>
       register_bonds (env_hash E) (st_bonds after) (st_relay after) b = Inr (registered, tpl_bonds (env_hash E) after registered)"
    "map_option auth_bond_id (bt_miner (tp_batch t)) = signer"
    "signer = Option.bind bond (\<lambda>b. MinerBond_signer_for (env_curve E) b (tpl_bonds (env_hash E) after registered)
       (st_counts state) (bt_timestamp (tp_batch t)))"
    "bt_miner (tp_batch t) \<noteq> None \<longrightarrow>
       check_miner_authorization E (tpl_bonds (env_hash E) after registered) (mw_midstate state) (tp_batch t) = Inr ()"
    "\<not> (signer = None \<and> BONDED_MINING_FROM \<le> st_height state
        \<and> any_can_sign (tpl_bonds (env_hash E) after registered) (bt_timestamp (tp_batch t)))"
    "cap_work (work_floor state) (st_height state) (calculate_work (st_target state)) = (creditable, floor)"
    "credit_in_window (recent_signers state) (st_counts state) (tpl_bonds (env_hash E) after registered) (st_height state) signer
        creditable (bt_timestamp (tp_batch t)) = (recent, counts, credited)"
    "tp_subsidy t = subsidy_for signer counts (tpl_bonds (env_hash E) after registered) (st_height state) (bt_timestamp (tp_batch t))"
    "\<exists>turn. pay_coinbase E L turn (tp_subsidy t + tp_fees t) payouts extra = Inr (bt_coinbase (tp_batch t), receipts)"
    "apply_body E after body (bt_coinbase (tp_batch t)) (tp_subsidy t) = Inr nxt"
    "bt_state_root (tp_batch t) = state_root (env_hash E) (nxt\<lparr>st_bonds := tpl_bonds (env_hash E) after registered\<rparr>)"
    "bt_chain_weight (tp_batch t) = sat_add128 (State_weight state) credited"
    "prev_midstate (tp_batch t) = mw_midstate state" "prev_header_hash (tp_batch t) = header_hash state"
    "bt_body (tp_batch t) = body" "bt_target (tp_batch t) = st_target state" "bt_aux_pow (tp_batch t) = None"
    "validate_block_contents E (tp_batch t) (st_height state) True (tp_subsidy t) (relay_start state (tp_batch t)) = Inr ()"
    "tp_mining_hash t = mining_hash_of E (tp_batch t) (st_height state)" "tp_height t = st_height state"
proof -
  let ?H = "env_hash E"
  let ?S = "state\<lparr>st_bonds := fst (prune_expired ?H (min_next_timestamp ts) (st_bonds state))\<rparr>"
  obtain timestamp body fees amount paid relay after regs why retired registered signer where
    height: "st_height state \<noteq> 0" and agg: "aggregate ?H (env_curve E) txs = Inr body" and fees: "Transaction_fee body = Inr fees"
    and amount: "chk_add64 (block_reward (st_height state)) fees = Some amount"
    and paid: "pay_coinbase E L 0 amount payouts extra = Inr paid"
    and run: "relay_run ?H ?S relay timestamp = Inr after"
    and ready: "ready_registrations ?H after timestamp bond = (regs, why, retired)"
    and regd: "map_res (\<lambda>r. and_then (BondRegistration_verify ?H r (st_relay after) (st_target state))
        (\<lambda>e. Inr (registration_bond_id ?H r, e))) regs = Inr registered"
    and signer: "signer = Option.bind bond (\<lambda>b. MinerBond_signer_for (env_curve E) b
        (fold (\<lambda>(bid, e) bs. fst (BondSet_insert ?H bid e bs)) registered (st_bonds after)) (st_counts state) timestamp)"
    and unsigned: "\<not> (signer = None \<and> BONDED_MINING_FROM \<le> st_height state
        \<and> any_can_sign (fold (\<lambda>(bid, e) bs. fst (BondSet_insert ?H bid e bs)) registered (st_bonds after)) timestamp)"
    and fin: "finish_template E L ?S after body fees paid relay regs registered
        (fold (\<lambda>(bid, e) bs. fst (BondSet_insert ?H bid e bs)) registered (st_bonds after)) signer payouts extra timestamp bond
      = Inr (t, receipts)"
    using built by (rule built_parts)
  define bonds where "bonds = tpl_bonds ?H after registered"
  note bonds_fold = bonds_def [unfolded tpl_bonds_def, symmetric]
  obtain dummy :: Batch where dummy: "bt_relay dummy = relay" "bt_timestamp dummy = timestamp"
    "bt_registrations dummy = regs" "bt_target dummy = st_target state"
    using that [of "(tp_batch t)\<lparr>bt_relay := relay, bt_timestamp := timestamp, bt_registrations := regs, bt_target := st_target state\<rparr>"]
    by simp
  have after: "after = state\<lparr>st_bonds := st_bonds after, st_relay := st_relay after\<rparr>"
    using relay_run_extend [OF run dummy(1,2)] by blast
  have target: "st_target after = st_target state" by (subst after) simp
  note reg = registrations_agree [OF ready _ _ _ _, unfolded target, OF regd, unfolded bonds_fold]
  have lone: "bond = None \<Longrightarrow> signer = None" by (simp add: signer)
  obtain creditable floor recent counts credited subsidy coinbase nxt batch where raw:
    "cap_work (work_floor ?S) (st_height ?S) (calculate_work (st_target ?S)) = (creditable, floor)"
    "credit_in_window (recent_signers ?S) (st_counts ?S) bonds (st_height ?S) signer creditable timestamp = (recent, counts, credited)"
    "subsidy = subsidy_for signer counts bonds (st_height ?S) timestamp"
    "(coinbase, receipts) = paid \<and> subsidy = block_reward (st_height ?S)
      \<or> (\<exists>amount. chk_add64 subsidy fees = Some amount \<and> pay_coinbase E L 1 amount payouts extra = Inr (coinbase, receipts))"
    and body: "apply_body E after body coinbase subsidy = Inr nxt"
    and root: "bt_state_root batch = state_root ?H (nxt\<lparr>st_bonds := bonds\<rparr>)"
    and weight: "bt_chain_weight batch = sat_add128 (State_weight ?S) credited"
    and b: "prev_midstate batch = mw_midstate ?S" "prev_header_hash batch = header_hash ?S" "bt_body batch = body"
      "bt_coinbase batch = coinbase" "bt_timestamp batch = timestamp" "bt_target batch = st_target ?S"
      "bt_aux_pow batch = None" "bt_registrations batch = regs" "bt_relay batch = relay"
    and miner: "map_option auth_bond_id (bt_miner batch) = signer"
      "bt_miner batch \<noteq> None \<longrightarrow> check_miner_authorization E bonds (mw_midstate ?S) batch = Inr ()"
    and valid: "validate_block_contents E batch (st_height ?S) True subsidy (relay_start ?S batch) = Inr ()"
    and t: "t = \<lparr>tp_batch = batch, tp_mining_hash = mining_hash_of E batch (st_height ?S), tp_height = st_height ?S, tp_fees = fees,
            tp_subsidy = subsidy\<rparr>"
    by (rule finished_parts [OF fin [unfolded bonds_fold] lone refl reg(2) [OF dummy(3,4,2)]])
  have tp: "tp_batch t = batch" "tp_fees t = fees" "tp_subsidy t = subsidy" by (simp_all add: t)
  have ext: "\<forall>b. bt_relay b = bt_relay (tp_batch t) \<and> bt_timestamp b = bt_timestamp (tp_batch t) \<longrightarrow>
       (\<exists>gone change. extend_relay ?H state b ts = Inr (st_bonds after, st_relay after, gone, change))"
    using relay_run_extend [OF run] b by (simp add: tp)
  have start: "bt_relay (tp_batch t) = None \<or> relay_start state (tp_batch t) \<noteq> None"
    using relay_run_extend [OF run, of batch] b by (cases relay) (simp_all add: tp)
  have regs: "\<forall>b. bt_registrations b = bt_registrations (tp_batch t) \<and> bt_target b = st_target state
       \<and> bt_timestamp b = bt_timestamp (tp_batch t) \<longrightarrow>
       register_bonds ?H (st_bonds after) (st_relay after) b = Inr (registered, bonds)"
    using reg(1) [of _ nxt] apply_body_bonds [OF body] b by (simp add: tp)
  have pay: "\<exists>turn. pay_coinbase E L turn (tp_subsidy t + tp_fees t) payouts extra = Inr (bt_coinbase (tp_batch t), receipts)"
    using raw(4) paid amount b by (auto simp: tp chk_add64_Some)
  show thesis
    by (rule that [where registered = registered and signer = signer and creditable = creditable and floor = floor
          and recent = recent and counts = counts and credited = credited and nxt = nxt,
        OF height agg _ ext after start regs [unfolded bonds_def]])
      (use raw body root weight b miner valid unsigned fees pay signer in
        \<open>simp_all add: tp t State_weight_def bonds_def [symmetric] bonds_fold\<close>)
qed


subsection \<open>Acceptance\<close>

text \<open>What full validation asks beyond the checks a template runs on itself.\<close>

definition proofs_hold :: "('pt :: ab_group_add, 'sc :: comm_ring_1) env \<Rightarrow> 'sc maker \<Rightarrow> State \<Rightarrow> Transaction list \<Rightarrow> BlockTemplate \<Rightarrow> bool" where
  "proofs_hold E L state txs t \<longleftrightarrow>
     curve_ok (env_curve E) \<and> prover_ok (env_curve E) (mk_prover L)
     \<and> (\<forall>tx \<in> set txs. verify_crypto (env_hash E) (env_curve E) tx = Inr ())
     \<and> (\<forall>r from. bt_relay (tp_batch t) = Some r \<longrightarrow> relay_start state (tp_batch t) = Some from \<longrightarrow>
          RelayHeaders_verify_pow (env_hash E) (env_walk E) (pow_piece E) r from = Inr ())"

lemma template_contents:
  assumes "build_template_relayed E L now state ts txs payouts extra when bond feed = Inr (t, receipts)"
    and "\<not> skip \<Longrightarrow> proofs_hold E L state txs t"
  shows "validate_block_contents E (tp_batch t) (st_height state) skip (tp_subsidy t) (relay_start state (tp_batch t)) = Inr ()"
proof -
  obtain body where agg: "aggregate (env_hash E) (env_curve E) txs = Inr body" and b: "bt_body (tp_batch t) = body"
    and start: "bt_relay (tp_batch t) = None \<or> relay_start state (tp_batch t) \<noteq> None"
    and pay: "\<exists>turn. pay_coinbase E L turn (tp_subsidy t + tp_fees t) payouts extra = Inr (bt_coinbase (tp_batch t), receipts)"
    and valid: "validate_block_contents E (tp_batch t) (st_height state) True (tp_subsidy t) (relay_start state (tp_batch t)) = Inr ()"
    by (rule template_parts [OF assms(1)])
  show ?thesis
  proof (cases skip)
    case False
    note pf = assms(2) [OF False, unfolded proofs_hold_def]
    have "Coinbase_verify_crypto (env_hash E) (env_curve E) cb = Inr ()" if "bt_coinbase (tp_batch t) = Some cb" for cb
      using pay pay_coinbase_Inr pf that by fastforce
    moreover have "verify_crypto (env_hash E) (env_curve E) (bt_body (tp_batch t)) = Inr ()"
      using merged_crypto [OF agg] pf b by blast
    ultimately have "validate_block_contents E (tp_batch t) (st_height state) False (tp_subsidy t) (relay_start state (tp_batch t)) = Inr ()"
      using pf start by (intro contents_with_proofs [OF valid]) auto
    then show ?thesis using False by simp
  qed (use valid in simp)
qed

text \<open>The bond that signed a block is registered with the producer's mining key.\<close>

definition keyed_by :: "('pt, 'sc) env \<Rightarrow> 'sc MinerBond option \<Rightarrow> BondSet \<Rightarrow> Batch \<Rightarrow> bool" where
  "keyed_by E bond bonds T \<longleftrightarrow>
     (\<forall>auth. bt_miner T = Some auth \<longrightarrow>
        (\<exists>mb e. bond = Some mb \<and> BondSet_get bonds (auth_bond_id auth) = Some e \<and> be_mining_key e = MinerBond_mining_key (env_curve E) mb))"

text \<open>A block made of a template: sealed, and perhaps bound to a miner by its coinbase's extra data and signed again.\<close>

definition made_of :: "('pt :: ab_group_add, 'sc :: comm_ring_1) env \<Rightarrow> State \<Rightarrow> 'sc MinerBond option \<Rightarrow> Batch \<Rightarrow> Batch \<Rightarrow> bool" where
  "made_of E s bond T b \<longleftrightarrow>
     (\<exists>f. b = T\<lparr>bt_coinbase := map_option (\<lambda>cb. cb\<lparr>cb_extra := f cb\<rparr>) (bt_coinbase T), bt_miner := bt_miner b,
            bt_extension := bt_extension b, bt_aux_pow := bt_aux_pow b\<rparr>)
     \<and> map_option auth_bond_id (bt_miner b) = map_option auth_bond_id (bt_miner T)
     \<and> (\<forall>bonds. check_miner_authorization E bonds (mw_midstate s) T = Inr () \<longrightarrow> keyed_by E bond bonds T
          \<longrightarrow> check_miner_authorization E bonds (mw_midstate s) b = Inr ())"

lemma coinbase_extra_unread:
  "Coinbase_validate_structure C (cb\<lparr>cb_extra := x\<rparr>) = Coinbase_validate_structure C cb"
  "Coinbase_verify_sum C (cb\<lparr>cb_extra := x\<rparr>) v = Coinbase_verify_sum C cb v"
  "Coinbase_verify_crypto H C (cb\<lparr>cb_extra := x\<rparr>) = Coinbase_verify_crypto H C cb"
  "Coinbase_weight (cb\<lparr>cb_extra := x\<rparr>) = Coinbase_weight cb"
  "check_coinbase_unique H body (cb\<lparr>cb_extra := x\<rparr>) = check_coinbase_unique H body cb"
  by (simp_all add: Coinbase_validate_structure_def Coinbase_verify_sum_def Coinbase_verify_crypto_def Coinbase_weight_def
      check_coinbase_unique_def)

lemma contents_rebound:
  "validate_block_contents E (b\<lparr>bt_coinbase := map_option (\<lambda>cb. cb\<lparr>cb_extra := f cb\<rparr>) (bt_coinbase b)\<rparr>) height skip subsidy rf
     = validate_block_contents E b height skip subsidy rf"
  "apply_body E s body (map_option (\<lambda>cb. cb\<lparr>cb_extra := f cb\<rparr>) coinbase) subsidy = apply_body E s body coinbase subsidy"
proof -
  have w: "bt_coinbase b = None \<Longrightarrow> Batch_weight (b\<lparr>bt_coinbase := None\<rparr>) = Batch_weight b"
      "bt_coinbase b = Some cb \<Longrightarrow> Batch_weight (b\<lparr>bt_coinbase := Some (cb\<lparr>cb_extra := x\<rparr>)\<rparr>) = Batch_weight b" for cb x
    by (simp_all add: Batch_weight_def coinbase_extra_unread)
  show "validate_block_contents E (b\<lparr>bt_coinbase := map_option (\<lambda>cb. cb\<lparr>cb_extra := f cb\<rparr>) (bt_coinbase b)\<rparr>) height skip subsidy rf
     = validate_block_contents E b height skip subsidy rf"
    by (cases "bt_coinbase b"; cases "height = 0")
      (simp_all add: validate_block_contents_def w coinbase_extra_unread Let_def cong: if_cong)
  show "apply_body E s body (map_option (\<lambda>cb. cb\<lparr>cb_extra := f cb\<rparr>) coinbase) subsidy = apply_body E s body coinbase subsidy"
    by (cases coinbase) (simp_all add: apply_body_def coinbase_outputs_def block_kernels_def)
qed

lemma foldl_min_member: "foldl (\<lambda>b y. if (key y :: nat) < key b then y else b) a ys \<in> insert a (set ys)"
proof (induction ys arbitrary: a)
  case (Cons y ys)
  show ?case using Cons.IH [of y] Cons.IH [of a] by auto
qed simp

lemma min_by_key_member: "min_by_key key xs = Some x \<Longrightarrow> x \<in> set xs"
  using foldl_min_member [of key] by (cases xs) auto

lemma signer_keyed:
  assumes "MinerBond_signer_for C mb bonds counts t = Some bid"
  shows "\<exists>e. BondSet_get bonds bid = Some e \<and> be_mining_key e = MinerBond_mining_key C mb"
  using min_by_key_member [OF assms [unfolded MinerBond_signer_for_def signer_for_def]]
  unfolding set_filter by (auto split: option.splits)

lemma made_of_fields:
  assumes "made_of E s bond T b"
  shows "prev_midstate b = prev_midstate T" "prev_header_hash b = prev_header_hash T" "bt_body b = bt_body T"
    "bt_timestamp b = bt_timestamp T" "bt_target b = bt_target T" "bt_state_root b = bt_state_root T"
    "bt_registrations b = bt_registrations T" "bt_relay b = bt_relay T" "bt_chain_weight b = bt_chain_weight T"
    "relay_start s' b = relay_start s' T"
    "validate_block_contents E b height skip subsidy rf = validate_block_contents E T height skip subsidy rf"
    "apply_body E s' body (bt_coinbase b) subsidy = apply_body E s' body (bt_coinbase T) subsidy"
proof -
  obtain f where b: "b = T\<lparr>bt_coinbase := map_option (\<lambda>cb. cb\<lparr>cb_extra := f cb\<rparr>) (bt_coinbase T), bt_miner := bt_miner b,
            bt_extension := bt_extension b, bt_aux_pow := bt_aux_pow b\<rparr>"
    using assms by (auto simp: made_of_def)
  show "prev_midstate b = prev_midstate T" "prev_header_hash b = prev_header_hash T" "bt_body b = bt_body T"
    "bt_timestamp b = bt_timestamp T" "bt_target b = bt_target T" "bt_state_root b = bt_state_root T"
    "bt_registrations b = bt_registrations T" "bt_relay b = bt_relay T" "bt_chain_weight b = bt_chain_weight T"
    by (subst b, simp)+
  show "relay_start s' b = relay_start s' T" by (subst b) (simp add: relay_start_def)
  show "validate_block_contents E b height skip subsidy rf = validate_block_contents E T height skip subsidy rf"
    by (subst b) (simp only: contents_sealed contents_rebound)
  have "bt_coinbase b = map_option (\<lambda>cb. cb\<lparr>cb_extra := f cb\<rparr>) (bt_coinbase T)" by (subst b) simp
  then show "apply_body E s' body (bt_coinbase b) subsidy = apply_body E s' body (bt_coinbase T) subsidy"
    by (simp only: contents_rebound)
qed

lemma template_accepted:
  assumes built: "build_template_relayed E L now state ts txs payouts extra when bond feed = Inr (t, receipts)"
    and time: "validate_timestamp (bt_timestamp (tp_batch t)) ts now' = Inr ()"
    and work: "check_work E state b preverified = Inr ()"
    and made: "made_of E state bond (tp_batch t) b"
    and proofs: "\<not> skip \<Longrightarrow> proofs_hold E L state txs t"
  shows "\<exists>s'. apply_batch_internal E state b ts now' preverified skip = Inr s'
     \<and> header_hash s' = ext_final_hash (bt_extension b) \<and> mw_midstate s' = fold_block E (mw_midstate state) b"
proof -
  let ?H = "env_hash E"
  note m = made_of_fields [OF made]
  obtain body after registered signer creditable floor recent counts credited nxt where
    height: "st_height state \<noteq> 0"
    and ext: "\<forall>b. bt_relay b = bt_relay (tp_batch t) \<and> bt_timestamp b = bt_timestamp (tp_batch t) \<longrightarrow>
       (\<exists>gone change. extend_relay ?H state b ts = Inr (st_bonds after, st_relay after, gone, change))"
    and after: "after = state\<lparr>st_bonds := st_bonds after, st_relay := st_relay after\<rparr>"
    and regs: "\<forall>b. bt_registrations b = bt_registrations (tp_batch t) \<and> bt_target b = st_target state
       \<and> bt_timestamp b = bt_timestamp (tp_batch t) \<longrightarrow>
       register_bonds ?H (st_bonds after) (st_relay after) b = Inr (registered, tpl_bonds ?H after registered)"
    and miner_id: "map_option auth_bond_id (bt_miner (tp_batch t)) = signer"
    and signer: "signer = Option.bind bond (\<lambda>b. MinerBond_signer_for (env_curve E) b (tpl_bonds ?H after registered)
       (st_counts state) (bt_timestamp (tp_batch t)))"
    and auth: "bt_miner (tp_batch t) \<noteq> None \<longrightarrow>
       check_miner_authorization E (tpl_bonds ?H after registered) (mw_midstate state) (tp_batch t) = Inr ()"
    and unsigned: "\<not> (signer = None \<and> BONDED_MINING_FROM \<le> st_height state
        \<and> any_can_sign (tpl_bonds ?H after registered) (bt_timestamp (tp_batch t)))"
    and cap: "cap_work (work_floor state) (st_height state) (calculate_work (st_target state)) = (creditable, floor)"
    and cr: "credit_in_window (recent_signers state) (st_counts state) (tpl_bonds ?H after registered) (st_height state) signer
        creditable (bt_timestamp (tp_batch t)) = (recent, counts, credited)"
    and sub: "tp_subsidy t = subsidy_for signer counts (tpl_bonds ?H after registered) (st_height state) (bt_timestamp (tp_batch t))"
    and body: "apply_body E after body (bt_coinbase (tp_batch t)) (tp_subsidy t) = Inr nxt"
    and root: "bt_state_root (tp_batch t) = state_root ?H (nxt\<lparr>st_bonds := tpl_bonds ?H after registered\<rparr>)"
    and weight: "bt_chain_weight (tp_batch t) = sat_add128 (State_weight state) credited"
    and T: "prev_midstate (tp_batch t) = mw_midstate state" "prev_header_hash (tp_batch t) = header_hash state"
      "bt_body (tp_batch t) = body" "bt_target (tp_batch t) = st_target state"
    by (rule template_parts [OF built])
  define bonds where "bonds = tpl_bonds ?H after registered"
  have link: "check_linkage E state b ts now' = Inr ()" using time height T by (simp add: check_linkage_def m)
  obtain gone change where ext': "extend_relay ?H state b ts = Inr (st_bonds after, st_relay after, gone, change)"
    using ext [rule_format, of b] by (auto simp: m)
  have regs': "register_bonds ?H (st_bonds after) (st_relay after) b = Inr (registered, bonds)"
    using regs [rule_format, of b] T by (simp add: bonds_def m)
  have sgn: "check_signer E state bonds b = Inr ()"
  proof (cases "bt_miner (tp_batch t)")
    case None
    then have "bt_miner b = None" using made by (simp add: made_of_def)
    then show ?thesis using unsigned miner_id None by (auto simp: check_signer_def Let_def bonds_def m)
  next
    case (Some auth')
    then obtain mb where "bond = Some mb" "MinerBond_signer_for (env_curve E) mb bonds (st_counts state) (bt_timestamp (tp_batch t))
        = Some (auth_bond_id auth')"
      using miner_id signer Some unfolding bonds_def by (cases bond) auto
    then have "keyed_by E bond bonds (tp_batch t)" using signer_keyed Some by (fastforce simp: keyed_by_def)
    then have "check_miner_authorization E bonds (mw_midstate state) b = Inr ()" and "bt_miner b \<noteq> None"
      using made auth Some by (auto simp: made_of_def bonds_def)
    then show ?thesis using height by (auto simp: check_signer_def Let_def)
  qed
  note contents = template_contents [OF built proofs, unfolded sub]
  have base: "state\<lparr>st_bonds := st_bonds after, st_relay := st_relay after\<rparr> = after" using after by simp
  have r: "state_root ?H (x\<lparr>st_bonds := bonds, effects := y\<rparr>) = state_root ?H (x\<lparr>st_bonds := bonds\<rparr>)" for x y
    by (simp add: state_root_def root_parts_def)
  have same: "work_floor after = work_floor state" "recent_signers after = recent_signers state" "st_counts after = st_counts state"
      "State_weight after = State_weight state"
    by (subst after, simp add: State_weight_def)+
  obtain nxt' where "connect_block E state b skip (st_bonds after) (st_relay after) gone change registered bonds
      = Inr (finalize_block E state b floor recent counts credited nxt')"
    using contents body root weight cap cr sub T miner_id made
    by (auto simp: connect_block_def Let_def r base same bonds_def [symmetric] m made_of_def cong: if_cong)
  then have "apply_batch_internal E state b ts now' preverified skip = Inr (finalize_block E state b floor recent counts credited nxt')"
    using link work ext' regs' sgn by (simp add: apply_batch_internal_def Let_def)
  then show ?thesis by (auto simp: finalize_block_def Let_def)
qed

lemma candidate_mining_hash:
  assumes "prev_midstate b = mw_midstate s" and "prev_header_hash b = header_hash s"
  shows "compute_header_hash (env_hash E) (candidate_header E s (b\<lparr>bt_extension := ext, bt_aux_pow := aux\<rparr>))
       = mining_hash_of E b (st_height s)"
  using assms by (simp add: mining_hash_of_def compute_header_hash_def header_bytes_def candidate_header_def Batch_header_def)

lemma template_mining_hash:
  assumes "build_template_relayed E L now state ts txs payouts extra when bond feed = Inr (t, receipts)"
  shows "compute_header_hash (env_hash E) (candidate_header E state ((tp_batch t)\<lparr>bt_extension := ext, bt_aux_pow := aux\<rparr>))
       = tp_mining_hash t"
    and "made_of E state bond (tp_batch t) ((tp_batch t)\<lparr>bt_extension := ext, bt_aux_pow := aux\<rparr>)"
    and "st_height state \<noteq> 0" and "bt_target (tp_batch t) = st_target state" and "bt_aux_pow (tp_batch t) = None"
    and "tp_height t = st_height state"
proof -
  have facts: "prev_midstate (tp_batch t) = mw_midstate state \<and> prev_header_hash (tp_batch t) = header_hash state
      \<and> tp_mining_hash t = mining_hash_of E (tp_batch t) (st_height state) \<and> st_height state \<noteq> 0
      \<and> bt_target (tp_batch t) = st_target state \<and> bt_aux_pow (tp_batch t) = None \<and> tp_height t = st_height state"
    by (rule template_parts [OF assms]) (intro conjI; assumption)
  show "compute_header_hash (env_hash E) (candidate_header E state ((tp_batch t)\<lparr>bt_extension := ext, bt_aux_pow := aux\<rparr>))
       = tp_mining_hash t"
    using facts by (simp add: candidate_mining_hash)
  have "map_option (\<lambda>cb. cb\<lparr>cb_extra := cb_extra cb\<rparr>) c = c" for c :: "Coinbase option" by (cases c) simp_all
  then show "made_of E state bond (tp_batch t) ((tp_batch t)\<lparr>bt_extension := ext, bt_aux_pow := aux\<rparr>)"
    unfolding made_of_def by (intro conjI exI [of _ cb_extra]) simp_all
  show "st_height state \<noteq> 0" and "bt_target (tp_batch t) = st_target state" and "bt_aux_pow (tp_batch t) = None"
    and "tp_height t = st_height state"
    using facts by blast+
qed

end
