(* ===== verification/Template_Properties.thy ===== *)
theory Template_Properties
  imports Template_Accepted
begin

text \<open>The properties of block templates, with a first template on the genesis block as their example.\<close>

subsection \<open>A template on the genesis block\<close>

definition tip_at :: "h256 \<Rightarrow> State" where
  "tip_at T = (State_genesis (env_hash sample_env))\<lparr>st_height := 1, st_target := T,
     chain_mmr := fst (Mmr_append (env_hash sample_env) True 0 Mmr_new)\<rparr>"

abbreviation tip_state :: State where "tip_state \<equiv> tip_at GENESIS_TARGET"

definition sample_maker :: "h256 maker" where
  "sample_maker = \<lparr>mk_aead = sample_aead, mk_prover = sample_prover, mk_draws = (\<lambda>_. sample_draw), mk_aux = (\<lambda>_. 0),
     mk_sign_aux = 0\<rparr>"

definition sample_bond :: "h256 MinerBond" where
  "sample_bond = \<lparr>mb_secret = 5, mb_bond_id = 1, mb_registration = None, mb_midstate = None, mb_co_bonds = []\<rparr>"

abbreviation sample_build :: "h256 \<Rightarrow> nat option \<Rightarrow> tpl_error + BlockTemplate \<times> receipts" where
  "sample_build T when \<equiv> build_template_relayed sample_env sample_maker 0 (tip_at T) [] [] [(sample_address, 1)] 0 when
     (Some sample_bond) None"

abbreviation sample_template :: "tpl_error + BlockTemplate \<times> receipts" where
  "sample_template \<equiv> sample_build GENESIS_TARGET (Some 0)"

lemma first_reward: "0 < block_reward 1" "block_reward 1 \<le> U64_MAX" "issued_before 2 = block_reward 1"
proof -
  show eq: "issued_before 2 = block_reward 1"
    by (simp add: block_reward_def Emission_block_reward_def issued_before_def sat_add64_def numeral_2_eq_2)
  have "scheduled_before EMISSION 2 = 553"
    by (simp add: scheduled_before_def chk_sub_def ramp_total_def EMISSION_def mul128_def add128_def era_loop.simps [of _ _ "Suc 0"])
  then have "issued_before 2 = 553"
    by (simp add: issued_before_def Emission_issued_before_def EMISSION_def MAX_SUPPLY_def COIN_def)
  then show "0 < block_reward 1" and "block_reward 1 \<le> U64_MAX" by (simp_all add: eq)
qed

lemma sample_coinbase:
  assumes "0 < v" and "v \<le> U64_MAX"
  shows "\<exists>cb rs out. build_coinbase_with (\<lambda>_. 7) word_curve sample_aead sample_prover sample_draw 0 [(sample_address, v)] 0 = Inr (cb, rs)
     \<and> group_outputs (cb_outputs cb) = [out]"
proof -
  have "of_nat v + 6 \<noteq> (0 :: h256)"
  proof
    assume z: "of_nat v + 6 = (0 :: h256)"
    have "unat (of_nat (v + 6) :: h256) = 0" using z by (simp add: algebra_simps)
    then show False using assms(2) by (simp only: unat_of_nat) simp
  qed
  then show ?thesis
    using assms
    by (simp add: build_coinbase_with_def sample_draw_def sample_address_def new_output_def address_points_def
      ok_or_def OutputGroup_prove_def prove_range_def MAX_GROUP_OUTPUTS_def sample_prover_def seal_payload_def sample_aead_def
      Coinbase_validate_structure_def check_structure_def range_proof_len_1 check_encoding_def valid_nonidentity_def
      PAYLOAD_LEN_def Kernel_new_def check_rules_def IDENTITY_def mul_base_def commit_def word_curve_def
      owner_tweak_def hash_to_scalar_def domain_preimage_def len_prefixed_def ascii_def RANGE_BITS_def next_power_of_two.simps trailing_zeros.simps Let_def)
qed


lemma tip_fields:
  "st_height (tip_at T) = 1" "st_bonds (tip_at T) = BondSet_default" "utxos (tip_at T) = []" "coins (utxo_set (tip_at T)) = []"
  "coins (st_kernels (tip_at T)) = []" "st_supply (tip_at T) = 0" "kernel_excess_sum (tip_at T) = IDENTITY"
  "total_kernel_offset (tip_at T) = 0" "st_target (tip_at T) = T"
  by (simp_all add: tip_at_def State_genesis_def UtxoAccumulator_new_def Let_def)

lemma pruned_tip: "(tip_at T)\<lparr>st_bonds := fst (prune_expired H ts (st_bonds (tip_at T)))\<rparr> = (tip_at T)"
  unfolding tip_fields prune_default by (simp add: tip_at_def State_genesis_def Let_def)

lemma empty_body: "aggregate (env_hash sample_env) (env_curve sample_env) [] = Inr Transaction_empty"
  and empty_structure: "validate_structure (env_hash sample_env) (env_curve sample_env) Block Transaction_empty = Inr ()"
proof -
  show v: "validate_structure (env_hash sample_env) (env_curve sample_env) Block Transaction_empty = Inr ()"
    by (simp add: validate_structure_Inr check_context_def Transaction_weight_def output_count_def sample_env_def word_curve_def
        Transaction_empty_def input_commitments_def output_commitments_def Transaction_outputs_def kernel_ids_def)
  have "merged (env_hash sample_env) (env_curve sample_env) [] = Transaction_empty"
    by (simp add: merged_def sample_env_def word_curve_def Transaction_empty_def)
  then show "aggregate (env_hash sample_env) (env_curve sample_env) [] = Inr Transaction_empty"
    using v by (simp add: aggregate_Inr)
qed

lemma tip_body:
  assumes "group_outputs (cb_outputs cb) = [out]"
  shows "\<exists>nxt. apply_body sample_env (tip_at T) Transaction_empty (Some cb) (block_reward 1) = Inr nxt"
proof -
  have C: "decompress (env_curve sample_env) = Some" "scalar_from_bytes (env_curve sample_env) = Some"
    by (simp_all add: sample_env_def word_curve_def)
  have room: "chk_add64 0 (block_reward 1) = Some (block_reward 1)" "add64 1 1 = 2" "issued_before 2 = block_reward 1"
    using first_reward by (simp_all add: chk_add64_def add64_def)
  define kn where "kn = (\<lambda>k. fst (UtxoAccumulator_insert (env_hash sample_env) True k (st_kernels (tip_at T))))"
  have kn: "UtxoAccumulator_insert (env_hash sample_env) True k (st_kernels (tip_at T)) = (kn k, True)" for k
    unfolding kn_def UtxoAccumulator_insert_def tip_fields Let_def by simp
  show ?thesis
    by (simp add: apply_body_def Transaction_empty_def Transaction_outputs_def coinbase_outputs_def block_kernels_def assms
        add_output_def om_has_def om_get_def tip_fields C ok_or_def add_kernel_def kn room Let_def del: One_nat_def)
qed

lemma empty_sums: "verify_sums (env_curve sample_env) Transaction_empty = Inr ()"
  by (simp add: verify_sums_Inr balanced_def all_points_def points_sum_def Transaction_empty_def Transaction_outputs_def
      sample_env_def word_curve_def mul_base_def)

lemma tip_contents:
  assumes "Coinbase_validate_structure word_curve cb = Inr ()" and "Coinbase_verify_sum word_curve cb (block_reward 1) = Inr ()"
    and "group_outputs (cb_outputs cb) = [out]"
    and "bt_body b = Transaction_empty" "bt_coinbase b = Some cb" "bt_registrations b = []" "bt_relay b = None"
  shows "validate_block_contents sample_env b 1 True (block_reward 1) None = Inr ()"
proof -
  have C: "env_curve sample_env = word_curve" by (simp add: sample_env_def)
  have w: "\<not> MAX_BLOCK_WEIGHT < Batch_weight b"
    using assms by (simp add: Batch_weight_def Coinbase_weight_def Transaction_weight_def Transaction_empty_def output_count_def
        MAX_BLOCK_WEIGHT_def OUTPUT_WEIGHT_def KERNEL_WEIGHT_def)
  have fee: "Transaction_fee Transaction_empty = Inr 0" by (simp add: Transaction_fee_def Transaction_empty_def)
  have uniq: "check_coinbase_unique (env_hash sample_env) Transaction_empty cb = Inr ()"
    by (simp add: check_coinbase_unique_def assms(3) Transaction_empty_def output_commitments_def input_commitments_def
        Transaction_outputs_def kernel_ids_def)
  show ?thesis
    using assms w empty_sums empty_structure first_reward(1,2)
    by (simp add: validate_block_contents_def check_relay_pow_def fee uniq ok_or_def chk_add64_def C Let_def)
qed

lemma sample_build_Inr:
  assumes "when = None \<or> when = Some 0"
  shows "\<exists>t rs. sample_build T when = Inr (t, rs) \<and> bt_timestamp (tp_batch t) = 0 \<and> bt_relay (tp_batch t) = None"
proof -
  obtain cb rs out where built: "build_coinbase_with (\<lambda>_. 7) word_curve sample_aead sample_prover sample_draw 0
        [(sample_address, block_reward 1)] 0 = Inr (cb, rs)" and out: "group_outputs (cb_outputs cb) = [out]"
    using sample_coinbase first_reward by blast
  have split: "split_by_weight (block_reward 1) [(sample_address, 1)] = Some [(sample_address, block_reward 1)]"
    using first_reward(1) by (simp add: split_by_weight_def Let_def del: One_nat_def)
  have paid: "pay_coinbase sample_env sample_maker 0 (block_reward 1) [(sample_address, 1)] 0
      = Inr (Some cb, zip [sample_address] rs)"
    using first_reward(1) by (simp add: pay_coinbase_def split ok_or_def sample_env_def sample_maker_def built del: One_nat_def)
  have cb: "Coinbase_validate_structure word_curve cb = Inr ()" "Coinbase_verify_sum word_curve cb (block_reward 1) = Inr ()"
    using coinbase_built(1,2) [OF word_curve_ok sample_prover_ok built] by (simp_all del: One_nat_def)
  obtain nxt where nxt: "apply_body sample_env (tip_at T) Transaction_empty (Some cb) (block_reward 1) = Inr nxt"
    using tip_body [OF out] by blast
  have nobody: "\<not> any_can_sign BondSet_default t" for t by (simp add: any_can_sign_def BondSet_default_def)
  have none: "BondSet_get BondSet_default x = None" for x by (simp add: BondSet_get_def BondSet_default_def om_get_def)
  have fee: "Transaction_fee Transaction_empty = Inr 0" by (simp add: Transaction_fee_def Transaction_empty_def)
  have room: "chk_add64 (block_reward 1) 0 = Some (block_reward 1)" using first_reward by (simp add: chk_add64_def)
  note contents = tip_contents [OF cb(1,2) out]
  have pruned: "(tip_at T)\<lparr>st_bonds := fst (prune_expired H ts BondSet_default)\<rparr> = (tip_at T)" for H ts
    using pruned_tip by (simp add: tip_fields)
  have time: "(case when of Some t \<Rightarrow> t | None \<Rightarrow> max 0 (min_next_timestamp [])) = 0"
    using assms by (auto simp: min_next_timestamp_def median_time_floor_def MEDIAN_TIME_PAST_WINDOW_def)
  show ?thesis
    by (simp add: build_template_relayed_def time tip_fields pruned empty_body fee MAX_GROUP_OUTPUTS_def room ok_or_def paid choose_relay_def
      relay_run_def ready_registrations_def nobody finish_template_def subsidy_for_def nxt apply_registrations_def sign_batch_def
      sample_bond_def carried_headers_def unregistered_def own_registration_def none
      MinerBond_signer_for_def signer_for_def Let_def relay_start_def contents split: prod.splits del: One_nat_def)
qed

lemma sample_template_Inr: "\<exists>t rs. sample_template = Inr (t, rs) \<and> bt_timestamp (tp_batch t) = 0 \<and> bt_relay (tp_batch t) = None"
  by (rule sample_build_Inr) simp

subsection \<open>Properties\<close>

text \<open>A sealed template is made of the template, and its work is the template's.\<close>

lemma sealed_work:
  assumes "build_template_relayed E L now state ts txs payouts extra when bond feed = Inr (t, receipts)"
    and "verify_pow (env_hash E) (env_walk E) (tp_height t) (tp_mining_hash t) (bt_extension b) (st_target state) (bt_aux_pow b)
         = Inr ()"
    and "b = seal t ext \<or> b = seal_aux (env_hash E) t aux"
  shows "made_of E state bond (tp_batch t) b" "check_work E state b None = Inr ()"
    "check_work E state b (Some (tp_mining_hash t)) = Inr ()"
proof -
  note mh = template_mining_hash [OF assms(1)]
  have sealed: "b = (tp_batch t)\<lparr>bt_extension := bt_extension b, bt_aux_pow := bt_aux_pow b\<rparr>"
    using assms(3) mh(5) by (auto simp: seal_def seal_aux_def)
  show "made_of E state bond (tp_batch t) b" using mh(2) sealed by metis
  show "check_work E state b None = Inr ()" "check_work E state b (Some (tp_mining_hash t)) = Inr ()"
    using assms(2) mh by (subst sealed, simp add: check_work_def map_err_Inr)+
qed

text \<open>C9. A template never disagrees with validation. Once its proof of work is found, on its own header or in a merged
  midstate block, and its timestamp stands, block application accepts the sealed block with every check on,
  provided the transactions it was given and the headers it relays carry valid proofs; nodes that already
  checked the work or the proofs accept it under its mining hash alone.\<close>

theorem template_blocks_are_accepted:
  assumes "build_template_relayed E L now state ts txs payouts extra when bond feed = Inr (t, receipts)"
    and "validate_timestamp (bt_timestamp (tp_batch t)) ts now' = Inr ()"
    and "proofs_hold E L state txs t"
    and "verify_pow (env_hash E) (env_walk E) (tp_height t) (tp_mining_hash t) (bt_extension b) (st_target state) (bt_aux_pow b)
         = Inr ()"
    and "b = seal t ext \<or> b = seal_aux (env_hash E) t aux"
  shows "(\<exists>s'. apply_batch E state b ts now' = Inr s' \<and> header_hash s' = ext_final_hash (bt_extension b))
     \<and> (\<exists>s'. apply_batch_skip_pow E state b ts now' (tp_mining_hash t) = Inr s')
     \<and> (\<exists>s'. apply_batch_trusted E state b ts now' (tp_mining_hash t) = Inr s')"
proof -
  note work = sealed_work [OF assms(1,4,5)]
  note acc = template_accepted [OF assms(1,2) _ work(1), OF _ assms(3)]
  show ?thesis
    using acc [OF work(2), of False] acc [OF work(3), of False] acc [OF work(3), of True]
    by (auto simp: apply_batch_def apply_batch_skip_pow_def apply_batch_trusted_def)
qed

text \<open>What \<^verbatim>\<open>mine_blocking\<close> returns, if it returns, is the sealed template with a valid proof of work.\<close>

lemma mine_from_Some:
  assumes "mine_from H walk t nonce = Some b"
  shows "\<exists>n. b = seal t (create_extension_at H walk (tp_height t) (tp_mining_hash t) n)
       \<and> ext_final_hash (create_extension_at H walk (tp_height t) (tp_mining_hash t) n) < bt_target (tp_batch t)"
  using assms
  by (rule mine_from.raw_induct [rotated]) (auto simp: Let_def split: if_splits)


text \<open>So what it mines in-process is a block too.\<close>

lemma mined_block_seals:
  assumes "mine_blocking H walk t = Some b" and "bt_aux_pow (tp_batch t) = None"
  shows "\<exists>ext. b = seal t ext \<and> verify_pow H walk (tp_height t) (tp_mining_hash t) (bt_extension b) (bt_target (tp_batch t)) (bt_aux_pow b)
     = Inr ()"
proof -
  obtain n where b: "b = seal t (create_extension_at H walk (tp_height t) (tp_mining_hash t) n)"
    and ext: "ext_final_hash (create_extension_at H walk (tp_height t) (tp_mining_hash t) n) < bt_target (tp_batch t)"
    using mine_from_Some assms(1) unfolding mine_blocking_def by blast
  have "ext_nonce (create_extension_with H walk al m n) = n" for al m
    by (cases al) (simp_all add: create_extension_with_def create_extension_def Let_def)
  then show ?thesis
    using ext assms(2) by (auto simp: b seal_def verify_pow_def verify_pow_with_def verify_extension_with_def create_extension_at_def)
qed

lemma iterate_const: "iterate n (\<lambda>_. c) c = c"
  by (induction n) simp_all

lemma sample_work: "ext_final_hash (create_extension_at (\<lambda>_. 7) (\<lambda>h n. h) height 7 0) = 7"
  by (simp add: create_extension_at_def create_extension_with_def create_extension_def iterate_const split: PowAlgo.splits)

lemma seven_below_genesis: "(7 :: h256) < GENESIS_TARGET"
  by (simp add: GENESIS_TARGET_def word_less_nat_alt)

lemma sample_seal:
  assumes "7 < T"
  shows "verify_pow (env_hash sample_env) (env_walk sample_env) height (compute_header_hash (env_hash sample_env) h)
     (create_extension_at (\<lambda>_. 7) (\<lambda>h n. h) height 7 0) (st_target (tip_at T)) None = Inr ()"
proof -
  have nonce: "ext_nonce (create_extension_with H walk al m n) = n" for H walk al m n
    by (cases al) (simp_all add: create_extension_with_def create_extension_def Let_def)
  show ?thesis
    using assms sample_work [of height] nonce
    by (simp add: compute_header_hash_def verify_pow_def verify_pow_with_def verify_extension_with_def create_extension_at_def tip_fields sample_env_def)
qed

theorem template_blocks_are_accepted_witness:
  "\<exists>t rs ext s'. sample_template = Inr (t, rs) \<and> apply_batch sample_env tip_state (seal t ext) [] 0 = Inr s'"
proof -
  obtain t rs where t: "sample_template = Inr (t, rs)" and ts: "bt_timestamp (tp_batch t) = 0" "bt_relay (tp_batch t) = None"
    using sample_template_Inr by blast
  let ?ext = "create_extension_at (\<lambda>_. 7) (\<lambda>h n. h) (tp_height t) 7 0"
  have time: "validate_timestamp (bt_timestamp (tp_batch t)) [] 0 = Inr ()"
    by (simp add: ts validate_timestamp_def median_time_floor_def MEDIAN_TIME_PAST_WINDOW_def sat_add64_def)
  have pf: "proofs_hold sample_env sample_maker tip_state [] t"
    using sample_prover_ok by (simp add: proofs_hold_def ts sample_env_ok sample_maker_def) (simp add: sample_env_def)
  have sealed: "bt_extension (seal t ?ext) = ?ext" "bt_aux_pow (seal t ?ext) = None"
    using template_mining_hash(5) [OF t] by (simp_all add: seal_def)
  have "\<exists>h. tp_mining_hash t = compute_header_hash (env_hash sample_env) h"
    using template_mining_hash(1) [OF t, symmetric] by blast
  then have "verify_pow (env_hash sample_env) (env_walk sample_env) (tp_height t) (tp_mining_hash t) (bt_extension (seal t ?ext))
      (st_target tip_state) (bt_aux_pow (seal t ?ext)) = Inr ()"
    using sample_seal [OF seven_below_genesis] sealed by auto
  from template_blocks_are_accepted [OF t time pf this] t show ?thesis by blast
qed

text \<open>A template's coinbase pays out all the block may mint and all its fees, nothing else, and its receipts show
  each payee its share: they are in output order, add up to that amount, name only the payees asked for, and
  each verifies against its output.\<close>

theorem template_pays_out:
  assumes "build_template_relayed E L now state ts txs payouts extra when bond feed = Inr (t, receipts)"
    and "curve_ok (env_curve E)" and "prover_ok (env_curve E) (mk_prover L)"
  shows "case bt_coinbase (tp_batch t) of
      None \<Rightarrow> tp_subsidy t + tp_fees t = 0 \<and> receipts = []
    | Some cb \<Rightarrow> sum_list (map (pr_value \<circ> snd) receipts) = tp_subsidy t + tp_fees t
        \<and> length (group_outputs (cb_outputs cb)) = length receipts
        \<and> (\<forall>j < length receipts. PayoutReceipt_verify (env_hash E) (env_curve E) (snd (receipts ! j)) (fst (receipts ! j))
             (group_outputs (cb_outputs cb) ! j) \<and> fst (receipts ! j) \<in> fst ` set payouts)"
proof -
  obtain turn where "pay_coinbase E L turn (tp_subsidy t + tp_fees t) payouts extra = Inr (bt_coinbase (tp_batch t), receipts)"
    by (rule template_parts [OF assms(1)]) blast
  from pay_coinbase_Inr [OF assms(2,3) this] show ?thesis by (auto split: option.splits)
qed

theorem template_pays_out_witness:
  "\<exists>t rs. sample_template = Inr (t, rs) \<and> (bt_coinbase (tp_batch t) \<noteq> None \<longrightarrow>
     sum_list (map (pr_value \<circ> snd) rs) = tp_subsidy t + tp_fees t)"
proof -
  obtain t rs where t: "sample_template = Inr (t, rs)" using sample_template_Inr by blast
  have "prover_ok (env_curve sample_env) (mk_prover sample_maker)"
    using sample_prover_ok by (simp add: sample_env_def sample_maker_def)
  from template_pays_out [OF t sample_env_ok this] t show ?thesis by (auto split: option.splits)
qed


subsection \<open>Copies bound to a miner\<close>

lemma authorization_message_of:
  "bt_state_root b' = bt_state_root b \<Longrightarrow> bt_timestamp b' = bt_timestamp b \<Longrightarrow> bt_target b' = bt_target b \<Longrightarrow>
   prev_header_hash b' = prev_header_hash b \<Longrightarrow> bt_chain_weight b' = bt_chain_weight b \<Longrightarrow>
   fold_unsigned E p b' = fold_unsigned E p b \<Longrightarrow> authorization_message E p b' = authorization_message E p b"
  by (simp add: authorization_message_def compute_header_hash_def header_bytes_def Let_def)

lemma rebind_parts:
  assumes "rebind E t extra (Some mb) aux = Inr t'"
  obtains f sig where "tp_batch t' = (tp_batch t)\<lparr>bt_coinbase := map_option (\<lambda>cb. cb\<lparr>cb_extra := f cb\<rparr>) (bt_coinbase (tp_batch t)),
           bt_miner := map_option (\<lambda>auth. \<lparr>auth_bond_id = auth_bond_id auth, auth_signature = sig auth\<rparr>) (bt_miner (tp_batch t))\<rparr>"
     and "bt_coinbase (tp_batch t) = None \<longrightarrow> t' = t"
     and "bt_coinbase (tp_batch t) \<noteq> None \<longrightarrow> (\<forall>auth. sig auth = MinerBond_sign (env_curve E) mb
           (authorization_message E (prev_midstate (tp_batch t)) (tp_batch t')) aux)
         \<and> tp_mining_hash t' = mining_hash_of E (tp_batch t') (tp_height t)"
     and "tp_height t' = tp_height t"
proof (cases "bt_coinbase (tp_batch t)")
  case None
  then have "t' = t" using assms by (simp add: rebind_def)
  moreover have "map_option (\<lambda>auth. \<lparr>auth_bond_id = auth_bond_id auth, auth_signature = auth_signature auth\<rparr>) m = m" for m :: "MinerAuth option"
    by (cases m) simp_all
  ultimately show ?thesis using None by (intro that [where f = cb_extra and sig = auth_signature]) simp_all
next
  case (Some cb)
  let ?b0 = "(tp_batch t)\<lparr>bt_coinbase := Some (cb\<lparr>cb_extra := extra\<rparr>)\<rparr>"
  let ?sig = "\<lambda>auth :: MinerAuth. MinerBond_sign (env_curve E) mb (authorization_message E (prev_midstate (tp_batch t)) ?b0) aux"
  have b: "tp_batch t' = ?b0\<lparr>bt_miner := map_option (\<lambda>auth. \<lparr>auth_bond_id = auth_bond_id auth, auth_signature = ?sig auth\<rparr>) (bt_miner (tp_batch t))\<rparr>"
    and mh: "tp_mining_hash t' = mining_hash_of E (tp_batch t') (tp_height t)" "tp_height t' = tp_height t"
    using assms Some by (auto simp: rebind_def ok_or_def Let_def and_then_Inr split: option.splits)
  have "authorization_message E p (tp_batch t') = authorization_message E p ?b0" for p
    by (rule authorization_message_of) (simp_all add: b)
  then show ?thesis
    using b mh Some by (intro that [where f = "\<lambda>_. extra" and sig = ?sig]) simp_all
qed

lemma rebind_hash:
  assumes "rebind E t extra (Some mb) aux = Inr t'"
  shows "tp_mining_hash t' = tp_mining_hash t \<or> tp_mining_hash t' = mining_hash_of E (tp_batch t') (tp_height t)"
  using assms by (cases "bt_coinbase (tp_batch t)") (auto simp: rebind_def ok_or_def Let_def and_then_Inr split: option.splits)

lemma rebound_made:
  assumes "rebind E t extra (Some mb) aux = Inr t'" and "curve_ok (env_curve E)" and "mul_base (env_curve E) (mb_secret mb) \<noteq> 0"
    and "prev_midstate (tp_batch t) = mw_midstate s" and "bt_aux_pow (tp_batch t) = None"
  shows "made_of E s (Some mb) (tp_batch t) (seal t' ext)"
proof -
  obtain f sig where b: "tp_batch t' = (tp_batch t)\<lparr>bt_coinbase := map_option (\<lambda>cb. cb\<lparr>cb_extra := f cb\<rparr>) (bt_coinbase (tp_batch t)),
           bt_miner := map_option (\<lambda>auth. \<lparr>auth_bond_id = auth_bond_id auth, auth_signature = sig auth\<rparr>) (bt_miner (tp_batch t))\<rparr>"
    and none: "bt_coinbase (tp_batch t) = None \<longrightarrow> t' = t"
    and sig: "bt_coinbase (tp_batch t) \<noteq> None \<longrightarrow> (\<forall>auth. sig auth = MinerBond_sign (env_curve E) mb
           (authorization_message E (prev_midstate (tp_batch t)) (tp_batch t')) aux)
         \<and> tp_mining_hash t' = mining_hash_of E (tp_batch t') (tp_height t)"
    by (rule rebind_parts [OF assms(1)])
  have auth: "authorization_message E p (seal t' ext) = authorization_message E p (tp_batch t')" for p
    by (rule authorization_message_of) (simp_all add: seal_def fold_unsigned_def Let_def cong: if_cong option.case_cong)
  have check: "check_miner_authorization E bonds (mw_midstate s) (seal t' ext) = Inr ()"
    if T: "check_miner_authorization E bonds (mw_midstate s) (tp_batch t) = Inr ()" and k: "keyed_by E (Some mb) bonds (tp_batch t)" for bonds
  proof (cases "bt_coinbase (tp_batch t)")
    case None
    then have "t' = t" using none by blast
    moreover have "authorization_message E p (seal t ext) = authorization_message E p (tp_batch t)" for p
      by (rule authorization_message_of) (simp_all add: seal_def fold_unsigned_def Let_def cong: if_cong option.case_cong)
    ultimately show ?thesis using T
      by (auto simp: check_miner_authorization_def seal_def and_then_Inr ok_or_Inr split: if_splits)
  next
    case (Some cb)
    then obtain a e where a: "bt_miner (tp_batch t) = Some a" and e: "BondSet_get bonds (auth_bond_id a) = Some e"
      and el: "BondEntry_eligible_at e (bt_timestamp (tp_batch t))" and key: "be_mining_key e = MinerBond_mining_key (env_curve E) mb"
      using T k by (auto simp: check_miner_authorization_def keyed_by_def and_then_Inr ok_or_Inr split: if_splits)
    have "bt_miner (seal t' ext) = Some \<lparr>auth_bond_id = auth_bond_id a, auth_signature = sig a\<rparr>" "bt_timestamp (seal t' ext) = bt_timestamp (tp_batch t)"
      by (simp_all add: seal_def b a)
    moreover have "schnorr_verify (env_curve E) (be_mining_key e) (authorization_message E (mw_midstate s) (tp_batch t')) (sig a)"
      using sig Some assms(4) schnorr_complete [OF assms(2,3)] by (simp add: key MinerBond_mining_key_def MinerBond_sign_def)
    ultimately show ?thesis
      using e el by (simp add: check_miner_authorization_def auth ok_or_def)
  qed
  have "seal t' ext = (tp_batch t)\<lparr>bt_coinbase := map_option (\<lambda>cb. cb\<lparr>cb_extra := f cb\<rparr>) (bt_coinbase (tp_batch t)),
        bt_miner := bt_miner (seal t' ext), bt_extension := bt_extension (seal t' ext), bt_aux_pow := bt_aux_pow (seal t' ext)\<rparr>"
    using assms(5) by (simp add: seal_def b)
  moreover have "map_option auth_bond_id (bt_miner (seal t' ext)) = map_option auth_bond_id (bt_miner (tp_batch t))"
    by (simp add: seal_def b option.map_comp comp_def)
  ultimately show ?thesis unfolding made_of_def using check by blast
qed

text \<open>C10. A pool's copies are as good as its template: one bound to a miner by the coinbase's extra data and signed again
  under the same bond has a mining hash of its own, and with work found for that hash it is accepted just
  as the template itself would be.\<close>

theorem rebound_templates_are_accepted:
  assumes "build_template_relayed E L now state ts txs payouts extra when (Some mb) feed = Inr (t, receipts)"
    and "rebind E t extra' (Some mb) aux = Inr t'"
    and "validate_timestamp (bt_timestamp (tp_batch t)) ts now' = Inr ()" and "proofs_hold E L state txs t"
    and "mul_base (env_curve E) (mb_secret mb) \<noteq> 0"
    and "verify_pow (env_hash E) (env_walk E) (st_height state) (tp_mining_hash t') ext (st_target state) None = Inr ()"
  shows "\<exists>s'. apply_batch E state (seal t' ext) ts now' = Inr s' \<and> header_hash s' = ext_final_hash ext"
proof -
  note mh = template_mining_hash [OF assms(1)]
  have prev: "prev_midstate (tp_batch t) = mw_midstate state" "prev_header_hash (tp_batch t) = header_hash state"
      "tp_mining_hash t = mining_hash_of E (tp_batch t) (st_height state)"
    by (rule template_parts [OF assms(1)], assumption)+
  have curve: "curve_ok (env_curve E)" using assms(4) by (simp add: proofs_hold_def)
  note made = rebound_made [OF assms(2) curve assms(5) prev(1) mh(5)]
  have hash: "tp_mining_hash t' = mining_hash_of E (tp_batch t') (st_height state)"
    by (rule rebind_parts [OF assms(2)]) (use prev(3) mh(6) in auto)
  have t': "prev_midstate (tp_batch t') = mw_midstate state" "prev_header_hash (tp_batch t') = header_hash state"
      "bt_aux_pow (tp_batch t') = None" "bt_target (tp_batch t') = st_target state"
    by (rule rebind_parts [OF assms(2)], use prev mh in simp)+
  have seal: "seal t' ext = (tp_batch t')\<lparr>bt_extension := ext, bt_aux_pow := None\<rparr>" using t'(3) by (simp add: seal_def)
  have "check_work E state (seal t' ext) None = Inr ()"
    using candidate_mining_hash [OF t'(1,2), where E = E and ext = ext and aux = None] assms(6) mh(3) t'(4)
    by (simp add: seal check_work_def hash map_err_Inr)
  from template_accepted [OF assms(1,3) this made, of False] assms(4)
  show ?thesis by (auto simp: apply_batch_def seal_def)
qed


theorem rebound_templates_are_accepted_witness:
  "\<exists>t rs t' ext s'. sample_template = Inr (t, rs) \<and> rebind sample_env t 9 (Some sample_bond) 0 = Inr t'
     \<and> apply_batch sample_env tip_state (seal t' ext) [] 0 = Inr s'"
proof -
  obtain t rs where t: "sample_template = Inr (t, rs)" and ts: "bt_timestamp (tp_batch t) = 0" "bt_relay (tp_batch t) = None"
    using sample_template_Inr by blast
  obtain t' where t': "rebind sample_env t 9 (Some sample_bond) 0 = Inr t'"
    by (cases "bt_coinbase (tp_batch t)"; cases "bt_miner (tp_batch t)") (simp_all add: rebind_def ok_or_def Let_def)
  let ?ext = "create_extension_at (\<lambda>_. 7) (\<lambda>h n. h) (st_height tip_state) 7 0"
  have time: "validate_timestamp (bt_timestamp (tp_batch t)) [] 0 = Inr ()"
    by (simp add: ts validate_timestamp_def median_time_floor_def MEDIAN_TIME_PAST_WINDOW_def sat_add64_def)
  have pf: "proofs_hold sample_env sample_maker tip_state [] t"
    using sample_prover_ok by (simp add: proofs_hold_def ts sample_env_ok sample_maker_def) (simp add: sample_env_def)
  have key: "mul_base (env_curve sample_env) (mb_secret sample_bond) \<noteq> 0"
    by (simp add: sample_env_def word_curve_def sample_bond_def mul_base_def)
  have "\<exists>h. tp_mining_hash t = compute_header_hash (env_hash sample_env) h"
    using template_mining_hash(1) [OF t, symmetric] by blast
  then have "\<exists>h. tp_mining_hash t' = compute_header_hash (env_hash sample_env) h"
    using rebind_hash [OF t'] unfolding mining_hash_of_def by metis
  then have "verify_pow (env_hash sample_env) (env_walk sample_env) (st_height tip_state) (tp_mining_hash t') ?ext (st_target tip_state) None
      = Inr ()" using sample_seal [OF seven_below_genesis] by auto
  from rebound_templates_are_accepted [OF t t' time pf key this] t t' show ?thesis by blast
qed

end
