(* ===== verification/Checkpoints.thy ===== *)
theory Checkpoints
  imports Anchor Chain_State
begin

text \<open>
  Checkpoints and the records that anchor them: \<^verbatim>\<open>Checkpoint\<close> of \<^verbatim>\<open>src/src/core/anchor.rs\<close> and
  \<^verbatim>\<open>AnchorRecord\<close> with the commit proof of work of \<^verbatim>\<open>src/src/anchor.rs\<close>. The binary serializer of a
  checkpoint (\<open>ser\<close>) and the hexadecimal printer (\<open>hex\<close>) are libraries, here parameters. What is proved
  is what evidence accepted with the help of a cache of checked headers is worth.
\<close>

subsection \<open>Checkpoints\<close>

definition CHECKPOINT_VERSION :: nat where "CHECKPOINT_VERSION = 1"

record Checkpoint =
  cp_version :: nat
  cp_network :: h256
  mw_height :: nat
  mw_header_hash :: h256
  mw_state_root :: h256
  mw_cumulative_work :: nat
  previous_checkpoint :: h256

definition Checkpoint_new :: "hasher \<Rightarrow> BatchHeader \<Rightarrow> nat \<Rightarrow> h256 \<Rightarrow> Checkpoint" where
  "Checkpoint_new H tip cumulative_work previous =
     \<lparr>cp_version = CHECKPOINT_VERSION, cp_network = network_anchor H, mw_height = add64 (hd_height tip) 1,
      mw_header_hash = ext_final_hash (hd_extension tip), mw_state_root = hd_state_root tip,
      mw_cumulative_work = cumulative_work, previous_checkpoint = previous\<rparr>"

definition Checkpoint_id :: "hasher \<Rightarrow> (Checkpoint \<Rightarrow> bytes) \<Rightarrow> Checkpoint \<Rightarrow> h256" where
  "Checkpoint_id H ser cp = hash_domain H (ascii ''midwimble.midstate-anchor.v1'') [ser cp]"

datatype checkpoint_error = OtherNetwork | OtherChain nat

definition Checkpoint_matches :: "hasher \<Rightarrow> Checkpoint \<Rightarrow> BatchHeader \<Rightarrow> nat \<Rightarrow> checkpoint_error + unit" where
  "Checkpoint_matches H cp tip cumulative_work =
     (if cp_version cp \<noteq> CHECKPOINT_VERSION \<or> cp_network cp \<noteq> network_anchor H then Inl OtherNetwork
      else if add64 (hd_height tip) 1 \<noteq> mw_height cp \<or> ext_final_hash (hd_extension tip) \<noteq> mw_header_hash cp
        \<or> hd_state_root tip \<noteq> mw_state_root cp \<or> cumulative_work \<noteq> mw_cumulative_work cp
      then Inl (OtherChain (mw_height cp))
      else Inr ())"

subsection \<open>Records\<close>

record AnchorRecord =
  ar_checkpoint :: Checkpoint
  checkpoint_id :: string
  posted_at :: nat
  evidence :: "MidstateInclusion option"
  mw_header :: "BatchHeader option"

datatype record_error =
    WrongId | NoEvidence | HeaderMismatch | NoHeader | RecordAnchor anchor_error

definition record_payload ::
    "hasher \<Rightarrow> (Checkpoint \<Rightarrow> bytes) \<Rightarrow> Checkpoint \<Rightarrow> AnchoredItem \<Rightarrow> BatchHeader option \<Rightarrow> record_error + h256" where
  "record_payload H ser cp kind header =
     (case kind of
        Commit \<Rightarrow> Inr (Checkpoint_id H ser cp)
      | MergeMined _ _ \<Rightarrow>
          (case header of
             Some h \<Rightarrow>
               if add64 (hd_height h) 1 \<noteq> mw_height cp \<or> ext_final_hash (hd_extension h) \<noteq> mw_header_hash cp
                 \<or> hd_state_root h \<noteq> mw_state_root cp
               then Inl HeaderMismatch else Inr (compute_header_hash H h)
           | None \<Rightarrow> Inl NoHeader))"

definition verify_standalone_with ::
    "('pt, 'sc) env \<Rightarrow> (Checkpoint \<Rightarrow> bytes) \<Rightarrow> (h256 \<Rightarrow> string) \<Rightarrow> AnchorRecord \<Rightarrow> nat \<Rightarrow> nat
      \<Rightarrow> (h256 \<Rightarrow> bool) \<Rightarrow> record_error + h256 list" where
  "verify_standalone_with E ser hex r depth_asked min_work known =
     (let H = env_hash E; cp = ar_checkpoint r in
      if hex (Checkpoint_id H ser cp) \<noteq> checkpoint_id r then Inl WrongId
      else
        and_then (ok_or NoEvidence (evidence r)) (\<lambda>ev.
        and_then (record_payload H ser cp (mi_kind ev) (mw_header r)) (\<lambda>payload.
        and_then (map_err RecordAnchor (check_policy ev depth_asked min_work)) (\<lambda>_.
        map_err RecordAnchor (verify_proofs_with H (env_walk E) (pow_piece E) known ev payload)))))"

definition verify_standalone ::
    "('pt, 'sc) env \<Rightarrow> (Checkpoint \<Rightarrow> bytes) \<Rightarrow> (h256 \<Rightarrow> string) \<Rightarrow> AnchorRecord \<Rightarrow> nat \<Rightarrow> nat
      \<Rightarrow> record_error + unit" where
  "verify_standalone E ser hex r depth_asked min_work =
     and_then (verify_standalone_with E ser hex r depth_asked min_work (\<lambda>_. False)) (\<lambda>_. Inr ())"

subsection \<open>The proof of work of a commit\<close>

definition commit_nonce_ok :: "hasher \<Rightarrow> h256 \<Rightarrow> h256 \<Rightarrow> nat \<Rightarrow> nat \<Rightarrow> bool" where
  "commit_nonce_ok H anchor_block commitment bits nonce \<longleftrightarrow>
     bits \<le> count_leading_zeros (H (be_bytes anchor_block @ be_bytes commitment @ le_bytes 4 nonce))"

text \<open>The search over the 32-bit nonces; \<open>n\<close> counts the ones left.\<close>

fun search_nonce :: "(nat \<Rightarrow> bool) \<Rightarrow> nat \<Rightarrow> nat \<Rightarrow> nat option" where
  "search_nonce P start 0 = None"
| "search_nonce P start (Suc n) = (if P start then Some start else search_nonce P (start + 1) n)"

definition mine_commit_nonce :: "hasher \<Rightarrow> h256 \<Rightarrow> h256 \<Rightarrow> nat \<Rightarrow> nat option" where
  "mine_commit_nonce H anchor_block commitment bits =
     search_nonce (commit_nonce_ok H anchor_block commitment bits) 0 (2 ^ 32)"

lemma search_nonce_least:
  "(case search_nonce P start n of
      None \<Rightarrow> \<forall>k < n. \<not> P (start + k)
    | Some m \<Rightarrow> start \<le> m \<and> m < start + n \<and> P m \<and> (\<forall>k. start \<le> k \<and> k < m \<longrightarrow> \<not> P k))"
proof (induction n arbitrary: start)
  case (Suc n)
  show ?case
  proof (cases "P start")
    case False
    have "\<not> P k" if "start \<le> k" "k < m" "search_nonce P (Suc start) n = Some m" for k m
      using Suc.IH [of "Suc start"] that False by (cases "k = start") auto
    moreover have "\<not> P (start + k)" if "k < Suc n" "search_nonce P (Suc start) n = None" for k
      using Suc.IH [of "Suc start"] that False by (cases k) auto
    ultimately show ?thesis using Suc.IH [of "Suc start"] False by (auto split: option.splits)
  qed auto
qed simp

theorem mined_nonce_is_least:
  "(case mine_commit_nonce H anchor_block commitment bits of
      None \<Rightarrow> \<forall>n < 2 ^ 32. \<not> commit_nonce_ok H anchor_block commitment bits n
    | Some n \<Rightarrow> n < 2 ^ 32 \<and> commit_nonce_ok H anchor_block commitment bits n
        \<and> (\<forall>k < n. \<not> commit_nonce_ok H anchor_block commitment bits k))"
  using search_nonce_least [where P = "commit_nonce_ok H anchor_block commitment bits" and start = 0 and n = "2 ^ 32"]
  by (simp add: mine_commit_nonce_def split: option.splits)

subsection \<open>What cached evidence is worth\<close>

text \<open>The proof-of-work job of each header of a chain.\<close>

fun link_jobs :: "hasher \<Rightarrow> nat \<Rightarrow> nat \<Rightarrow> h256 \<Rightarrow> HeaderLink list \<Rightarrow> PowJob list" where
  "link_jobs H height i prev [] = []"
| "link_jobs H height i prev (link # links) =
     \<lparr>algo = midstate_pow_algo_at (sat_add64 height i), mining_hash = link_mining_hash H prev link,
      job_nonce = hl_nonce link, job_final_hash = final_hash link\<rparr>
     # link_jobs H height (i + 1) (final_hash link) links"

definition job_key :: "hasher \<Rightarrow> PowJob \<Rightarrow> h256" where
  "job_key H j =
     (let domain = (case algo j of
          Blake3Chain \<Rightarrow> ascii ''midwimble.checked-midstate-header.v1''
        | Walk \<Rightarrow> ascii ''midwimble.checked-midstate-header.walk.v1'')
      in hash_domain H domain [be_bytes (mining_hash j), le_bytes 8 (job_nonce j), be_bytes (job_final_hash j)])"

lemma link_key_job:
  "link_key H mining link al =
     job_key H \<lparr>algo = al, mining_hash = mining, job_nonce = hl_nonce link, job_final_hash = final_hash link\<rparr>"
  by (simp add: link_key_def job_key_def Let_def split: PowAlgo.splits)

lemma length_link_jobs [simp]: "length (link_jobs H height i prev links) = length links"
  by (induction links arbitrary: i prev) simp_all

lemma collect_jobs_Inr:
  "collect_jobs H known height i prev links (js, ix, ks) = Inr (js', ix', ks') \<Longrightarrow>
     js' = js @ filter (\<lambda>j. \<not> known (job_key H j)) (link_jobs H height i prev links)
     \<and> ks' = ks @ map (job_key H) (link_jobs H height i prev links)
     \<and> (\<forall>l \<in> set links. final_hash l < hl_target l)"
proof (induction links arbitrary: i prev js ix ks)
  case (Cons link links)
  have t: "final_hash link < hl_target link" "\<not> hl_target link \<le> final_hash link"
    using Cons.prems by (auto split: if_splits)
  let ?al = "midstate_pow_algo_at (sat_add64 height i)" and ?m = "link_mining_hash H prev link"
  show ?case
  proof (cases "known (link_key H ?m link ?al)")
    case True
    then have "collect_jobs H known height (i + 1) (final_hash link) links (js, ix, ks @ [link_key H ?m link ?al])
        = Inr (js', ix', ks')"
      using Cons.prems t by (simp add: Let_def)
    from Cons.IH [OF this] True t show ?thesis by (simp add: link_key_job)
  next
    case False
    then have "collect_jobs H known height (i + 1) (final_hash link) links
        (js @ [\<lparr>algo = ?al, mining_hash = ?m, job_nonce = hl_nonce link, job_final_hash = final_hash link\<rparr>], ix @ [i],
         ks @ [link_key H ?m link ?al]) = Inr (js', ix', ks')"
      using Cons.prems t by (simp add: Let_def)
    from Cons.IH [OF this] False t show ?thesis by (simp add: link_key_job)
  qed
qed simp

text \<open>Evidence that passes with a cache: it folds the payload, every header meets its target, and every
  header's work holds or its key is in the cache. The keys returned are those of all its headers.\<close>

lemma verify_proofs_with_Inr:
  assumes "0 < piece" and "verify_proofs_with H walk piece known m payload = Inr keys"
  defines "js \<equiv> link_jobs H (mi_height m) 0 (mi_prev_header_hash m) (mi_links m)"
  shows "anchor_fold H m payload = post_tx_midstate (mi_block m)"
    and "\<forall>l \<in> set (mi_links m). final_hash l < hl_target l"
    and "\<forall>j \<in> set js. PowJob_holds H walk j \<or> known (job_key H j)"
    and "keys = map (job_key H) js"
proof -
  obtain jobs ix ks where c: "collect_jobs H known (mi_height m) 0 (mi_prev_header_hash m) (mi_links m) ([], [], [])
        = Inr (jobs, ix, ks)" and keys: "keys = ks" and ok: "check_pow_jobs H walk piece jobs = Inr ()"
      and fold: "anchor_fold H m payload = post_tx_midstate (mi_block m)"
    using assms(2) by (auto simp: verify_proofs_with_def elim!: and_then_InrE split: if_splits sum.splits PowCheck.splits)
  note r = collect_jobs_Inr [OF c]
  show "anchor_fold H m payload = post_tx_midstate (mi_block m)" by (rule fold)
  show "\<forall>l \<in> set (mi_links m). final_hash l < hl_target l" using r by blast
  show "keys = map (job_key H) js" using r keys by (simp add: js_def)
  have "\<forall>j \<in> set jobs. PowJob_holds H walk j" using ok assms(1) by (simp add: check_pow_jobs_iff)
  then show "\<forall>j \<in> set js. PowJob_holds H walk j \<or> known (job_key H j)" using r by (auto simp: js_def)
qed

lemma header_chain_jobs:
  "header_chain_ok H walk height i prev links \<longleftrightarrow>
     (\<forall>l \<in> set links. final_hash l < hl_target l) \<and> (\<forall>j \<in> set (link_jobs H height i prev links). PowJob_holds H walk j)"
  by (induction links arbitrary: i prev) (auto simp: PowJob_holds_def)

lemma verify_standalone_with_Inr:
  assumes "verify_standalone_with E ser hex r depth_asked min_work known = Inr keys"
  obtains ev payload where "evidence r = Some ev"
    and "record_payload (env_hash E) ser (ar_checkpoint r) (mi_kind ev) (mw_header r) = Inr payload"
    and "check_policy ev depth_asked min_work = Inr ()"
    and "verify_proofs_with (env_hash E) (env_walk E) (pow_piece E) known ev payload = Inr keys"
    and "hex (Checkpoint_id (env_hash E) ser (ar_checkpoint r)) = checkpoint_id r"
  using assms by (auto simp: verify_standalone_with_def Let_def ok_or_def map_err_Inr elim!: and_then_InrE
      split: if_splits option.splits)

end
