(* ===== verification/Recovery.thy ===== *)
theory Recovery
  imports Checkpoints Stealth Mss Chain_Invariants "HOL-Library.Sublist"
begin

text \<open>
  The recovery epoch (\<^verbatim>\<open>src/src/core/recovery.rs\<close>): claims on the outputs of an anchored checkpoint,
  signed with hash-based keys once elliptic-curve ownership is off. The wallet's recovery key, the claim
  and its digest, and the state that accepts claims; a panic of the batched signature chains is an error
  value. \<open>ser\<close> is the binary serializer of a checkpoint.
\<close>

subsection \<open>The wallet's recovery key\<close>

definition DEFAULT_RECOVERY_HEIGHT :: nat where "DEFAULT_RECOVERY_HEIGHT = 10"

definition recovery_master_seed :: "hasher \<Rightarrow> bytes \<Rightarrow> h256" where
  "recovery_master_seed H seed = hash_domain H (ascii ''midwimble.wallet.recovery.v1'') [seed]"

definition derive_recovery_keypair ::
    "machine \<Rightarrow> h256 list option \<Rightarrow> bytes \<Rightarrow> nat \<Rightarrow> mss_error + MssKeypair" where
  "derive_recovery_keypair M saved seed height = mss_keygen M saved (recovery_master_seed (hash_fn M) seed) height"

definition recovery_public_key :: "machine \<Rightarrow> bytes \<Rightarrow> nat \<Rightarrow> mss_error + h256" where
  "recovery_public_key M seed height =
     (if height = 0 \<or> MAX_HEIGHT < height then Inl BadHeight
      else
        let master = recovery_master_seed (hash_fn M) seed in
        and_then (map_res (\<lambda>i. ok_or BatchPanic (leaf_public_key M master i)) [0..<2 ^ height]) (\<lambda>leaves.
        root_from_leaves (hash_fn M) leaves))"

subsection \<open>Claims\<close>

record 'pt Generators =
  gn_g :: 'pt
  gn_h :: 'pt

definition Generators_standard :: "('pt, 'sc) curve \<Rightarrow> 'pt Generators" where
  "Generators_standard C = \<lparr>gn_g = gen_g C, gn_h = gen_h C\<rparr>"

definition Generators_commit ::
    "('pt :: ab_group_add, 'sc :: comm_ring_1) curve \<Rightarrow> 'pt Generators \<Rightarrow> nat \<Rightarrow> 'sc \<Rightarrow> h256" where
  "Generators_commit C gens value blinding = compress C (smul C (of_nat value) (gn_g gens) + smul C blinding (gn_h gens))"

record ClaimedOutput =
  co_commitment :: h256
  co_entry :: UtxoEntry
  co_value :: nat
  co_blinding :: h256
  co_salt :: h256
  co_proof :: UtxoProof

datatype recovery_error =
    NotInCheckpoint | NoProof
  | PartsMismatch | OtherCheckpoint | NoOutputs | LeafUsed nat
  | AlreadyClaimed h256 | NotInUtxoSet h256 | RecoveryMismatch h256 | NonCanonicalBlinding | WrongOpening h256
  | ValueOverflow | OverSupply | BadRecoverySignature | RecoveryPanic

definition claimed_from_state ::
    "hasher \<Rightarrow> State \<Rightarrow> h256 \<Rightarrow> nat \<Rightarrow> h256 \<Rightarrow> h256 \<Rightarrow> recovery_error + ClaimedOutput" where
  "claimed_from_state H st commitment value blinding salt =
     and_then (ok_or NotInCheckpoint (om_get (utxos st) commitment)) (\<lambda>entry.
     and_then (ok_or NoProof (UtxoAccumulator_prove H True (utxo_set st) (utxo_leaf H commitment entry))) (\<lambda>pf.
     Inr \<lparr>co_commitment = commitment, co_entry = entry, co_value = value, co_blinding = blinding,
          co_salt = salt, co_proof = pf\<rparr>))"

record RecoveryClaim =
  rc_checkpoint_id :: h256
  rc_key :: h256
  rc_outputs :: "ClaimedOutput list"
  rc_destination :: h256
  rc_signature :: MssSignature

definition claim_digest :: "hasher \<Rightarrow> h256 \<Rightarrow> h256 \<Rightarrow> h256 \<Rightarrow> ClaimedOutput list \<Rightarrow> h256" where
  "claim_digest H cid key destination outs =
     hash_domain H (ascii ''midwimble.recovery-claim.v1'')
       ([NETWORK_MAGIC, be_bytes cid, be_bytes key, be_bytes destination]
        @ concat (map (\<lambda>out. [be_bytes (co_commitment out), le_bytes 8 (co_value out)]) outs))"

definition RecoveryClaim_digest :: "hasher \<Rightarrow> RecoveryClaim \<Rightarrow> h256" where
  "RecoveryClaim_digest H c = claim_digest H (rc_checkpoint_id c) (rc_key c) (rc_destination c) (rc_outputs c)"

definition RecoveryClaim_build ::
    "machine \<Rightarrow> MssKeypair \<Rightarrow> h256 \<Rightarrow> ClaimedOutput list \<Rightarrow> h256 \<Rightarrow> mss_error + RecoveryClaim \<times> MssKeypair" where
  "RecoveryClaim_build M key cid outs destination =
     (let recovery_key = mk_master_pk key;
          digest = claim_digest (hash_fn M) cid recovery_key destination outs in
      and_then (mss_sign M digest key) (\<lambda>(sig, key).
      Inr (\<lparr>rc_checkpoint_id = cid, rc_key = recovery_key, rc_outputs = outs, rc_destination = destination,
            rc_signature = sig\<rparr>, key)))"

subsection \<open>The epoch's state\<close>

record 'pt RecoveryState =
  rs_checkpoint :: Checkpoint
  rs_parts :: StateRootParts
  rs_gens :: "'pt Generators"
  claimed :: "h256 set"
  used_leaves :: "(h256 \<times> nat) set"
  total_claimed :: nat
  credited :: "(h256 \<times> nat) list"

definition activate ::
    "hasher \<Rightarrow> Checkpoint \<Rightarrow> StateRootParts \<Rightarrow> 'pt Generators \<Rightarrow> recovery_error + 'pt RecoveryState" where
  "activate H checkpoint parts gens =
     (if StateRootParts_root H parts \<noteq> mw_state_root checkpoint then Inl PartsMismatch
      else Inr \<lparr>rs_checkpoint = checkpoint, rs_parts = parts, rs_gens = gens, claimed = {}, used_leaves = {},
                total_claimed = 0, credited = []\<rparr>)"

definition is_claimed :: "'pt RecoveryState \<Rightarrow> h256 \<Rightarrow> bool" where
  "is_claimed s commitment \<longleftrightarrow> commitment \<in> claimed s"

definition check_output ::
    "hasher \<Rightarrow> ('pt :: ab_group_add, 'sc :: comm_ring_1) curve \<Rightarrow> 'pt RecoveryState \<Rightarrow> h256 \<Rightarrow> ClaimedOutput
      \<Rightarrow> h256 set \<times> nat \<Rightarrow> recovery_error + h256 set \<times> nat" where
  "check_output H C s key out seen_sum =
     (let (seen, acc) = seen_sum; c = co_commitment out in
      if c \<in> seen \<or> c \<in> claimed s then Inl (AlreadyClaimed c)
      else if \<not> verify_utxo_proof H True (utxo_leaf H c (co_entry out)) (co_proof out) (sr_utxo_root (rs_parts s))
      then Inl (NotInUtxoSet c)
      else if ue_recovery (co_entry out) \<noteq> recovery_commitment H key (co_value out) (co_blinding out) (co_salt out)
      then Inl (RecoveryMismatch c)
      else
        and_then (ok_or NonCanonicalBlinding (scalar_from_bytes C (co_blinding out))) (\<lambda>blinding.
        if Generators_commit C (rs_gens s) (co_value out) blinding \<noteq> c then Inl (WrongOpening c)
        else
          and_then (ok_or ValueOverflow (chk_add64 acc (co_value out))) (\<lambda>acc.
          Inr (insert c seen, acc))))"

definition apply_claim ::
    "machine \<Rightarrow> ('pt :: ab_group_add, 'sc :: comm_ring_1) curve \<Rightarrow> (Checkpoint \<Rightarrow> bytes) \<Rightarrow> RecoveryClaim
      \<Rightarrow> 'pt RecoveryState \<Rightarrow> recovery_error + nat \<times> 'pt RecoveryState" where
  "apply_claim M C ser claim s =
     (let H = hash_fn M; leaf = (rc_key claim, ms_leaf_index (rc_signature claim)) in
      if rc_checkpoint_id claim \<noteq> Checkpoint_id H ser (rs_checkpoint s) then Inl OtherCheckpoint
      else if rc_outputs claim = [] then Inl NoOutputs
      else if leaf \<in> used_leaves s then Inl (LeafUsed (ms_leaf_index (rc_signature claim)))
      else
        and_then (fold_res (check_output H C s (rc_key claim)) (rc_outputs claim) ({}, 0)) (\<lambda>(_, acc).
        and_then (ok_or ValueOverflow (chk_add64 (total_claimed s) acc)) (\<lambda>new_total.
        if sr_supply (rs_parts s) < new_total then Inl OverSupply
        else
          case mss_verify M (rc_signature claim) (RecoveryClaim_digest H claim) (rc_key claim) of
            None \<Rightarrow> Inl RecoveryPanic
          | Some ok \<Rightarrow>
              if \<not> ok then Inl BadRecoverySignature
              else Inr (acc, s\<lparr>used_leaves := insert leaf (used_leaves s),
                               claimed := claimed s \<union> set (map co_commitment (rc_outputs claim)),
                               total_claimed := new_total,
                               credited := credited s @ [(rc_destination claim, acc)]\<rparr>))))"

text \<open>The claims of an epoch in the order they come: a refused one leaves the state as it was. The result
  carries the accepted ones.\<close>

fun run_claims ::
    "machine \<Rightarrow> ('pt :: ab_group_add, 'sc :: comm_ring_1) curve \<Rightarrow> (Checkpoint \<Rightarrow> bytes) \<Rightarrow> RecoveryClaim list
      \<Rightarrow> 'pt RecoveryState \<Rightarrow> RecoveryClaim list \<times> 'pt RecoveryState" where
  "run_claims M C ser [] s = ([], s)"
| "run_claims M C ser (claim # claims) s =
     (case apply_claim M C ser claim s of
        Inl _ \<Rightarrow> run_claims M C ser claims s
      | Inr (_, s') \<Rightarrow> let (taken, s'') = run_claims M C ser claims s' in (claim # taken, s''))"


subsection \<open>What a claim must show\<close>

definition output_ok ::
    "hasher \<Rightarrow> ('pt :: ab_group_add, 'sc :: comm_ring_1) curve \<Rightarrow> StateRootParts \<Rightarrow> 'pt Generators \<Rightarrow> h256
      \<Rightarrow> ClaimedOutput \<Rightarrow> bool" where
  "output_ok H C parts gens key out \<longleftrightarrow>
     verify_utxo_proof H True (utxo_leaf H (co_commitment out) (co_entry out)) (co_proof out) (sr_utxo_root parts)
     \<and> ue_recovery (co_entry out) = recovery_commitment H key (co_value out) (co_blinding out) (co_salt out)
     \<and> (\<exists>b. scalar_from_bytes C (co_blinding out) = Some b \<and> Generators_commit C gens (co_value out) b = co_commitment out)"

definition claim_leaf :: "RecoveryClaim \<Rightarrow> h256 \<times> nat" where
  "claim_leaf c = (rc_key c, ms_leaf_index (rc_signature c))"

definition claim_commitments :: "RecoveryClaim \<Rightarrow> h256 list" where
  "claim_commitments c = map co_commitment (rc_outputs c)"

definition claim_value :: "RecoveryClaim \<Rightarrow> nat" where
  "claim_value c = sum_list (map co_value (rc_outputs c))"

lemma check_output_Inr:
  "check_output H C s key out (seen, acc) = Inr r \<longleftrightarrow>
     output_ok H C (rs_parts s) (rs_gens s) key out \<and> co_commitment out \<notin> seen \<union> claimed s
     \<and> acc + co_value out \<le> U64_MAX \<and> r = (insert (co_commitment out) seen, acc + co_value out)"
  by (auto simp: check_output_def output_ok_def Let_def and_then_Inr ok_or_Inr chk_add64_Some)

lemma check_outputs_Inr:
  "acc \<le> U64_MAX \<Longrightarrow> fold_res (check_output H C s key) outs (seen, acc) = Inr r \<longleftrightarrow>
     (\<forall>out \<in> set outs. output_ok H C (rs_parts s) (rs_gens s) key out)
     \<and> distinct (map co_commitment outs) \<and> set (map co_commitment outs) \<inter> (seen \<union> claimed s) = {}
     \<and> acc + sum_list (map co_value outs) \<le> U64_MAX
     \<and> r = (set (map co_commitment outs) \<union> seen, acc + sum_list (map co_value outs))"
proof (induction outs arbitrary: seen acc)
  case (Cons out outs)
  show ?case
  proof (cases "check_output H C s key out (seen, acc)")
    case (Inl e)
    then have "\<not> (output_ok H C (rs_parts s) (rs_gens s) key out \<and> co_commitment out \<notin> seen \<union> claimed s
        \<and> acc + co_value out \<le> U64_MAX)"
      by (metis check_output_Inr sum.distinct(1))
    then show ?thesis using Inl by auto
  next
    case (Inr t)
    then have t: "t = (insert (co_commitment out) seen, acc + co_value out)" "acc + co_value out \<le> U64_MAX"
        "output_ok H C (rs_parts s) (rs_gens s) key out" "co_commitment out \<notin> seen \<union> claimed s"
      by (simp_all add: check_output_Inr)
    have "fold_res (check_output H C s key) (out # outs) (seen, acc)
        = fold_res (check_output H C s key) outs (insert (co_commitment out) seen, acc + co_value out)"
      using Inr t(1) by simp
    then show ?thesis using Cons.IH [OF t(2), of "insert (co_commitment out) seen"] t by (auto simp: add.assoc)
  qed
qed auto

lemma apply_claim_Inr:
  "apply_claim M C ser claim s = Inr (v, s') \<longleftrightarrow>
     rc_checkpoint_id claim = Checkpoint_id (hash_fn M) ser (rs_checkpoint s) \<and> rc_outputs claim \<noteq> []
     \<and> claim_leaf claim \<notin> used_leaves s
     \<and> (\<forall>out \<in> set (rc_outputs claim). output_ok (hash_fn M) C (rs_parts s) (rs_gens s) (rc_key claim) out)
     \<and> distinct (claim_commitments claim) \<and> set (claim_commitments claim) \<inter> claimed s = {}
     \<and> v = claim_value claim \<and> v \<le> U64_MAX \<and> total_claimed s + v \<le> U64_MAX \<and> total_claimed s + v \<le> sr_supply (rs_parts s)
     \<and> mss_verify M (rc_signature claim) (RecoveryClaim_digest (hash_fn M) claim) (rc_key claim) = Some True
     \<and> s' = s\<lparr>used_leaves := insert (claim_leaf claim) (used_leaves s),
              claimed := claimed s \<union> set (claim_commitments claim), total_claimed := total_claimed s + v,
              credited := credited s @ [(rc_destination claim, v)]\<rparr>"
proof -
  let ?H = "hash_fn M"
  let ?verify = "mss_verify M (rc_signature claim) (RecoveryClaim_digest ?H claim) (rc_key claim)"
  have sums: "fold_res (check_output ?H C s (rc_key claim)) (rc_outputs claim) ({}, 0) = Inr r \<longleftrightarrow>
      (\<forall>out \<in> set (rc_outputs claim). output_ok ?H C (rs_parts s) (rs_gens s) (rc_key claim) out)
      \<and> distinct (claim_commitments claim) \<and> set (claim_commitments claim) \<inter> claimed s = {}
      \<and> claim_value claim \<le> U64_MAX \<and> r = (set (claim_commitments claim), claim_value claim)" for r
    by (simp add: check_outputs_Inr claim_commitments_def claim_value_def)
  have verdict: "(case ?verify of None \<Rightarrow> Inl RecoveryPanic | Some ok \<Rightarrow> if \<not> ok then Inl BadRecoverySignature else Inr x) = Inr y
      \<longleftrightarrow> ?verify = Some True \<and> y = x" for x y :: "nat \<times> 'a RecoveryState"
    by (auto split: option.splits)
  show ?thesis
    by (auto simp: apply_claim_def Let_def and_then_Inr ok_or_Inr chk_add64_Some sums verdict claim_leaf_def
        claim_commitments_def [symmetric])
qed

subsection \<open>Epochs\<close>

lemma activate_Inr:
  "activate H cp parts gens = Inr s \<longleftrightarrow> StateRootParts_root H parts = mw_state_root cp \<and>
     s = \<lparr>rs_checkpoint = cp, rs_parts = parts, rs_gens = gens, claimed = {}, used_leaves = {}, total_claimed = 0,
          credited = []\<rparr>"
  by (auto simp: activate_def)

lemma run_claims_effect:
  assumes "run_claims M C ser claims s = (taken, s')"
  shows "subseq taken claims" and "rs_checkpoint s' = rs_checkpoint s" and "rs_parts s' = rs_parts s"
    and "rs_gens s' = rs_gens s"
    and "\<forall>c \<in> set taken. \<exists>t t' v. apply_claim M C ser c t = Inr (v, t') \<and> rs_checkpoint t = rs_checkpoint s
           \<and> rs_parts t = rs_parts s \<and> rs_gens t = rs_gens s"
    and "distinct (concat (map claim_commitments taken))"
    and "set (concat (map claim_commitments taken)) \<inter> claimed s = {}"
    and "claimed s' = claimed s \<union> set (concat (map claim_commitments taken))"
    and "distinct (map claim_leaf taken)" and "set (map claim_leaf taken) \<inter> used_leaves s = {}"
    and "used_leaves s' = used_leaves s \<union> set (map claim_leaf taken)"
    and "total_claimed s' = total_claimed s + sum_list (map claim_value taken)"
    and "credited s' = credited s @ map (\<lambda>c. (rc_destination c, claim_value c)) taken"
    and "total_claimed s \<le> sr_supply (rs_parts s) \<Longrightarrow> total_claimed s' \<le> sr_supply (rs_parts s)"
proof -
  have "subseq taken claims \<and> rs_checkpoint s' = rs_checkpoint s \<and> rs_parts s' = rs_parts s \<and> rs_gens s' = rs_gens s
    \<and> (\<forall>c \<in> set taken. \<exists>t t' v. apply_claim M C ser c t = Inr (v, t') \<and> rs_checkpoint t = rs_checkpoint s
           \<and> rs_parts t = rs_parts s \<and> rs_gens t = rs_gens s)
    \<and> distinct (concat (map claim_commitments taken)) \<and> set (concat (map claim_commitments taken)) \<inter> claimed s = {}
    \<and> claimed s' = claimed s \<union> set (concat (map claim_commitments taken))
    \<and> distinct (map claim_leaf taken) \<and> set (map claim_leaf taken) \<inter> used_leaves s = {}
    \<and> used_leaves s' = used_leaves s \<union> set (map claim_leaf taken)
    \<and> total_claimed s' = total_claimed s + sum_list (map claim_value taken)
    \<and> credited s' = credited s @ map (\<lambda>c. (rc_destination c, claim_value c)) taken
    \<and> (total_claimed s \<le> sr_supply (rs_parts s) \<longrightarrow> total_claimed s' \<le> sr_supply (rs_parts s))"
    (is "?goal taken claims s s'")
    using assms
  proof (induction claims arbitrary: s taken)
    case (Cons claim claims)
    show ?case
    proof (cases "apply_claim M C ser claim s")
      case (Inl e)
      then have "run_claims M C ser claims s = (taken, s')" using Cons.prems by simp
      from Cons.IH [OF this] show ?thesis by auto
    next
      case (Inr r)
      obtain v s1 where r: "r = (v, s1)" by (cases r)
      obtain rest where rest: "run_claims M C ser claims s1 = (rest, s')" and taken: "taken = claim # rest"
        using Cons.prems Inr r by (auto simp: Let_def split: prod.splits)
      note step = Inr [unfolded r apply_claim_Inr]
      have s1: "rs_checkpoint s1 = rs_checkpoint s" "rs_parts s1 = rs_parts s" "rs_gens s1 = rs_gens s"
          "claimed s1 = claimed s \<union> set (claim_commitments claim)" "used_leaves s1 = insert (claim_leaf claim) (used_leaves s)"
          "total_claimed s1 = total_claimed s + claim_value claim"
          "credited s1 = credited s @ [(rc_destination claim, claim_value claim)]"
        using step by simp_all
      note IH = Cons.IH [OF rest]
      have "\<exists>t t' v. apply_claim M C ser claim t = Inr (v, t') \<and> rs_checkpoint t = rs_checkpoint s
           \<and> rs_parts t = rs_parts s \<and> rs_gens t = rs_gens s"
        using Inr r by blast
      moreover have "total_claimed s1 \<le> sr_supply (rs_parts s)" using step s1 by simp
      ultimately show ?thesis using IH step unfolding s1 taken by auto
    qed
  qed simp
  then show "subseq taken claims" and "rs_checkpoint s' = rs_checkpoint s" and "rs_parts s' = rs_parts s"
    and "rs_gens s' = rs_gens s"
    and "\<forall>c \<in> set taken. \<exists>t t' v. apply_claim M C ser c t = Inr (v, t') \<and> rs_checkpoint t = rs_checkpoint s
           \<and> rs_parts t = rs_parts s \<and> rs_gens t = rs_gens s"
    and "distinct (concat (map claim_commitments taken))"
    and "set (concat (map claim_commitments taken)) \<inter> claimed s = {}"
    and "claimed s' = claimed s \<union> set (concat (map claim_commitments taken))"
    and "distinct (map claim_leaf taken)" and "set (map claim_leaf taken) \<inter> used_leaves s = {}"
    and "used_leaves s' = used_leaves s \<union> set (map claim_leaf taken)"
    and "total_claimed s' = total_claimed s + sum_list (map claim_value taken)"
    and "credited s' = credited s @ map (\<lambda>c. (rc_destination c, claim_value c)) taken"
    and "total_claimed s \<le> sr_supply (rs_parts s) \<Longrightarrow> total_claimed s' \<le> sr_supply (rs_parts s)"
    by blast+
qed


text \<open>An inclusion proof that verifies is of a coin in the tree, or exhibits a collision of the hash.\<close>

lemma verified_coin:
  assumes "utxo_ok H True u" and "verify_utxo_proof H True c pf (UtxoAccumulator_root H True u)" and "c \<noteq> 0"
  shows "c \<in> set (coins u)
    \<or> (\<exists>x y. find_collision H True (set (coins u)) c 0 (siblings pf) c = Some (x, y) \<and> x \<noteq> y \<and> H x = H y)"
proof (rule disjCI)
  assume none: "\<not> (\<exists>x y. find_collision H True (set (coins u)) c 0 (siblings pf) c = Some (x, y) \<and> x \<noteq> y \<and> H x = H y)"
  show "c \<in> set (coins u)"
  proof (rule ccontr)
    assume "c \<notin> set (coins u)"
    then have "\<exists>x y. find_collision H True (set (coins u)) c 0 (siblings pf) c = Some (x, y) \<and> x \<noteq> y \<and> H x = H y"
      using assms by (intro bogus_path_collides)
        (auto simp: verify_utxo_proof_def SMT_HEIGHT_def utxo_root mask_lower_bits_def)
    with none show False by blast
  qed
qed

definition genuinely_unspent :: "hasher \<Rightarrow> UtxoAccumulator \<Rightarrow> ClaimedOutput \<Rightarrow> bool" where
  "genuinely_unspent H u out \<longleftrightarrow>
     (let leaf = utxo_leaf H (co_commitment out) (co_entry out) in
      leaf \<in> set (coins u) \<or> leaf = 0
      \<or> (\<exists>x y. find_collision H True (set (coins u)) leaf 0 (siblings (co_proof out)) leaf = Some (x, y)
           \<and> x \<noteq> y \<and> H x = H y))"

text \<open>A payment a wallet found by scanning, with the recovery commitment its sender owed it, can be recovered:
  the claim the wallet builds from the checkpoint's state and signs with any unused leaf of its recovery
  key is accepted in any epoch where the output is not claimed yet and the supply leaves room, and credits
  its whole value.\<close>

lemma wallet_claim_accepted:
  assumes "curve_ok C" and "machine_ok M" and "checkpoint_of M (recovery_master_seed (hash_fn M) seed) (2 ^ h) saved"
    and "derive_recovery_keypair M saved seed h = Inr kp" and "recovery_key keys = mk_master_pk kp" and "n < 2 ^ h"
    and "utxo_ok (hash_fn M) True (utxo_set st)" and "committed (hash_fn M) st" and "om_wf (utxos st)"
    and "om_get (utxos st) (o_commitment out) = Some entry" and "ue_recovery entry = o_recovery out"
    and "scan_output (hash_fn M) C A keys out = Some ow" and "recovery_ok ow"
    and "activate (hash_fn M) cp parts (Generators_standard C) = Inr s0"
    and "sr_utxo_root parts = UtxoAccumulator_root (hash_fn M) True (utxo_set st)" and "sr_supply parts \<le> U64_MAX"
    and "run_claims M C ser claims s0 = (taken, s)"
    and "\<not> is_claimed s (o_commitment out)" and "(mk_master_pk kp, n) \<notin> used_leaves s"
    and "total_claimed s + ow_value ow \<le> sr_supply parts"
  shows "\<exists>co claim kp' s'.
      claimed_from_state (hash_fn M) st (o_commitment out) (ow_value ow) (scalar_to_bytes C (ow_blinding ow)) (ow_salt ow)
        = Inr co
    \<and> RecoveryClaim_build M (set_next_leaf n kp) (Checkpoint_id (hash_fn M) ser cp) [co] destination = Inr (claim, kp')
    \<and> mk_next_leaf kp' = n + 1
    \<and> apply_claim M C ser claim s = Inr (ow_value ow, s')
    \<and> is_claimed s' (o_commitment out) \<and> credited s' = credited s @ [(destination, ow_value ow)]"
proof -
  let ?H = "hash_fn M" and ?seed = "recovery_master_seed (hash_fn M) seed" and ?c = "o_commitment out"
  let ?leaf = "utxo_leaf ?H ?c entry"
  have h: "0 < h" "h \<le> MAX_HEIGHT"
    using assms(4) by (auto simp: derive_recovery_keypair_def mss_keygen_def split: if_splits)
  have kp: "kp = key_at M ?seed h 0"
    using mss_keygen_tree [OF assms(2,3) h] assms(4) by (simp add: derive_recovery_keypair_def key_at_def)
  then have kpn: "set_next_leaf n kp = key_at M ?seed h n" by (simp add: key_at_def set_next_leaf_def)
  have pk: "mk_master_pk kp = full_tree M ?seed (2 ^ h) ! 1" by (simp add: kp key_at_def)
  have "(?c, entry) \<in> set (utxos st)" using assms(9,10) by (simp add: om_get_iff)
  then have "?leaf \<in> set (coins (utxo_set st))"
    using assms(8) by (force simp: committed_def entry_leaf_def)
  then obtain pf where pf: "UtxoAccumulator_prove ?H True (utxo_set st) ?leaf = Some pf"
      "verify_utxo_proof ?H True ?leaf pf (sr_utxo_root parts)"
    using prove_siblings [OF assms(7)] ref_proof_verifies assms(7,15) by (metis utxo_root)
  define co where "co = \<lparr>co_commitment = ?c, co_entry = entry, co_value = ow_value ow,
      co_blinding = scalar_to_bytes C (ow_blinding ow), co_salt = ow_salt ow, co_proof = pf\<rparr>"
  have from_state: "claimed_from_state ?H st ?c (ow_value ow) (scalar_to_bytes C (ow_blinding ow)) (ow_salt ow) = Inr co"
    using assms(10) pf(1) by (simp add: claimed_from_state_def ok_or_def co_def)
  define digest where "digest = claim_digest ?H (Checkpoint_id ?H ser cp) (mk_master_pk kp) destination [co]"
  obtain sig where sig: "mss_sign M digest (key_at M ?seed h n) = Inr (sig, key_at M ?seed h (n + 1))"
      "ms_leaf_index sig = n" "mss_verify M sig digest (mk_master_pk kp) = Some True"
    using mss_sign_key [OF assms(2) h(2) assms(6), of digest ?seed] unfolding pk by blast
  define claim where "claim = \<lparr>rc_checkpoint_id = Checkpoint_id ?H ser cp, rc_key = mk_master_pk kp, rc_outputs = [co],
      rc_destination = destination, rc_signature = sig\<rparr>"
  have "mk_master_pk (key_at M ?seed h n) = mk_master_pk kp" by (simp add: key_at_def kp)
  then have built: "RecoveryClaim_build M (set_next_leaf n kp) (Checkpoint_id ?H ser cp) [co] destination
      = Inr (claim, key_at M ?seed h (n + 1))"
    using sig(1) by (simp add: RecoveryClaim_build_def kpn claim_def digest_def Let_def)
  note e = run_claims_effect [OF assms(17)]
  have s: "rs_checkpoint s = cp" "rs_parts s = parts" "rs_gens s = Generators_standard C"
    using e(2-4) assms(14) by (simp_all add: activate_Inr)
  have "compress C (commit C (ow_value ow) (ow_blinding ow)) = ?c"
    by (rule scan_output_Some [OF assms(1,12)])
  then have opens: "Generators_commit C (Generators_standard C) (ow_value ow) (ow_blinding ow) = ?c"
    by (simp add: Generators_commit_def Generators_standard_def commit_def)
  have "o_recovery out
      = recovery_commitment ?H (mk_master_pk kp) (ow_value ow) (scalar_to_bytes C (ow_blinding ow)) (ow_salt ow)"
    using assms(5,12,13) by (auto simp: scan_output_map [OF assms(1)])
  then have ok: "output_ok ?H C parts (Generators_standard C) (mk_master_pk kp) co"
    using pf(2) assms(11) opens curve_laws(2) [OF assms(1)] by (auto simp: output_ok_def co_def)
  have digest: "RecoveryClaim_digest ?H claim = digest"
    by (simp add: RecoveryClaim_digest_def claim_def digest_def)
  have "apply_claim M C ser claim s = Inr (ow_value ow, s\<lparr>used_leaves := insert (claim_leaf claim) (used_leaves s),
              claimed := claimed s \<union> set (claim_commitments claim), total_claimed := total_claimed s + ow_value ow,
              credited := credited s @ [(rc_destination claim, ow_value ow)]\<rparr>)"
    unfolding apply_claim_Inr s digest
    using ok sig(2,3) assms(16,18-20)
    by (simp add: claim_def claim_leaf_def claim_commitments_def claim_value_def is_claimed_def co_def)
  then show ?thesis
    using from_state built
    by (auto simp: is_claimed_def claim_def claim_commitments_def co_def key_at_def intro!: exI)
qed

subsection \<open>Properties\<close>

text \<open>C16. Whatever claims arrive in an epoch, no output is claimed twice, no leaf of a recovery key signs twice,
  and what was credited is exactly the value of the claims accepted and at most the checkpoint's supply.
  Every accepted output comes with the opening of its commitment that its recovery commitment froze,
  under a signature of the recovery key, and is one of the checkpoint's coins unless the proof exhibits a
  hash collision or the coin's leaf hashes to zero, the value of an empty leaf.\<close>

theorem recovery_never_pays_twice:
  assumes "activate (hash_fn M) cp parts gens = Inr s0" and "run_claims M C ser claims s0 = (taken, s)"
    and "utxo_ok (hash_fn M) True u" and "UtxoAccumulator_root (hash_fn M) True u = sr_utxo_root parts"
  shows "subseq taken claims \<and> distinct (concat (map claim_commitments taken)) \<and> distinct (map claim_leaf taken)
    \<and> claimed s = set (concat (map claim_commitments taken))
    \<and> credited s = map (\<lambda>c. (rc_destination c, claim_value c)) taken
    \<and> total_claimed s = sum_list (map snd (credited s)) \<and> total_claimed s \<le> sr_supply parts
    \<and> (\<forall>c \<in> set taken.
          mss_verify M (rc_signature c) (RecoveryClaim_digest (hash_fn M) c) (rc_key c) = Some True
          \<and> (\<forall>out \<in> set (rc_outputs c). output_ok (hash_fn M) C parts gens (rc_key c) out
                \<and> genuinely_unspent (hash_fn M) u out))"
proof -
  note s0 = assms(1) [unfolded activate_Inr, THEN conjunct2]
  have init: "rs_parts s0 = parts" "rs_gens s0 = gens" "claimed s0 = {}" "credited s0 = []" "total_claimed s0 = 0"
    by (simp_all add: s0)
  note e = run_claims_effect [OF assms(2)]
  have each: "mss_verify M (rc_signature c) (RecoveryClaim_digest (hash_fn M) c) (rc_key c) = Some True
      \<and> (\<forall>out \<in> set (rc_outputs c). output_ok (hash_fn M) C parts gens (rc_key c) out)" if c: "c \<in> set taken" for c
  proof -
    obtain t t' v where "apply_claim M C ser c t = Inr (v, t')" "rs_parts t = parts" "rs_gens t = gens"
      using bspec [OF e(5) c] unfolding init by blast
    then show ?thesis unfolding apply_claim_Inr by auto
  qed
  have "genuinely_unspent (hash_fn M) u out" if "output_ok (hash_fn M) C parts gens key out" for key out
    using that verified_coin [OF assms(3)] assms(4) unfolding genuinely_unspent_def output_ok_def Let_def by metis
  then have "\<forall>c \<in> set taken.
          mss_verify M (rc_signature c) (RecoveryClaim_digest (hash_fn M) c) (rc_key c) = Some True
          \<and> (\<forall>out \<in> set (rc_outputs c). output_ok (hash_fn M) C parts gens (rc_key c) out
                \<and> genuinely_unspent (hash_fn M) u out)"
    using each by blast
  moreover have "sum_list (map snd (credited s)) = sum_list (map claim_value taken)"
    by (simp add: e(13) init o_def)
  ultimately show ?thesis using e(1,6,8,9,12,13,14) init by auto
qed


text \<open>C17. A payment made to a wallet's address stays the wallet's after a break of the curve: once its output is in
  the checkpoint, the wallet finds it by scanning, builds a claim from the checkpoint's state and signs it
  with any unused leaf of its recovery key, and every epoch in which the output is not claimed yet and the
  supply leaves room accepts the claim and credits the payment's whole value.\<close>

theorem payments_are_recoverable:
  assumes "curve_ok C" and "aead_ok A" and "machine_ok M" and "value < 2 ^ 64" and "length nonce = NONCE_LEN"
    and "new_output (hash_fn M) C A (WalletKeys_address C keys) value r blinding nonce = Inr pay"
    and "checkpoint_of M (recovery_master_seed (hash_fn M) seed) (2 ^ h) saved"
    and "derive_recovery_keypair M saved seed h = Inr kp" and "recovery_key keys = mk_master_pk kp" and "n < 2 ^ h"
    and "utxo_ok (hash_fn M) True (utxo_set st)" and "committed (hash_fn M) st" and "om_wf (utxos st)"
    and "om_get (utxos st) (o_commitment (no_output pay)) = Some (new_entry (hash_fn M) height cb (no_output pay))"
    and "activate (hash_fn M) cp parts (Generators_standard C) = Inr s0"
    and "sr_utxo_root parts = UtxoAccumulator_root (hash_fn M) True (utxo_set st)" and "sr_supply parts \<le> U64_MAX"
    and "run_claims M C ser claims s0 = (taken, s)"
    and "\<not> is_claimed s (o_commitment (no_output pay))" and "(mk_master_pk kp, n) \<notin> used_leaves s"
    and "total_claimed s + value \<le> sr_supply parts"
  shows "\<exists>ow co claim kp' s'.
      scan_output (hash_fn M) C A keys (no_output pay) = Some ow
    \<and> claimed_from_state (hash_fn M) st (o_commitment (no_output pay)) (ow_value ow)
        (scalar_to_bytes C (ow_blinding ow)) (ow_salt ow) = Inr co
    \<and> RecoveryClaim_build M (set_next_leaf n kp) (Checkpoint_id (hash_fn M) ser cp) [co] destination = Inr (claim, kp')
    \<and> mk_next_leaf kp' = n + 1
    \<and> apply_claim M C ser claim s = Inr (value, s')
    \<and> is_claimed s' (o_commitment (no_output pay)) \<and> credited s' = credited s @ [(destination, value)]"
proof -
  note found = detect_new_output [OF assms(1,2,4,5,6)]
  obtain ow where ow: "scan_output (hash_fn M) C A keys (no_output pay) = Some ow" "recovery_ok ow" "ow_value ow = value"
    using found by (simp add: scan_output_map [OF assms(1)])
  have "ue_recovery (new_entry (hash_fn M) height cb (no_output pay)) = o_recovery (no_output pay)"
    by (simp add: new_entry_def)
  from wallet_claim_accepted [OF assms(1,3,7-14) this ow(1,2) assms(15-20) assms(21) [folded ow(3)]] show ?thesis
    using ow by metis
qed


text \<open>The public key computed leaf by leaf, as a library inside another process does, is the public key of the
  generated key pair.\<close>

theorem public_key_is_keypairs:
  assumes "machine_ok M" and "checkpoint_of M (recovery_master_seed (hash_fn M) seed) (2 ^ h) saved"
  shows "recovery_public_key M seed h = map_sum (\<lambda>e. e) mk_master_pk (derive_recovery_keypair M saved seed h)"
proof (cases "h = 0 \<or> MAX_HEIGHT < h")
  case True
  then show ?thesis by (auto simp: recovery_public_key_def derive_recovery_keypair_def mss_keygen_def)
next
  case False
  let ?seed = "recovery_master_seed (hash_fn M) seed"
  have "map_res (\<lambda>i. ok_or BatchPanic (leaf_public_key M ?seed i)) is = Inr (map (\<lambda>i. the (leaf_public_key M ?seed i)) is)"
    for "is" by (induction "is") (simp_all add: leaf_public_key_Some [OF assms(1)] ok_or_def)
  then show ?thesis
    using mss_generation_agrees [OF assms] False
    by (auto simp: recovery_public_key_def derive_recovery_keypair_def Let_def not_less)
qed

subsection \<open>A concrete epoch\<close>

definition sample_recovery_key :: MssKeypair where
  "sample_recovery_key = key_at sample_machine (recovery_master_seed (hash_fn sample_machine) [1]) 1 0"

definition sample_wallet :: "h256 WalletKeys" where
  "sample_wallet = \<lparr>scan_secret = 2, spend_secret = 6, recovery_key = mk_master_pk sample_recovery_key\<rparr>"

definition sample_payment :: "h256 NewOutput" where
  "sample_payment =
     (case new_output (hash_fn sample_machine) word_curve sample_aead (WalletKeys_address word_curve sample_wallet) 8 1 2
        (replicate 24 0) of Inr pay \<Rightarrow> pay)"

definition sample_entry :: UtxoEntry where
  "sample_entry = new_entry (hash_fn sample_machine) 5 False (no_output sample_payment)"

definition sample_coins :: UtxoAccumulator where
  "sample_coins = fst (UtxoAccumulator_insert (hash_fn sample_machine) True
     (utxo_leaf (hash_fn sample_machine) (o_commitment (no_output sample_payment)) sample_entry) UtxoAccumulator_new)"

definition sample_snapshot :: State where
  "sample_snapshot = (State_genesis (hash_fn sample_machine))
     \<lparr>utxos := [(o_commitment (no_output sample_payment), sample_entry)], utxo_set := sample_coins\<rparr>"

definition sample_parts :: StateRootParts where
  "sample_parts =
     \<lparr>sr_utxo_root = UtxoAccumulator_root (hash_fn sample_machine) True sample_coins, sr_kernel_root = 0,
      sr_chain_mmr_root = 0, sr_kernel_excess_sum = 0, sr_total_kernel_offset = 0, sr_supply = 8, sr_bonds_root = 0,
      sr_relay_root = 0\<rparr>"

definition sample_checkpoint :: Checkpoint where
  "sample_checkpoint =
     \<lparr>cp_version = 1, cp_network = 0, mw_height = 6, mw_header_hash = 0,
      mw_state_root = StateRootParts_root (hash_fn sample_machine) sample_parts, mw_cumulative_work = 0,
      previous_checkpoint = 0\<rparr>"

definition sample_epoch :: "h256 RecoveryState" where
  "sample_epoch =
     \<lparr>rs_checkpoint = sample_checkpoint, rs_parts = sample_parts, rs_gens = Generators_standard word_curve,
      claimed = {}, used_leaves = {}, total_claimed = 0, credited = []\<rparr>"

lemma sample_recovery_key_derived:
  "checkpoint_of sample_machine (recovery_master_seed (hash_fn sample_machine) [1]) (2 ^ 1) None"
  "derive_recovery_keypair sample_machine None [1] 1 = Inr sample_recovery_key"
proof -
  show c: "checkpoint_of sample_machine (recovery_master_seed (hash_fn sample_machine) [1]) (2 ^ 1) None"
    by (simp add: checkpoint_of_def)
  show "derive_recovery_keypair sample_machine None [1] 1 = Inr sample_recovery_key"
    using mss_keygen_tree [OF sample_machine_ok c]
    by (simp add: derive_recovery_keypair_def sample_recovery_key_def key_at_def MAX_HEIGHT_def)
qed

lemma sample_payment_made:
  "new_output (hash_fn sample_machine) word_curve sample_aead (WalletKeys_address word_curve sample_wallet) 8 1 2
     (replicate 24 0) = Inr sample_payment"
proof -
  obtain pay where "new_output (hash_fn sample_machine) word_curve sample_aead (WalletKeys_address word_curve sample_wallet)
      8 1 2 (replicate 24 0) = Inr pay"
    by (simp add: new_output_def address_points_def WalletKeys_address_def word_curve_def sample_wallet_def
        mul_base_def ok_or_def Let_def)
  then show ?thesis by (simp add: sample_payment_def)
qed

lemma sample_coins_ok: "utxo_ok (hash_fn sample_machine) True sample_coins"
  unfolding sample_coins_def by (rule utxo_insert [OF utxo_ok_new, THEN conjunct1])

lemma sample_snapshot_ok:
  "utxo_set sample_snapshot = sample_coins" "committed (hash_fn sample_machine) sample_snapshot"
  "om_wf (utxos sample_snapshot)"
  "om_get (utxos sample_snapshot) (o_commitment (no_output sample_payment)) = Some sample_entry"
  by (simp_all add: sample_snapshot_def committed_def entry_leaf_def sample_coins_def UtxoAccumulator_insert_def
      UtxoAccumulator_new_def om_wf_def om_get_def Let_def)

lemma sample_epoch_active:
  "activate (hash_fn sample_machine) sample_checkpoint sample_parts (Generators_standard word_curve) = Inr sample_epoch"
  by (simp add: activate_def sample_checkpoint_def sample_epoch_def)

lemma sample_claim:
  "\<exists>claim s. apply_claim sample_machine word_curve (\<lambda>_. []) claim sample_epoch = Inr (8, s)"
proof -
  note found = detect_new_output [OF word_curve_ok sample_aead_ok _ _ sample_payment_made]
  obtain ow where ow: "scan_output (hash_fn sample_machine) word_curve sample_aead sample_wallet (no_output sample_payment) = Some ow"
      "recovery_ok ow" "ow_value ow = 8"
    using found by (simp add: scan_output_map [OF word_curve_ok] NONCE_LEN_def)
  have "ue_recovery sample_entry = o_recovery (no_output sample_payment)" by (simp add: sample_entry_def new_entry_def)
  from wallet_claim_accepted [OF word_curve_ok sample_machine_ok sample_recovery_key_derived _ _
      sample_coins_ok [folded sample_snapshot_ok(1)] sample_snapshot_ok(2-4) this ow(1,2) sample_epoch_active,
      where claims = "[]" and n = 0 and ser = "\<lambda>_. []"]
  show ?thesis
    using ow(3) by (fastforce simp: sample_wallet_def sample_parts_def sample_snapshot_ok is_claimed_def sample_epoch_def)
qed

theorem recovery_never_pays_twice_witness:
  "\<exists>claim s. run_claims sample_machine word_curve (\<lambda>_. []) [claim, claim] sample_epoch = ([claim], s)
     \<and> total_claimed s = 8 \<and> claimed s = set (claim_commitments claim)"
proof -
  obtain claim s where c: "apply_claim sample_machine word_curve (\<lambda>_. []) claim sample_epoch = Inr (8, s)"
    using sample_claim by blast
  then have leaf: "claim_leaf claim \<in> used_leaves s" and v: "claim_value claim = 8" unfolding apply_claim_Inr by auto
  have "\<exists>e. apply_claim sample_machine word_curve (\<lambda>_. []) claim s = Inl e"
    using leaf by (cases "apply_claim sample_machine word_curve (\<lambda>_. []) claim s") (auto simp: apply_claim_Inr)
  then have run: "run_claims sample_machine word_curve (\<lambda>_. []) [claim, claim] sample_epoch = ([claim], s)"
    using c by auto
  have "UtxoAccumulator_root (hash_fn sample_machine) True sample_coins = sr_utxo_root sample_parts"
    by (simp add: sample_parts_def)
  from recovery_never_pays_twice [OF sample_epoch_active run sample_coins_ok this] show ?thesis
    using run v by (intro exI [of _ claim] exI [of _ s]) simp
qed

theorem payments_are_recoverable_witness:
  "\<exists>claim s. apply_claim sample_machine word_curve (\<lambda>_. []) claim sample_epoch = Inr (8, s) \<and> credited s = [(7, 8)]"
proof -
  have root: "sr_utxo_root sample_parts = UtxoAccumulator_root (hash_fn sample_machine) True (utxo_set sample_snapshot)"
    by (simp add: sample_parts_def sample_snapshot_ok)
  have "\<exists>ow co claim kp' s'.
      scan_output (hash_fn sample_machine) word_curve sample_aead sample_wallet (no_output sample_payment) = Some ow
    \<and> claimed_from_state (hash_fn sample_machine) sample_snapshot (o_commitment (no_output sample_payment)) (ow_value ow)
        (scalar_to_bytes word_curve (ow_blinding ow)) (ow_salt ow) = Inr co
    \<and> RecoveryClaim_build sample_machine (set_next_leaf 0 sample_recovery_key)
        (Checkpoint_id (hash_fn sample_machine) (\<lambda>_. []) sample_checkpoint) [co] 7 = Inr (claim, kp')
    \<and> mk_next_leaf kp' = 0 + 1
    \<and> apply_claim sample_machine word_curve (\<lambda>_. []) claim sample_epoch = Inr (8, s')
    \<and> is_claimed s' (o_commitment (no_output sample_payment)) \<and> credited s' = credited sample_epoch @ [(7, 8)]"
    by (rule payments_are_recoverable [OF word_curve_ok sample_aead_ok sample_machine_ok _ _ sample_payment_made
        sample_recovery_key_derived _ _ sample_coins_ok [folded sample_snapshot_ok(1)] sample_snapshot_ok(2,3)
        sample_snapshot_ok(4) [unfolded sample_entry_def] sample_epoch_active root, where claims = "[]" and taken = "[]"])
      (simp_all add: NONCE_LEN_def sample_wallet_def sample_parts_def is_claimed_def sample_epoch_def)
  then show ?thesis by (auto simp: sample_epoch_def)
qed

end
