(* ===== verification/Orphan.thy ===== *)
theory Orphan
  imports Template_Properties
begin

text \<open>
  Orphaning over-cap blocks (\<^verbatim>\<open>src/src/core/orphan.rs\<close>): which blocks at the tip a producer may replace,
  and the template it builds on the block before them. None of it is consensus; what is proved is that the
  blocks passed over weigh next to nothing, and that a template handed out is a block every node takes and
  prefers to the tip.
\<close>

subsection \<open>Blocks that counted in full\<close>

definition MAX_ORPHAN_DEPTH :: nat where "MAX_ORPHAN_DEPTH = 100"
definition COMPATIBLE_ORPHAN_DEPTH :: nat where "COMPATIBLE_ORPHAN_DEPTH = 12"

definition full_weight :: "nat \<Rightarrow> nat \<Rightarrow> bool" where
  "full_weight credited work \<longleftrightarrow> sliver work < credited \<or> credited = work"

definition counted_in_full :: "BatchHeader \<Rightarrow> nat \<Rightarrow> bool" where
  "counted_in_full header weight_before \<longleftrightarrow>
     full_weight (hd_chain_weight header - weight_before) (calculate_work (hd_target header))"

text \<open>The loop of \<^verbatim>\<open>full_weight_blocks\<close>, with the header before as its state.\<close>

fun full_weight_loop :: "nat \<Rightarrow> BatchHeader option \<Rightarrow> nat \<Rightarrow> BatchHeader list \<Rightarrow> nat" where
  "full_weight_loop start before n [] = n"
| "full_weight_loop start before n (header # headers) =
     (let weight_before =
            (case before of
               Some b \<Rightarrow> if add64 (hd_height b) 1 = hd_height header then Some (hd_chain_weight b)
                         else if hd_height header = 0 then Some 0 else None
             | None \<Rightarrow> if hd_height header = 0 then Some 0 else None);
          full = (case weight_before of Some w \<Rightarrow> counted_in_full header w | None \<Rightarrow> False)
      in full_weight_loop start (Some header) (if start \<le> hd_height header \<and> full then n + 1 else n) headers)"

definition full_weight_blocks :: "BatchHeader list \<Rightarrow> nat \<Rightarrow> nat" where
  "full_weight_blocks headers start = full_weight_loop start None 0 headers"

definition linked_headers :: "BatchHeader \<Rightarrow> BatchHeader \<Rightarrow> bool" where
  "linked_headers lower block \<longleftrightarrow>
     hd_height block = add64 (hd_height lower) 1 \<and> hd_prev_header_hash block = ext_final_hash (hd_extension lower)"

text \<open>Whether the loop of \<^verbatim>\<open>orphanable_run\<close> goes past a block: it links, counted for a sliver, and none of the
  producer's bonds signed it.\<close>

definition passes_over :: "(h256 \<Rightarrow> bool) \<Rightarrow> BatchHeader \<Rightarrow> BatchHeader \<Rightarrow> bool" where
  "passes_over ours lower block \<longleftrightarrow>
     linked_headers lower block \<and> \<not> counted_in_full block (hd_chain_weight lower)
     \<and> \<not> (case hd_signer block of Some bid \<Rightarrow> ours bid | None \<Rightarrow> False)"

text \<open>The loop over \<^verbatim>\<open>windows(2).rev()\<close>: the headers are given newest first.\<close>

fun run_back :: "(h256 \<Rightarrow> bool) \<Rightarrow> nat \<Rightarrow> nat \<Rightarrow> BatchHeader list \<Rightarrow> nat" where
  "run_back ours max_depth run (block # lower # rest) =
     (if max_depth \<le> run \<or> \<not> passes_over ours lower block then run
      else run_back ours max_depth (run + 1) (lower # rest))"
| "run_back ours max_depth run _ = run"

definition orphanable_run :: "BatchHeader list \<Rightarrow> (h256 \<Rightarrow> bool) \<Rightarrow> nat \<Rightarrow> nat" where
  "orphanable_run headers ours max_depth = run_back ours max_depth 0 (rev headers)"

subsection \<open>Where to build\<close>

record OrphanBase =
  ob_state :: State
  ob_timestamps :: "nat list"
  ob_tip :: h256
  tip_weight :: nat
  run_signers :: "h256 option list"
  carried :: "Transaction list"

definition OrphanBase_height :: "OrphanBase \<Rightarrow> nat" where
  "OrphanBase_height b = st_height (ob_state b)"

definition OrphanBase_parent :: "OrphanBase \<Rightarrow> h256" where
  "OrphanBase_parent b = header_hash (ob_state b)"

definition OrphanBase_replaces :: "OrphanBase \<Rightarrow> nat" where
  "OrphanBase_replaces b = length (run_signers b)"

definition OrphanBase_signed_by :: "OrphanBase \<Rightarrow> 'sc MinerBond \<Rightarrow> bool" where
  "OrphanBase_signed_by b bond \<longleftrightarrow>
     (\<exists>bid \<in> set (List.map_filter (\<lambda>x. x) (run_signers b)).
        bid = mb_bond_id bond \<or> (\<exists>c \<in> set (mb_co_bonds bond). cb_bond_id c = bid))"

text \<open>The first of the transactions with each hash.\<close>

fun unseen :: "(Transaction \<Rightarrow> h256) \<Rightarrow> h256 set \<Rightarrow> Transaction list \<Rightarrow> Transaction list" where
  "unseen hash seen [] = []"
| "unseen hash seen (tx # txs) =
     (if hash tx \<in> seen then unseen hash seen txs else tx # unseen hash (insert (hash tx) seen) txs)"

definition orphan_candidates ::
    "('pt :: ab_group_add, 'sc :: comm_ring_1) env \<Rightarrow> State \<Rightarrow> Transaction list \<Rightarrow> Transaction list" where
  "orphan_candidates E state txs =
     filter (\<lambda>tx. lock_height tx \<le> st_height state \<and> is_ok (apply_body E state tx None 0))
       (unseen (Transaction_hash (env_hash E) (tx_bytes E)) {} txs)"

definition orphan_template ::
    "('pt :: ab_group_add, 'sc :: comm_ring_1) env \<Rightarrow> 'sc maker \<Rightarrow> 'sc maker \<Rightarrow> nat \<Rightarrow> OrphanBase \<Rightarrow> Transaction list
      \<Rightarrow> (StealthAddress \<times> nat) list \<Rightarrow> h256 \<Rightarrow> 'sc MinerBond option \<Rightarrow> feed option
      \<Rightarrow> (BlockTemplate \<times> receipts) option" where
  "orphan_template E L L' now base pool payouts extra bond feed =
     Option.bind bond (\<lambda>miner.
     if run_signers base = [] \<or> OrphanBase_signed_by base miner then None
     else
       let state = ob_state base;
           candidates = orphan_candidates E state (carried base @ pool);
           budget = transaction_budget state (length payouts) bond feed;
           txs = select_transactions (env_hash E) candidates (st_height state) budget;
           build = (\<lambda>L txs. build_template_relayed E L now state (ob_timestamps base) txs payouts extra None bond feed)
       in case (case build L txs of Inl _ \<Rightarrow> build L' [] | Inr r \<Rightarrow> Inr r) of
            Inl _ \<Rightarrow> None
          | Inr (t, receipts) \<Rightarrow>
              let credited = bt_chain_weight (tp_batch t) - State_weight state;
                  counts = full_weight credited (calculate_work (bt_target (tp_batch t)))
              in if counts \<and> tip_weight base < bt_chain_weight (tp_batch t) then Some (t, receipts) else None)"


subsection \<open>The run passed over\<close>

lemma run_back_spec:
  fixes hs :: "BatchHeader list" and ours :: "h256 \<Rightarrow> bool" and max_depth run :: nat
  defines "k \<equiv> run_back ours max_depth run hs - run"
  shows "run_back ours max_depth run hs = run + k"
    and "run \<le> max_depth \<Longrightarrow> run + k \<le> max_depth" and "hs \<noteq> [] \<Longrightarrow> k < length hs"
    and "\<forall>i < k. passes_over ours (hs ! Suc i) (hs ! i)"
    and "run + k < max_depth \<Longrightarrow> Suc k < length hs \<Longrightarrow> \<not> passes_over ours (hs ! Suc k) (hs ! k)"
proof -
  have "\<exists>k. run_back ours max_depth run hs = run + k \<and> (run \<le> max_depth \<longrightarrow> run + k \<le> max_depth)
      \<and> (hs \<noteq> [] \<longrightarrow> k < length hs) \<and> (\<forall>i < k. passes_over ours (hs ! Suc i) (hs ! i))
      \<and> (run + k < max_depth \<longrightarrow> Suc k < length hs \<longrightarrow> \<not> passes_over ours (hs ! Suc k) (hs ! k))"
  proof (induction ours max_depth run hs rule: run_back.induct)
    case (1 ours max_depth run block lower rest)
    show ?case
    proof (cases "max_depth \<le> run \<or> \<not> passes_over ours lower block")
      case True
      then show ?thesis by (intro exI [of _ 0]) auto
    next
      case False
      then obtain k where k: "run_back ours max_depth (run + 1) (lower # rest) = run + 1 + k"
        "run + 1 + k \<le> max_depth" "k < length (lower # rest)"
        "\<forall>i < k. passes_over ours ((lower # rest) ! Suc i) ((lower # rest) ! i)"
        "run + 1 + k < max_depth \<longrightarrow> Suc k < length (lower # rest)
          \<longrightarrow> \<not> passes_over ours ((lower # rest) ! Suc k) ((lower # rest) ! k)"
        using 1 by auto
      have "\<forall>i < Suc k. passes_over ours ((block # lower # rest) ! Suc i) ((block # lower # rest) ! i)"
        using k(4) False by (auto simp: less_Suc_eq_0_disj)
      then show ?thesis using False k(1-3,5) by (intro exI [of _ "Suc k"]) auto
    qed
  qed auto
  then show "run_back ours max_depth run hs = run + k"
    and "run \<le> max_depth \<Longrightarrow> run + k \<le> max_depth" and "hs \<noteq> [] \<Longrightarrow> k < length hs"
    and "\<forall>i < k. passes_over ours (hs ! Suc i) (hs ! i)"
    and "run + k < max_depth \<Longrightarrow> Suc k < length hs \<Longrightarrow> \<not> passes_over ours (hs ! Suc k) (hs ! k)"
    by (auto simp: k_def)
qed

lemma orphanable_run_spec:
  fixes headers :: "BatchHeader list" and ours :: "h256 \<Rightarrow> bool" and max_depth :: nat
  defines "r \<equiv> orphanable_run headers ours max_depth" and "n \<equiv> length headers"
  assumes "headers \<noteq> []"
  shows "r \<le> max_depth" and "r < n"
    and "\<And>i. n - r \<le> i \<Longrightarrow> i < n \<Longrightarrow> passes_over ours (headers ! (i - 1)) (headers ! i)"
    and "r < max_depth \<Longrightarrow> r + 1 < n \<Longrightarrow> \<not> passes_over ours (headers ! (n - 2 - r)) (headers ! (n - 1 - r))"
proof -
  have r_eq: "r = run_back ours max_depth 0 (rev headers)" by (simp add: r_def orphanable_run_def)
  note spec = run_back_spec [where run = 0 and hs = "rev headers" and ours = ours and max_depth = max_depth]
  have s: "r \<le> max_depth" "r < length headers" "\<forall>i < r. passes_over ours (rev headers ! Suc i) (rev headers ! i)"
    "r < max_depth \<Longrightarrow> Suc r < length headers \<Longrightarrow> \<not> passes_over ours (rev headers ! Suc r) (rev headers ! r)"
    using spec(2-5) assms(3) by (simp_all add: r_eq)
  show "r \<le> max_depth" by (rule s(1))
  show r: "r < n" using s(2) assms(3) by (simp add: n_def)
  show "passes_over ours (headers ! (i - 1)) (headers ! i)" if "n - r \<le> i" "i < n" for i
  proof -
    have "n - 1 - i < r" using that r by simp
    with s(3) have "passes_over ours (rev headers ! Suc (n - 1 - i)) (rev headers ! (n - 1 - i))" by blast
    moreover have "n - Suc (Suc (n - 1 - i)) = i - 1" "n - Suc (n - 1 - i) = i" "Suc (n - 1 - i) < n"
      using that r by simp_all
    ultimately show ?thesis using that(2) by (simp add: rev_nth n_def)
  qed
  show "\<not> passes_over ours (headers ! (n - 2 - r)) (headers ! (n - 1 - r))" if "r < max_depth" "r + 1 < n"
    using s(4) that by (simp add: rev_nth n_def numeral_2_eq_2)
qed

lemma passed_over_weight:
  assumes "passes_over ours lower block"
  shows "hd_chain_weight block \<le> hd_chain_weight lower + sliver (calculate_work (hd_target block))"
  using assms by (auto simp: passes_over_def counted_in_full_def full_weight_def)

lemma run_weight:
  assumes "\<And>i. m < i \<Longrightarrow> i < n \<Longrightarrow> passes_over ours (hs ! (i - 1)) (hs ! i)" and "m < n"
  shows "hd_chain_weight (hs ! (n - 1))
     \<le> hd_chain_weight (hs ! m) + (\<Sum>i \<leftarrow> [m + 1..<n]. sliver (calculate_work (hd_target (hs ! i))))"
  using assms
proof (induction n)
  case (Suc n)
  show ?case
  proof (cases "m = n")
    case False
    then have m: "m < n" using Suc.prems by simp
    have "passes_over ours (hs ! (n - 1)) (hs ! n)" using Suc.prems(1) [of n] m by simp
    from passed_over_weight [OF this] Suc.IH [OF Suc.prems(1) m] m show ?thesis by simp
  qed simp
qed simp

lemma no_full_weight:
  assumes "\<And>i. i < length hs \<Longrightarrow> hd_height (hs ! i) < start
      \<or> (\<exists>b. (if i = 0 then before else Some (hs ! (i - 1))) = Some b \<and> add64 (hd_height b) 1 = hd_height (hs ! i)
           \<and> \<not> counted_in_full (hs ! i) (hd_chain_weight b))"
  shows "full_weight_loop start before n hs = n"
  using assms
proof (induction hs arbitrary: before n)
  case (Cons h hs)
  have head: "hd_height h < start
      \<or> (\<exists>b. before = Some b \<and> add64 (hd_height b) 1 = hd_height h \<and> \<not> counted_in_full h (hd_chain_weight b))"
    using Cons.prems [of 0] by simp
  have "full_weight_loop start (Some h) n hs = n"
  proof (rule Cons.IH)
    fix i assume "i < length hs"
    then show "hd_height (hs ! i) < start
      \<or> (\<exists>b. (if i = 0 then Some h else Some (hs ! (i - 1))) = Some b \<and> add64 (hd_height b) 1 = hd_height (hs ! i)
           \<and> \<not> counted_in_full (hs ! i) (hd_chain_weight b))"
      using Cons.prems [of "Suc i"] by (cases i) auto
  qed
  then show ?case using head by (auto simp: Let_def)
qed simp


subsection \<open>What a template for the base is made of\<close>

lemma unseen_subset: "set (unseen hash seen txs) \<subseteq> set txs"
  by (induction txs arbitrary: seen) auto

lemma orphan_candidates_subset: "set (orphan_candidates E state txs) \<subseteq> set txs"
  using unseen_subset by (fastforce simp: orphan_candidates_def)

lemma select_fold_subset:
  "set (chosen (fold (select_step H height budget) txs s)) \<subseteq> set (chosen s) \<union> set txs"
proof (induction txs arbitrary: s)
  case (Cons tx txs)
  have "set (chosen (select_step H height budget tx s)) \<subseteq> insert tx (set (chosen s))"
    by (auto simp: select_step_def)
  then show ?case using Cons [of "select_step H height budget tx s"] by auto
qed simp

lemma select_transactions_subset: "set (select_transactions H candidates height budget) \<subseteq> set candidates"
  using select_fold_subset [where s = no_selection]
  by (fastforce simp: select_transactions_def no_selection_def stable_sort_set)

lemma orphan_template_Some:
  assumes "orphan_template E L L' now base pool payouts extra bond feed = Some (t, receipts)"
  obtains miner maker txs where "bond = Some miner" and "run_signers base \<noteq> []" and "\<not> OrphanBase_signed_by base miner"
    and "maker = L \<or> maker = L'" and "set txs \<subseteq> set (carried base @ pool)"
    and "build_template_relayed E maker now (ob_state base) (ob_timestamps base) txs payouts extra None bond feed
           = Inr (t, receipts)"
    and "full_weight (bt_chain_weight (tp_batch t) - State_weight (ob_state base)) (calculate_work (bt_target (tp_batch t)))"
    and "tip_weight base < bt_chain_weight (tp_batch t)"
proof -
  obtain miner where m: "bond = Some miner" "run_signers base \<noteq> []" "\<not> OrphanBase_signed_by base miner"
    using assms by (auto simp: orphan_template_def bind_eq_Some_conv split: if_splits)
  define txs where "txs = select_transactions (env_hash E) (orphan_candidates E (ob_state base) (carried base @ pool))
     (st_height (ob_state base)) (transaction_budget (ob_state base) (length payouts) bond feed)"
  let ?build = "\<lambda>L txs. build_template_relayed E L now (ob_state base) (ob_timestamps base) txs payouts extra None bond feed"
  have sub: "set txs \<subseteq> set (carried base @ pool)"
    using select_transactions_subset orphan_candidates_subset unfolding txs_def by (meson subset_trans)
  have r: "(case ?build L txs of Inl _ \<Rightarrow> ?build L' [] | Inr r \<Rightarrow> Inr r) = Inr (t, receipts)"
    and counts: "full_weight (bt_chain_weight (tp_batch t) - State_weight (ob_state base)) (calculate_work (bt_target (tp_batch t)))"
      "tip_weight base < bt_chain_weight (tp_batch t)"
    using assms m by (auto simp: orphan_template_def Let_def txs_def split: sum.splits if_splits)
  show thesis
  proof (cases "?build L txs")
    case (Inl e)
    then have "?build L' [] = Inr (t, receipts)" using r by simp
    then show thesis using that [OF m, of L' "[]"] counts by simp
  next
    case (Inr x)
    then have "?build L txs = Inr (t, receipts)" using r by simp
    then show thesis using that [OF m, of L txs] sub counts by simp
  qed
qed

subsection \<open>Properties\<close>

text \<open>C19. The run a producer may orphan is the longest one, up to the depth it allows, of linked blocks at the tip
  that counted for a sliver and that none of its bonds signed; the chain gained at most one sliver for each
  of them, and none of them has a confirmation that counted in full.\<close>

theorem orphaned_run_is_light:
  fixes ours :: "h256 \<Rightarrow> bool" and max_depth :: nat
  assumes "headers \<noteq> []"
  defines "r \<equiv> orphanable_run headers ours max_depth" and "n \<equiv> length headers"
  shows "r \<le> max_depth \<and> r < n
    \<and> (\<forall>i. n - r \<le> i \<and> i < n \<longrightarrow> passes_over ours (headers ! (i - 1)) (headers ! i))
    \<and> (r < max_depth \<and> r + 1 < n \<longrightarrow> \<not> passes_over ours (headers ! (n - 2 - r)) (headers ! (n - 1 - r)))
    \<and> hd_chain_weight (last headers) \<le> hd_chain_weight (headers ! (n - 1 - r))
        + (\<Sum>i \<leftarrow> [n - r..<n]. sliver (calculate_work (hd_target (headers ! i))))
    \<and> ((\<forall>i < n. hd_height (headers ! i) = hd_height (headers ! 0) + i) \<and> hd_height (last headers) < 2 ^ 64 \<and> 0 < r
        \<longrightarrow> full_weight_blocks headers (hd_height (headers ! (n - r))) = 0)"
proof -
  note s = orphanable_run_spec [OF assms(1), where ours = ours and max_depth = max_depth, folded r_def n_def]
  have bounds: "n - 1 - r < n" "n - 1 - r + 1 = n - r" "headers ! (n - 1) = last headers"
    using s(2) assms(1) by (simp_all add: last_conv_nth n_def)
  have weight: "hd_chain_weight (last headers) \<le> hd_chain_weight (headers ! (n - 1 - r))
        + (\<Sum>i \<leftarrow> [n - r..<n]. sliver (calculate_work (hd_target (headers ! i))))"
    using run_weight [of "n - 1 - r" n ours headers] s(3) bounds by simp
  have "full_weight_blocks headers (hd_height (headers ! (n - r))) = 0"
    if h: "\<forall>i < n. hd_height (headers ! i) = hd_height (headers ! 0) + i" "hd_height (last headers) < 2 ^ 64" "0 < r"
    unfolding full_weight_blocks_def
  proof (rule no_full_weight)
    fix i assume i: "i < length headers"
    let ?h0 = "hd_height (headers ! 0)"
    have heights: "hd_height (headers ! i) = ?h0 + i" "hd_height (headers ! (n - r)) = ?h0 + (n - r)"
      using h s(2) i by (auto simp: n_def)
    show "hd_height (headers ! i) < hd_height (headers ! (n - r))
      \<or> (\<exists>b. (if i = 0 then None else Some (headers ! (i - 1))) = Some b \<and> add64 (hd_height b) 1 = hd_height (headers ! i)
           \<and> \<not> counted_in_full (headers ! i) (hd_chain_weight b))"
    proof (cases "i < n - r")
      case False
      then have pos: "0 < i" using s(2) by simp
      have "passes_over ours (headers ! (i - 1)) (headers ! i)" using s(3) False i by (simp add: n_def)
      then show ?thesis using pos by (auto simp: passes_over_def linked_headers_def)
    next
      case True
      then have "hd_height (headers ! i) < hd_height (headers ! (n - r))" unfolding heights by simp
      then show ?thesis by blast
    qed
  qed
  then show ?thesis using s weight by blast
qed

text \<open>C18. A template built to orphan a run is worth mining: once its proof of work is found, the sealed block is
  accepted on the base, weighs its chain past the tip the run ends at, so that fork choice takes it against
  that tip whichever of the two a node saw first, and orphans no block of the producer's own bonds.\<close>

theorem orphan_block_replaces_run:
  assumes "orphan_template E L L' now base pool payouts extra bond feed = Some (t, receipts)"
    and "validate_timestamp (bt_timestamp (tp_batch t)) (ob_timestamps base) now' = Inr ()"
    and "proofs_hold E L (ob_state base) (carried base @ pool) t" and "prover_ok (env_curve E) (mk_prover L')"
    and "verify_pow (env_hash E) (env_walk E) (tp_height t) (tp_mining_hash t) (bt_extension b) (st_target (ob_state base))
           (bt_aux_pow b) = Inr ()"
    and "b = seal t ext \<or> b = seal_aux (env_hash E) t aux"
    and "chain_inv E (ob_state base)" and "st_height (ob_state base) < U64_MAX"
    and "depth (ob_state base) + calculate_work (st_target (ob_state base)) \<le> U128_MAX"
  shows "\<exists>s'. apply_batch E (ob_state base) b (ob_timestamps base) now' = Inr s' \<and> header_hash s' = ext_final_hash (bt_extension b)
    \<and> tip_weight base < State_weight s'
    \<and> (\<forall>tip. State_weight tip = tip_weight base \<longrightarrow> choose_best_state tip s' = s' \<and> choose_best_state s' tip = s')
    \<and> (\<exists>miner. bond = Some miner \<and> \<not> OrphanBase_signed_by base miner)"
proof -
  obtain miner maker txs where o: "bond = Some miner" "\<not> OrphanBase_signed_by base miner" "maker = L \<or> maker = L'"
    "set txs \<subseteq> set (carried base @ pool)"
    "build_template_relayed E maker now (ob_state base) (ob_timestamps base) txs payouts extra None bond feed = Inr (t, receipts)"
    "tip_weight base < bt_chain_weight (tp_batch t)"
    using assms(1) by (rule orphan_template_Some)
  have proofs: "proofs_hold E maker (ob_state base) txs t"
    using assms(3,4) o(3,4) by (auto simp: proofs_hold_def)
  note work = sealed_work [OF o(5) assms(5,6)]
  obtain s' where s': "apply_batch E (ob_state base) b (ob_timestamps base) now' = Inr s'"
    "header_hash s' = ext_final_hash (bt_extension b)"
    using template_accepted [OF o(5) assms(2) work(2,1) proofs, of False] by (auto simp: apply_batch_def)
  have fields: "bt_chain_weight b = bt_chain_weight (tp_batch t)" "bt_target b = st_target (ob_state base)"
    using made_of_fields [OF work(1)] template_mining_hash(2-5) [OF o(5)] by simp_all
  have "State_weight s' = bt_chain_weight b"
    using accepted_weight(2) [OF _ assms(7,8)] s'(1) assms(3,9) fields(2)
    by (auto simp: apply_batch_def proofs_hold_def)
  then show ?thesis using s' o(1,2,6) fields(1) by (auto simp: choose_best_state_def)
qed


subsection \<open>Concrete runs\<close>

definition sample_header :: "nat \<Rightarrow> nat \<Rightarrow> h256 option \<Rightarrow> BatchHeader" where
  "sample_header height weight signer =
     \<lparr>hd_height = height, hd_prev_midstate = 0, hd_post_tx_midstate = 0,
      hd_extension = \<lparr>ext_nonce = 0, ext_final_hash = of_nat height\<rparr>, hd_timestamp = 0, hd_target = 2, hd_state_root = 0,
      hd_prev_header_hash = of_nat height - 1, hd_signer = signer, hd_chain_weight = weight, hd_aux_pow = None\<rparr>"

definition sample_run :: "BatchHeader list" where
  "sample_run = [sample_header 10 1000 None, sample_header 11 1001 (Some 1), sample_header 12 1002 None]"

lemma work_two: "calculate_work 2 = U128_MAX"
  by (simp add: calculate_work_eq)

theorem orphaned_run_is_light_witness:
  "orphanable_run sample_run (\<lambda>b. b = 9) 12 = 2 \<and> full_weight_blocks sample_run 11 = 0
     \<and> hd_chain_weight (last sample_run) \<le> 1000 + 2 * sliver U128_MAX"
proof -
  have r: "orphanable_run sample_run (\<lambda>b. b = 9) 12 = 2"
    by (simp add: orphanable_run_def sample_run_def passes_over_def linked_headers_def counted_in_full_def full_weight_def
        sample_header_def work_two sliver_def OVER_CAP_WORK_DIVISOR_def add64_def)
  have idx: "\<forall>i < length sample_run. hd_height (sample_run ! i) = hd_height (sample_run ! 0) + i"
    by (auto simp: sample_run_def sample_header_def less_Suc_eq)
  have "sample_run \<noteq> []" by (simp add: sample_run_def)
  from orphaned_run_is_light [OF this, where ours = "\<lambda>b. b = 9" and max_depth = 12, unfolded r]
  have "hd_chain_weight (last sample_run) \<le> hd_chain_weight (sample_run ! (length sample_run - 1 - 2))
        + (\<Sum>i \<leftarrow> [length sample_run - 2..<length sample_run]. sliver (calculate_work (hd_target (sample_run ! i))))"
    "full_weight_blocks sample_run (hd_height (sample_run ! (length sample_run - 2))) = 0"
    using idx by (simp_all add: sample_run_def sample_header_def)
  then show ?thesis using r by (simp add: sample_run_def sample_header_def work_two upt_rec)
qed

definition sample_base :: OrphanBase where
  "sample_base = \<lparr>ob_state = tip_at (- 1), ob_timestamps = [], ob_tip = 0, tip_weight = 0, run_signers = [None], carried = []\<rparr>"

lemma tip_at_inv:
  assumes "T \<noteq> 0"
  shows "chain_inv sample_env (tip_at T)"
proof -
  have "mmr_of (env_hash sample_env) True [0] = fst (Mmr_append (env_hash sample_env) True 0 Mmr_new)"
    using append_mmr_of [of "env_hash sample_env" True 0 "[]"] by (simp add: mmr_of_def Mmr_new_def mforest_def flat_def)
  then have "\<exists>hashes. chain_mmr (tip_at T) = mmr_of (env_hash sample_env) True hashes \<and> length hashes = st_height (tip_at T)"
    by (intro exI [of _ "[0]"]) (simp add: tip_at_def)
  moreover have "st_supply (State_genesis (env_hash sample_env)) = 0" by (simp add: State_genesis_def Let_def)
  ultimately show ?thesis
    using genesis_inv [OF sample_env_ok] assms
    by (simp add: chain_inv_def tip_at_def utxos_ok_def verify_supply_def)
qed

lemma unat_easy: "unat (- 1 :: h256) = U256_MAX"
  by (simp add: unsigned_minus_1_eq_mask mask_eq_exp_minus_1)

lemma easy_work: "calculate_work (- 1) = 1"
  by (simp add: calculate_work_eq unat_easy)

lemma easy_template_weight:
  assumes "sample_build (- 1) when = Inr (t, rs)"
  shows "bt_chain_weight (tp_batch t) = 1" and "bt_target (tp_batch t) = - 1"
proof -
  obtain after registered signer creditable floor recent counts credited where
    cap: "cap_work (work_floor (tip_at (- 1))) (st_height (tip_at (- 1))) (calculate_work (st_target (tip_at (- 1))))
      = (creditable, floor)"
    and credit: "credit_in_window (recent_signers (tip_at (- 1))) (st_counts (tip_at (- 1)))
        (tpl_bonds (env_hash sample_env) after registered) (st_height (tip_at (- 1))) signer creditable (bt_timestamp (tp_batch t))
      = (recent, counts, credited)"
    and weight: "bt_chain_weight (tp_batch t) = sat_add128 (State_weight (tip_at (- 1))) credited"
    and target: "bt_target (tp_batch t) = st_target (tip_at (- 1))"
    using assms by (rule template_parts)
  have "creditable = 1"
    using cap_work_effect [OF cap] by (simp add: tip_at_def State_genesis_def easy_work Let_def)
  then have "credited = 1"
    using credit by (auto simp: credit_in_window_def sliver_def OVER_CAP_WORK_DIVISOR_def Let_def
        split: prod.splits option.splits if_splits)
  moreover have "State_weight (tip_at (- 1)) = 0" by (simp add: State_weight_def tip_at_def State_genesis_def Let_def)
  ultimately show "bt_chain_weight (tp_batch t) = 1" using weight by (simp add: sat_add128_def)
  show "bt_target (tp_batch t) = - 1" using target by (simp add: tip_fields)
qed

theorem orphan_block_replaces_run_witness:
  "\<exists>t rs ext s'. orphan_template sample_env sample_maker sample_maker 0 sample_base [] [(sample_address, 1)] 0
       (Some sample_bond) None = Some (t, rs)
     \<and> apply_batch sample_env (tip_at (- 1)) (seal t ext) [] 0 = Inr s' \<and> 0 < State_weight s'"
proof -
  obtain t rs where t: "sample_build (- 1) None = Inr (t, rs)" and ts: "bt_timestamp (tp_batch t) = 0" "bt_relay (tp_batch t) = None"
    using sample_build_Inr [of None "- 1"] by auto
  note weight = easy_template_weight [OF t]
  have base: "ob_state sample_base = tip_at (- 1)" "ob_timestamps sample_base = []" "tip_weight sample_base = 0"
    "run_signers sample_base = [None]" "carried sample_base = []"
    by (simp_all add: sample_base_def)
  have "State_weight (tip_at (- 1)) = 0" by (simp add: State_weight_def tip_at_def State_genesis_def Let_def)
  then have o: "orphan_template sample_env sample_maker sample_maker 0 sample_base [] [(sample_address, 1)] 0
       (Some sample_bond) None = Some (t, rs)"
    using t weight
    by (simp add: orphan_template_def base OrphanBase_signed_by_def orphan_candidates_def select_transactions_def
        stable_sort_def no_selection_def full_weight_def easy_work Let_def List.map_filter_def del: One_nat_def)
  let ?ext = "create_extension_at (\<lambda>_. 7) (\<lambda>h n. h) (tp_height t) 7 0"
  have time: "validate_timestamp (bt_timestamp (tp_batch t)) (ob_timestamps sample_base) 0 = Inr ()"
    by (simp add: base ts validate_timestamp_def median_time_floor_def MEDIAN_TIME_PAST_WINDOW_def sat_add64_def)
  have pf: "proofs_hold sample_env sample_maker (ob_state sample_base) (carried sample_base @ []) t"
    and pr: "prover_ok (env_curve sample_env) (mk_prover sample_maker)"
    using sample_prover_ok by (simp_all add: proofs_hold_def ts sample_env_ok sample_maker_def base) (simp_all add: sample_env_def)
  have sealed: "bt_extension (seal t ?ext) = ?ext" "bt_aux_pow (seal t ?ext) = None"
    using template_mining_hash(5) [OF t] by (simp_all add: seal_def)
  have "\<exists>h. tp_mining_hash t = compute_header_hash (env_hash sample_env) h"
    using template_mining_hash(1) [OF t, symmetric] by blast
  moreover have "(7 :: h256) < - 1" by (simp add: word_less_nat_alt unat_easy)
  ultimately have pow: "verify_pow (env_hash sample_env) (env_walk sample_env) (tp_height t) (tp_mining_hash t)
      (bt_extension (seal t ?ext)) (st_target (ob_state sample_base)) (bt_aux_pow (seal t ?ext)) = Inr ()"
    using sample_seal [of "- 1"] sealed unfolding base by auto
  have inv: "chain_inv sample_env (ob_state sample_base)" "st_height (ob_state sample_base) < U64_MAX"
    "depth (ob_state sample_base) + calculate_work (st_target (ob_state sample_base)) \<le> U128_MAX"
    using tip_at_inv [of "- 1"] by (simp_all add: base tip_fields easy_work)
      (simp add: tip_at_def State_genesis_def Let_def)
  from orphan_block_replaces_run [OF o time pf pr pow _ inv] o show ?thesis unfolding base by blast
qed

end
