(* ===== verification/Snapshot.thy ===== *)
theory Snapshot
  imports Checkpoints Pruned_Groups Chain_Properties
begin

text \<open>
  State snapshots at a checkpoint (\<^verbatim>\<open>src/src/core/snapshot.rs\<close>): the peaks a pruned node keeps of the chain's
  history, the headers a snapshot carries, and the verification that turns a snapshot into a state. What
  is proved: the peaks are enough for every root the node will ever compute, and a snapshot that verifies
  gives a state that is fully audited against the checkpoint. \<open>ser\<close> is the binary serializer of a
  checkpoint.
\<close>

subsection \<open>Mountain ranges from their peaks\<close>

datatype snapshot_error =
    MissingPeak nat | PeakCount nat nat
  | NoHeaders | NotAtCheckpoint | HeaderCount nat nat | HeadersUnlinked nat | ImpossibleWeight nat | HeaderWork
  | OtherCheckpoint | SnapCheckpoint checkpoint_error | PartsMismatch
  | DuplicateUtxo | UtxoSetMismatch
  | InvalidKernel | DuplicateKernel | KernelsMismatch | SnapPoint crypto_error | ExcessMismatch | MissingCoinbases
  | InvalidGroup | DuplicateGroup | CoveredTwice | NotCovered | NoRangeProof h256 | OutputMismatch h256
  | MmrMismatch | WeightOverWork | DuplicateBond | SnapRelay relay_error | RelayMismatch
  | OverSchedule | SnapSupply supply_error | NotReproduced

definition mmr_peak_values :: "MerkleMountainRange \<Rightarrow> snapshot_error + h256 list" where
  "mmr_peak_values m = map_res (\<lambda>p. ok_or (MissingPeak p) (Mmr_get m p)) (peaks (mmr_size (leaf_count m)))"

definition Mmr_from_raw_parts :: "h256 list \<Rightarrow> nat \<Rightarrow> MerkleMountainRange" where
  "Mmr_from_raw_parts ns n = \<lparr>mmr_nodes = ns, leaf_count = n\<rparr>"

definition mmr_from_peaks :: "nat \<Rightarrow> h256 list \<Rightarrow> snapshot_error + MerkleMountainRange" where
  "mmr_from_peaks n vs =
     (let sz = mmr_size n; positions = peaks sz in
      if length positions \<noteq> length vs then Inl (PeakCount (length positions) (length vs))
      else Inr (Mmr_from_raw_parts (fold (\<lambda>(p, v) ns. ns[p := v]) (zip positions vs) (replicate sz 0)) n))"

subsection \<open>Snapshots\<close>

definition SNAPSHOT_HEADERS :: nat where
  "SNAPSHOT_HEADERS = max 60 (max CAP_WINDOW WORK_CAP_WINDOW)"

record Snapshot =
  sn_checkpoint :: Checkpoint
  sn_headers :: "BatchHeader list"
  sn_parts :: StateRootParts
  sn_mmr_peaks :: "h256 list"
  sn_utxos :: "(h256 \<times> UtxoEntry) list"
  sn_groups :: "StoredGroup list"
  sn_kernels :: "Kernel list"
  sn_bonds :: "(h256 \<times> BondEntry) list"
  sn_relay :: "RelayEntry list"

fun check_header_links :: "BatchHeader list \<Rightarrow> snapshot_error + unit" where
  "check_header_links (prev # h # hs) =
     (if hd_height h \<noteq> add64 (hd_height prev) 1 \<or> hd_prev_header_hash h \<noteq> ext_final_hash (hd_extension prev)
        \<or> hd_prev_midstate h \<noteq> hd_post_tx_midstate prev
        \<or> hd_target h \<noteq> calculate_target (hd_height h) (hd_timestamp prev)
      then Inl (HeadersUnlinked (hd_height h))
      else
        case chk_sub (hd_chain_weight h) (hd_chain_weight prev) of
          Some a \<Rightarrow>
            if 1 \<le> a \<and> a \<le> calculate_work (hd_target h) then check_header_links (h # hs)
            else Inl (ImpossibleWeight (hd_height h))
        | None \<Rightarrow> Inl (ImpossibleWeight (hd_height h)))"
| "check_header_links _ = Inr ()"

definition header_work_ok :: "('pt, 'sc) env \<Rightarrow> BatchHeader \<Rightarrow> bool" where
  "header_work_ok E h \<longleftrightarrow>
     is_ok (verify_pow (env_hash E) (env_walk E) (hd_height h) (compute_header_hash (env_hash E) h) (hd_extension h)
       (hd_target h) (hd_aux_pow h))"

definition check_headers :: "('pt, 'sc) env \<Rightarrow> Checkpoint \<Rightarrow> BatchHeader list \<Rightarrow> snapshot_error + unit" where
  "check_headers E cp headers =
     (if headers = [] then Inl NoHeaders
      else
        let tip = last headers; expected = min (mw_height cp) SNAPSHOT_HEADERS in
        if add64 (hd_height tip) 1 \<noteq> mw_height cp \<or> ext_final_hash (hd_extension tip) \<noteq> mw_header_hash cp
          \<or> hd_state_root tip \<noteq> mw_state_root cp
        then Inl NotAtCheckpoint
        else if length headers \<noteq> expected then Inl (HeaderCount expected (length headers))
        else
          and_then (check_header_links headers) (\<lambda>_.
          if list_ex (\<lambda>h. 0 < hd_height h \<and> \<not> header_work_ok E h) headers then Inl HeaderWork else Inr ()))"

definition snapshot_utxos ::
    "hasher \<Rightarrow> StateRootParts \<Rightarrow> (h256 \<times> UtxoEntry) list \<Rightarrow> snapshot_error + (h256, UtxoEntry) omap \<times> UtxoAccumulator" where
  "snapshot_utxos H parts us =
     (if \<not> distinct (map fst us) then Inl DuplicateUtxo
      else
        let set' = from_canonical_coins H True (sorted_list_of_set (set (map (\<lambda>(c, e). utxo_leaf H c e) us))) in
        if UtxoAccumulator_root H True set' \<noteq> sr_utxo_root parts then Inl UtxoSetMismatch
        else Inr (fold (\<lambda>(c, e). om_insert c e) us [], set'))"

definition minting_blocks :: "nat \<Rightarrow> nat" where
  "minting_blocks height =
     (case final_reward_height EMISSION of Some last_paid \<Rightarrow> min last_paid (height - 1) | None \<Rightarrow> height - 1)"

definition snapshot_kernels ::
    "('pt :: ab_group_add, 'sc :: comm_ring_1) env \<Rightarrow> StateRootParts \<Rightarrow> nat \<Rightarrow> Kernel list \<Rightarrow> snapshot_error + UtxoAccumulator" where
  "snapshot_kernels E parts height ks =
     (let H = env_hash E; C = env_curve E in
      if \<not> list_all (\<lambda>k. is_ok (check_rules C k) \<and> Kernel_verify_signature H C k) ks then Inl InvalidKernel
      else
        let ids = sorted_list_of_set (set (map (Kernel_id H) ks)) in
        if length ids \<noteq> length ks then Inl DuplicateKernel
        else
          let kernels = from_canonical_coins H True ids in
          if UtxoAccumulator_root H True kernels \<noteq> sr_kernel_root parts then Inl KernelsMismatch
          else
            and_then (map_err SnapPoint (sum_points C (map k_excess ks))) (\<lambda>excess.
            if compress C excess \<noteq> sr_kernel_excess_sum parts then Inl ExcessMismatch
            else if length (filter (\<lambda>k. k_features k = CoinbaseFeature) ks) < minting_blocks height
            then Inl MissingCoinbases
            else Inr kernels))"

definition cover_member :: "GroupMember \<Rightarrow> (h256, Output) omap \<Rightarrow> snapshot_error + (h256, Output) omap" where
  "cover_member m covered =
     (case m of
        Spent _ _ \<Rightarrow> Inr covered
      | Unspent out \<Rightarrow>
          if om_has covered (o_commitment out) then Inl CoveredTwice
          else Inr (om_insert (o_commitment out) out covered))"

definition cover_group ::
    "hasher \<Rightarrow> StoredGroup \<Rightarrow> h256 set \<times> (h256, Output) omap \<Rightarrow> snapshot_error + h256 set \<times> (h256, Output) omap" where
  "cover_group H g acc =
     (let (ids, covered) = acc; gid = StoredGroup_id H g in
      if gid \<in> ids \<or> is_fully_spent g then Inl DuplicateGroup
      else and_then (fold_res cover_member (members g) covered) (\<lambda>covered. Inr (insert gid ids, covered)))"

definition check_covered :: "hasher \<Rightarrow> (h256, Output) omap \<Rightarrow> h256 \<times> UtxoEntry \<Rightarrow> snapshot_error + unit" where
  "check_covered H covered ce =
     (let (c, e) = ce in
      and_then (ok_or (NoRangeProof c) (om_get covered c)) (\<lambda>out.
      if ue_output_hash e \<noteq> Output_metadata_hash H out \<or> ue_owner_key e \<noteq> o_owner_key out \<or> ue_recovery e \<noteq> o_recovery out
      then Inl (OutputMismatch c) else Inr ()))"

definition snapshot_groups ::
    "hasher \<Rightarrow> ('pt :: ab_group_add, 'sc) curve \<Rightarrow> StoredGroup list \<Rightarrow> (h256 \<times> UtxoEntry) list \<Rightarrow> snapshot_error + unit" where
  "snapshot_groups H C groups us =
     (if \<not> list_all (StoredGroup_verify H C) groups then Inl InvalidGroup
      else
        and_then (fold_res (cover_group H) groups ({}, [])) (\<lambda>(_, covered).
        if length covered \<noteq> length us then Inl NotCovered
        else each_ok (check_covered H covered) us))"

definition last_n :: "nat \<Rightarrow> 'a list \<Rightarrow> 'a list" where
  "last_n n xs = drop (length xs - n) xs"

definition snapshot_state ::
    "hasher \<Rightarrow> Snapshot \<Rightarrow> nat \<Rightarrow> BondSet \<Rightarrow> Relay \<Rightarrow> (h256, UtxoEntry) omap \<Rightarrow> UtxoAccumulator \<Rightarrow> UtxoAccumulator
      \<Rightarrow> MerkleMountainRange \<Rightarrow> State" where
  "snapshot_state H sn withheld bonds relay us uset kernels mmr =
     (let cp = sn_checkpoint sn; tip = last (sn_headers sn); parts = sn_parts sn in
      \<lparr>mw_midstate = hd_post_tx_midstate tip, utxos = us, utxo_set = uset, st_kernels = kernels,
       kernel_excess_sum = sr_kernel_excess_sum parts, total_kernel_offset = sr_total_kernel_offset parts,
       st_supply = sr_supply parts, depth = mw_cumulative_work cp, capped = withheld,
       st_target = calculate_target (mw_height cp) (hd_timestamp tip), st_height = mw_height cp,
       st_timestamp = hd_timestamp tip, chain_mmr = mmr, header_hash = mw_header_hash cp, st_bonds = bonds, st_relay = relay,
       recent_signers = [], st_counts = [], work_floor = [], effects = no_effects\<rparr>)"

definition snapshot_verify ::
    "('pt :: ab_group_add, 'sc :: comm_ring_1) env \<Rightarrow> (Checkpoint \<Rightarrow> bytes) \<Rightarrow> h256 \<Rightarrow> Snapshot \<Rightarrow> snapshot_error + State" where
  "snapshot_verify E ser trusted_id sn =
     (let H = env_hash E; C = env_curve E; cp = sn_checkpoint sn; parts = sn_parts sn; headers = sn_headers sn in
      if Checkpoint_id H ser cp \<noteq> trusted_id then Inl OtherCheckpoint
      else
        and_then (if headers = [] then Inl NoHeaders else Inr (last headers)) (\<lambda>tip.
        and_then (map_err SnapCheckpoint (Checkpoint_matches H cp tip (mw_cumulative_work cp))) (\<lambda>_.
        and_then (check_headers E cp headers) (\<lambda>_.
        if StateRootParts_root H parts \<noteq> mw_state_root cp then Inl PartsMismatch
        else
        and_then (snapshot_utxos H parts (sn_utxos sn)) (\<lambda>(us, uset).
        and_then (snapshot_kernels E parts (mw_height cp) (sn_kernels sn)) (\<lambda>kernels.
        and_then (snapshot_groups H C (sn_groups sn) (sn_utxos sn)) (\<lambda>_.
        and_then (mmr_from_peaks (mw_height cp - 1) (sn_mmr_peaks sn)) (\<lambda>mmr.
        if Mmr_root H True mmr \<noteq> sr_chain_mmr_root parts then Inl MmrMismatch
        else
        let mmr = fst (Mmr_append H True (mw_header_hash cp) mmr) in
        and_then (ok_or WeightOverWork (chk_sub (mw_cumulative_work cp) (hd_chain_weight tip))) (\<lambda>withheld.
        let bonds = BondSet_from_list H (sn_bonds sn) in
        if length (bond_entries bonds) \<noteq> length (sn_bonds sn) then Inl DuplicateBond
        else
        and_then (map_err SnapRelay (from_entries H (sn_relay sn))) (\<lambda>relay.
        if Relay_commitment relay \<noteq> sr_relay_root parts then Inl RelayMismatch
        else
        let state = snapshot_state H sn withheld bonds relay us uset kernels mmr in
        if issued_before (mw_height cp) < st_supply state then Inl OverSchedule
        else
        and_then (map_err SnapSupply (verify_supply C state)) (\<lambda>_.
        if checkpoint_parts H state \<noteq> parts then Inl NotReproduced
        else
        let (recent, counts) = rebuild_signer_window (st_bonds state) (map hd_signer (last_n CAP_WINDOW headers)) in
        Inr (state\<lparr>recent_signers := recent, st_counts := counts,
              work_floor := rebuild_work_floor
                (map (\<lambda>h. (hd_height h, calculate_work (hd_target h))) (last_n WORK_CAP_WINDOW headers))\<rparr>))))))))))))"

definition empty_excess :: h256 where "empty_excess = IDENTITY"


subsection \<open>The peaks are enough\<close>

text \<open>The last index of each of some consecutive segments.\<close>

fun ends :: "nat \<Rightarrow> nat list \<Rightarrow> nat list" where
  "ends off [] = []"
| "ends off (l # ls) = (off + l - 1) # ends (off + l) ls"

lemma length_ends [simp]: "length (ends off ls) = length ls"
  by (induction ls arbitrary: off) simp_all

lemma peaks_ends:
  assumes "falling ts"
  shows "peaks_from off (length (flat H v ts)) = ends off (map (\<lambda>t. length (postorder H v t)) (rev ts))"
  using assms
proof (induction ts arbitrary: off rule: rev_induct)
  case Nil
  then show ?case by (simp add: flat_def peaks_from.simps)
next
  case (snoc t ts)
  have fall: "falling ts" "perfect t" and perf: "\<forall>u\<in>set ts. perfect u" "\<forall>u\<in>set (ts @ [t]). perfect u"
    using snoc.prems by (auto simp: falling_def sorted_wrt_append)
  have lens: "length (flat H v ts) = length (flat_heights (map mheight ts))"
    "length (flat H v (ts @ [t])) = length (flat_heights (map mheight ts @ [mheight t]))"
    using length_flat [OF perf(1)] length_flat [OF perf(2)] by simp_all
  have "peaks_from off (length (flat H v (ts @ [t])))
      = (off + (2 ^ (mheight t + 1) - 1) - 1) # peaks_from (off + (2 ^ (mheight t + 1) - 1)) (length (flat H v ts))"
    unfolding lens using snoc.prems by (intro peaks_from_heights) (simp add: falling_def)
  also have "\<dots> = (off + length (postorder H v t) - 1) # peaks_from (off + length (postorder H v t)) (length (flat H v ts))"
    by (simp only: length_postorder [OF fall(2)])
  finally show ?case using snoc.IH [OF fall(1)] by simp
qed

lemma read_ends:
  assumes "\<forall>seg \<in> set segs. seg \<noteq> []"
  shows "map (\<lambda>i. (pre @ concat segs) ! i) (ends (length pre) (map length segs)) = map last segs"
  using assms
proof (induction segs arbitrary: pre)
  case (Cons seg segs)
  have "(pre @ concat (seg # segs)) ! (length pre + length seg - 1) = last seg"
  proof -
    have "length pre + length seg - 1 = length (pre @ seg) - 1" "length (pre @ seg) - 1 < length (pre @ seg)"
      using Cons.prems by simp_all
    then have "((pre @ seg) @ concat segs) ! (length pre + length seg - 1) = (pre @ seg) ! (length (pre @ seg) - 1)"
      by (simp only: nth_append_left)
    then show ?thesis using Cons.prems nth_last_append [of seg pre] by simp
  qed
  moreover have "map (\<lambda>i. (pre @ concat (seg # segs)) ! i) (ends (length pre + length seg) (map length segs)) = map last segs"
    using Cons.IH [of "pre @ seg"] Cons.prems by simp
  ultimately show ?case by simp
qed simp

lemma fill_ends:
  assumes "\<forall>l \<in> set ls. 0 < l" and "length vs = length ls"
  shows "fold (\<lambda>(p, v) ns. ns[p := v]) (zip (ends (length pre) ls) vs) (pre @ replicate (sum_list ls) 0)
     = pre @ concat (map2 (\<lambda>l v. replicate (l - 1) 0 @ [v :: h256]) ls vs)"
  using assms
proof (induction ls arbitrary: pre vs)
  case (Cons l ls)
  obtain w ws where vs: "vs = w # ws" using Cons.prems(2) by (cases vs) simp_all
  obtain k where k: "l = Suc k" using Cons.prems(1) by (cases l) simp_all
  have rep: "replicate (Suc k + sum_list ls) (0 :: h256) = replicate k 0 @ 0 # replicate (sum_list ls) 0"
    using replicate_add [of k "Suc (sum_list ls)" 0] by simp
  let ?f = "\<lambda>(p, v) ns. ns[p := v :: h256]" and ?pre = "pre @ replicate (l - 1) 0 @ [w]"
  have upd: "(pre @ replicate (l + sum_list ls) 0)[length pre + l - 1 := w] = ?pre @ replicate (sum_list ls) 0"
    unfolding k rep by (simp add: list_update_append)
  have len: "length pre + l = length ?pre" using k by simp
  have "fold ?f (zip (ends (length pre) (l # ls)) vs) (pre @ replicate (sum_list (l # ls)) 0)
      = fold ?f (zip (ends (length pre + l) ls) ws) ((pre @ replicate (l + sum_list ls) 0)[length pre + l - 1 := w])"
    by (simp add: vs)
  also have "\<dots> = fold ?f (zip (ends (length ?pre) ls) ws) (?pre @ replicate (sum_list ls) 0)"
    unfolding upd unfolding len ..
  also have "\<dots> = ?pre @ concat (map2 (\<lambda>l v. replicate (l - 1) 0 @ [v]) ls ws)"
    by (rule Cons.IH) (use Cons.prems vs in simp_all)
  finally show ?case by (simp add: vs)
qed simp

text \<open>A list of nodes that has the forest's shape and its peaks, whatever its other nodes are.\<close>

definition seg_of :: "hasher \<Rightarrow> bool \<Rightarrow> mtree \<Rightarrow> h256 list \<Rightarrow> bool" where
  "seg_of H v t seg \<longleftrightarrow> length seg = length (postorder H v t) \<and> last seg = mhash H v t"

definition like :: "hasher \<Rightarrow> bool \<Rightarrow> mtree list \<Rightarrow> h256 list list \<Rightarrow> bool" where
  "like H v ts segs \<longleftrightarrow> list_all2 (seg_of H v) ts segs"

lemma like_lengths: "like H v ts segs \<Longrightarrow> map length segs = map (\<lambda>t. length (postorder H v t)) ts"
  unfolding like_def by (induction ts segs rule: list_all2_induct) (auto simp: seg_of_def)

lemma like_rev_lengths: "like H v ts segs \<Longrightarrow> map length (rev segs) = map (\<lambda>t. length (postorder H v t)) (rev ts)"
  using like_lengths [of H v ts segs] by (metis rev_map)

lemma like_lasts: "like H v ts segs \<Longrightarrow> map last segs = map (mhash H v) ts"
  unfolding like_def by (induction ts segs rule: list_all2_induct) (auto simp: seg_of_def)

lemma like_rev_lasts: "like H v ts segs \<Longrightarrow> map last (rev segs) = map (mhash H v) (rev ts)"
  using like_lasts [of H v ts segs] by (metis rev_map)

lemma like_nonempty: "like H v ts segs \<Longrightarrow> \<forall>seg \<in> set segs. seg \<noteq> []"
  unfolding like_def
  by (induction ts segs rule: list_all2_induct) (use last_postorder in \<open>auto simp: seg_of_def\<close>)

lemma like_size: "like H v ts segs \<Longrightarrow> length (concat (rev segs)) = length (flat H v ts)"
  using like_lengths [of H v ts segs] by (simp add: flat_def length_concat rev_map [symmetric] o_def)

lemma like_peaks:
  assumes "falling ts" and "like H v ts segs"
  shows "map (\<lambda>p. concat (rev segs) ! p) (peaks (length (concat (rev segs)))) = map (mhash H v) (rev ts)"
proof -
  have "peaks (length (concat (rev segs))) = ends 0 (map length (rev segs))"
    using peaks_ends [OF assms(1), of 0 H v] like_size [OF assms(2)] like_rev_lengths [OF assms(2)]
    by (simp add: peaks_def)
  then show ?thesis
    using read_ends [of "rev segs" "[]"] like_nonempty [OF assms(2)] like_rev_lasts [OF assms(2)] by simp
qed

lemma cascade_like:
  assumes "perfect t" and "falling ts" and "\<forall>u\<in>set ts. mheight t \<le> mheight u" and "like H v (t # ts) segs"
  shows "\<exists>segs'. cascade H v (length (concat (rev segs)) - 1) (mheight t) (concat (rev segs)) = concat (rev segs')
     \<and> like H v (carry t ts) segs'"
  using assms
proof (induction t ts arbitrary: segs rule: carry.induct)
  case (1 t)
  obtain seg where segs: "segs = [seg]" "seg_of H v t seg" using 1(4) by (auto simp: like_def list_all2_Cons1)
  have "length seg - 1 < 2 ^ (mheight t + 1) - 1"
    using two_power_room [of "mheight t"] segs(2) unfolding seg_of_def length_postorder [OF 1(1)] by linarith
  then have "cascade H v (length seg - 1) (mheight t) seg = seg"
    using cascade.simps [of H v "length seg - 1" "mheight t" seg] by (simp add: Let_def del: power_Suc)
  then show ?case using 1(4) segs by (intro exI [of _ segs]) simp
next
  case (2 t u us)
  obtain st su rest where segs: "segs = st # su # rest" "seg_of H v t st" "seg_of H v u su" "like H v us rest"
    using 2(5) by (auto simp: like_def list_all2_Cons1)
  let ?d = "2 ^ (mheight t + 1) - 1 :: nat"
  let ?pre = "concat (rev rest)"
  let ?ns = "?pre @ su @ st"
  let ?left = "length (?pre @ su) - 1"
  have ns: "concat (rev segs) = ?ns" by (simp add: segs)
  have d: "length st = ?d" using segs(2) length_postorder [OF 2(2)] by (simp add: seg_of_def)
  have sizes: "length ?pre = length (flat H v us)" "length su = length (postorder H v u)"
    using like_size [OF segs(4)] segs(3) by (simp_all add: seg_of_def)
  have ne: "su \<noteq> []" "st \<noteq> []" using like_nonempty [OF 2(5)] segs(1) by auto
  then have one: "1 \<le> length su" by (simp add: Suc_leI)
  have len: "length ?ns = length (?pre @ su) + ?d" unfolding length_append d by (rule add.assoc [symmetric])
  have cur: "\<not> length ?ns - 1 < ?d" "length ?ns - 1 - ?d = ?left"
    using len one unfolding length_append by linarith+
  have "?left = length (flat H v us @ postorder H v u) - 1" unfolding length_append sizes ..
  then have left: "pos_height ?left = mheight u" using peak_height [OF 2(3), of H v] by (simp only:)
  have hl: "?ns ! ?left = mhash H v u"
  proof -
    have "?left < length (?pre @ su)" using one unfolding length_append by linarith
    then have "((?pre @ su) @ st) ! ?left = (?pre @ su) ! ?left" by (rule nth_append_left)
    then show ?thesis using nth_last_append [OF ne(1), of ?pre] segs(3) by (simp add: seg_of_def)
  qed
  have hc: "?ns ! (length ?ns - 1) = mhash H v t"
    using nth_last_append [OF ne(2), of "?pre @ su"] segs(2) by (simp add: seg_of_def)
  show ?case
  proof (cases "mheight u = mheight t")
    case True
    have fall: "falling us" "perfect (MNode u t)" "\<forall>w\<in>set us. mheight (MNode u t) \<le> mheight w"
      using 2(2,3) True by (auto simp: falling_def)
    let ?node = "su @ st @ [hash_node H v (mhash H v u) (mhash H v t)]"
    have lk: "like H v (MNode u t # us) (?node # rest)"
      using segs(2-4) by (simp add: like_def seg_of_def)
    have app: "?ns @ [hash_node H v (?ns ! ?left) (?ns ! (length ?ns - 1))] = concat (rev (?node # rest))"
      unfolding hl hc by simp
    have "length (concat (rev (?node # rest))) - 1 = length ?ns" unfolding app [symmetric] by simp
    with 2(1) [OF True fall(2,1,3) lk] obtain segs' where
      "cascade H v (length ?ns) (mheight t + 1) (concat (rev (?node # rest))) = concat (rev segs')"
      "like H v (carry (MNode u t) us) segs'" by auto
    moreover have "cascade H v (length ?ns - 1) (mheight t) ?ns
        = cascade H v (length ?ns) (mheight t + 1) (concat (rev (?node # rest)))"
      using cascade.simps [of H v "length ?ns - 1" "mheight t" ?ns] cur left True app
      by (simp add: Let_def del: power_Suc)
    ultimately show ?thesis unfolding ns using True by (intro exI [of _ segs']) simp
  next
    case False
    then have "cascade H v (length ?ns - 1) (mheight t) ?ns = ?ns"
      using cascade.simps [of H v "length ?ns - 1" "mheight t" ?ns] cur left by (simp add: Let_def del: power_Suc)
    then show ?thesis unfolding ns using False 2(5) ns by (intro exI [of _ segs]) simp
  qed
qed

text \<open>A range with the peaks of the range over \<open>xs\<close>.\<close>

definition peaks_of :: "hasher \<Rightarrow> bool \<Rightarrow> h256 list \<Rightarrow> MerkleMountainRange \<Rightarrow> bool" where
  "peaks_of H v xs m \<longleftrightarrow> leaf_count m = length xs \<and> (\<exists>segs. like H v (mforest xs) segs \<and> mmr_nodes m = concat (rev segs))"

lemma peaks_of_root: "peaks_of H v xs m \<Longrightarrow> Mmr_root H v m = root_of_leaves H v xs"
  using like_peaks mforest_ok [of xs] root_of_forest [of "mforest xs" H v]
  by (auto simp: peaks_of_def Mmr_root_def)

lemma peaks_of_append: "peaks_of H v xs m \<Longrightarrow> peaks_of H v (xs @ [x]) (fst (Mmr_append H v x m))"
proof -
  assume "peaks_of H v xs m"
  then obtain segs where m: "leaf_count m = length xs" "like H v (mforest xs) segs" "mmr_nodes m = concat (rev segs)"
    by (auto simp: peaks_of_def)
  have "like H v (MLeaf x # mforest xs) ([x] # segs)" using m(2) by (simp add: like_def seg_of_def)
  with cascade_like [of "MLeaf x" "mforest xs" H v "[x] # segs"] mforest_ok [of xs] obtain segs' where
    "cascade H v (length (concat (rev segs))) 0 (concat (rev segs) @ [x]) = concat (rev segs')"
    "like H v (carry (MLeaf x) (mforest xs)) segs'" by auto
  then show ?thesis by (auto simp: peaks_of_def Mmr_append_def m mforest_snoc Let_def)
qed

lemma peaks_of_range: "peaks_of H v xs (mmr_of H v xs)"
proof -
  have "like H v ts (map (postorder H v) ts)" for ts
    using last_postorder by (induction ts) (auto simp: like_def seg_of_def)
  then show ?thesis by (auto simp: peaks_of_def mmr_of_def flat_def rev_map intro!: exI)
qed

lemma peak_values_of:
  assumes "peaks_of H v xs m"
  shows "mmr_peak_values m = Inr (map (mhash H v) (rev (mforest xs)))"
proof -
  obtain segs where m: "leaf_count m = length xs" "like H v (mforest xs) segs" "mmr_nodes m = concat (rev segs)"
    using assms by (auto simp: peaks_of_def)
  have fall: "falling (mforest xs)" using mforest_ok by blast
  have size: "mmr_size (leaf_count m) = length (mmr_nodes m)"
    using flat_mforest_size [of H v xs] like_size [OF m(2)] m by simp
  have ends: "peaks (length (mmr_nodes m)) = ends 0 (map length (rev segs))"
    using peaks_ends [OF fall, of 0 H v] like_size [OF m(2)] like_rev_lengths [OF m(2)] m(3) by (simp add: peaks_def)
  have bound: "\<forall>seg \<in> set ss. seg \<noteq> [] \<Longrightarrow> p \<in> set (ends off (map length ss)) \<Longrightarrow> p < off + length (concat ss)" for p off and ss :: "h256 list list"
  proof (induction ss arbitrary: off)
    case (Cons seg ss)
    then show ?case using Cons.IH [of "off + length seg"] by (cases seg) auto
  qed simp
  have "\<forall>p \<in> set (peaks (length (mmr_nodes m))). Mmr_get m p = Some (mmr_nodes m ! p)"
    using bound [of "rev segs" _ 0] like_nonempty [OF m(2)] unfolding ends by (auto simp: Mmr_get_def m(3))
  moreover have "\<forall>p \<in> set ps. Mmr_get m p = Some (f p) \<Longrightarrow>
      map_res (\<lambda>p. ok_or (MissingPeak p) (Mmr_get m p)) ps = Inr (map f ps)" for f ps
    by (induction ps) (auto simp: ok_or_def)
  ultimately have "mmr_peak_values m = Inr (map (\<lambda>p. mmr_nodes m ! p) (peaks (length (mmr_nodes m))))"
    by (simp add: mmr_peak_values_def size)
  then show ?thesis using like_peaks [OF fall m(2)] m(3) by simp
qed

lemma from_peaks_of:
  "\<exists>m. mmr_from_peaks (length xs) (map (mhash H v) (rev (mforest xs))) = Inr m \<and> peaks_of H v xs m"
proof -
  let ?ts = "rev (mforest xs)" and ?vs = "map (mhash H v) (rev (mforest xs))"
  let ?ls = "map (\<lambda>t. length (postorder H v t)) ?ts"
  let ?segs = "map2 (\<lambda>l v. replicate (l - 1) 0 @ [v]) ?ls ?vs"
  have fall: "falling (mforest xs)" using mforest_ok by blast
  have pos: "\<forall>l \<in> set ?ls. 0 < l" using last_postorder by auto
  have size: "mmr_size (length xs) = sum_list ?ls"
    using flat_mforest_size [of H v xs] by (simp add: flat_def length_concat o_def)
  have ends: "peaks (mmr_size (length xs)) = ends 0 ?ls"
    using peaks_ends [OF fall, of 0 H v] flat_mforest_size [of H v xs] by (simp add: peaks_def)
  have fill: "fold (\<lambda>(p, v) ns. ns[p := v]) (zip (ends 0 ?ls) ?vs) (replicate (mmr_size (length xs)) 0) = concat ?segs"
    using fill_ends [OF pos, of ?vs "[]"] unfolding size by simp
  have "mmr_from_peaks (length xs) ?vs = Inr (Mmr_from_raw_parts (concat ?segs) (length xs))"
    unfolding mmr_from_peaks_def Let_def ends fill by simp
  moreover have "like H v (mforest xs) (rev ?segs)"
  proof -
    have "list_all2 (seg_of H v) ts (map2 (\<lambda>l v. replicate (l - 1) 0 @ [v]) (map (\<lambda>t. length (postorder H v t)) ts) (map (mhash H v) ts))"
      for ts
    proof (induction ts)
      case (Cons t ts)
      have "0 < length (postorder H v t)" using last_postorder [of H v t] by simp
      then show ?case using Cons by (simp add: seg_of_def)
    qed simp
    then have "list_all2 (seg_of H v) ?ts ?segs" by blast
    then show ?thesis unfolding like_def by (metis list_all2_rev rev_rev_ident)
  qed
  ultimately show ?thesis by (auto simp: peaks_of_def Mmr_from_raw_parts_def)
qed

text \<open>C15. The peaks of a chain's history are all a node needs: the range rebuilt from them has the same root as
  the full one, and goes on having it whatever is appended, its new peaks included.\<close>

theorem peaks_are_enough:
  "\<exists>vs m. mmr_peak_values (mmr_of H v xs) = Inr vs \<and> mmr_from_peaks (length xs) vs = Inr m
     \<and> (let m' = fold (\<lambda>y m. fst (Mmr_append H v y m)) ys m in
        leaf_count m' = length (xs @ ys) \<and> Mmr_root H v m' = Mmr_root H v (mmr_of H v (xs @ ys))
        \<and> mmr_peak_values m' = mmr_peak_values (mmr_of H v (xs @ ys)))"
proof -
  let ?vs = "map (mhash H v) (rev (mforest xs))"
  have vs: "mmr_peak_values (mmr_of H v xs) = Inr ?vs" by (rule peak_values_of [OF peaks_of_range])
  obtain m where m: "mmr_from_peaks (length xs) ?vs = Inr m" "peaks_of H v xs m" using from_peaks_of by blast
  have "peaks_of H v (zs @ ys) (fold (\<lambda>y m. fst (Mmr_append H v y m)) ys m)" if "peaks_of H v zs m" for zs m
    using that
  proof (induction ys arbitrary: zs m)
    case (Cons y ys)
    then show ?case using Cons.IH [OF peaks_of_append [OF Cons.prems], of y] by simp
  qed simp
  from this [OF m(2)] have p: "peaks_of H v (xs @ ys) (fold (\<lambda>y m. fst (Mmr_append H v y m)) ys m)" .
  then show ?thesis
    using vs m(1) peaks_of_root [OF p] peak_values_of [OF p] peak_values_of [OF peaks_of_range, of H v "xs @ ys"] root_mmr_of
    by (auto simp: Let_def peaks_of_def)
qed


subsection \<open>What verification establishes\<close>

lemma om_fold_insert:
  assumes "om_wf m" and "distinct (map fst us)"
  shows "om_wf (fold (\<lambda>(c, e). om_insert c e) us m)
    \<and> (\<forall>c. om_get (fold (\<lambda>(c, e). om_insert c e) us m) c = (case map_of us c of Some e \<Rightarrow> Some e | None \<Rightarrow> om_get m c))"
  using assms
proof (induction us arbitrary: m)
  case (Cons ce us)
  obtain c e where ce: "ce = (c, e)" by (cases ce)
  have "map_of us c = None" using Cons.prems(2) by (simp add: ce map_of_eq_None_iff)
  then show ?case using Cons.IH [of "om_insert c e m"] Cons.prems by (auto simp: ce split: option.splits)
qed simp

lemma snapshot_utxos_Inr:
  assumes "snapshot_utxos H parts us = Inr (m, u)"
  shows "om_wf m" and "set m = set us" and "distinct (map fst us)" and "utxo_ok H True u"
    and "set (coins u) = (\<lambda>(c, e). utxo_leaf H c e) ` set us" and "UtxoAccumulator_root H True u = sr_utxo_root parts"
proof -
  let ?ls = "sorted_list_of_set (set (map (\<lambda>(c, e). utxo_leaf H c e) us))"
  have d: "distinct (map fst us)" and m: "m = fold (\<lambda>(c, e). om_insert c e) us []"
    and u: "u = from_canonical_coins H True ?ls" and root: "UtxoAccumulator_root H True u = sr_utxo_root parts"
    using assms by (auto simp: snapshot_utxos_def Let_def split: if_splits)
  have f: "om_wf m" "om_get m c = map_of us c" for c
    using om_fold_insert [of "[]" us] d by (auto simp: m om_wf_def om_get_def split: option.splits)
  show "om_wf m" by (rule f(1))
  have "(c, e) \<in> set m \<longleftrightarrow> (c, e) \<in> set us" for c e
    using om_get_iff [OF f(1), of c e] d by (simp add: f(2))
  then show "set m = set us" by auto
  show "distinct (map fst us)" by (rule d)
  show "UtxoAccumulator_root H True u = sr_utxo_root parts" by (rule root)
  note t = rebuild_tree_ok [of "\<lparr>coins = ?ls, nodes = \<lambda>_. None\<rparr>" H True]
  show "utxo_ok H True u" and "set (coins u) = (\<lambda>(c, e). utxo_leaf H c e) ` set us"
    using t by (simp_all add: u from_canonical_coins_def)
qed

lemma snapshot_kernels_Inr:
  assumes "snapshot_kernels E parts height ks = Inr u"
  shows "\<forall>k \<in> set ks. Kernel_verify_signature (env_hash E) (env_curve E) k \<and> check_rules (env_curve E) k = Inr ()"
    and "distinct (map (Kernel_id (env_hash E)) ks)" and "utxo_ok (env_hash E) True u"
    and "set (coins u) = Kernel_id (env_hash E) ` set ks"
    and "minting_blocks height \<le> length (filter (\<lambda>k. k_features k = CoinbaseFeature) ks)"
proof -
  let ?ids = "sorted_list_of_set (set (map (Kernel_id (env_hash E)) ks))"
  have all: "list_all (\<lambda>k. is_ok (check_rules (env_curve E) k) \<and> Kernel_verify_signature (env_hash E) (env_curve E) k) ks"
    and len: "length ?ids = length ks" and u: "u = from_canonical_coins (env_hash E) True ?ids"
    and mint: "minting_blocks height \<le> length (filter (\<lambda>k. k_features k = CoinbaseFeature) ks)"
    using assms by (auto simp: snapshot_kernels_def Let_def and_then_Inr map_err_Inr split: if_splits)
  show "\<forall>k \<in> set ks. Kernel_verify_signature (env_hash E) (env_curve E) k \<and> check_rules (env_curve E) k = Inr ()"
    using all by (auto simp: list_all_iff is_ok_iff)
  have "card (set (map (Kernel_id (env_hash E)) ks)) = length (map (Kernel_id (env_hash E)) ks)" using len by simp
  then show "distinct (map (Kernel_id (env_hash E)) ks)" by (rule card_distinct)
  show "minting_blocks height \<le> length (filter (\<lambda>k. k_features k = CoinbaseFeature) ks)" by (rule mint)
  note t = rebuild_tree_ok [of "\<lparr>coins = ?ids, nodes = \<lambda>_. None\<rparr>" "env_hash E" True]
  show "utxo_ok (env_hash E) True u" and "set (coins u) = Kernel_id (env_hash E) ` set ks"
    using t by (simp_all add: u from_canonical_coins_def)
qed

definition unspent_outs :: "GroupMember list \<Rightarrow> Output list" where
  "unspent_outs ms = concat (map (\<lambda>m. case m of Unspent out \<Rightarrow> [out] | Spent _ _ \<Rightarrow> []) ms)"

lemma cover_member_Inr:
  "cover_member (Unspent out) m = Inr m' \<longleftrightarrow> \<not> om_has m (o_commitment out) \<and> m' = om_insert (o_commitment out) out m"
  by (auto simp: cover_member_def)

lemma cover_group_Inr:
  "cover_group H g (ids, m) = Inr r \<longleftrightarrow> StoredGroup_id H g \<notin> ids \<and> \<not> is_fully_spent g
     \<and> (\<exists>m1. fold_res cover_member (members g) m = Inr m1 \<and> r = (insert (StoredGroup_id H g) ids, m1))"
  by (auto simp: cover_group_def Let_def and_then_Inr)

lemma check_covered_Inr:
  "check_covered H m (c, e) = Inr () \<longleftrightarrow> (\<exists>out. om_get m c = Some out \<and> ue_output_hash e = Output_metadata_hash H out
      \<and> ue_owner_key e = o_owner_key out \<and> ue_recovery e = o_recovery out)"
  by (auto simp: check_covered_def and_then_Inr ok_or_Inr)

lemma cover_members_Inr:
  "fold_res cover_member ms m = Inr m' \<Longrightarrow> om_wf m \<Longrightarrow>
     om_wf m' \<and> set m' = set m \<union> (\<lambda>out. (o_commitment out, out)) ` set (unspent_outs ms)
     \<and> distinct (map o_commitment (unspent_outs ms)) \<and> o_commitment ` set (unspent_outs ms) \<inter> fst ` set m = {}"
proof (induction ms arbitrary: m)
  case (Cons gm ms)
  show ?case
  proof (cases gm)
    case (Spent c h)
    then show ?thesis using Cons by (simp add: cover_member_def unspent_outs_def)
  next
    case (Unspent out)
    have fresh: "\<not> om_has m (o_commitment out)"
      and rest: "fold_res cover_member ms (om_insert (o_commitment out) out m) = Inr m'"
      using Cons.prems(1) Unspent by (auto simp: and_then_Inr cover_member_Inr)
    have wf: "om_wf (om_insert (o_commitment out) out m)" using Cons.prems(2) by simp
    have new: "o_commitment out \<notin> fst ` set m" using fresh by (simp add: om_has_iff)
    have set: "set (om_insert (o_commitment out) out m) = insert (o_commitment out, out) (set m)"
    proof -
      have "(k, v) \<in> set (om_insert (o_commitment out) out m) \<longleftrightarrow> (k, v) \<in> insert (o_commitment out, out) (set m)" for k v
        using om_get_iff [OF wf, of k v] om_get_iff [OF Cons.prems(2), of k v] new Cons.prems(2)
        by (auto simp: image_iff)
      then show ?thesis by auto
    qed
    have outs: "unspent_outs (gm # ms) = out # unspent_outs ms" by (simp add: unspent_outs_def Unspent)
    show ?thesis using Cons.IH [OF rest wf] new unfolding set outs by auto
  qed
qed (simp add: unspent_outs_def)

lemma cover_groups_Inr:
  "fold_res (cover_group H) gs (ids, m) = Inr (ids', m') \<Longrightarrow> om_wf m \<Longrightarrow>
     om_wf m' \<and> set m' = set m \<union> (\<lambda>out. (o_commitment out, out)) ` set (concat (map (\<lambda>g. unspent_outs (members g)) gs))
     \<and> distinct (map o_commitment (concat (map (\<lambda>g. unspent_outs (members g)) gs)))
     \<and> o_commitment ` set (concat (map (\<lambda>g. unspent_outs (members g)) gs)) \<inter> fst ` set m = {}"
proof (induction gs arbitrary: ids m)
  case (Cons g gs)
  obtain m1 where m1: "fold_res cover_member (members g) m = Inr m1"
    and rest: "fold_res (cover_group H) gs (insert (StoredGroup_id H g) ids, m1) = Inr (ids', m')"
    using Cons.prems(1) by (auto simp: and_then_Inr cover_group_Inr)
  note c = cover_members_Inr [OF m1 Cons.prems(2)]
  note r = Cons.IH [OF rest conjunct1 [OF c]]
  let ?A = "unspent_outs (members g)" and ?B = "concat (map (\<lambda>g. unspent_outs (members g)) gs)"
  have keys: "fst ` set m1 = fst ` set m \<union> o_commitment ` set ?A"
    using c by (simp add: image_Un image_image)
  have apart: "o_commitment ` set ?B \<inter> o_commitment ` set ?A = {}" "o_commitment ` set ?B \<inter> fst ` set m = {}"
    using r unfolding keys by blast+
  have outs: "concat (map (\<lambda>g. unspent_outs (members g)) (g # gs)) = ?A @ ?B" by simp
  have "distinct (map o_commitment (?A @ ?B))"
    using c r apart(1) by (simp only: map_append distinct_append set_map Int_commute)
  moreover have "o_commitment ` set (?A @ ?B) \<inter> fst ` set m = {}"
    using c apart(2) by (simp only: set_append image_Un Int_Un_distrib2 Un_empty)
  moreover have "set m' = set m \<union> (\<lambda>out. (o_commitment out, out)) ` set (?A @ ?B)"
    using c r by (simp only: set_append image_Un Un_assoc)
  ultimately show ?case using r unfolding outs by blast
qed simp

lemma snapshot_groups_Inr:
  assumes "snapshot_groups H C gs us = Inr ()" and "distinct (map fst us)"
  defines "outs \<equiv> concat (map (\<lambda>g. unspent_outs (members g)) gs)"
  shows "\<forall>g \<in> set gs. StoredGroup_verify H C g" and "distinct (map o_commitment outs)"
    and "o_commitment ` set outs = fst ` set us"
    and "\<forall>(c, e) \<in> set us. \<exists>out \<in> set outs. o_commitment out = c \<and> ue_output_hash e = Output_metadata_hash H out
           \<and> ue_owner_key e = o_owner_key out \<and> ue_recovery e = o_recovery out"
proof -
  have all: "list_all (StoredGroup_verify H C) gs"
    and covers: "and_then (fold_res (cover_group H) gs ({}, [])) (\<lambda>(_, covered).
        if length covered \<noteq> length us then Inl NotCovered else each_ok (check_covered H covered) us) = Inr ()"
    using assms(1) unfolding snapshot_groups_def by (simp_all split: if_splits)
  obtain r where r: "fold_res (cover_group H) gs ({}, []) = Inr r"
    and rest: "(case r of (_, covered) \<Rightarrow>
        if length covered \<noteq> length us then Inl NotCovered else each_ok (check_covered H covered) us) = Inr ()"
    using covers by (rule and_then_InrE)
  obtain ids m where rm: "r = (ids, m)" by (cases r)
  have f: "fold_res (cover_group H) gs ({}, []) = Inr (ids, m)" using r rm by simp
  have len: "length m = length us" and each: "each_ok (check_covered H m) us = Inr ()"
    using rest unfolding rm by (simp_all split: if_splits)
  have "om_wf []" by (simp add: om_wf_def)
  note c = cover_groups_Inr [OF f this, folded outs_def]
  show "\<forall>g \<in> set gs. StoredGroup_verify H C g" using all by (simp add: list_all_iff)
  show "distinct (map o_commitment outs)" using c by blast
  have wf: "om_wf m" and m: "set m = (\<lambda>out. (o_commitment out, out)) ` set outs" using c by simp_all
  have get: "\<exists>out. om_get m a = Some out \<and> ue_output_hash e = Output_metadata_hash H out
      \<and> ue_owner_key e = o_owner_key out \<and> ue_recovery e = o_recovery out" if "(a, e) \<in> set us" for a e
  proof -
    have "check_covered H m (a, e) = Inr ()" using each that by (simp add: each_ok_iff)
    then show ?thesis by (simp only: check_covered_Inr)
  qed
  have member: "out \<in> set outs \<and> o_commitment out = a" if "om_get m a = Some out" for a out
    using om_get_iff [OF wf, of a out] that m by auto
  show "\<forall>(c, e) \<in> set us. \<exists>out \<in> set outs. o_commitment out = c \<and> ue_output_hash e = Output_metadata_hash H out
           \<and> ue_owner_key e = o_owner_key out \<and> ue_recovery e = o_recovery out"
    using get member by fast
  have keys: "fst ` set us \<subseteq> fst ` set m"
  proof
    fix a assume "a \<in> fst ` set us"
    then obtain e where "(a, e) \<in> set us" by auto
    from get [OF this] obtain out where "(a, out) \<in> set m" using om_get_iff [OF wf] by blast
    then show "a \<in> fst ` set m" by (rule rev_image_eqI) simp
  qed
  moreover have "card (fst ` set m) = card (fst ` set us)"
    using distinct_card [OF assms(2)] distinct_card [OF om_distinct_keys [OF wf]] len by simp
  ultimately have "fst ` set us = fst ` set m" by (intro card_subset_eq) simp_all
  then show "o_commitment ` set outs = fst ` set us" by (simp add: m image_image)
qed


lemma snapshot_verify_Inr:
  assumes "snapshot_verify E ser trusted sn = Inr s"
  obtains us uset kernels mmr withheld relay where "Checkpoint_id (env_hash E) ser (sn_checkpoint sn) = trusted"
    and "sn_headers sn \<noteq> []"
    and "Checkpoint_matches (env_hash E) (sn_checkpoint sn) (last (sn_headers sn)) (mw_cumulative_work (sn_checkpoint sn)) = Inr ()"
    and "check_headers E (sn_checkpoint sn) (sn_headers sn) = Inr ()"
    and "StateRootParts_root (env_hash E) (sn_parts sn) = mw_state_root (sn_checkpoint sn)"
    and "snapshot_utxos (env_hash E) (sn_parts sn) (sn_utxos sn) = Inr (us, uset)"
    and "snapshot_kernels E (sn_parts sn) (mw_height (sn_checkpoint sn)) (sn_kernels sn) = Inr kernels"
    and "snapshot_groups (env_hash E) (env_curve E) (sn_groups sn) (sn_utxos sn) = Inr ()"
    and "mmr_from_peaks (mw_height (sn_checkpoint sn) - 1) (sn_mmr_peaks sn) = Inr mmr"
    and "chk_sub (mw_cumulative_work (sn_checkpoint sn)) (hd_chain_weight (last (sn_headers sn))) = Some withheld"
    and "from_entries (env_hash E) (sn_relay sn) = Inr relay"
    and "st_supply s \<le> issued_before (mw_height (sn_checkpoint sn))"
    and "verify_supply (env_curve E) s = Inr ()"
    and "checkpoint_parts (env_hash E) s = sn_parts sn"
    and "s = (snapshot_state (env_hash E) sn withheld (BondSet_from_list (env_hash E) (sn_bonds sn)) relay us uset kernels
                (fst (Mmr_append (env_hash E) True (mw_header_hash (sn_checkpoint sn)) mmr)))
             \<lparr>recent_signers := recent_signers s, st_counts := st_counts s, work_floor := work_floor s\<rparr>"
    and "rebuild_signer_window (st_bonds s) (map hd_signer (last_n CAP_WINDOW (sn_headers sn))) = (recent_signers s, st_counts s)"
    and "work_floor s = rebuild_work_floor
                (map (\<lambda>h. (hd_height h, calculate_work (hd_target h))) (last_n WORK_CAP_WINDOW (sn_headers sn)))"
proof -
  let ?H = "env_hash E" and ?cp = "sn_checkpoint sn" and ?bonds = "BondSet_from_list (env_hash E) (sn_bonds sn)"
  obtain us uset kernels mmr withheld relay where v:
    "Checkpoint_id ?H ser ?cp = trusted" "sn_headers sn \<noteq> []"
    "Checkpoint_matches ?H ?cp (last (sn_headers sn)) (mw_cumulative_work ?cp) = Inr ()"
    "check_headers E ?cp (sn_headers sn) = Inr ()" "StateRootParts_root ?H (sn_parts sn) = mw_state_root ?cp"
    "snapshot_utxos ?H (sn_parts sn) (sn_utxos sn) = Inr (us, uset)"
    "snapshot_kernels E (sn_parts sn) (mw_height ?cp) (sn_kernels sn) = Inr kernels"
    "snapshot_groups ?H (env_curve E) (sn_groups sn) (sn_utxos sn) = Inr ()"
    "mmr_from_peaks (mw_height ?cp - 1) (sn_mmr_peaks sn) = Inr mmr"
    "chk_sub (mw_cumulative_work ?cp) (hd_chain_weight (last (sn_headers sn))) = Some withheld"
    "from_entries ?H (sn_relay sn) = Inr relay"
    and tail: "(let state = snapshot_state ?H sn withheld ?bonds relay us uset kernels (fst (Mmr_append ?H True (mw_header_hash ?cp) mmr)) in
        if issued_before (mw_height ?cp) < st_supply state then Inl OverSchedule
        else
        and_then (map_err SnapSupply (verify_supply (env_curve E) state)) (\<lambda>_.
        if checkpoint_parts ?H state \<noteq> sn_parts sn then Inl NotReproduced
        else
        let (recent, counts) = rebuild_signer_window (st_bonds state) (map hd_signer (last_n CAP_WINDOW (sn_headers sn))) in
        Inr (state\<lparr>recent_signers := recent, st_counts := counts,
              work_floor := rebuild_work_floor
                (map (\<lambda>h. (hd_height h, calculate_work (hd_target h))) (last_n WORK_CAP_WINDOW (sn_headers sn)))\<rparr>))) = Inr s"
    using assms unfolding snapshot_verify_def Let_def
    by (auto elim!: and_then_InrE simp: map_err_Inr ok_or_Inr split: if_splits prod.splits)
  let ?state = "snapshot_state ?H sn withheld ?bonds relay us uset kernels (fst (Mmr_append ?H True (mw_header_hash ?cp) mmr))"
  obtain recent counts where w: "rebuild_signer_window (st_bonds ?state) (map hd_signer (last_n CAP_WINDOW (sn_headers sn)))
      = (recent, counts)" by (cases "rebuild_signer_window (st_bonds ?state) (map hd_signer (last_n CAP_WINDOW (sn_headers sn)))")
  have t: "st_supply ?state \<le> issued_before (mw_height ?cp)" "verify_supply (env_curve E) ?state = Inr ()"
    "checkpoint_parts ?H ?state = sn_parts sn"
    "s = ?state\<lparr>recent_signers := recent, st_counts := counts,
              work_floor := rebuild_work_floor
                (map (\<lambda>h. (hd_height h, calculate_work (hd_target h))) (last_n WORK_CAP_WINDOW (sn_headers sn)))\<rparr>"
    using tail unfolding Let_def w by (auto simp: and_then_Inr map_err_Inr split: if_splits)
  have same: "verify_supply (env_curve E) s = verify_supply (env_curve E) ?state"
    "checkpoint_parts ?H s = checkpoint_parts ?H ?state" "st_bonds s = st_bonds ?state"
    by (simp_all add: t(4) verify_supply_def checkpoint_parts_def root_parts_def)
  show thesis
    by (rule that [OF v]) (use t w same in simp_all)
qed

lemma check_header_links_Inr:
  "check_header_links hs = Inr () \<Longrightarrow> Suc i < length hs \<Longrightarrow>
     hd_prev_header_hash (hs ! Suc i) = ext_final_hash (hd_extension (hs ! i))
     \<and> hd_chain_weight (hs ! i) < hd_chain_weight (hs ! Suc i)"
proof (induction hs arbitrary: i rule: check_header_links.induct)
  case (1 prev h hs)
  then show ?case by (cases i) (auto simp: chk_sub_Some split: if_splits option.splits)
qed simp_all

text \<open>The headers of a snapshot that passed: the last is the checkpoint's block, each extends the one before it
  and adds weight, and every one but genesis carries its proof of work.\<close>

definition headers_genuine :: "('pt, 'sc) env \<Rightarrow> Checkpoint \<Rightarrow> BatchHeader list \<Rightarrow> bool" where
  "headers_genuine E cp hs \<longleftrightarrow>
     hs \<noteq> [] \<and> ext_final_hash (hd_extension (last hs)) = mw_header_hash cp \<and> hd_state_root (last hs) = mw_state_root cp
     \<and> length hs = min (mw_height cp) SNAPSHOT_HEADERS
     \<and> (\<forall>i. Suc i < length hs \<longrightarrow> hd_prev_header_hash (hs ! Suc i) = ext_final_hash (hd_extension (hs ! i))
          \<and> hd_chain_weight (hs ! i) < hd_chain_weight (hs ! Suc i))
     \<and> (\<forall>h \<in> set hs. 0 < hd_height h \<longrightarrow> header_work_ok E h)"

lemma check_headers_Inr: "check_headers E cp hs = Inr () \<Longrightarrow> headers_genuine E cp hs"
  using check_header_links_Inr [of hs]
  by (auto simp: check_headers_def headers_genuine_def Let_def and_then_Inr list_ex_iff split: if_splits)

text \<open>C14. A snapshot that verifies is an audited state: it is the checkpoint's, root and all; its supply balances
  against the kernels and is one the schedule could have issued; its outputs and kernels are exactly the
  committed sets, every kernel signed; each unspent output stands in exactly one of the range-proof groups,
  which all verify; and its weight is the one the tip header claims.\<close>

theorem verified_snapshots_are_audited:
  assumes "snapshot_verify E ser trusted sn = Inr s"
  defines "H \<equiv> env_hash E" and "C \<equiv> env_curve E" and "cp \<equiv> sn_checkpoint sn"
    and "outs \<equiv> concat (map (\<lambda>g. unspent_outs (members g)) (sn_groups sn))"
  shows "Checkpoint_id H ser cp = trusted \<and> st_height s = mw_height cp \<and> header_hash s = mw_header_hash cp
    \<and> StateRootParts_root H (checkpoint_parts H s) = mw_state_root cp \<and> headers_genuine E cp (sn_headers sn)
    \<and> verify_supply C s = Inr () \<and> st_supply s \<le> issued_before (st_height s)
    \<and> utxos_ok H s \<and> committed H s \<and> utxo_ok H True (st_kernels s)
    \<and> set (coins (st_kernels s)) = Kernel_id H ` set (sn_kernels sn)
    \<and> (\<forall>k \<in> set (sn_kernels sn). Kernel_verify_signature H C k)
    \<and> (\<forall>g \<in> set (sn_groups sn). StoredGroup_verify H C g)
    \<and> distinct (map o_commitment outs) \<and> o_commitment ` set outs = fst ` set (utxos s)
    \<and> (\<forall>(c, e) \<in> set (utxos s). \<exists>out \<in> set outs. o_commitment out = c \<and> ue_output_hash e = Output_metadata_hash H out
           \<and> ue_owner_key e = o_owner_key out \<and> ue_recovery e = o_recovery out)
    \<and> State_weight s = hd_chain_weight (last (sn_headers sn)) \<and> window_ok (recent_signers s) (st_counts s)"
proof -
  obtain us uset kernels mmr withheld relay where v: "Checkpoint_id H ser cp = trusted" "check_headers E cp (sn_headers sn) = Inr ()"
    "StateRootParts_root H (sn_parts sn) = mw_state_root cp" "snapshot_utxos H (sn_parts sn) (sn_utxos sn) = Inr (us, uset)"
    "snapshot_kernels E (sn_parts sn) (mw_height cp) (sn_kernels sn) = Inr kernels"
    "snapshot_groups H C (sn_groups sn) (sn_utxos sn) = Inr ()"
    "chk_sub (mw_cumulative_work cp) (hd_chain_weight (last (sn_headers sn))) = Some withheld"
    "st_supply s \<le> issued_before (mw_height cp)" "verify_supply C s = Inr ()" "checkpoint_parts H s = sn_parts sn"
    and s: "s = (snapshot_state H sn withheld (BondSet_from_list H (sn_bonds sn)) relay us uset kernels
                (fst (Mmr_append H True (mw_header_hash cp) mmr)))
             \<lparr>recent_signers := recent_signers s, st_counts := st_counts s, work_floor := work_floor s\<rparr>"
    and w: "rebuild_signer_window (st_bonds s) (map hd_signer (last_n CAP_WINDOW (sn_headers sn))) = (recent_signers s, st_counts s)"
    using assms(1) unfolding H_def C_def cp_def by (rule snapshot_verify_Inr)
  have fields: "st_height s = mw_height cp" "header_hash s = mw_header_hash cp" "utxos s = us" "utxo_set s = uset"
    "st_kernels s = kernels" "depth s = mw_cumulative_work cp" "capped s = withheld"
    by (subst s, simp add: snapshot_state_def cp_def Let_def)+
  note u = snapshot_utxos_Inr [OF v(4)]
  note k = snapshot_kernels_Inr [OF v(5), folded H_def C_def]
  note g = snapshot_groups_Inr [OF v(6) u(3), folded outs_def]
  have comm: "committed H s" using u(2,5) by (auto simp: committed_def fields entry_leaf_def case_prod_beta)
  have shape: "recent_signers s = last_signers (map hd_signer (last_n CAP_WINDOW (sn_headers sn))) \<and> counts_exact (recent_signers s) (st_counts s)"
    by (rule rebuild_signer_window_shape [OF w])
  have len: "length (recent_signers s) \<le> CAP_WINDOW" unfolding conjunct1 [OF shape] by (simp add: last_signers_def)
  have win: "window_ok (recent_signers s) (st_counts s)" unfolding window_ok_def using len shape by blast
  have weight: "State_weight s = hd_chain_weight (last (sn_headers sn))"
    using v(7) by (auto simp: State_weight_def fields chk_sub_Some)
  show ?thesis
    using v(1,3,8,9,10) fields(1,2) check_headers_Inr [OF v(2)] comm u(1,4) k(1,3,4) g(1-3) g(4) u(2) win weight
    by (simp add: utxos_ok_def fields)
qed

definition genesis_tip :: BatchHeader where
  "genesis_tip = \<lparr>hd_height = 0, hd_prev_midstate = 0, hd_post_tx_midstate = 0,
     hd_extension = \<lparr>ext_nonce = 0, ext_final_hash = 9\<rparr>, hd_timestamp = GENESIS_TIMESTAMP,
     hd_target = GENESIS_TARGET, hd_state_root = 7, hd_prev_header_hash = 0, hd_signer = None,
     hd_chain_weight = 5, hd_aux_pow = None\<rparr>"

definition genesis_snapshot :: Snapshot where
  "genesis_snapshot =
     \<lparr>sn_checkpoint = Checkpoint_new (\<lambda>_. 7) genesis_tip 5 0, sn_headers = [genesis_tip],
      sn_parts = \<lparr>sr_utxo_root = UtxoAccumulator_root (\<lambda>_. 7) True (from_canonical_coins (\<lambda>_. 7) True []),
        sr_kernel_root = UtxoAccumulator_root (\<lambda>_. 7) True (from_canonical_coins (\<lambda>_. 7) True []),
        sr_chain_mmr_root = Mmr_root (\<lambda>_. 7) True Mmr_new, sr_kernel_excess_sum = IDENTITY,
        sr_total_kernel_offset = 0, sr_supply = 0, sr_bonds_root = BondSet_root (\<lambda>_. 7) BondSet_default,
        sr_relay_root = Relay_commitment (Relay_genesis (\<lambda>_. 7))\<rparr>,
      sn_mmr_peaks = [], sn_utxos = [], sn_groups = [], sn_kernels = [], sn_bonds = [],
      sn_relay = [RelayEntry_root (\<lambda>_. 7)]\<rparr>"

lemma no_peaks: "mmr_size 0 = 0" "peaks 0 = []"
  by (simp_all add: mmr_size_def peaks_def peaks_from.simps)

lemma genesis_snapshot_verifies: "\<exists>s. snapshot_verify sample_env (\<lambda>_. []) 7 genesis_snapshot = Inr s"
proof -
  let ?cp = "Checkpoint_new (\<lambda>_. 7) genesis_tip 5 0"
  note d = genesis_tip_def genesis_snapshot_def sample_env_def
  have cp: "mw_height ?cp = 1" "mw_cumulative_work ?cp = 5" "mw_state_root ?cp = 7"
    by (simp_all add: Checkpoint_new_def d add64_def)
  have "Checkpoint_matches (\<lambda>_. 7) ?cp genesis_tip 5 = Inr ()"
    by (simp add: Checkpoint_matches_def Checkpoint_new_def)
  moreover have "check_headers sample_env ?cp [genesis_tip] = Inr ()"
    by (simp add: check_headers_def Checkpoint_new_def d add64_def SNAPSHOT_HEADERS_def Let_def)
  moreover have "StateRootParts_root (\<lambda>_. 7) parts = 7" for parts by (simp add: StateRootParts_root_def hash_domain_def)
  moreover have none: "sum_points word_curve [] = Inr 0" "compress word_curve 0 = IDENTITY" "minting_blocks 1 = 0"
    by (simp_all add: sum_points_def word_curve_def IDENTITY_def minting_blocks_def split: option.splits)
  moreover have "snapshot_kernels sample_env (sn_parts genesis_snapshot) 1 []
      = Inr (from_canonical_coins (\<lambda>_. 7) True [])"
    using none by (simp add: snapshot_kernels_def d Let_def minting_blocks_def)
  moreover have "Checkpoint_id (\<lambda>_. 7) (\<lambda>_. []) ?cp = 7" by (simp add: Checkpoint_id_def hash_domain_def)
  moreover have "snapshot_utxos (\<lambda>_. 7) (sn_parts genesis_snapshot) [] = Inr ([], from_canonical_coins (\<lambda>_. 7) True [])"
    by (simp add: snapshot_utxos_def d Let_def)
  moreover have "snapshot_groups (\<lambda>_. 7) word_curve [] [] = Inr ()" by (simp add: snapshot_groups_def)
  moreover have "mmr_from_peaks 0 [] = Inr Mmr_new"
    by (simp add: mmr_from_peaks_def no_peaks Mmr_from_raw_parts_def Mmr_new_def)
  moreover have sel: "env_hash sample_env = (\<lambda>_. 7)" "env_curve sample_env = word_curve" "hd_chain_weight genesis_tip = 5"
    "sn_checkpoint genesis_snapshot = ?cp" "sn_headers genesis_snapshot = [genesis_tip]"
    "sn_mmr_peaks genesis_snapshot = []" "sn_utxos genesis_snapshot = []" "sn_groups genesis_snapshot = []"
    "sn_kernels genesis_snapshot = []" "sn_bonds genesis_snapshot = []"
    "sn_relay genesis_snapshot = [RelayEntry_root (\<lambda>_. 7)]"
    by (simp_all add: d)
  moreover have parts: "sr_chain_mmr_root (sn_parts genesis_snapshot) = Mmr_root (\<lambda>_. 7) True Mmr_new"
    "sr_relay_root (sn_parts genesis_snapshot) = Relay_commitment (Relay_genesis (\<lambda>_. 7))"
    by (simp_all add: genesis_snapshot_def)
  moreover have bonds: "BondSet_from_list (\<lambda>_. 7) [] = BondSet_default" "bond_entries BondSet_default = []"
    by (simp_all add: BondSet_from_list_def BondSet_default_def)
  moreover have "from_entries (\<lambda>_. 7) [RelayEntry_root (\<lambda>_. 7)] = Inr (Relay_genesis (\<lambda>_. 7))"
    by (simp add: from_entries_def Relay_insert_def Relay_genesis_def)
  moreover have "chk_sub 5 5 = Some 0" by (simp add: chk_sub_def)
  ultimately have "snapshot_verify sample_env (\<lambda>_. []) 7 genesis_snapshot =
    (let state = snapshot_state (\<lambda>_. 7) genesis_snapshot 0 BondSet_default (Relay_genesis (\<lambda>_. 7)) []
           (from_canonical_coins (\<lambda>_. 7) True []) (from_canonical_coins (\<lambda>_. 7) True [])
           (fst (Mmr_append (\<lambda>_. 7) True (mw_header_hash ?cp) Mmr_new)) in
        if issued_before 1 < st_supply state then Inl OverSchedule
        else
        and_then (map_err SnapSupply (verify_supply word_curve state)) (\<lambda>_.
        if checkpoint_parts (\<lambda>_. 7) state \<noteq> sn_parts genesis_snapshot then Inl NotReproduced
        else
        let (recent, counts) = rebuild_signer_window (st_bonds state) (map hd_signer (last_n CAP_WINDOW [genesis_tip])) in
        Inr (state\<lparr>recent_signers := recent, st_counts := counts,
              work_floor := rebuild_work_floor
                (map (\<lambda>h. (hd_height h, calculate_work (hd_target h))) (last_n WORK_CAP_WINDOW [genesis_tip]))\<rparr>)))"
    using cp by (simp add: snapshot_verify_def ok_or_def Let_def)
  moreover have "st_supply (snapshot_state (\<lambda>_. 7) genesis_snapshot 0 b r [] u k m) = 0"
    "verify_supply word_curve (snapshot_state (\<lambda>_. 7) genesis_snapshot 0 b r [] u k m) = Inr ()" for b r u k m
    by (simp_all add: snapshot_state_def Let_def genesis_snapshot_def verify_supply_def none)
      (simp_all add: word_curve_def IDENTITY_def ok_or_def)
  moreover have "checkpoint_parts (\<lambda>_. 7) (snapshot_state (\<lambda>_. 7) genesis_snapshot 0 BondSet_default (Relay_genesis (\<lambda>_. 7)) []
      (from_canonical_coins (\<lambda>_. 7) True []) (from_canonical_coins (\<lambda>_. 7) True []) m) = sn_parts genesis_snapshot" for m
    by (simp add: checkpoint_parts_def root_parts_def snapshot_state_def Let_def genesis_snapshot_def cp
        Mmr_truncated_def no_peaks Mmr_new_def)
  ultimately show ?thesis
    by (simp add: Let_def split: prod.splits)
qed

theorem verified_snapshots_are_audited_witness:
  "\<exists>s. snapshot_verify sample_env (\<lambda>_. []) 7 genesis_snapshot = Inr s \<and> st_height s = 1"
proof -
  obtain s where s: "snapshot_verify sample_env (\<lambda>_. []) 7 genesis_snapshot = Inr s" using genesis_snapshot_verifies by blast
  have "st_height s = mw_height (sn_checkpoint genesis_snapshot)" using verified_snapshots_are_audited [OF s] by blast
  then show ?thesis using s by (simp add: genesis_snapshot_def Checkpoint_new_def genesis_tip_def add64_def)
qed

end
