(* ===== verification/Spec2Isabelle.thy ===== *)
theory Spec2Isabelle
  imports Prelude Anchor Bonds Emission Fork_Weight Signer_Window Work_Cap
    Curve Transaction Pruned_Groups Mmr Chain_Properties Mss Block_Filter Mempool Walk Builder
    Template_Properties Checkpoints Recovery Orphan Snapshot
begin

text \<open>
  \<^bold>\<open>Midwimble: a verification library.\<close>

  Midwimble is a MimbleWimble chain that is mined in the shadow of another chain, midstate: its blocks
  relay midstate's headers, its miners sign with bonds locked on midstate, and its checkpoints are anchored
  there. This library models the consensus core of the node and the parts of the client that rest on it,
  as shallow definitions over the sources of \<^verbatim>\<open>src/src/\<close>, and proves what makes each part correct.
  Definitions carry the names of the source (with a prefix where a name is taken in HOL) and follow it
  branch by branch; every definition computes.

  \<^bold>\<open>How the parts fit together.\<close> A block (\<^verbatim>\<open>Batch\<close>) holds an aggregated transaction, a coinbase, bond
  registrations, a run of midstate headers and a proof of work. \<^verbatim>\<open>apply_batch\<close> checks it against the
  chain's \<^verbatim>\<open>State\<close> and gives the next state. The state holds the unspent outputs and kernels as
  sparse Merkle trees, the block history as a mountain range, the set of registered bonds, the relay of
  midstate headers and the windows from which fork choice credits a block its weight. The producer's side
  (builder, templates, orphaning) makes blocks that this check accepts; pool, filters, snapshots,
  checkpoints and the recovery epoch read the same state.

  \<^bold>\<open>Theories, in the order of their imports.\<close>
  \<^item> \<open>Prelude\<close>, \<open>Ordered_Map\<close>: bytes and hashes (a \<^verbatim>\<open>[u8; 32]\<close> is a \<^typ>\<open>256 word\<close>), Rust's checked,
    saturating and wrapping integer operations, fallible results (\<open>Inl\<close> is the error) with
    \<open>and_then\<close> for \<^verbatim>\<open>?\<close> and \<open>fold_res\<close> for a loop that may return early, and finite maps (the locale
    \<open>finite_map\<close>, interpreted on the ordered lists the model uses). The collections
    \<open>arith_ops\<close> and \<open>result_simps\<close> carry most unfoldings.
  \<^item> \<open>Hashing\<close>, \<open>Emission\<close> (\<^verbatim>\<open>core/types.rs\<close>): domain-separated hashes, whose preimages determine domain
    and parts; issuance, whose closed form is the running sum of the block rewards and meets its cap.
  \<^item> \<open>Difficulty\<close> (\<^verbatim>\<open>core/state.rs\<close>): the ASERT target, median time past and the work of a target.
  \<^item> \<open>Smt\<close>, \<open>Mmr\<close> (\<^verbatim>\<open>core/mmr.rs\<close>): the cached sparse tree refines the dense tree of all 2^256 leaves and
    its proofs are sound; the mountain range refines a forest of perfect trees, truncation included.
  \<^item> \<open>Bond_Rules\<close>, \<open>Bond_Script\<close>, \<open>Bonds\<close>, \<open>Fork_Weight\<close>, \<open>Work_Cap\<close>, \<open>Signer_Window\<close> (\<^verbatim>\<open>core/bond.rs\<close>):
    bond prices and locks, the bond script and its proof, registrations and the committed set; the
    work cap is the minimum of a week's window, and the signer counts are exactly the occurrences in
    the day's window, so a bond has at most its quota of full-weight blocks.
  \<^item> \<open>Pow\<close>, \<open>Anchor\<close>, \<open>Relay\<close>, \<open>Relay_Feed\<close> (\<^verbatim>\<open>core/extension.rs\<close>, \<^verbatim>\<open>core/auxpow.rs\<close>,
    \<^verbatim>\<open>core/simd_mining.rs\<close>, \<^verbatim>\<open>core/anchor.rs\<close>, \<^verbatim>\<open>core/relay.rs\<close>): proofs of work, merged mining (a
    parent carries at most one block), evidence from midstate, the relay and what a producer feeds it.
  \<^item> \<open>Walk\<close> (\<^verbatim>\<open>core/walk.rs\<close>), \<open>Blake3_Lanes\<close>, \<open>Simd_Backends\<close> (\<^verbatim>\<open>core/wots_simd.rs\<close>,
    \<^verbatim>\<open>core/simd_mining.rs\<close>): the scratchpad function over the table AES round and the two hardware ones,
    and the SIMD kernels; locales state what they ask of an AES unit and of a lane backend, every
    instruction set interprets them, and all of them compute the scalar function.
  \<^item> \<open>Wots\<close>, \<open>Mss\<close> (\<^verbatim>\<open>core/wots.rs\<close>, \<^verbatim>\<open>core/mss.rs\<close>): one-time and Merkle signatures on those batches.
  \<^item> \<open>Curve\<close>, \<open>Transaction\<close>, \<open>Pruned_Groups\<close>, \<open>Stealth\<close>, \<open>Builder\<close> (\<^verbatim>\<open>core/mw/\<close>): signatures, the
    balance of transactions and their aggregation, groups as a pruning node keeps them, stealth payments
    and what their recipient finds, and building transactions and coinbases that balance.
  \<^item> \<open>Chain_State\<close>, \<open>Block_Application\<close>, \<open>Chain_Supply\<close>, \<open>Chain_Invariants\<close>, \<open>Chain_Properties\<close>
    (\<^verbatim>\<open>core/types.rs\<close>, \<^verbatim>\<open>core/state.rs\<close>): the state, blocks and headers, and block application with its
    guards in order. The invariant \<open>chain_inv\<close> holds of genesis and of every accepted chain (the inductive
    \<open>accepted_chain\<close>): no coin from nothing, a supply under the schedule, no kernel twice, history and
    outputs as committed, a weight that only grows.
  \<^item> \<open>Mempool\<close> (\<^verbatim>\<open>mempool.rs\<close>), \<open>Block_Filter\<close> (\<^verbatim>\<open>core/filter.rs\<close>): the pool's three indexes and its
    weight ceiling; Golomb-Rice filters that match exactly the hashes they were built from.
  \<^item> \<open>Template\<close>, \<open>Template_Accepted\<close>, \<open>Template_Properties\<close>, \<open>Orphan\<close> (\<^verbatim>\<open>core/template.rs\<close>,
    \<^verbatim>\<open>core/orphan.rs\<close>): what a producer builds is accepted, rebound to other extra data too; the blocks
    it passes over weigh a sliver each, and the block that replaces them is heavier than the tip.
  \<^item> \<open>Checkpoints\<close>, \<open>Snapshot\<close>, \<open>Recovery\<close> (\<^verbatim>\<open>core/anchor.rs\<close>, \<^verbatim>\<open>anchor.rs\<close>, \<^verbatim>\<open>core/snapshot.rs\<close>,
    \<^verbatim>\<open>core/recovery.rs\<close>): checkpoints and their records; a snapshot that verifies is a fully audited state
    and its peaks stand for the whole history; the recovery epoch pays each output at most once and never
    more than the supply.

  \<^bold>\<open>Parameters.\<close> What is not under \<^verbatim>\<open>src/\<close> is an argument. The record \<open>env\<close> gives BLAKE3 (\<open>hasher\<close>),
  the walk, the curve library with the Bulletproof verifier (\<open>curve\<close>, laws \<open>curve_ok\<close>) and the
  serializers of transactions and coinbases; \<open>aead\<close> and \<open>bech32\<close> are the cipher and the address coder
  (\<open>aead_ok\<close>, \<open>bech_ok\<close>), \<open>prover\<close> the range prover (\<open>prover_ok\<close>), \<open>machine\<close> the hash, the
  instruction set and the sort of the batched chains, and \<open>ser\<close> and \<open>hex\<close> serialize and print
  a checkpoint. The clock, every random draw (\<open>maker\<close>, \<open>draw\<close>, \<open>aux\<close>) and the order in which a hash map is
  walked (\<open>ord\<close>) are arguments too. CPU intrinsics stand by their documented effect. Each law has an
  instance (\<open>word_curve_ok\<close> and its like) on which the witnesses run.

  \<^bold>\<open>Integers, bounds and fuel.\<close> \<^verbatim>\<open>u64\<close> and \<^verbatim>\<open>u128\<close> are naturals with the source's operation named at
  each use (\<open>chk_add64\<close>, \<open>sat_add128\<close>, \<open>add64\<close> wraps); 256-bit values and 64-bit walk registers are words.
  Positions of the mountain range stay below 2^63. Loops are structural recursion, or have a measure;
  where the source's loop is bounded by data, fuel is that bound and is proved enough: \<open>make_room\<close> runs at
  most once per pool entry, \<open>search_nonce\<close> over the 2^32 nonces, \<open>prove_climb\<close> once per node of the range at most, the bit
  reader over the bits of its buffer. Mining (\<open>mine_from\<close>) may run forever: it is a partial
  function whose value is \<open>None\<close> then.

  \<^bold>\<open>Not modelled.\<close> Asynchronous and input-output code: the node's event loop, the pool server, networking with
  its address and ban books, sessions of header synchronisation, RPC and explorer, wallet files and the
  browser wallet, the command line and the merged-mining process; storage (a database behind the same
  operations) and the tracker of finalized checkpoints over it; what a light wallet downloads to scan; JSON
  readers; GPU shaders; run-time detection of instruction sets; the floating-point estimate of finality. The
  rest of \<^verbatim>\<open>anchor.rs\<close> fetches, posts and stores records.
\<close>

end
